(* ===== verification/Prelude.thy ===== *)
theory Prelude
  imports Complex_Main "HOL-Library.Word" "HOL-Library.Multiset"
begin

text \<open>
  Shared vocabulary of the development: the C types of an LP64 target, the ways in which a
  C function can fail to return, and the generic lemmas on words, masks and lists that the
  component theories use.  The collection \<open>word_index\<close> gathers the rewrite rules that
  turn masked machine arithmetic on table indices into arithmetic modulo the table size.
\<close>

unbundle bit_operations_syntax

named_theorems word_index \<open>masked index arithmetic on words as arithmetic on naturals\<close>

section \<open>C types and faults\<close>

text \<open>\<open>size_t\<close>, \<open>unsigned long\<close> and pointers are 64 bits wide, \<open>char\<close> is 8 bits and signed.\<close>

type_synonym size_t = "64 word"
type_synonym ulong = "64 word"
type_synonym addr = "64 word"
type_synonym byte = "8 word"

text \<open>
  The ways a call can end without a result: a failed \<open>assert\<close> or \<open>AVER\<close>, a call to
  \<open>managed_obj_error\<close> (which ends in \<open>abort\<close>), an operation whose behaviour C leaves
  undefined, or a loop that never ends.
\<close>

datatype fault = Assert_failed | Fatal_error | Undefined_behaviour | Diverges

text \<open>Sequencing of calls that can end so; the collection \<open>ebind\<close> has the rules that invert it.\<close>

named_theorems ebind \<open>inversion of sequenced calls\<close>

definition andthen :: "fault + 'a \<Rightarrow> ('a \<Rightarrow> fault + 'b) \<Rightarrow> fault + 'b" where
  "andthen m g = (case m of Inl f \<Rightarrow> Inl f | Inr x \<Rightarrow> g x)"

lemma andthen_Inl [simp]: "andthen (Inl f) g = Inl f"
  by (simp add: andthen_def)

lemma andthen_Inr [simp]: "andthen (Inr x) g = g x"
  by (simp add: andthen_def)

lemma andthen_eq_Inr [ebind]: "andthen m g = Inr y \<longleftrightarrow> (\<exists>x. m = Inr x \<and> g x = Inr y)"
  by (simp add: andthen_def split: sum.split)

lemma andthen_Inl_iff [ebind]: "andthen m g = Inl f \<longleftrightarrow> m = Inl f \<or> (\<exists>x. m = Inr x \<and> g x = Inl f)"
  by (cases m) simp_all

lemma andthen_cong [fundef_cong]:
  "m = m' \<Longrightarrow> (\<And>x. m' = Inr x \<Longrightarrow> g x = g' x) \<Longrightarrow> andthen m g = andthen m' g'"
  by (simp add: andthen_def split: sum.split)

section \<open>Bit length\<close>

text \<open>The number of significant bits, the meaning of \<open>64 - __builtin_clzl(x)\<close>.\<close>

fun bit_length :: "nat \<Rightarrow> nat" where
  "bit_length n = (if n = 0 then 0 else Suc (bit_length (n div 2)))"

declare bit_length.simps [simp del]

lemma bit_length_0 [simp]: "bit_length 0 = 0"
  by (simp add: bit_length.simps)

lemma bit_length_upper: "n < 2 ^ bit_length n"
proof (induction n rule: bit_length.induct)
  case (1 n)
  show ?case
  proof (cases "n = 0")
    case False
    with 1 have "n div 2 < 2 ^ bit_length (n div 2)" by simp
    then have "n < 2 * 2 ^ bit_length (n div 2)" by linarith
    with False show ?thesis by (simp add: bit_length.simps [of n])
  qed simp
qed

lemma bit_length_lower: "0 < n \<Longrightarrow> 2 ^ (bit_length n - 1) \<le> n"
proof (induction n rule: bit_length.induct)
  case (1 n)
  show ?case
  proof (cases "n div 2 = 0")
    case True
    with "1.prems" have "n = 1" by linarith
    then show ?thesis by (simp add: bit_length.simps)
  next
    case False
    with 1 have ih: "2 ^ (bit_length (n div 2) - 1) \<le> n div 2" by simp
    from False have "0 < bit_length (n div 2)" by (simp add: bit_length.simps)
    then have "(2::nat) ^ bit_length (n div 2) = 2 * 2 ^ (bit_length (n div 2) - 1)"
      by (metis Suc_diff_1 power_Suc)
    with ih have "2 ^ bit_length (n div 2) \<le> n" by linarith
    with "1.prems" show ?thesis by (simp add: bit_length.simps [of n])
  qed
qed

lemma bit_length_pos: "0 < n \<Longrightarrow> 0 < bit_length n"
  by (simp add: bit_length.simps)

lemma bit_length_le: "n < 2 ^ k \<Longrightarrow> bit_length n \<le> k"
proof (rule ccontr)
  assume n: "n < 2 ^ k" and "\<not> bit_length n \<le> k"
  then have "k \<le> bit_length n - 1" and "0 < n"
    by (auto intro: gr0I)
  then have "(2::nat) ^ k \<le> 2 ^ (bit_length n - 1)" by simp
  also have "\<dots> \<le> n" using \<open>0 < n\<close> by (rule bit_length_lower)
  finally show False using n by simp
qed

section \<open>Masked indices\<close>

text \<open>A table size is a power of two \<open>2 ^ k\<close> with \<open>k < 64\<close>; indices are masked with the size minus one.\<close>

lemma pow2_dvd_64: "k < 64 \<Longrightarrow> (2::nat) ^ k dvd 18446744073709551616"
proof -
  assume "k < 64"
  then have "(2::nat) ^ k dvd 2 ^ 64" by (intro le_imp_power_dvd) simp
  then show ?thesis by simp
qed

lemma pow2_less_64: "k < 64 \<Longrightarrow> (2::nat) ^ k < 18446744073709551616"
proof -
  assume "k < 64"
  then have "(2::nat) ^ k < 2 ^ 64" by (intro power_strict_increasing) simp_all
  then show ?thesis by simp
qed

lemma unat_less_64: "unat (w :: 64 word) < 2 ^ 64"
  by (rule order_less_le_trans [OF unsigned_less]) simp

lemma unat_power2 [simp]: "k < 64 \<Longrightarrow> unat ((2 :: 64 word) ^ k) = 2 ^ k"
proof -
  assume k: "k < 64"
  have "unat ((2 :: 64 word) ^ k) = unat (word_of_nat (2 ^ k) :: 64 word)" by simp
  also have "\<dots> = 2 ^ k mod 2 ^ 64" by (simp only: unat_of_nat) simp
  also have "\<dots> = 2 ^ k" using pow2_less_64 [OF k] by simp
  finally show ?thesis .
qed

lemma unat_and_mask [word_index]: "unat (x AND (2 ^ k - 1) :: 64 word) = unat x mod 2 ^ k"
proof -
  have "x AND (2 ^ k - 1) = take_bit k x"
    by (simp only: take_bit_eq_mask mask_eq_exp_minus_1)
  then have "unat (x AND (2 ^ k - 1)) = take_bit k (unat x)"
    by (simp only: unsigned_take_bit_eq)
  then show ?thesis by (simp only: take_bit_eq_mod)
qed

lemma unat_add_mask [word_index]: "k < 64 \<Longrightarrow> unat ((a + b) AND (2 ^ k - 1) :: 64 word) = (unat a + unat b) mod 2 ^ k"
  using pow2_dvd_64 [of k]
  by (simp only: unat_and_mask unat_word_ariths) (simp add: mod_mod_cancel)

lemma unat_diff_mask [word_index]: "k < 64 \<Longrightarrow> unat b < 2 ^ k \<Longrightarrow> unat ((a - b) AND (2 ^ k - 1) :: 64 word) = (unat a + 2 ^ k - unat b) mod 2 ^ k"
proof -
  assume k: "k < 64" and b: "unat b < 2 ^ k"
  from pow2_dvd_64 [OF k] obtain c where c: "18446744073709551616 = (2::nat)^k * c" ..
  show ?thesis
  proof (cases "unat b \<le> unat a")
    case True
    then have "(unat a + 2 ^ k - unat b) = (unat a - unat b) + 2 ^ k" by simp
    with True show ?thesis by (simp only: unat_and_mask unat_sub_if' mod_add_self2) simp
  next
    case False
    have "c \<noteq> 0" using c by (intro notI) simp
    then obtain d where d: "c = Suc d" by (cases c) auto
    have "(unat a + 18446744073709551616 - unat b) = (unat a + 2 ^ k - unat b) + 2 ^ k * d"
      using b unfolding c d by simp
    with False show ?thesis by (simp only: unat_and_mask unat_sub_if') simp
  qed
qed
lemma pow2_and: "k < 64 \<Longrightarrow> ((2::64 word) ^ k) AND (2 ^ k - 1) = 0"
  by (rule word_unat_eq_iff [THEN iffD2]) (simp only: unat_and_mask unat_power2, simp)

end
