(* ===== verification/HashFuns.thy ===== *)
theory HashFuns
  imports Prelude
begin

text \<open>
  The hash functions of the library: the Jenkins one-at-a-time hashes of
  \<open>src/managed_object_hashmap.c\<close> (for blocks of bytes, for C strings, and for C strings
  without regard to case) and the string hash of
  \<open>include/managed_object_obj_metadata.h\<close>, which enters an unrolled loop in the middle.
  Memory that a function reads through a pointer is the list of bytes from that pointer
  to the end of the object; a read past the end is undefined behaviour.
\<close>

section \<open>Jenkins one-at-a-time\<close>

definition jenkins_step :: "size_t \<Rightarrow> size_t \<Rightarrow> size_t" where
  "jenkins_step h c =
     (let h1 = h + c;
          h2 = h1 + push_bit 10 h1
      in h2 XOR drop_bit 6 h2)"

definition jenkins_final :: "size_t \<Rightarrow> size_t" where
  "jenkins_final h =
     (let h1 = h + push_bit 3 h;
          h2 = h1 XOR drop_bit 11 h1
      in h2 + push_bit 15 h2)"

text \<open>\<open>data\<close> is the block of \<open>len\<close> bytes that the caller passes.\<close>

definition managed_object_hashmap_hash_default :: "byte list \<Rightarrow> size_t" where
  "managed_object_hashmap_hash_default data =
     jenkins_final (foldl (\<lambda>h b. jenkins_step h (ucast b)) 0 data)"

text \<open>A plain \<open>char\<close> is signed, so \<open>hash += *key\<close> sign-extends it.\<close>

fun hash_string_loop :: "size_t \<Rightarrow> byte list \<Rightarrow> fault + size_t" where
  "hash_string_loop h [] = Inl Undefined_behaviour"
| "hash_string_loop h (c # cs) =
     (if c = 0 then Inr (jenkins_final h)
      else hash_string_loop (jenkins_step h (scast c)) cs)"

definition managed_object_hashmap_hash_string :: "byte list \<Rightarrow> fault + size_t" where
  "managed_object_hashmap_hash_string key = hash_string_loop 0 key"

text \<open>
  \<open>tolower\<close> of the C library in the C locale.  Its argument must be \<open>EOF\<close> or a value of
  \<open>unsigned char\<close>; any other argument is undefined behaviour.
\<close>

definition c_tolower :: "int \<Rightarrow> int option" where
  "c_tolower c =
     (if c = -1 then Some c
      else if c < 0 \<or> 255 < c then None
      else if 65 \<le> c \<and> c \<le> 90 then Some (c + 32)
      else Some c)"

fun hash_string_i_loop :: "size_t \<Rightarrow> byte list \<Rightarrow> fault + size_t" where
  "hash_string_i_loop h [] = Inl Undefined_behaviour"
| "hash_string_i_loop h (c # cs) =
     (if c = 0 then Inr (jenkins_final h)
      else case c_tolower (sint c) of
        None \<Rightarrow> Inl Undefined_behaviour
      | Some l \<Rightarrow> hash_string_i_loop (jenkins_step h (word_of_int l)) cs)"

definition managed_object_hashmap_hash_string_i :: "byte list \<Rightarrow> fault + size_t" where
  "managed_object_hashmap_hash_string_i key = hash_string_i_loop 0 key"

text \<open>
  \<open>strcmp\<close> of the C library: bytes are compared as \<open>unsigned char\<close> up to the first
  difference or the terminator; running off the end of an object is undefined.
\<close>

fun c_strcmp :: "byte list \<Rightarrow> byte list \<Rightarrow> fault + int" where
  "c_strcmp (a # as) (b # bs) =
     (if a \<noteq> b then Inr (uint a - uint b)
      else if a = 0 then Inr 0
      else c_strcmp as bs)"
| "c_strcmp _ _ = Inl Undefined_behaviour"

subsection \<open>Strings up to the terminator\<close>

definition c_string :: "byte list \<Rightarrow> byte list" where
  "c_string s = takeWhile (\<lambda>c. c \<noteq> 0) s"

lemma hash_string_loop_terminated:
  "0 \<in> set s \<Longrightarrow>
     hash_string_loop h s = Inr (jenkins_final (foldl (\<lambda>h c. jenkins_step h (scast c)) h (c_string s)))"
  by (induction s arbitrary: h) (auto simp: c_string_def)

lemma c_strcmp_refl: "0 \<in> set s \<Longrightarrow> c_strcmp s s = Inr 0"
  by (induction s) auto

lemma c_strcmp_terminated:
  "0 \<in> set s \<Longrightarrow> 0 \<in> set t \<Longrightarrow> \<exists>r. c_strcmp s t = Inr r \<and> (r = 0 \<longleftrightarrow> c_string s = c_string t)"
proof (induction s t rule: c_strcmp.induct)
  case (1 a as b bs)
  show ?case
  proof (cases "a = b \<and> a \<noteq> 0")
    case True
    with 1 show ?thesis by (auto simp: c_string_def)
  next
    case False
    then show ?thesis by (auto simp: c_string_def uint_word_of_int_eq word_uint_eq_iff)
  qed
qed auto

section \<open>The metadata string hash\<close>

text \<open>The four cases of the switch, in the order in which the loop body has them.\<close>

definition mh_case0 :: "ulong \<Rightarrow> ulong \<Rightarrow> ulong" where
  "mh_case0 h c = h + (push_bit 17 c XOR push_bit 11 c XOR push_bit 5 c XOR drop_bit 1 c)"

definition mh_case3 :: "ulong \<Rightarrow> ulong \<Rightarrow> ulong" where
  "mh_case3 h c = h XOR (push_bit 14 c + push_bit 7 c + push_bit 4 c + c)"

definition mh_case2 :: "ulong \<Rightarrow> ulong \<Rightarrow> ulong" where
  "mh_case2 h c = h XOR (push_bit 11 (NOT c) OR (push_bit 3 c XOR drop_bit 1 c))"

definition mh_case1 :: "ulong \<Rightarrow> ulong \<Rightarrow> ulong" where
  "mh_case1 h c = h - (push_bit 16 c OR push_bit 9 c OR push_bit 2 c OR (c AND 3))"

definition mh_cases :: "(ulong \<Rightarrow> ulong \<Rightarrow> ulong) list" where
  "mh_cases = [mh_case0, mh_case3, mh_case2, mh_case1]"

text \<open>Run a suffix of the cases: each reads \<open>s[i++]\<close>.\<close>

fun mh_run :: "(ulong \<Rightarrow> ulong \<Rightarrow> ulong) list \<Rightarrow> byte list \<Rightarrow> nat \<times> ulong \<Rightarrow> fault + nat \<times> ulong" where
  "mh_run [] s st = Inr st"
| "mh_run (f # fs) s (i, h) =
     (if i < length s then mh_run fs s (Suc i, f h (scast (s ! i)))
      else Inl Undefined_behaviour)"

lemma mh_run_index: "mh_run fs s st = Inr st' \<Longrightarrow> fst st' = fst st + length fs"
  by (induction fs s st rule: mh_run.induct) (auto split: if_splits)

text \<open>The \<open>do ... while (i < length)\<close> loop, from its test on.\<close>

function mh_loop :: "byte list \<Rightarrow> nat \<Rightarrow> nat \<times> ulong \<Rightarrow> fault + ulong" where
  "mh_loop s len st =
     (if fst st < len
      then (case mh_run mh_cases s st of
              Inl e \<Rightarrow> Inl e
            | Inr st' \<Rightarrow> mh_loop s len st')
      else Inr (snd st))"
  by pat_completeness auto
termination
  by (relation "measure (\<lambda>(s, len, st). len - fst st)")
    (auto dest!: mh_run_index simp: mh_cases_def)

declare mh_loop.simps [simp del]

text \<open>\<open>switch (length % 4)\<close> enters the body at the case with that number, and 0 at the test.\<close>

definition managed_obj_metadata_hash :: "byte list \<Rightarrow> nat \<Rightarrow> fault + ulong" where
  "managed_obj_metadata_hash s len =
     (case mh_run (drop (4 - len mod 4) mh_cases) s (0, 0) of
        Inl e \<Rightarrow> Inl e
      | Inr st \<Rightarrow> mh_loop s len st)"

subsection \<open>Reference definition\<close>

text \<open>
  What the unrolled loop computes: one left-to-right pass, where the mixing function for a
  character depends only on the number of characters left, modulo four.
\<close>

definition mh_op :: "nat \<Rightarrow> ulong \<Rightarrow> ulong \<Rightarrow> ulong" where
  "mh_op r = mh_cases ! ((4 - r) mod 4)"

fun mh_ref :: "ulong \<Rightarrow> byte list \<Rightarrow> ulong" where
  "mh_ref h [] = h"
| "mh_ref h (c # cs) = mh_ref (mh_op (length (c # cs) mod 4) h (scast c)) cs"

lemma mh_ref_step:
  assumes "i < len" and "len \<le> length s"
  shows "mh_ref h (take (len - i) (drop i s)) =
    mh_ref (mh_op ((len - i) mod 4) h (scast (s ! i))) (take (len - Suc i) (drop (Suc i) s))"
proof -
  have "take (len - i) (drop i s) = s ! i # take (len - Suc i) (drop (Suc i) s)"
    using assms by (metis Cons_nth_drop_Suc Suc_diff_Suc less_le_trans take_Suc_Cons)
  moreover have "length (take (len - Suc i) (drop (Suc i) s)) = len - Suc i"
    using assms by simp
  ultimately show ?thesis using assms by (simp add: Suc_diff_Suc del: length_take length_drop)
qed

lemma mh_run_suffix:
  assumes "r \<le> 4" and "i + r \<le> len" and "len \<le> length s" and "(len - i) mod 4 = r mod 4"
  shows "\<exists>h'. mh_run (drop (4 - r) mh_cases) s (i, h) = Inr (i + r, h') \<and>
    mh_ref h (take (len - i) (drop i s)) = mh_ref h' (take (len - (i + r)) (drop (i + r) s))"
  using assms
proof (induction r arbitrary: i h)
  case 0
  then show ?case by (simp add: mh_cases_def)
next
  case (Suc r)
  let ?f = "mh_cases ! (4 - Suc r)"
  have len: "length mh_cases = 4" by (simp add: mh_cases_def)
  have d: "drop (4 - Suc r) mh_cases = ?f # drop (4 - r) mh_cases"
  proof -
    have "4 - r = Suc (4 - Suc r)" using Suc.prems(1) by simp
    then show ?thesis
      using Suc.prems(1) len Cons_nth_drop_Suc [of "4 - Suc r" mh_cases] by simp
  qed
  have op: "mh_op ((len - i) mod 4) = ?f"
    using Suc.prems(1,4) by (cases "r = 3") (auto simp: mh_op_def)
  have "(len - Suc i) mod 4 = r mod 4"
  proof -
    have "Suc m mod 4 = Suc n mod 4 \<Longrightarrow> m mod 4 = n mod 4" for m n :: nat
      by (auto simp: mod_Suc split: if_splits)
    moreover have "Suc (len - Suc i) mod 4 = Suc r mod 4"
      using Suc.prems(2,4) by (simp add: Suc_diff_Suc)
    ultimately show ?thesis by blast
  qed
  then obtain h' where h':
    "mh_run (drop (4 - r) mh_cases) s (Suc i, ?f h (scast (s ! i))) = Inr (Suc i + r, h')"
    "mh_ref (?f h (scast (s ! i))) (take (len - Suc i) (drop (Suc i) s)) =
       mh_ref h' (take (len - (Suc i + r)) (drop (Suc i + r) s))"
    using Suc.IH [of "Suc i" "?f h (scast (s ! i))"] Suc.prems by auto
  then show ?case
    using Suc.prems d op by (auto simp: mh_ref_step)
qed

lemma mh_loop_ref:
  assumes "i \<le> len" and "len \<le> length s" and "(len - i) mod 4 = 0"
  shows "mh_loop s len (i, h) = Inr (mh_ref h (take (len - i) (drop i s)))"
  using assms
proof (induction "len - i" arbitrary: i h rule: less_induct)
  case less
  show ?case
  proof (cases "i < len")
    case True
    with less.prems have "i + 4 \<le> len" by presburger
    then obtain h' where h':
      "mh_run mh_cases s (i, h) = Inr (i + 4, h')"
      "mh_ref h (take (len - i) (drop i s)) = mh_ref h' (take (len - (i + 4)) (drop (i + 4) s))"
      using mh_run_suffix [of 4 i len s h] less.prems by auto
    have "mh_loop s len (i + 4, h') = Inr (mh_ref h' (take (len - (i + 4)) (drop (i + 4) s)))"
    proof (rule less.hyps)
      show "(len - (i + 4)) mod 4 = 0" using less.prems(3) \<open>i + 4 \<le> len\<close> by presburger
    qed (use \<open>i + 4 \<le> len\<close> less.prems in auto)
    with True h' show ?thesis by (subst mh_loop.simps) simp
  next
    case False
    then show ?thesis by (subst mh_loop.simps) simp
  qed
qed

text \<open>
  C36: The metadata string hash, whose switch jumps into the middle of a loop unrolled four
  times, reads exactly the first \<open>len\<close> bytes of its argument (no read is out of bounds
  when the object holds at least \<open>len\<close> bytes) and returns the value of the one-pass
  reference definition on them, for every length.
\<close>

theorem metadata_hash_reference:
  "len \<le> length s \<Longrightarrow> managed_obj_metadata_hash s len = Inr (mh_ref 0 (take len s))"
proof -
  assume len: "len \<le> length s"
  obtain h' where h':
    "mh_run (drop (4 - len mod 4) mh_cases) s (0, 0) = Inr (len mod 4, h')"
    "mh_ref 0 (take len s) = mh_ref h' (take (len - len mod 4) (drop (len mod 4) s))"
    using mh_run_suffix [of "len mod 4" 0 len s 0] len by auto
  moreover have "mh_loop s len (len mod 4, h') = Inr (mh_ref h' (take (len - len mod 4) (drop (len mod 4) s)))"
    using len by (intro mh_loop_ref) (auto simp: mod_eq_0_iff_dvd)
  ultimately show ?thesis by (simp add: managed_obj_metadata_hash_def)
qed

theorem metadata_hash_reference_witness:
  "managed_obj_metadata_hash [104, 101, 108, 108, 111, 0] 5 = Inr (mh_ref 0 [104, 101, 108, 108, 111])"
  using metadata_hash_reference [of 5 "[104, 101, 108, 108, 111, 0]"] by simp

text \<open>
  The string hash of the hashmap reads a C string up to its terminator and no further:
  for memory that holds a terminator it returns, and two pieces of memory with the same
  bytes before the terminator have the same hash.  This is what makes it agree with
  \<open>strcmp\<close> as the comparison function of a hashmap.
\<close>

theorem hash_string_respects_strcmp:
  assumes "0 \<in> set s" and "0 \<in> set t" and "c_strcmp s t = Inr 0"
  shows "\<exists>h. managed_object_hashmap_hash_string s = Inr h \<and> managed_object_hashmap_hash_string t = Inr h"
proof -
  have "c_string s = c_string t" using c_strcmp_terminated [OF assms(1,2)] assms(3) by auto
  with assms(1,2) show ?thesis
    by (simp add: managed_object_hashmap_hash_string_def hash_string_loop_terminated)
qed

theorem hash_string_respects_strcmp_witness:
  "\<exists>h. managed_object_hashmap_hash_string [97, 98, 0, 7] = Inr h \<and>
       managed_object_hashmap_hash_string [97, 98, 0] = Inr h"
  by (rule hash_string_respects_strcmp) simp_all

section \<open>The case-insensitive hash\<close>

lemma sint_byte: "sint (c::8 word) = (if uint c < 128 then uint c else uint c - 256)"
proof -
  have b: "bit (uint c) 7 \<longleftrightarrow> 128 \<le> uint c"
  proof -
    have u: "uint c < 256" "0 \<le> uint c" using uint_bounded [of c] by simp_all
    then have "uint c div 128 = 0 \<or> uint c div 128 = 1" by presburger
    then show ?thesis using u by (auto simp: bit_iff_odd) 
  qed
  have "sint c = take_bit 8 (uint c) - 256 * of_bool (bit (uint c) 7)"
    by (simp add: sint_uint signed_take_bit_eq_take_bit_minus)
  moreover have "take_bit 8 (uint c) = uint c" using uint_bounded [of c] by (simp add: take_bit_int_eq_self)
  ultimately show ?thesis using b by auto
qed

lemma c_tolower_byte:
  "c_tolower (sint c) = None \<longleftrightarrow> 128 \<le> uint c \<and> c \<noteq> 255" for c :: byte
  using uint_bounded [of c] by (auto simp: c_tolower_def sint_byte word_uint_eq_iff)

definition ascii_lower :: "byte \<Rightarrow> byte" where
  "ascii_lower c = (if 65 \<le> uint c \<and> uint c \<le> 90 then c + 32 else c)"

lemma c_tolower_ascii_lower:
  "\<not> (128 \<le> uint c \<and> c \<noteq> 255) \<Longrightarrow> c_tolower (sint c) = Some (sint (ascii_lower c))"
proof (cases "c = 255")
  case True
  then show ?thesis by (simp add: ascii_lower_def c_tolower_def)
next
  case False
  assume "\<not> (128 \<le> uint c \<and> c \<noteq> 255)"
  with False have c: "uint c < 128" "0 \<le> uint c" by simp_all
  then have "uint (c + 32) = uint c + 32" if "uint c \<le> 90"
    using that by (simp add: uint_plus_if')
  with c show ?thesis by (auto simp: ascii_lower_def c_tolower_def sint_byte)
qed

lemma ascii_lower_0 [simp]: "ascii_lower c = 0 \<longleftrightarrow> c = 0"
proof (cases "65 \<le> uint c \<and> uint c \<le> 90")
  case True
  then have "uint (c + 32) = uint c + 32" by (simp add: uint_plus_if')
  with True have "c + 32 \<noteq> 0" and "c \<noteq> 0" by (auto simp: word_uint_eq_iff)
  with True show ?thesis by (simp add: ascii_lower_def)
qed (auto simp: ascii_lower_def)

lemma hash_string_i_loop_spec:
  "0 \<in> set s \<Longrightarrow> hash_string_i_loop h s =
     (if \<exists>c \<in> set (c_string s). 128 \<le> uint c \<and> c \<noteq> 255 then Inl Undefined_behaviour
      else hash_string_loop h (map ascii_lower s))"
proof (induction s arbitrary: h)
  case (Cons c s)
  consider "c = 0" | "c \<noteq> 0" "128 \<le> uint c" "c \<noteq> 255" | "c \<noteq> 0" "\<not> (128 \<le> uint c \<and> c \<noteq> 255)"
    by blast
  then show ?case
  proof cases
    case 1
    then show ?thesis by (simp add: c_string_def)
  next
    case 2
    then have "c_tolower (sint c) = None" by (simp add: c_tolower_byte)
    with 2 show ?thesis by (simp add: c_string_def)
  next
    case 3
    let ?h = "jenkins_step h (scast (ascii_lower c))"
    have low: "c_tolower (sint c) = Some (sint (ascii_lower c))"
      using 3(2) by (rule c_tolower_ascii_lower)
    have "hash_string_i_loop h (c # s) = hash_string_i_loop ?h s"
      using 3(1) low by (simp only: hash_string_i_loop.simps if_False option.case scast_eq)
    moreover have "hash_string_loop h (map ascii_lower (c # s)) = hash_string_loop ?h (map ascii_lower s)"
      using 3(1) by simp
    moreover have "c_string (c # s) = c # c_string s"
      using 3(1) by (simp add: c_string_def)
    ultimately show ?thesis
      using Cons.IH [of ?h] Cons.prems 3 by auto
  qed
qed simp

text \<open>
  The case-insensitive string hash is the string hash of the lower-cased string, except
  that a string with a byte from 128 to 254 makes it pass a negative value to \<open>tolower\<close>,
  which is undefined behaviour: exactly those strings (all UTF-8 text beyond ASCII among
  them) have no defined hash.
\<close>

theorem hash_string_i_spec:
  assumes "0 \<in> set s"
  shows "managed_object_hashmap_hash_string_i s =
    (if \<exists>c \<in> set (c_string s). 128 \<le> uint c \<and> c \<noteq> 255 then Inl Undefined_behaviour
     else managed_object_hashmap_hash_string (map ascii_lower s))"
  unfolding managed_object_hashmap_hash_string_i_def managed_object_hashmap_hash_string_def
  using assms by (rule hash_string_i_loop_spec)

theorem hash_string_i_spec_witness:
  "managed_object_hashmap_hash_string_i [72, 105, 0] = managed_object_hashmap_hash_string [104, 105, 0] \<and>
   managed_object_hashmap_hash_string_i [195, 169, 0] = Inl Undefined_behaviour"
  using hash_string_i_spec [of "[72, 105, 0]"] hash_string_i_spec [of "[195, 169, 0]"]
  by (simp add: c_string_def ascii_lower_def)

end
