(* ===== verification/Hashmap.thy ===== *)
theory Hashmap
  imports HashFuns
begin

text \<open>
  The hashmap of \<open>src/managed_object_hashmap.c\<close>: a table with linear probing, a power of two
  in size, with backward-shift deletion.  This theory holds the data model and every
  operation; the proofs are in the theories that import it.

  A pointer to a table entry is the entry's slot number, and \<open>NULL\<close> is \<open>None\<close>.  The
  callbacks \<open>hash\<close>, \<open>compare\<close> and \<open>key_dup\<close> are functions (or \<open>None\<close> for a null function
  pointer); \<open>key_free\<close> and \<open>on_realloc\<close> return nothing, so the model records whether they are
  set and appends each call, and each \<open>free\<close> of a table, to the ghost field \<open>trace\<close>.  Whether
  \<open>calloc\<close> finds memory is the argument \<open>mem\<close> of the operations that allocate.
\<close>

section \<open>Data\<close>

record ('k, 'v) managed_object_hashmap_entry =
  ekey :: "'k option"
  edata :: "'v option"

datatype 'k hm_event =
    Key_freed 'k
  | Table_realloc addr bool size_t  \<comment> \<open>\<open>user_data\<close>, whether \<open>new_mem\<close> is non-null, the length\<close>
  | Table_freed

record ('k, 'v) managed_object_hashmap_base =
  table_size_init :: size_t
  table_size :: size_t
  hm_size :: size_t
  table :: "('k, 'v) managed_object_hashmap_entry list option"
  hash :: "('k \<Rightarrow> size_t) option"
  compare :: "('k \<Rightarrow> 'k \<Rightarrow> int) option"
  key_dup :: "('k \<Rightarrow> 'k option) option"
  key_free :: bool
  on_realloc :: bool
  trace :: "'k hm_event list"

type_synonym ('k, 'v) entry = "('k, 'v) managed_object_hashmap_entry"
type_synonym ('k, 'v) hb = "('k, 'v) managed_object_hashmap_base"

definition ENOMEM :: int where "ENOMEM = 12"
definition EFAULT :: int where "EFAULT = 14"
definition EEXIST :: int where "EEXIST = 17"
definition EINVAL :: int where "EINVAL = 22"
definition EADDRNOTAVAIL :: int where "EADDRNOTAVAIL = 99"

lemmas errno_defs = ENOMEM_def EFAULT_def EEXIST_def EINVAL_def EADDRNOTAVAIL_def

definition MANAGED_OBJECT_HASHMAP_SIZE_MIN :: size_t where
  "MANAGED_OBJECT_HASHMAP_SIZE_MIN = 32"

definition MANAGED_OBJECT_HASHMAP_SIZE_DEFAULT :: size_t where
  "MANAGED_OBJECT_HASHMAP_SIZE_DEFAULT = 128"

definition MANAGED_OBJECT_HASHMAP_SIZE_MOD :: "size_t \<Rightarrow> size_t \<Rightarrow> size_t" where
  "MANAGED_OBJECT_HASHMAP_SIZE_MOD ts val = val AND (ts - 1)"

definition MANAGED_OBJECT_HASHMAP_PROBE_NEXT :: "size_t \<Rightarrow> size_t \<Rightarrow> size_t" where
  "MANAGED_OBJECT_HASHMAP_PROBE_NEXT ts index = MANAGED_OBJECT_HASHMAP_SIZE_MOD ts (index + 1)"

definition empty_entry :: "('k, 'v) entry" where
  "empty_entry = \<lparr>ekey = None, edata = None\<rparr>"

definition entries :: "('k, 'v) hb \<Rightarrow> ('k, 'v) entry list" where
  "entries hb = (case table hb of None \<Rightarrow> [] | Some tb \<Rightarrow> tb)"

definition log_event :: "'k hm_event \<Rightarrow> ('k, 'v) hb \<Rightarrow> ('k, 'v) hb" where
  "log_event e hb = hb\<lparr>trace := trace hb @ [e]\<rparr>"

definition notify_realloc :: "addr \<Rightarrow> bool \<Rightarrow> size_t \<Rightarrow> ('k, 'v) hb \<Rightarrow> ('k, 'v) hb" where
  "notify_realloc user_data nonnull len hb =
     (if on_realloc hb then log_event (Table_realloc user_data nonnull len) hb else hb)"

text \<open>\<open>calloc(n, sizeof(entry))\<close>: fails without memory or when the byte count overflows.\<close>

definition calloc_entries :: "bool \<Rightarrow> size_t \<Rightarrow> ('k, 'v) entry list option" where
  "calloc_entries mem n =
     (if mem \<and> unat n * 16 < 2 ^ 64 then Some (replicate (unat n) empty_entry) else None)"

section \<open>Sizes and indices\<close>

text \<open>
  \<open>1 << e\<close> is an \<open>int\<close> shift, undefined from \<open>e = 31\<close> on; \<open>__builtin_clzl(0)\<close> is undefined.
\<close>

definition managed_object_hashmap_calc_table_size :: "('k, 'v) hb \<Rightarrow> size_t \<Rightarrow> fault + size_t" where
  "managed_object_hashmap_calc_table_size hb sz =
     (let ts = sz + sz div 3
      in if ts < table_size_init hb then Inr (table_size_init hb)
         else if ts - 1 = 0 then Inl Undefined_behaviour
         else let e = bit_length (unat (ts - 1))
              in if e < 31 then Inr (push_bit e 1) else Inl Undefined_behaviour)"

text \<open>The bytes of a \<open>size_t\<close> in memory, little-endian.\<close>

definition size_t_bytes :: "size_t \<Rightarrow> byte list" where
  "size_t_bytes x = map (\<lambda>i. ucast (drop_bit (8 * i) x)) [0..<8]"

definition managed_object_hashmap_calc_index :: "('k \<Rightarrow> size_t) \<Rightarrow> size_t \<Rightarrow> 'k \<Rightarrow> size_t" where
  "managed_object_hashmap_calc_index hf ts key =
     MANAGED_OBJECT_HASHMAP_SIZE_MOD ts
       (managed_object_hashmap_hash_default (size_t_bytes (hf key)))"

section \<open>Probing\<close>

text \<open>The loop of \<open>entry_find\<close>, with the number of iterations left.\<close>

fun entry_find_loop ::
  "('k, 'v) entry list \<Rightarrow> size_t \<Rightarrow> ('k \<Rightarrow> 'k \<Rightarrow> int) \<Rightarrow> 'k \<Rightarrow> bool \<Rightarrow> nat \<Rightarrow> size_t \<Rightarrow> nat option"
where
  "entry_find_loop tb ts cmp key find_empty 0 index = None"
| "entry_find_loop tb ts cmp key find_empty (Suc n) index =
     (case ekey (tb ! unat index) of
        None \<Rightarrow> (if find_empty then Some (unat index) else None)
      | Some k \<Rightarrow>
          if cmp key k = 0 then Some (unat index)
          else entry_find_loop tb ts cmp key find_empty n (MANAGED_OBJECT_HASHMAP_PROBE_NEXT ts index))"

text \<open>Calling a null \<open>hash\<close> or \<open>compare\<close> (a map that was cleaned up) is undefined.\<close>

definition managed_object_hashmap_entry_find :: "('k, 'v) hb \<Rightarrow> 'k \<Rightarrow> bool \<Rightarrow> fault + nat option" where
  "managed_object_hashmap_entry_find hb key find_empty =
     (case (hash hb, compare hb) of
        (Some hf, Some cmp) \<Rightarrow>
          Inr (entry_find_loop (entries hb) (table_size hb) cmp key find_empty (unat (table_size hb))
                (managed_object_hashmap_calc_index hf (table_size hb) key))
      | _ \<Rightarrow> Inl Undefined_behaviour)"

text \<open>
  The loop of \<open>entry_remove\<close>: shift back the entries of the chain that the hole cuts off
  from their home slot.  It returns the table and the final hole.
\<close>

fun entry_remove_loop ::
  "('k, 'v) entry list \<Rightarrow> size_t \<Rightarrow> ('k \<Rightarrow> size_t) \<Rightarrow> nat \<Rightarrow> size_t \<Rightarrow> size_t \<Rightarrow> ('k, 'v) entry list \<times> size_t"
where
  "entry_remove_loop tb ts hf 0 index removed_index = (tb, removed_index)"
| "entry_remove_loop tb ts hf (Suc n) index removed_index =
     (case ekey (tb ! unat index) of
        None \<Rightarrow> (tb, removed_index)
      | Some k \<Rightarrow>
          let entry_index = managed_object_hashmap_calc_index hf ts k
          in if MANAGED_OBJECT_HASHMAP_SIZE_MOD ts (index - entry_index) >
                MANAGED_OBJECT_HASHMAP_SIZE_MOD ts (removed_index - entry_index)
             then entry_remove_loop (tb[unat removed_index := tb ! unat index]) ts hf n
                    (MANAGED_OBJECT_HASHMAP_PROBE_NEXT ts index) index
             else entry_remove_loop tb ts hf n
                    (MANAGED_OBJECT_HASHMAP_PROBE_NEXT ts index) removed_index)"

definition managed_object_hashmap_entry_remove :: "('k, 'v) hb \<Rightarrow> nat \<Rightarrow> fault + ('k, 'v) hb" where
  "managed_object_hashmap_entry_remove hb removed_entry =
     (case hash hb of
        None \<Rightarrow> Inl Undefined_behaviour
      | Some hf \<Rightarrow>
          let hb1 = (case ekey (entries hb ! removed_entry) of
                       Some k \<Rightarrow> if key_free hb then log_event (Key_freed k) hb else hb
                     | None \<Rightarrow> hb);
              sz = hm_size hb - 1;
              ts = table_size hb;
              removed_index = word_of_nat removed_entry;
              (tb, hole) = entry_remove_loop (entries hb) ts hf (unat sz)
                             (MANAGED_OBJECT_HASHMAP_PROBE_NEXT ts removed_index) removed_index
          in Inr (hb1\<lparr>hm_size := sz, table := Some (tb[unat hole := empty_entry])\<rparr>))"

section \<open>Rehashing\<close>

fun rehash_loop :: "('k, 'v) entry list \<Rightarrow> ('k, 'v) hb \<Rightarrow> fault + ('k, 'v) hb" where
  "rehash_loop [] hb = Inr hb"
| "rehash_loop (e # es) hb =
     (case ekey e of
        None \<Rightarrow> rehash_loop es hb
      | Some k \<Rightarrow>
          (case managed_object_hashmap_entry_find hb k True of
             Inl f \<Rightarrow> Inl f
           | Inr None \<Rightarrow> Inl Assert_failed
           | Inr (Some i) \<Rightarrow> rehash_loop es (hb\<lparr>table := Some ((entries hb)[i := e])\<rparr>)))"

definition managed_object_hashmap_rehash ::
  "('k, 'v) hb \<Rightarrow> addr \<Rightarrow> size_t \<Rightarrow> bool \<Rightarrow> fault + int \<times> ('k, 'v) hb" where
  "managed_object_hashmap_rehash hb user_data ts mem =
     (if ts AND (ts - 1) \<noteq> 0 then Inl Assert_failed
      else if \<not> hm_size hb \<le> ts then Inl Assert_failed
      else case calloc_entries mem ts of
        None \<Rightarrow> Inr (- ENOMEM, hb)
      | Some new_table \<Rightarrow>
          let hb1 = hb\<lparr>table_size := ts, table := Some new_table\<rparr>
          in (case table hb of
                None \<Rightarrow> Inr (0, notify_realloc user_data True (ts * 2) hb1)
              | Some old_table \<Rightarrow>
                  (case rehash_loop (take (unat (table_size hb)) old_table) hb1 of
                     Inl f \<Rightarrow> Inl f
                   | Inr hb2 \<Rightarrow> Inr (0, log_event Table_freed (notify_realloc user_data True (ts * 2) hb2)))))"

section \<open>Life cycle\<close>

definition managed_object_hashmap_free_keys :: "('k, 'v) hb \<Rightarrow> ('k, 'v) hb" where
  "managed_object_hashmap_free_keys hb =
     (if \<not> key_free hb \<or> hm_size hb = 0 then hb
      else hb\<lparr>trace := trace hb @
              map Key_freed (List.map_filter ekey (take (unat (table_size hb)) (entries hb)))\<rparr>)"

definition managed_object_hashmap_base_init ::
  "('k \<Rightarrow> size_t) option \<Rightarrow> ('k \<Rightarrow> 'k \<Rightarrow> int) option \<Rightarrow> fault + ('k, 'v) hb" where
  "managed_object_hashmap_base_init hash_func compare_func =
     (if hash_func = None then Inl Assert_failed
      else if compare_func = None then Inl Assert_failed
      else Inr \<lparr>table_size_init = MANAGED_OBJECT_HASHMAP_SIZE_DEFAULT, table_size = 0, hm_size = 0,
                table = None, hash = hash_func, compare = compare_func, key_dup = None,
                key_free = False, on_realloc = False, trace = []\<rparr>)"

definition managed_object_hashmap_base_cleanup :: "('k, 'v) hb \<Rightarrow> addr \<Rightarrow> ('k, 'v) hb" where
  "managed_object_hashmap_base_cleanup hb user_data =
     (let hb1 = notify_realloc user_data False 0 (managed_object_hashmap_free_keys hb);
          hb2 = (if table hb1 = None then hb1 else log_event Table_freed hb1)
      in \<lparr>table_size_init = 0, table_size = 0, hm_size = 0, table = None, hash = None,
          compare = None, key_dup = None, key_free = False, on_realloc = False, trace = trace hb2\<rparr>)"

definition managed_object_hashmap_base_set_on_realloc_func :: "('k, 'v) hb \<Rightarrow> bool \<Rightarrow> ('k, 'v) hb" where
  "managed_object_hashmap_base_set_on_realloc_func hb f = hb\<lparr>on_realloc := f\<rparr>"

definition managed_object_hashmap_base_set_key_alloc_funcs ::
  "('k, 'v) hb \<Rightarrow> ('k \<Rightarrow> 'k option) option \<Rightarrow> bool \<Rightarrow> ('k, 'v) hb" where
  "managed_object_hashmap_base_set_key_alloc_funcs hb dup fr = hb\<lparr>key_dup := dup, key_free := fr\<rparr>"

section \<open>Operations\<close>

definition managed_object_hashmap_base_reserve ::
  "('k, 'v) hb \<Rightarrow> addr \<Rightarrow> size_t \<Rightarrow> bool \<Rightarrow> fault + int \<times> ('k, 'v) hb" where
  "managed_object_hashmap_base_reserve hb user_data capacity mem =
     (let old_size_init = table_size_init hb;
          hb1 = hb\<lparr>table_size_init := MANAGED_OBJECT_HASHMAP_SIZE_MIN\<rparr>
      in case managed_object_hashmap_calc_table_size hb1 capacity of
           Inl f \<Rightarrow> Inl f
         | Inr ts \<Rightarrow>
             let hb2 = hb1\<lparr>table_size_init := ts\<rparr>
             in if table_size_init hb2 > table_size hb2
                then (case managed_object_hashmap_rehash hb2 user_data (table_size_init hb2) mem of
                        Inl f \<Rightarrow> Inl f
                      | Inr (r, hb3) \<Rightarrow>
                          Inr (r, if r < 0 then hb3\<lparr>table_size_init := old_size_init\<rparr> else hb3))
                else Inr (0, hb2))"

definition store_entry :: "('k, 'v) hb \<Rightarrow> nat \<Rightarrow> 'k \<Rightarrow> 'v \<Rightarrow> ('k, 'v) hb" where
  "store_entry hb i k d =
     hb\<lparr>table := Some ((entries hb)[i := \<lparr>ekey = Some k, edata = Some d\<rparr>]), hm_size := hm_size hb + 1\<rparr>"

definition managed_object_hashmap_base_put ::
  "('k, 'v) hb \<Rightarrow> addr \<Rightarrow> 'k option \<Rightarrow> 'v option \<Rightarrow> bool \<Rightarrow> fault + int \<times> ('k, 'v) hb" where
  "managed_object_hashmap_base_put hb user_data key data mem =
     (case (key, data) of
        (Some k, Some d) \<Rightarrow>
          (case managed_object_hashmap_calc_table_size hb (hm_size hb) of
             Inl f \<Rightarrow> Inl f
           | Inr ts \<Rightarrow>
               (case (if ts > table_size hb then managed_object_hashmap_rehash hb user_data ts mem
                      else Inr (0, hb)) of
                  Inl f \<Rightarrow> Inl f
                | Inr (r, hb1) \<Rightarrow>
                    (case managed_object_hashmap_entry_find hb1 k True of
                       Inl f \<Rightarrow> Inl f
                     | Inr None \<Rightarrow> Inr (if r < 0 then r else - EADDRNOTAVAIL, hb1)
                     | Inr (Some i) \<Rightarrow>
                         if ekey (entries hb1 ! i) \<noteq> None then Inr (- EEXIST, hb1)
                         else (case key_dup hb1 of
                                 None \<Rightarrow> Inr (0, store_entry hb1 i k d)
                               | Some dup \<Rightarrow>
                                   (case dup k of
                                      None \<Rightarrow> Inr (- ENOMEM, hb1)
                                    | Some k' \<Rightarrow> Inr (0, store_entry hb1 i k' d))))))
      | _ \<Rightarrow> Inr (- EINVAL, hb))"

definition managed_object_hashmap_base_get :: "('k, 'v) hb \<Rightarrow> 'k option \<Rightarrow> fault + 'v option" where
  "managed_object_hashmap_base_get hb key =
     (case key of
        None \<Rightarrow> Inr None
      | Some k \<Rightarrow>
          (case managed_object_hashmap_entry_find hb k False of
             Inl f \<Rightarrow> Inl f
           | Inr None \<Rightarrow> Inr None
           | Inr (Some i) \<Rightarrow> Inr (edata (entries hb ! i))))"

definition managed_object_hashmap_base_remove ::
  "('k, 'v) hb \<Rightarrow> 'k option \<Rightarrow> fault + 'v option \<times> ('k, 'v) hb" where
  "managed_object_hashmap_base_remove hb key =
     (case key of
        None \<Rightarrow> Inr (None, hb)
      | Some k \<Rightarrow>
          (case managed_object_hashmap_entry_find hb k False of
             Inl f \<Rightarrow> Inl f
           | Inr None \<Rightarrow> Inr (None, hb)
           | Inr (Some i) \<Rightarrow>
               (case managed_object_hashmap_entry_remove hb i of
                  Inl f \<Rightarrow> Inl f
                | Inr hb1 \<Rightarrow> Inr (edata (entries hb ! i), hb1))))"

text \<open>Without a table, \<open>memset\<close> clears no bytes at a null pointer, which does nothing.\<close>

definition clear_table :: "('k, 'v) hb \<Rightarrow> ('k, 'v) hb" where
  "clear_table hb =
     hb\<lparr>table := map_option (\<lambda>tb. replicate (unat (table_size hb)) empty_entry @
                                   drop (unat (table_size hb)) tb) (table hb)\<rparr>"

definition managed_object_hashmap_base_clear :: "('k, 'v) hb \<Rightarrow> ('k, 'v) hb" where
  "managed_object_hashmap_base_clear hb =
     clear_table ((managed_object_hashmap_free_keys hb)\<lparr>hm_size := 0\<rparr>)"

definition managed_object_hashmap_base_reset ::
  "('k, 'v) hb \<Rightarrow> addr \<Rightarrow> bool \<Rightarrow> int \<times> ('k, 'v) hb" where
  "managed_object_hashmap_base_reset hb user_data mem =
     (let hb1 = (managed_object_hashmap_free_keys hb)\<lparr>hm_size := 0\<rparr>
      in if table_size hb1 \<noteq> table_size_init hb1
         then (case calloc_entries mem (table_size_init hb1) of
                 None \<Rightarrow> (- ENOMEM, hb1)
               | Some new_table \<Rightarrow>
                   let hb2 = hb1\<lparr>table := Some new_table, table_size := table_size_init hb1\<rparr>;
                       hb3 = notify_realloc user_data True (table_size hb2 * 2) hb2
                   in (0, if table hb1 = None then hb3 else log_event Table_freed hb3))
         else (0, clear_table hb1))"

section \<open>Iterators\<close>

function get_populated_loop :: "('k, 'v) entry list \<Rightarrow> nat \<Rightarrow> nat \<Rightarrow> nat option" where
  "get_populated_loop tb n i =
     (if i < n then (if ekey (tb ! i) \<noteq> None then Some i else get_populated_loop tb n (Suc i))
      else None)"
  by pat_completeness auto
termination
  by (relation "measure (\<lambda>(tb, n, i). n - i)") auto

declare get_populated_loop.simps [simp del]

definition managed_object_hashmap_entry_get_populated :: "('k, 'v) hb \<Rightarrow> nat \<Rightarrow> nat option" where
  "managed_object_hashmap_entry_get_populated hb i =
     (if hm_size hb > 0 then get_populated_loop (entries hb) (unat (table_size hb)) i else None)"

definition managed_object_hashmap_base_iter :: "('k, 'v) hb \<Rightarrow> nat option \<Rightarrow> nat option" where
  "managed_object_hashmap_base_iter hb pos =
     managed_object_hashmap_entry_get_populated hb (case pos of None \<Rightarrow> 0 | Some p \<Rightarrow> p)"

text \<open>The key of the entry is read before the bounds are tested: out of the table that is undefined.\<close>

definition managed_object_hashmap_base_iter_valid :: "('k, 'v) hb \<Rightarrow> nat option \<Rightarrow> fault + bool" where
  "managed_object_hashmap_base_iter_valid hb iter =
     (case iter of
        None \<Rightarrow> Inr False
      | Some i \<Rightarrow> if i < unat (table_size hb) then Inr (ekey (entries hb ! i) \<noteq> None) else Inl Undefined_behaviour)"

definition managed_object_hashmap_base_iter_next :: "('k, 'v) hb \<Rightarrow> nat option \<Rightarrow> bool \<times> nat option" where
  "managed_object_hashmap_base_iter_next hb iter =
     (case iter of
        None \<Rightarrow> (False, None)
      | Some i \<Rightarrow>
          let p = managed_object_hashmap_entry_get_populated hb (Suc i) in (p \<noteq> None, p))"

definition managed_object_hashmap_base_iter_remove ::
  "('k, 'v) hb \<Rightarrow> nat option \<Rightarrow> fault + bool \<times> nat option \<times> ('k, 'v) hb" where
  "managed_object_hashmap_base_iter_remove hb iter =
     (case iter of
        None \<Rightarrow> Inr (False, None, hb)
      | Some i \<Rightarrow>
          (case (if ekey (entries hb ! i) \<noteq> None then managed_object_hashmap_entry_remove hb i
                 else Inr hb) of
             Inl f \<Rightarrow> Inl f
           | Inr hb1 \<Rightarrow>
               let p = managed_object_hashmap_entry_get_populated hb1 i in Inr (p \<noteq> None, p, hb1)))"

definition managed_object_hashmap_base_iter_get_key :: "('k, 'v) hb \<Rightarrow> nat option \<Rightarrow> 'k option" where
  "managed_object_hashmap_base_iter_get_key hb iter =
     (case iter of None \<Rightarrow> None | Some i \<Rightarrow> ekey (entries hb ! i))"

definition managed_object_hashmap_base_iter_get_data :: "('k, 'v) hb \<Rightarrow> nat option \<Rightarrow> 'v option" where
  "managed_object_hashmap_base_iter_get_data hb iter =
     (case iter of None \<Rightarrow> None | Some i \<Rightarrow> edata (entries hb ! i))"

definition managed_object_hashmap_base_iter_set_data ::
  "('k, 'v) hb \<Rightarrow> nat option \<Rightarrow> 'v option \<Rightarrow> int \<times> ('k, 'v) hb" where
  "managed_object_hashmap_base_iter_set_data hb iter data =
     (case iter of
        None \<Rightarrow> (- EFAULT, hb)
      | Some i \<Rightarrow>
          if data = None then (- EINVAL, hb)
          else (0, hb\<lparr>table := Some ((entries hb)[i := (entries hb ! i)\<lparr>edata := data\<rparr>])\<rparr>))"

section \<open>Statistics\<close>

fun collisions_loop ::
  "('k, 'v) entry list \<Rightarrow> size_t \<Rightarrow> ('k \<Rightarrow> 'k \<Rightarrow> int) \<Rightarrow> 'k \<Rightarrow> nat \<Rightarrow> size_t \<Rightarrow> size_t \<Rightarrow> size_t"
where
  "collisions_loop tb ts cmp key 0 i index = i"
| "collisions_loop tb ts cmp key (Suc n) i index =
     (case ekey (tb ! unat index) of
        None \<Rightarrow> 0
      | Some k \<Rightarrow>
          if cmp key k = 0 then i
          else collisions_loop tb ts cmp key n (i + 1) (MANAGED_OBJECT_HASHMAP_PROBE_NEXT ts index))"

definition managed_object_hashmap_base_collisions :: "('k, 'v) hb \<Rightarrow> 'k option \<Rightarrow> fault + size_t" where
  "managed_object_hashmap_base_collisions hb key =
     (case key of
        None \<Rightarrow> Inr 0
      | Some k \<Rightarrow>
          (case (hash hb, compare hb) of
             (Some hf, Some cmp) \<Rightarrow>
               Inr (collisions_loop (entries hb) (table_size hb) cmp k (unat (table_size hb)) 0
                     (managed_object_hashmap_calc_index hf (table_size hb) k))
           | _ \<Rightarrow> Inl Undefined_behaviour))"

end
