(* ===== verification/Probing.thy ===== *)
theory Probing
  imports Hashmap
begin

text \<open>
  Linear probing: the circular distance on slots, the invariant of a table, and what the
  search loop finds in it.  The laws that a pair of callbacks must obey are the locale
  \<open>key_ops\<close>; the lemmas about tables are proved in it.
\<close>

section \<open>Circular distance\<close>

definition cdist :: "nat \<Rightarrow> nat \<Rightarrow> nat \<Rightarrow> nat" where
  "cdist n a b = (if a \<le> b then b - a else b + n - a)"

lemma cdist_self [simp]: "cdist n a a = 0"
  by (simp add: cdist_def)

lemma cdist_less: "a < n \<Longrightarrow> b < n \<Longrightarrow> cdist n a b < n"
  by (auto simp: cdist_def)

lemma cdist_inj: "a < n \<Longrightarrow> b < n \<Longrightarrow> c < n \<Longrightarrow> cdist n a b = cdist n a c \<Longrightarrow> b = c"
  by (auto simp: cdist_def split: if_splits)

lemma cdist_eq_0: "a < n \<Longrightarrow> b < n \<Longrightarrow> cdist n a b = 0 \<longleftrightarrow> a = b"
  by (auto simp: cdist_def split: if_splits)

lemma cdist_add:
  "a < n \<Longrightarrow> b < n \<Longrightarrow> c < n \<Longrightarrow> cdist n a b \<le> cdist n a c \<Longrightarrow> cdist n a c = cdist n a b + cdist n b c"
  by (auto simp: cdist_def split: if_splits)

lemma cdist_sum:
  "a < n \<Longrightarrow> b < n \<Longrightarrow> c < n \<Longrightarrow> cdist n a b + cdist n b c < n \<Longrightarrow> cdist n a c = cdist n a b + cdist n b c"
  by (auto simp: cdist_def split: if_splits)

lemma cdist_next:
  assumes "a < n" and "b < n" and "cdist n a b < n - 1"
  shows "cdist n a (Suc b mod n) = Suc (cdist n a b)"
proof (cases "Suc b < n")
  case True
  with assms show ?thesis by (auto simp: cdist_def split: if_splits)
next
  case False
  with assms have "Suc b = n" by simp
  with assms show ?thesis by (auto simp: cdist_def split: if_splits)
qed

lemma cdist_Suc_left:
  assumes "a < n" and "b < n" and "a \<noteq> b"
  shows "cdist n a b = Suc (cdist n (Suc a mod n) b)"
proof (cases "Suc a < n")
  case True
  with assms show ?thesis by (auto simp: cdist_def)
next
  case False
  with assms have "Suc a = n" by simp
  with assms show ?thesis by (auto simp: cdist_def)
qed

lemma cdist_Suc_self: "a < n \<Longrightarrow> cdist n (Suc a mod n) a = n - 1"
proof (cases "Suc a < n")
  case True
  then show ?thesis by (simp add: cdist_def)
next
  case False
  assume "a < n"
  with False have "Suc a = n" by simp
  then show ?thesis by (auto simp: cdist_def)
qed

lemma cdist_mod: "a < n \<Longrightarrow> b < n \<Longrightarrow> (b + n - a) mod n = cdist n a b"
proof (cases "a \<le> b")
  case True
  moreover assume "a < n" "b < n"
  moreover from True have "b + n - a = (b - a) + n" by simp
  then have "(b + n - a) mod n = (b - a) mod n" by (simp only: mod_add_self2)
  ultimately show ?thesis by (simp add: cdist_def)
qed (auto simp: cdist_def)

section \<open>Machine indices\<close>

definition pow2_size :: "size_t \<Rightarrow> bool" where
  "pow2_size ts \<longleftrightarrow> (\<exists>k < 64. ts = 2 ^ k)"

lemma pow2_size_pos: "pow2_size ts \<Longrightarrow> 0 < unat ts"
  by (auto simp: pow2_size_def)

lemma pow2_size_assert: "pow2_size ts \<Longrightarrow> ts AND (ts - 1) = 0"
  by (auto simp: pow2_size_def pow2_and)

lemma size_mod_unat:
  "pow2_size ts \<Longrightarrow> unat (MANAGED_OBJECT_HASHMAP_SIZE_MOD ts v) = unat v mod unat ts"
  by (auto simp: pow2_size_def MANAGED_OBJECT_HASHMAP_SIZE_MOD_def unat_and_mask)

lemma size_mod_less: "pow2_size ts \<Longrightarrow> unat (MANAGED_OBJECT_HASHMAP_SIZE_MOD ts v) < unat ts"
  using pow2_size_pos [of ts] by (simp add: size_mod_unat)

lemma probe_next_unat:
  "pow2_size ts \<Longrightarrow> unat (MANAGED_OBJECT_HASHMAP_PROBE_NEXT ts i) = Suc (unat i) mod unat ts"
  by (auto simp: pow2_size_def MANAGED_OBJECT_HASHMAP_PROBE_NEXT_def
      MANAGED_OBJECT_HASHMAP_SIZE_MOD_def unat_add_mask)

lemma size_mod_diff:
  assumes "pow2_size ts" and "unat a < unat ts" and "unat b < unat ts"
  shows "unat (MANAGED_OBJECT_HASHMAP_SIZE_MOD ts (a - b)) = cdist (unat ts) (unat b) (unat a)"
  using assms unat_diff_mask [of _ b a]
  by (auto simp: pow2_size_def MANAGED_OBJECT_HASHMAP_SIZE_MOD_def cdist_mod)

section \<open>Tables\<close>

definition pop :: "('k, 'v) entry list \<Rightarrow> nat \<Rightarrow> bool" where
  "pop tb i \<longleftrightarrow> ekey (tb ! i) \<noteq> None"

definition home :: "('k \<Rightarrow> size_t) \<Rightarrow> size_t \<Rightarrow> 'k \<Rightarrow> nat" where
  "home hf ts k = unat (managed_object_hashmap_calc_index hf ts k)"

definition probe_full :: "('k, 'v) entry list \<Rightarrow> nat \<Rightarrow> nat \<Rightarrow> bool" where
  "probe_full tb h i \<longleftrightarrow>
     (\<forall>x < length tb. cdist (length tb) h x < cdist (length tb) h i \<longrightarrow> pop tb x)"

definition chains_ok :: "('k \<Rightarrow> size_t) \<Rightarrow> size_t \<Rightarrow> ('k, 'v) entry list \<Rightarrow> bool" where
  "chains_ok hf ts tb \<longleftrightarrow>
     (\<forall>i < length tb. \<forall>k. ekey (tb ! i) = Some k \<longrightarrow> probe_full tb (home hf ts k) i)"

text \<open>The live entries, as a multiset, and that no two of them have equal keys.\<close>

definition live :: "('k, 'v) entry list \<Rightarrow> ('k, 'v) entry multiset" where
  "live tb = mset (filter (\<lambda>e. ekey e \<noteq> None) tb)"

definition keys_distinct :: "('k \<Rightarrow> 'k \<Rightarrow> int) \<Rightarrow> ('k, 'v) entry multiset \<Rightarrow> bool" where
  "keys_distinct cmp M \<longleftrightarrow>
     (\<forall>e1 e2 a b. {#e1, e2#} \<subseteq># M \<longrightarrow> ekey e1 = Some a \<longrightarrow> ekey e2 = Some b \<longrightarrow> cmp a b \<noteq> 0)"

definition slots_ok :: "('k, 'v) entry list \<Rightarrow> bool" where
  "slots_ok tb \<longleftrightarrow> (\<forall>e \<in> set tb. (ekey e = None) = (edata e = None))"

definition table_ok :: "('k \<Rightarrow> size_t) \<Rightarrow> ('k \<Rightarrow> 'k \<Rightarrow> int) \<Rightarrow> size_t \<Rightarrow> ('k, 'v) entry list \<Rightarrow> bool" where
  "table_ok hf cmp ts tb \<longleftrightarrow>
     pow2_size ts \<and> length tb = unat ts \<and> chains_ok hf ts tb \<and> keys_distinct cmp (live tb) \<and> slots_ok tb"

text \<open>The map that a table stands for.\<close>

definition matches :: "('k \<Rightarrow> 'k \<Rightarrow> int) \<Rightarrow> 'k \<Rightarrow> ('k, 'v) entry \<Rightarrow> bool" where
  "matches cmp key e \<longleftrightarrow> (case ekey e of None \<Rightarrow> False | Some k \<Rightarrow> cmp key k = 0)"

definition table_map :: "('k \<Rightarrow> 'k \<Rightarrow> int) \<Rightarrow> ('k, 'v) entry list \<Rightarrow> 'k \<Rightarrow> 'v option" where
  "table_map cmp tb key = (case List.find (matches cmp key) tb of None \<Rightarrow> None | Some e \<Rightarrow> edata e)"

lemma empty_entry_simps [simp]: "ekey empty_entry = None" "edata empty_entry = None"
  by (simp_all add: empty_entry_def)

lemma home_less: "pow2_size ts \<Longrightarrow> home hf ts k < unat ts"
  by (simp add: home_def managed_object_hashmap_calc_index_def size_mod_less)

lemma matches_pop: "matches cmp key (tb ! i) \<Longrightarrow> pop tb i"
  by (auto simp: matches_def pop_def split: option.splits)

lemma live_update:
  "i < length tb \<Longrightarrow> live (tb[i := e]) =
     live tb - (if pop tb i then {#tb ! i#} else {#}) + (if ekey e \<noteq> None then {#e#} else {#})"
  by (auto simp: live_def pop_def mset_update)

lemma live_replicate [simp]: "live (replicate n empty_entry) = {#}"
  by (simp add: live_def empty_entry_def)

lemma size_live: "size (live tb) = card {i. i < length tb \<and> pop tb i}"
  by (simp only: live_def pop_def size_mset length_filter_conv_card)

lemma size_live_le: "size (live tb) \<le> length tb"
  by (simp only: live_def size_mset length_filter_le)

lemma free_slot_exists: "size (live tb) < length tb \<Longrightarrow> \<exists>i < length tb. \<not> pop tb i"
proof (rule ccontr)
  assume less: "size (live tb) < length tb" and "\<not> (\<exists>i < length tb. \<not> pop tb i)"
  then have "{i. i < length tb \<and> pop tb i} = {..<length tb}" by auto
  then show False using less by (simp add: size_live)
qed

lemma in_live_iff: "e \<in># live tb \<longleftrightarrow> (\<exists>i < length tb. tb ! i = e \<and> pop tb i)"
  by (auto simp: live_def pop_def in_set_conv_nth)

section \<open>The search loop\<close>

text \<open>
  All slots at a distance below \<open>d\<close> from \<open>h\<close> are populated with keys that do not match.
\<close>

definition scanned :: "('k \<Rightarrow> 'k \<Rightarrow> int) \<Rightarrow> 'k \<Rightarrow> ('k, 'v) entry list \<Rightarrow> nat \<Rightarrow> nat \<Rightarrow> bool" where
  "scanned cmp key tb h d \<longleftrightarrow>
     (\<forall>x < length tb. cdist (length tb) h x < d \<longrightarrow> pop tb x \<and> \<not> matches cmp key (tb ! x))"

lemma scanned_Suc:
  assumes "scanned cmp key tb h d" and "h < length tb" and "i < length tb"
    and "cdist (length tb) h i = d" and "pop tb i" and "\<not> matches cmp key (tb ! i)"
  shows "scanned cmp key tb h (Suc d)"
  unfolding scanned_def
proof (intro allI impI)
  fix x assume x: "x < length tb" "cdist (length tb) h x < Suc d"
  show "pop tb x \<and> \<not> matches cmp key (tb ! x)"
  proof (cases "cdist (length tb) h x = d")
    case True
    with assms x have "x = i" by (metis cdist_inj)
    with assms show ?thesis by simp
  next
    case False
    with assms(1) x show ?thesis by (simp add: scanned_def)
  qed
qed

definition find_result ::
  "('k \<Rightarrow> 'k \<Rightarrow> int) \<Rightarrow> 'k \<Rightarrow> bool \<Rightarrow> ('k, 'v) entry list \<Rightarrow> nat \<Rightarrow> nat option \<Rightarrow> bool" where
  "find_result cmp key fe tb h r \<longleftrightarrow>
     (case r of
        Some i \<Rightarrow> i < length tb \<and> scanned cmp key tb h (cdist (length tb) h i) \<and>
                  (matches cmp key (tb ! i) \<or> \<not> pop tb i \<and> fe)
      | None \<Rightarrow> scanned cmp key tb h (length tb) \<or>
                \<not> fe \<and> (\<exists>i < length tb. \<not> pop tb i \<and> scanned cmp key tb h (cdist (length tb) h i)))"

lemma entry_find_loop_result:
  assumes "pow2_size ts" and "length tb = unat ts" and "h < unat ts"
    and "n \<le> unat ts" and "unat index < unat ts"
    and "0 < n \<Longrightarrow> cdist (unat ts) h (unat index) = unat ts - n"
    and "scanned cmp key tb h (unat ts - n)"
  shows "find_result cmp key fe tb h (entry_find_loop tb ts cmp key fe n index)"
  using assms
proof (induction n arbitrary: index)
  case 0
  then show ?case by (simp add: find_result_def)
next
  case (Suc n)
  let ?i = "unat index" and ?N = "unat ts"
  have d: "cdist ?N h ?i = ?N - Suc n" using Suc.prems by simp
  show ?case
  proof (cases "ekey (tb ! ?i)")
    case None
    with Suc.prems d show ?thesis by (auto simp: find_result_def pop_def)
  next
    case (Some k)
    show ?thesis
    proof (cases "cmp key k = 0")
      case True
      with Some Suc.prems d show ?thesis by (auto simp: find_result_def matches_def)
    next
      case False
      let ?next = "MANAGED_OBJECT_HASHMAP_PROBE_NEXT ts index"
      have "scanned cmp key tb h (Suc (?N - Suc n))"
        using Suc.prems d Some False by (intro scanned_Suc [of _ _ _ _ _ ?i]) (auto simp: pop_def matches_def)
      then have sc: "scanned cmp key tb h (?N - n)"
        using Suc.prems(4) by (simp add: Suc_diff_Suc)
      have nx: "unat ?next = Suc ?i mod ?N" using Suc.prems(1) by (rule probe_next_unat)
      have "find_result cmp key fe tb h (entry_find_loop tb ts cmp key fe n ?next)"
      proof (rule Suc.IH)
        show "unat ?next < unat ts" using nx Suc.prems(3) by simp
        show "cdist ?N h (unat ?next) = ?N - n" if "0 < n"
          using that nx d Suc.prems by (simp add: cdist_next Suc_diff_Suc)
      qed (use Suc.prems sc in auto)
      with Some False show ?thesis by simp
    qed
  qed
qed

section \<open>Live entries\<close>

lemma live_pair:
  assumes "i < length tb" and "j < length tb" and "i \<noteq> j" and "pop tb i" and "pop tb j"
  shows "{#tb ! i, tb ! j#} \<subseteq># live tb"
proof -
  have "tb[i := empty_entry] ! j = tb ! j" using assms(3) by simp
  with assms have "tb ! j \<in># live (tb[i := empty_entry])"
    by (auto simp: in_live_iff pop_def)
  then have "tb ! j \<in># live tb - {#tb ! i#}"
    using assms by (simp add: live_update empty_entry_def)
  moreover have "tb ! i \<in># live tb" using assms by (auto simp: in_live_iff)
  ultimately show ?thesis by (simp add: insert_subset_eq_iff)
qed

lemma live_ekey: "e \<in># live tb \<Longrightarrow> ekey e \<noteq> None"
  by (auto simp: live_def)

lemma keys_distinct_slots:
  assumes "keys_distinct cmp (live tb)" and "i < length tb" and "j < length tb"
    and "ekey (tb ! i) = Some a" and "ekey (tb ! j) = Some b" and "cmp a b = 0"
  shows "i = j"
proof (rule ccontr)
  assume "i \<noteq> j"
  then have "{#tb ! i, tb ! j#} \<subseteq># live tb"
    using assms by (intro live_pair) (auto simp: pop_def)
  with assms show False unfolding keys_distinct_def by blast
qed

lemma keys_distinct_mono: "keys_distinct cmp M \<Longrightarrow> N \<subseteq># M \<Longrightarrow> keys_distinct cmp N"
  unfolding keys_distinct_def by (meson subset_mset.order_trans)

lemma keys_distinct_empty [simp]: "keys_distinct cmp {#}"
  by (simp add: keys_distinct_def)

lemma slots_ok_update:
  "slots_ok tb \<Longrightarrow> (ekey e = None) = (edata e = None) \<Longrightarrow> slots_ok (tb[i := e])"
  using set_update_subset_insert [of tb i e] by (auto simp: slots_ok_def)

lemma slots_ok_replicate [simp]: "slots_ok (replicate n empty_entry)"
  by (auto simp: slots_ok_def empty_entry_def)

lemma empty_table_ok:
  "pow2_size ts \<Longrightarrow> table_ok hf cmp ts (replicate (unat ts) empty_entry)"
  by (auto simp: table_ok_def chains_ok_def)

section \<open>Laws of the key callbacks\<close>

text \<open>
  What \<open>managed_object_hashmap_base_init\<close> asks of its callbacks: \<open>compare\<close> returns 0 exactly
  for matching keys (so matching is an equivalence) and matching keys have the same hash.
\<close>

locale key_ops =
  fixes hf :: "'k \<Rightarrow> size_t" and cmp :: "'k \<Rightarrow> 'k \<Rightarrow> int"
  assumes cmp_refl: "cmp k k = 0"
    and cmp_sym: "cmp a b = 0 \<Longrightarrow> cmp b a = 0"
    and cmp_trans: "cmp a b = 0 \<Longrightarrow> cmp b c = 0 \<Longrightarrow> cmp a c = 0"
    and cmp_hash: "cmp a b = 0 \<Longrightarrow> hf a = hf b"
begin

lemma cmp_home: "cmp a b = 0 \<Longrightarrow> home hf ts a = home hf ts b"
  by (simp add: home_def managed_object_hashmap_calc_index_def cmp_hash)

lemma matches_home:
  "matches cmp key e \<Longrightarrow> \<exists>k. ekey e = Some k \<and> home hf ts k = home hf ts key \<and> cmp key k = 0"
  by (auto simp: matches_def cmp_home split: option.splits)

lemma matches_unique:
  assumes "keys_distinct cmp (live tb)" and "i < length tb" and "j < length tb"
    and "matches cmp key (tb ! i)" and "matches cmp key (tb ! j)"
  shows "i = j"
proof -
  from assms(4,5) obtain a b where ab: "ekey (tb ! i) = Some a" "ekey (tb ! j) = Some b"
    and m: "cmp key a = 0" "cmp key b = 0"
    by (auto simp: matches_def split: option.splits)
  from cmp_trans [OF cmp_sym [OF m(1)] m(2)] show ?thesis
    by (rule keys_distinct_slots [OF assms(1-3) ab])
qed

lemma scanned_before_match:
  assumes "scanned cmp key tb h d" and "j < length tb" and "matches cmp key (tb ! j)"
  shows "d \<le> cdist (length tb) h j"
  using assms by (auto simp: scanned_def not_less [symmetric])

lemma match_chain:
  assumes "table_ok hf cmp ts tb" and "j < length tb" and "matches cmp key (tb ! j)"
    and "x < length tb" and "cdist (length tb) (home hf ts key) x < cdist (length tb) (home hf ts key) j"
  shows "pop tb x"
  using assms matches_home [OF assms(3), of ts]
  by (auto simp: table_ok_def chains_ok_def probe_full_def)

text \<open>A key that is in the table is found, whatever \<open>find_empty\<close> is.\<close>

lemma find_hit:
  assumes ok: "table_ok hf cmp ts tb" and j: "j < length tb" "matches cmp key (tb ! j)"
    and res: "find_result cmp key fe tb (home hf ts key) r"
  shows "r = Some j"
proof -
  let ?N = "length tb" and ?h = "home hf ts key"
  have hN: "?h < ?N" using ok by (simp add: table_ok_def home_less)
  have stop: False if "i < ?N" "\<not> pop tb i" "scanned cmp key tb ?h (cdist ?N ?h i)" for i
  proof -
    have "cdist ?N ?h i \<le> cdist ?N ?h j" using scanned_before_match [OF that(3) j] .
    moreover have "i \<noteq> j" using that(2) matches_pop [OF j(2)] by auto
    then have "cdist ?N ?h i \<noteq> cdist ?N ?h j" using cdist_inj [OF hN that(1) j(1)] by blast
    ultimately have "pop tb i" using match_chain [OF ok j that(1)] by simp
    with that(2) show False by simp
  qed
  show ?thesis
  proof (cases r)
    case None
    then have "scanned cmp key tb ?h ?N" using res stop by (auto simp: find_result_def)
    from scanned_before_match [OF this j] have "?N \<le> cdist ?N ?h j" .
    with cdist_less [OF hN j(1)] show ?thesis by simp
  next
    case (Some i)
    then have i: "i < ?N" "scanned cmp key tb ?h (cdist ?N ?h i)" "matches cmp key (tb ! i) \<or> \<not> pop tb i"
      using res by (auto simp: find_result_def)
    with stop have "matches cmp key (tb ! i)" by blast
    then have "i = j" using matches_unique [OF _ i(1) j(1) _ j(2)] ok by (simp add: table_ok_def)
    with Some show ?thesis by simp
  qed
qed

text \<open>A key that is not in the table is not found; with \<open>find_empty\<close> a free slot is.\<close>

lemma find_miss:
  assumes "\<forall>j < length tb. \<not> matches cmp key (tb ! j)"
    and "find_result cmp key False tb h r"
  shows "r = None"
  using assms by (auto simp: find_result_def split: option.splits)

lemma find_free:
  assumes "\<forall>j < length tb. \<not> matches cmp key (tb ! j)"
    and "find_result cmp key True tb h r" and "size (live tb) < length tb" and "h < length tb"
  shows "\<exists>i. r = Some i \<and> i < length tb \<and> \<not> pop tb i \<and> scanned cmp key tb h (cdist (length tb) h i)"
proof (cases r)
  case None
  obtain i where i: "i < length tb" "\<not> pop tb i" using free_slot_exists [OF assms(3)] by blast
  from None assms(2) have "scanned cmp key tb h (length tb)" by (simp add: find_result_def)
  with i cdist_less [OF assms(4) i(1)] show ?thesis by (auto simp: scanned_def)
next
  case (Some i)
  with assms show ?thesis by (auto simp: find_result_def)
qed

text \<open>With no free slot left the search for a missing key reports none.\<close>

lemma find_full:
  assumes "\<forall>j < length tb. \<not> matches cmp key (tb ! j)"
    and "find_result cmp key True tb h r" and "size (live tb) = length tb"
  shows "r = None"
proof (rule ccontr)
  assume "r \<noteq> None"
  then obtain i where i: "i < length tb" "\<not> pop tb i"
    using assms(1,2) by (auto simp: find_result_def)
  then have "{i. i < length tb \<and> pop tb i} \<subset> {..<length tb}" by auto
  then have "card {i. i < length tb \<and> pop tb i} < card {..<length tb}"
    by (intro psubset_card_mono) auto
  with assms(3) show False by (simp add: size_live)
qed

section \<open>The map of a table\<close>

lemma table_map_match:
  assumes "keys_distinct cmp (live tb)" and "i < length tb" and "matches cmp key (tb ! i)"
  shows "table_map cmp tb key = edata (tb ! i)"
proof (cases "List.find (matches cmp key) tb")
  case None
  with assms show ?thesis by (auto simp: find_None_iff)
next
  case (Some e)
  then obtain j where "j < length tb" "matches cmp key (tb ! j)" "e = tb ! j"
    by (auto simp: find_Some_iff)
  with matches_unique [OF assms(1)] assms(2,3) have "e = tb ! i" by metis
  with Some show ?thesis by (simp add: table_map_def)
qed

lemma table_map_none:
  "\<forall>j < length tb. \<not> matches cmp key (tb ! j) \<Longrightarrow> table_map cmp tb key = None"
proof -
  assume "\<forall>j < length tb. \<not> matches cmp key (tb ! j)"
  then have "List.find (matches cmp key) tb = None"
    by (auto simp: find_None_iff in_set_conv_nth)
  then show ?thesis by (simp add: table_map_def)
qed

lemma table_map_None_iff:
  assumes "table_ok hf cmp ts tb"
  shows "table_map cmp tb key = None \<longleftrightarrow> (\<forall>j < length tb. \<not> matches cmp key (tb ! j))"
proof
  assume none: "table_map cmp tb key = None"
  show "\<forall>j < length tb. \<not> matches cmp key (tb ! j)"
  proof (intro allI impI notI)
    fix j assume j: "j < length tb" "matches cmp key (tb ! j)"
    with table_map_match [OF _ j] none assms have "edata (tb ! j) = None" by (simp add: table_ok_def)
    moreover have "tb ! j \<in> set tb" using j(1) by simp
    ultimately have "ekey (tb ! j) = None" using assms by (auto simp: table_ok_def slots_ok_def)
    with j(2) show False by (simp add: matches_def)
  qed
qed (rule table_map_none)

lemma table_map_live:
  assumes "table_ok hf cmp ts tb"
  shows "table_map cmp tb key = Some d \<longleftrightarrow> (\<exists>e. e \<in># live tb \<and> matches cmp key e \<and> edata e = Some d)"
proof
  assume some: "table_map cmp tb key = Some d"
  then obtain e where e: "List.find (matches cmp key) tb = Some e" "edata e = Some d"
    by (auto simp: table_map_def split: option.splits)
  then obtain j where j: "j < length tb" "matches cmp key (tb ! j)" "e = tb ! j"
    by (auto simp: find_Some_iff)
  with e(2) matches_pop [OF j(2)] show "\<exists>e. e \<in># live tb \<and> matches cmp key e \<and> edata e = Some d"
    by (auto simp: in_live_iff)
next
  assume "\<exists>e. e \<in># live tb \<and> matches cmp key e \<and> edata e = Some d"
  then show "table_map cmp tb key = Some d"
    using assms table_map_match [of tb _ key] by (auto simp: in_live_iff table_ok_def)
qed

end

end
