(* ===== verification/TableOps.thy ===== *)
theory TableOps
  imports Probing
begin

text \<open>
  What the three loops that change a table do to it: storing an entry at a free slot,
  rehashing a list of entries into a fresh table, and closing the gap of a removed entry.
  Each lemma says that the table invariant is kept and how the multiset of live entries
  changes; the effect on the map follows from the latter.
\<close>

section \<open>Storing an entry\<close>

lemma keys_distinct_add:
  assumes "keys_distinct cmp M" and "ekey e = Some k"
    and "\<And>x b. x \<in># M \<Longrightarrow> ekey x = Some b \<Longrightarrow> cmp k b \<noteq> 0 \<and> cmp b k \<noteq> 0"
  shows "keys_distinct cmp (add_mset e M)"
  unfolding keys_distinct_def
proof (intro allI impI)
  fix e1 e2 a b
  assume sub: "{#e1, e2#} \<subseteq># add_mset e M" and ab: "ekey e1 = Some a" "ekey e2 = Some b"
  show "cmp a b \<noteq> 0"
  proof (cases "e1 = e \<or> e2 = e")
    case True
    then show ?thesis
    proof
      assume "e1 = e"
      with sub have "e2 \<in># M" by simp
      with ab \<open>e1 = e\<close> assms(2,3) show ?thesis by auto
    next
      assume "e2 = e"
      with sub have "e1 \<in># M" by (simp add: add_mset_commute)
      with ab \<open>e2 = e\<close> assms(2,3) show ?thesis by auto
    qed
  next
    case False
    then have "{#e1, e2#} - {#e#} = {#e1, e2#}" by simp
    moreover from sub have "{#e1, e2#} - {#e#} \<subseteq># M" by (simp add: subset_eq_diff_conv)
    ultimately have "{#e1, e2#} \<subseteq># M" by simp
    with assms(1) ab show ?thesis unfolding keys_distinct_def by blast
  qed
qed

lemma live_Nil [simp]: "live [] = {#}"
  by (simp add: live_def)

lemma live_Cons: "live (e # es) = (if ekey e \<noteq> None then add_mset e (live es) else live es)"
  by (simp add: live_def)

lemma pop_update: "i < length tb \<Longrightarrow> pop (tb[i := e]) x = (if x = i then ekey e \<noteq> None else pop tb x)"
  by (auto simp: pop_def)

context key_ops
begin

lemma store_ok:
  assumes ok: "table_ok hf cmp ts tb" and i: "i < length tb" "\<not> pop tb i"
    and e: "ekey e = Some k" "edata e \<noteq> None" and k: "cmp key k = 0"
    and sc: "scanned cmp key tb (home hf ts key) (cdist (length tb) (home hf ts key) i)"
    and miss: "\<forall>j < length tb. \<not> matches cmp key (tb ! j)"
  shows "table_ok hf cmp ts (tb[i := e])" and "live (tb[i := e]) = add_mset e (live tb)"
proof -
  show live: "live (tb[i := e]) = add_mset e (live tb)"
    using i e by (simp add: live_update)
  have "chains_ok hf ts (tb[i := e])"
    unfolding chains_ok_def probe_full_def
  proof (intro allI impI)
    fix j k' x
    assume j: "j < length (tb[i := e])" "ekey (tb[i := e] ! j) = Some k'"
      and x: "x < length (tb[i := e])"
      "cdist (length (tb[i := e])) (home hf ts k') x < cdist (length (tb[i := e])) (home hf ts k') j"
    show "pop (tb[i := e]) x"
    proof (cases "j = i")
      case True
      with j i e have "home hf ts k' = home hf ts key" using k cmp_home by simp
      with x True sc have "pop tb x" by (simp add: scanned_def)
      with i e show ?thesis by (simp add: pop_update)
    next
      case False
      with j x ok have "pop tb x" by (simp add: table_ok_def chains_ok_def probe_full_def)
      with i e show ?thesis by (simp add: pop_update)
    qed
  qed
  moreover have "keys_distinct cmp (live (tb[i := e]))"
    unfolding live
  proof (rule keys_distinct_add [OF _ e(1)])
    fix y b assume y: "y \<in># live tb" "ekey y = Some b"
    then obtain j where j: "j < length tb" "tb ! j = y" by (auto simp: in_live_iff)
    with miss y have "cmp key b \<noteq> 0" by (auto simp: matches_def)
    with k show "cmp k b \<noteq> 0 \<and> cmp b k \<noteq> 0" using cmp_sym cmp_trans by blast
  qed (use ok in \<open>simp add: table_ok_def\<close>)
  moreover have "slots_ok (tb[i := e])"
    using ok e by (intro slots_ok_update) (simp_all add: table_ok_def)
  ultimately show "table_ok hf cmp ts (tb[i := e])"
    using ok by (simp add: table_ok_def)
qed

section \<open>Effect on the map\<close>

lemma live_edata: "table_ok hf cmp ts tb \<Longrightarrow> e \<in># live tb \<Longrightarrow> edata e \<noteq> None"
  by (auto simp: table_ok_def slots_ok_def live_def)

lemma table_map_add:
  assumes ok: "table_ok hf cmp ts tb" and ok': "table_ok hf cmp ts' tb'"
    and live: "live tb' = add_mset e (live tb)" and e: "ekey e = Some k"
  shows "table_map cmp tb' key = (if cmp key k = 0 then edata e else table_map cmp tb key)"
proof (cases "cmp key k = 0")
  case True
  obtain d where d: "edata e = Some d" using live_edata [OF ok'] live by fastforce
  have "matches cmp key e" using True e by (simp add: matches_def)
  then have "table_map cmp tb' key = Some d" using table_map_live [OF ok'] live d by auto
  with True d show ?thesis by simp
next
  case False
  have "table_map cmp tb' key = Some d \<longleftrightarrow> table_map cmp tb key = Some d" for d
    using table_map_live [OF ok'] table_map_live [OF ok] live e False by (auto simp: matches_def)
  then have "table_map cmp tb' key = table_map cmp tb key"
    by (metis not_Some_eq)
  with False show ?thesis by simp
qed

lemma table_map_remove:
  assumes ok: "table_ok hf cmp ts tb" and ok': "table_ok hf cmp ts' tb'"
    and live: "live tb = add_mset e (live tb')" and e: "ekey e = Some k"
  shows "table_map cmp tb' key = (if cmp key k = 0 then None else table_map cmp tb key)"
proof (cases "cmp key k = 0")
  case True
  have "\<not> matches cmp key x" if x: "x \<in># live tb'" for x
  proof
    assume "matches cmp key x"
    then obtain b where b: "ekey x = Some b" "cmp key b = 0"
      by (auto simp: matches_def split: option.splits)
    from x live have "{#e, x#} \<subseteq># live tb" by simp
    then have "cmp k b \<noteq> 0" using ok e b(1) unfolding table_ok_def keys_distinct_def by blast
    with True b(2) show False using cmp_sym cmp_trans by blast
  qed
  then have "table_map cmp tb' key = None" using table_map_live [OF ok'] by (metis not_Some_eq)
  with True show ?thesis by simp
next
  case False
  with table_map_add [OF ok' ok live e] show ?thesis by simp
qed

lemma table_map_same_live:
  assumes "table_ok hf cmp ts tb" and "table_ok hf cmp ts' tb'" and "live tb' = live tb"
  shows "table_map cmp tb' = table_map cmp tb"
proof
  fix key
  have "table_map cmp tb' key = Some d \<longleftrightarrow> table_map cmp tb key = Some d" for d
    using table_map_live [OF assms(1)] table_map_live [OF assms(2)] assms(3) by simp
  then show "table_map cmp tb' key = table_map cmp tb key" by (metis not_Some_eq)
qed

section \<open>Finding an entry\<close>

lemma entry_find_result:
  assumes "hash hb = Some hf" and "compare hb = Some cmp" and "table hb = Some tb"
    and "table_ok hf cmp (table_size hb) tb"
  shows "\<exists>r. managed_object_hashmap_entry_find hb key fe = Inr r \<and>
    find_result cmp key fe tb (home hf (table_size hb) key) r"
proof -
  let ?ts = "table_size hb" and ?index = "managed_object_hashmap_calc_index hf (table_size hb) key"
  have p: "pow2_size ?ts" "length tb = unat ?ts" using assms(4) by (simp_all add: table_ok_def)
  have "find_result cmp key fe tb (home hf ?ts key)
    (entry_find_loop tb ?ts cmp key fe (unat ?ts) ?index)"
    using p home_less [OF p(1), of hf key]
    by (intro entry_find_loop_result) (auto simp: home_def scanned_def)
  with assms show ?thesis by (simp add: managed_object_hashmap_entry_find_def entries_def)
qed

section \<open>Rehashing\<close>

lemma rehash_loop_ok:
  assumes "hash hb = Some hf" and "compare hb = Some cmp" and "table hb = Some tb"
    and "table_ok hf cmp (table_size hb) tb" and "keys_distinct cmp (live es + live tb)"
    and "slots_ok es" and "size (live es) + size (live tb) \<le> length tb"
  shows "\<exists>tb'. rehash_loop es hb = Inr (hb\<lparr>table := Some tb'\<rparr>) \<and>
    table_ok hf cmp (table_size hb) tb' \<and> live tb' = live es + live tb"
  using assms
proof (induction es arbitrary: hb tb)
  case Nil
  have "hb\<lparr>table := Some tb\<rparr> = hb" using Nil.prems(3) by simp
  with Nil.prems show ?case by (intro exI [of _ tb]) simp
next
  case (Cons e es)
  have es: "slots_ok es" using Cons.prems(6) by (simp add: slots_ok_def)
  show ?case
  proof (cases "ekey e")
    case None
    with Cons.IH [OF Cons.prems(1-4)] Cons.prems es show ?thesis by (simp add: live_Cons)
  next
    case (Some k)
    let ?ts = "table_size hb"
    have e: "edata e \<noteq> None" using Cons.prems(6) Some by (simp add: slots_ok_def)
    have live_e: "live (e # es) + live tb = add_mset e (live es + live tb)"
      using Some by (simp add: live_Cons)
    have miss: "\<forall>j < length tb. \<not> matches cmp k (tb ! j)"
    proof (intro allI impI notI)
      fix j assume j: "j < length tb" "matches cmp k (tb ! j)"
      then have "tb ! j \<in># live tb" using matches_pop [OF j(2)] by (auto simp: in_live_iff)
      then have "{#e, tb ! j#} \<subseteq># live (e # es) + live tb" unfolding live_e by simp
      with Cons.prems(5) Some j(2) show False
        unfolding keys_distinct_def matches_def by (auto split: option.splits)
    qed
    obtain r where r: "managed_object_hashmap_entry_find hb k True = Inr r"
      "find_result cmp k True tb (home hf ?ts k) r"
      using entry_find_result [OF Cons.prems(1-4)] by blast
    have space: "size (live tb) < length tb" using Cons.prems(7) Some by (simp add: live_Cons)
    have hN: "home hf ?ts k < length tb"
      using Cons.prems(4) home_less [of ?ts hf k] by (simp add: table_ok_def)
    from find_free [OF miss r(2) space hN] obtain i where i: "r = Some i" "i < length tb" "\<not> pop tb i"
      "scanned cmp k tb (home hf ?ts k) (cdist (length tb) (home hf ?ts k) i)" by blast
    let ?tb = "tb[i := e]" and ?hb = "hb\<lparr>table := Some (tb[i := e])\<rparr>"
    have ok: "table_ok hf cmp ?ts ?tb" and live: "live ?tb = add_mset e (live tb)"
      using store_ok [OF Cons.prems(4) i(2,3) Some e cmp_refl i(4) miss] by blast+
    have "keys_distinct cmp (live es + live ?tb)"
      using Cons.prems(5) unfolding live_e live by simp
    moreover have "size (live es) + size (live ?tb) \<le> length ?tb"
      using Cons.prems(7) Some unfolding live by (simp add: live_Cons)
    ultimately obtain tb' where "rehash_loop es ?hb = Inr (?hb\<lparr>table := Some tb'\<rparr>)"
      "table_ok hf cmp ?ts tb'" "live tb' = live es + live ?tb"
      using Cons.IH [of ?hb ?tb] Cons.prems(1,2) ok es by auto
    then show ?thesis
      using Some r(1) i(1) Cons.prems(3) live by (auto simp: live_Cons entries_def)
  qed
qed

section \<open>Closing the gap\<close>

text \<open>
  While the loop runs, slot \<open>p\<close> is the hole: its old content is still in memory.  Every
  chain is complete but for the hole, an entry whose chain the hole cuts lies at or after
  the slot \<open>i\<close> looked at next, and a free slot lies ahead, before the hole and at most \<open>n\<close>
  steps away, where \<open>n\<close> is the number of iterations left.
\<close>

definition gap_inv :: "size_t \<Rightarrow> ('k, 'v) entry list \<Rightarrow> nat \<Rightarrow> nat \<Rightarrow> nat \<Rightarrow> bool" where
  "gap_inv ts tb p i n \<longleftrightarrow>
     p < unat ts \<and> i < unat ts \<and>
     (\<forall>j < unat ts. \<forall>k. j \<noteq> p \<longrightarrow> ekey (tb ! j) = Some k \<longrightarrow>
        (\<forall>x < unat ts. x \<noteq> p \<longrightarrow>
           cdist (unat ts) (home hf ts k) x < cdist (unat ts) (home hf ts k) j \<longrightarrow> pop tb x) \<and>
        (cdist (unat ts) (home hf ts k) p < cdist (unat ts) (home hf ts k) j \<longrightarrow>
           cdist (unat ts) p i \<le> cdist (unat ts) p j)) \<and>
     (\<exists>f < unat ts. \<not> pop tb f \<and> cdist (unat ts) i f < cdist (unat ts) i p \<and> cdist (unat ts) i f \<le> n)"

lemma gap_chain:
  "gap_inv ts tb p i n \<Longrightarrow> j < unat ts \<Longrightarrow> j \<noteq> p \<Longrightarrow> ekey (tb ! j) = Some k \<Longrightarrow> x < unat ts \<Longrightarrow> x \<noteq> p \<Longrightarrow>
     cdist (unat ts) (home hf ts k) x < cdist (unat ts) (home hf ts k) j \<Longrightarrow> pop tb x"
  unfolding gap_inv_def by blast

lemma gap_cut:
  "gap_inv ts tb p i n \<Longrightarrow> j < unat ts \<Longrightarrow> j \<noteq> p \<Longrightarrow> ekey (tb ! j) = Some k \<Longrightarrow>
     cdist (unat ts) (home hf ts k) p < cdist (unat ts) (home hf ts k) j \<Longrightarrow>
     cdist (unat ts) p i \<le> cdist (unat ts) p j"
  unfolding gap_inv_def by blast

text \<open>At a free slot no chain is cut any more.\<close>

lemma gap_closed:
  assumes inv: "gap_inv ts tb p i n" and ts: "pow2_size ts" "length tb = unat ts" and i: "\<not> pop tb i"
  shows "chains_ok hf ts (tb[p := empty_entry])"
  unfolding chains_ok_def probe_full_def
proof (intro allI impI)
  fix j k x
  let ?N = "unat ts" and ?tb = "tb[p := empty_entry]"
  let ?h = "home hf ts k"
  have p: "p < ?N" "i < ?N" "i \<noteq> p" using inv by (auto simp: gap_inv_def)
  assume j: "j < length ?tb" "ekey (?tb ! j) = Some k"
    and x: "x < length ?tb" "cdist (length ?tb) ?h x < cdist (length ?tb) ?h j"
  then have "j \<noteq> p" using p ts by auto
  then have jk: "j < ?N" "ekey (tb ! j) = Some k" using j ts by simp_all
  have hN: "?h < ?N" using ts(1) by (rule home_less)
  have "\<not> cdist ?N ?h p < cdist ?N ?h j"
  proof
    assume cut: "cdist ?N ?h p < cdist ?N ?h j"
    then have le: "cdist ?N p i \<le> cdist ?N p j" using gap_cut [OF inv jk(1) \<open>j \<noteq> p\<close> jk(2)] by blast
    have "i \<noteq> j" using i jk by (auto simp: pop_def)
    then have "cdist ?N p i \<noteq> cdist ?N p j" using cdist_inj p jk(1) by blast
    with le have lt: "cdist ?N p i < cdist ?N p j" by simp
    have "cdist ?N ?h j = cdist ?N ?h p + cdist ?N p j"
      using cut by (intro cdist_add) (use hN p jk in auto)
    with lt have less: "cdist ?N ?h p + cdist ?N p i < cdist ?N ?h j" by simp
    with cdist_less [OF hN jk(1)] have "cdist ?N ?h i = cdist ?N ?h p + cdist ?N p i"
      by (intro cdist_sum) (use hN p in simp_all)
    with less have "cdist ?N ?h i < cdist ?N ?h j" by simp
    then have "pop tb i" using gap_chain [OF inv jk(1) \<open>j \<noteq> p\<close> jk(2) p(2,3)] by blast
    with i show False by simp
  qed
  with x ts have "x \<noteq> p" by auto
  moreover from this have "pop tb x"
    using gap_chain [OF inv jk(1) \<open>j \<noteq> p\<close> jk(2)] x ts by simp
  ultimately show "pop ?tb x" by (simp add: pop_def)
qed

lemma gap_ahead:
  assumes "gap_inv ts tb p i (Suc n)" and "pop tb i"
  obtains f where "f < unat ts" and "\<not> pop tb f" and "f \<noteq> p" and "f \<noteq> i"
    and "cdist (unat ts) (Suc i mod unat ts) f < cdist (unat ts) (Suc i mod unat ts) p"
    and "cdist (unat ts) (Suc i mod unat ts) f \<le> n"
proof -
  let ?N = "unat ts"
  from assms(1) obtain f where f: "f < ?N" "\<not> pop tb f" "cdist ?N i f < cdist ?N i p" "cdist ?N i f \<le> Suc n"
    and i: "i < ?N" "p < ?N" by (auto simp: gap_inv_def)
  have "f \<noteq> i" and "p \<noteq> i" and "f \<noteq> p" using f assms(2) by auto
  then show thesis
    using that [of f] f i cdist_Suc_left [of i ?N f] cdist_Suc_left [of i ?N p] by simp
qed

text \<open>The entry at \<open>i\<close> stays: its chain does not cross the hole.\<close>

lemma gap_stay:
  assumes inv: "gap_inv ts tb p i (Suc n)" and ts: "pow2_size ts" and k: "ekey (tb ! i) = Some k"
    and stay: "\<not> cdist (unat ts) (home hf ts k) p < cdist (unat ts) (home hf ts k) i"
  shows "gap_inv ts tb p (Suc i mod unat ts) n"
proof -
  let ?N = "unat ts"
  have p: "p < ?N" "i < ?N" using inv by (auto simp: gap_inv_def)
  obtain f where f: "f < ?N" "\<not> pop tb f"
    "cdist ?N (Suc i mod ?N) f < cdist ?N (Suc i mod ?N) p" "cdist ?N (Suc i mod ?N) f \<le> n"
    using gap_ahead [OF inv] k by (auto simp: pop_def)
  have "cdist ?N p (Suc i mod ?N) \<le> cdist ?N p j"
    if j: "j < ?N" "j \<noteq> p" "ekey (tb ! j) = Some k'"
      and cut: "cdist ?N (home hf ts k') p < cdist ?N (home hf ts k') j" for j k'
  proof -
    have "cdist ?N p i \<le> cdist ?N p j" using gap_cut [OF inv j cut] .
    moreover have "j \<noteq> i" using stay k j cut by auto
    then have "cdist ?N p i \<noteq> cdist ?N p j" using cdist_inj p j(1) by blast
    ultimately have "cdist ?N p i < cdist ?N p j" by simp
    with cdist_less [OF p(1) j(1)] cdist_next [OF p] show ?thesis by simp
  qed
  with gap_chain [OF inv] f p show ?thesis unfolding gap_inv_def by auto
qed

text \<open>The entry at \<open>i\<close> moves into the hole, and its slot becomes the hole.\<close>

lemma gap_move:
  assumes inv: "gap_inv ts tb p i (Suc n)" and ts: "pow2_size ts" "length tb = unat ts"
    and k: "ekey (tb ! i) = Some k"
    and move: "cdist (unat ts) (home hf ts k) p < cdist (unat ts) (home hf ts k) i"
  shows "gap_inv ts (tb[p := tb ! i]) i (Suc i mod unat ts) n"
proof -
  let ?N = "unat ts" and ?tb = "tb[p := tb ! i]"
  have p: "p < ?N" "i < ?N" using inv by (auto simp: gap_inv_def)
  have "i \<noteq> p" using move by auto
  obtain f where f: "f < ?N" "\<not> pop tb f" "f \<noteq> p" "f \<noteq> i" "cdist ?N (Suc i mod ?N) f \<le> n"
    using gap_ahead [OF inv] k by (auto simp: pop_def)
  have nx: "Suc i mod ?N < ?N" using p by simp
  have chain: "pop ?tb x"
    if j: "j < ?N" "j \<noteq> i" "ekey (?tb ! j) = Some k'" and x: "x < ?N" "x \<noteq> i"
      and less: "cdist ?N (home hf ts k') x < cdist ?N (home hf ts k') j" for j k' x
  proof (cases "x = p")
    case True
    with p ts k show ?thesis by (simp add: pop_def)
  next
    case False
    show ?thesis
    proof (cases "j = p")
      case True
      with j p ts k have "k' = k" by simp
      with True less move have "cdist ?N (home hf ts k) x < cdist ?N (home hf ts k) i" by simp
      then have "pop tb x" using gap_chain [OF inv p(2) \<open>i \<noteq> p\<close> k x(1) False] by blast
      with False show ?thesis by (simp add: pop_def)
    next
      case jp: False
      with j have "ekey (tb ! j) = Some k'" by simp
      then have "pop tb x" using gap_chain [OF inv j(1) jp _ x(1) False less] by blast
      with False show ?thesis by (simp add: pop_def)
    qed
  qed
  have cut: "cdist ?N i (Suc i mod ?N) \<le> cdist ?N i j" if j: "j < ?N" "j \<noteq> i" for j
  proof -
    have "0 < cdist ?N i j" using cdist_eq_0 [OF p(2) j(1)] j(2) by auto
    moreover have "cdist ?N i (Suc i mod ?N) \<le> 1"
      using cdist_next [OF p(2) p(2)] p by (cases "?N = 1") auto
    ultimately show ?thesis by simp
  qed
  have "cdist ?N (Suc i mod ?N) f < cdist ?N (Suc i mod ?N) i"
    using cdist_less [OF nx f(1)] cdist_inj [OF nx f(1) p(2)] f(4) cdist_Suc_self [OF p(2)] by force
  moreover have "\<not> pop ?tb f" using f(2,3) by (simp add: pop_def)
  ultimately show ?thesis
    unfolding gap_inv_def using chain cut f p nx by auto
qed

text \<open>The whole loop.\<close>

lemma live_move:
  assumes "p < length tb" and "i < length tb" and "i \<noteq> p"
  shows "live ((tb[p := tb ! i])[i := empty_entry]) = live (tb[p := empty_entry])"
  using assms by (simp add: live_update pop_update) (auto simp: pop_def)

lemma entry_remove_loop_ok:
  assumes "gap_inv ts tb (unat removed) (unat index) n" and "pow2_size ts" and "length tb = unat ts"
    and "slots_ok tb" and "entry_remove_loop tb ts hf n index removed = (tb', hole)"
  shows "length tb' = unat ts \<and> unat hole < unat ts \<and> chains_ok hf ts (tb'[unat hole := empty_entry]) \<and>
    slots_ok tb' \<and> live (tb'[unat hole := empty_entry]) = live (tb[unat removed := empty_entry])"
  using assms
proof (induction n arbitrary: tb index removed)
  case 0
  from 0(1) have "\<not> pop tb (unat index)"
    by (auto simp: gap_inv_def cdist_eq_0)
  with gap_closed [OF 0(1-3)] 0 show ?case by (auto simp: gap_inv_def)
next
  case (Suc n)
  let ?i = "unat index" and ?p = "unat removed" and ?N = "unat ts"
  let ?next = "MANAGED_OBJECT_HASHMAP_PROBE_NEXT ts index"
  have p: "?p < ?N" "?i < ?N" using Suc.prems(1) by (auto simp: gap_inv_def)
  have nx: "unat ?next = Suc ?i mod ?N" using Suc.prems(2) by (rule probe_next_unat)
  show ?case
  proof (cases "ekey (tb ! ?i)")
    case None
    with gap_closed [OF Suc.prems(1-3)] Suc.prems p show ?thesis by (auto simp: pop_def)
  next
    case (Some k)
    let ?h = "home hf ts k" and ?e = "managed_object_hashmap_calc_index hf ts k"
    have hN: "?h < ?N" using Suc.prems(2) by (rule home_less)
    then have d: "unat (MANAGED_OBJECT_HASHMAP_SIZE_MOD ts (a - ?e)) = cdist ?N ?h (unat a)"
      if "unat a < ?N" for a
      using that Suc.prems(2) size_mod_diff [of ts a ?e] by (simp add: home_def)
    have test: "MANAGED_OBJECT_HASHMAP_SIZE_MOD ts (removed - ?e) <
        MANAGED_OBJECT_HASHMAP_SIZE_MOD ts (index - ?e) \<longleftrightarrow> cdist ?N ?h ?p < cdist ?N ?h ?i"
      using d p by (simp add: word_less_nat_alt)
    show ?thesis
    proof (cases "cdist ?N ?h ?p < cdist ?N ?h ?i")
      case True
      let ?tb = "tb[?p := tb ! ?i]"
      have "?i \<noteq> ?p" using True by auto
      have inv: "gap_inv ts ?tb ?i (unat ?next) n"
        using gap_move [OF Suc.prems(1-3) Some True] nx by simp
      have "tb ! ?i \<in> set tb" using p Suc.prems(3) by simp
      then have "slots_ok ?tb"
        using Suc.prems(4) by (intro slots_ok_update) (auto simp: slots_ok_def)
      moreover have "entry_remove_loop ?tb ts hf n ?next index = (tb', hole)"
        using Suc.prems(5) Some True test by simp
      ultimately show ?thesis
        using Suc.IH [OF inv Suc.prems(2)] live_move [of ?p tb ?i] \<open>?i \<noteq> ?p\<close> p Suc.prems(3) by simp
    next
      case False
      have inv: "gap_inv ts tb ?p (unat ?next) n"
        using gap_stay [OF Suc.prems(1,2) Some False] nx by simp
      have "entry_remove_loop tb ts hf n ?next removed = (tb', hole)"
        using Suc.prems(5) Some False test by simp
      then show ?thesis by (rule Suc.IH [OF inv Suc.prems(2-4)])
    qed
  qed
qed

lemma card_cdist_below:
  assumes "a < n" and "d \<le> n"
  shows "card {x. x < n \<and> cdist n a x < d} = d"
proof -
  have inj: "inj_on (cdist n a) {..<n}" using assms(1) by (auto simp: inj_on_def intro: cdist_inj)
  moreover have "cdist n a ` {..<n} \<subseteq> {..<n}" using assms(1) by (auto simp: cdist_less)
  ultimately have surj: "cdist n a ` {..<n} = {..<n}" by (intro endo_inj_surj) auto
  have "cdist n a ` {x. x < n \<and> cdist n a x < d} = {..<d}"
  proof (intro equalityI subsetI)
    fix y assume "y \<in> {..<d}"
    with assms(2) surj have "y \<in> cdist n a ` {..<n}" by auto
    with \<open>y \<in> {..<d}\<close> show "y \<in> cdist n a ` {x. x < n \<and> cdist n a x < d}" by auto
  qed auto
  moreover have "inj_on (cdist n a) {x. x < n \<and> cdist n a x < d}"
    using inj by (rule inj_on_subset) auto
  ultimately show ?thesis by (metis card_image card_lessThan)
qed

lemma gap_start:
  assumes ok: "table_ok hf cmp ts tb" and r: "r < unat ts" "pop tb r" and room: "size (live tb) < unat ts"
  shows "gap_inv ts tb r (Suc r mod unat ts) (size (live tb) - 1)"
proof -
  let ?N = "unat ts" and ?nx = "Suc r mod unat ts"
  have len: "length tb = ?N" using ok by (simp add: table_ok_def)
  have nx: "?nx < ?N" using r by simp
  from free_slot_exists [of tb] room len obtain f0 where "f0 < ?N \<and> \<not> pop tb f0" by auto
  then obtain f where f: "f < ?N" "\<not> pop tb f"
    and least: "\<And>x. x < ?N \<Longrightarrow> \<not> pop tb x \<Longrightarrow> cdist ?N ?nx f \<le> cdist ?N ?nx x"
    using ex_has_least_nat [of "\<lambda>x. x < ?N \<and> \<not> pop tb x" f0 "cdist ?N ?nx"] by blast
  have "f \<noteq> r" using f(2) r(2) by auto
  then have before: "cdist ?N ?nx f < cdist ?N ?nx r"
    using cdist_less [OF nx f(1)] cdist_inj [OF nx f(1) r(1)] cdist_Suc_self [OF r(1)] by force
  have "{x. x < ?N \<and> cdist ?N ?nx x < cdist ?N ?nx f} \<subseteq> {x. x < length tb \<and> pop tb x} - {r}"
    using least before len by (auto simp: not_less [symmetric])
  then have "card {x. x < ?N \<and> cdist ?N ?nx x < cdist ?N ?nx f} \<le> card ({x. x < length tb \<and> pop tb x} - {r})"
    by (intro card_mono) auto
  then have close: "cdist ?N ?nx f \<le> size (live tb) - 1"
    using card_cdist_below [OF nx less_imp_le [OF cdist_less [OF nx f(1)]]] r len by (simp add: size_live)
  have "cdist ?N r ?nx \<le> cdist ?N r j" if j: "j < ?N" "j \<noteq> r" for j
  proof -
    have "0 < cdist ?N r j" using cdist_eq_0 [OF r(1) j(1)] j(2) by auto
    moreover have "cdist ?N r ?nx \<le> 1"
      using cdist_next [OF r(1) r(1)] r(1) by (cases "?N = 1") auto
    ultimately show ?thesis by simp
  qed
  then show ?thesis
    unfolding gap_inv_def
    using ok len f before close nx r by (auto simp: table_ok_def chains_ok_def probe_full_def)
qed

text \<open>Removal of a whole entry, on a table with a free slot.\<close>

lemma entry_remove_table:
  assumes ok: "table_ok hf cmp ts tb" and r: "r < unat ts" "pop tb r" and room: "size (live tb) < unat ts"
    and loop: "entry_remove_loop tb ts hf (size (live tb) - 1)
      (MANAGED_OBJECT_HASHMAP_PROBE_NEXT ts (word_of_nat r)) (word_of_nat r) = (tb', hole)"
  shows "table_ok hf cmp ts (tb'[unat hole := empty_entry])"
    and "live tb = add_mset (tb ! r) (live (tb'[unat hole := empty_entry]))"
proof -
  have p: "pow2_size ts" "length tb = unat ts" using ok by (simp_all add: table_ok_def)
  have "r < 2 ^ 64" using r(1) unat_less_64 [of ts] by simp
  then have ur: "unat (word_of_nat r :: size_t) = r" by (simp add: unat_of_nat)
  have inv: "gap_inv ts tb (unat (word_of_nat r :: size_t))
      (unat (MANAGED_OBJECT_HASHMAP_PROBE_NEXT ts (word_of_nat r))) (size (live tb) - 1)"
    using gap_start [OF ok r room] probe_next_unat [OF p(1)] ur by simp
  have "slots_ok tb" using ok by (simp add: table_ok_def)
  from entry_remove_loop_ok [OF inv p this loop] ur
  have res: "length tb' = unat ts" "unat hole < unat ts"
    "chains_ok hf ts (tb'[unat hole := empty_entry])" "slots_ok tb'"
    "live (tb'[unat hole := empty_entry]) = live (tb[r := empty_entry])" by simp_all
  have "live (tb[r := empty_entry]) = live tb - {#tb ! r#}"
    using r p by (simp add: live_update)
  moreover have "tb ! r \<in># live tb" using r p by (auto simp: in_live_iff)
  ultimately show live: "live tb = add_mset (tb ! r) (live (tb'[unat hole := empty_entry]))"
    using res(5) by simp
  have "keys_distinct cmp (live (tb'[unat hole := empty_entry]))"
    using ok live by (auto simp: table_ok_def intro: keys_distinct_mono)
  moreover have "slots_ok (tb'[unat hole := empty_entry])"
    using res(4) by (rule slots_ok_update) simp
  ultimately show "table_ok hf cmp ts (tb'[unat hole := empty_entry])"
    using res p(1) by (simp add: table_ok_def)
qed

end

end
