(* ===== verification/HashmapInv.thy ===== *)
theory HashmapInv
  imports TableOps
begin

text \<open>
  The invariant of the hashmap and the map it stands for, the size computation, and that
  every operation keeps the invariant and has its effect on the map.
\<close>

section \<open>Invariant and abstraction\<close>

text \<open>Table sizes are powers of two from \<open>2 ^ 5\<close> to \<open>2 ^ 30\<close>.\<close>

definition size_ok :: "size_t \<Rightarrow> bool" where
  "size_ok ts \<longleftrightarrow> (\<exists>k. 5 \<le> k \<and> k \<le> 30 \<and> ts = 2 ^ k)"

definition dup_ok :: "('k \<Rightarrow> 'k \<Rightarrow> int) \<Rightarrow> ('k \<Rightarrow> 'k option) option \<Rightarrow> bool" where
  "dup_ok cmp dup \<longleftrightarrow> (\<forall>f k k'. dup = Some f \<longrightarrow> f k = Some k' \<longrightarrow> cmp k k' = 0)"

definition hm_inv :: "('k, 'v) hb \<Rightarrow> bool" where
  "hm_inv hb \<longleftrightarrow>
     (\<exists>hf cmp. hash hb = Some hf \<and> compare hb = Some cmp \<and> key_ops hf cmp \<and>
        dup_ok cmp (key_dup hb) \<and> size_ok (table_size_init hb) \<and>
        (case table hb of
           None \<Rightarrow> table_size hb = 0 \<and> hm_size hb = 0
         | Some tb \<Rightarrow> size_ok (table_size hb) \<and> table_ok hf cmp (table_size hb) tb \<and>
                      unat (hm_size hb) = size (live tb)))"

definition hm_map :: "('k, 'v) hb \<Rightarrow> 'k \<Rightarrow> 'v option" where
  "hm_map hb = (case compare hb of None \<Rightarrow> (\<lambda>_. None) | Some cmp \<Rightarrow> table_map cmp (entries hb))"

definition same_key :: "('k, 'v) hb \<Rightarrow> 'k \<Rightarrow> 'k \<Rightarrow> bool" where
  "same_key hb a b \<longleftrightarrow> (case compare hb of None \<Rightarrow> False | Some cmp \<Rightarrow> cmp a b = 0)"

text \<open>The largest element count for which \<open>size + size / 3\<close> still rounds to an \<open>int\<close> power of two.\<close>

definition max_elements :: nat where
  "max_elements = 805306368"

lemma size_ok_pow2: "size_ok ts \<Longrightarrow> pow2_size ts"
  unfolding size_ok_def pow2_size_def by (elim exE, rule_tac x = k in exI) simp

lemma size_ok_unat: "size_ok ts \<Longrightarrow> \<exists>k. 5 \<le> k \<and> k \<le> 30 \<and> unat ts = 2 ^ k"
  by (auto simp: size_ok_def)

lemma size_ok_bounds: "size_ok ts \<Longrightarrow> 32 \<le> unat ts \<and> unat ts \<le> 2 ^ 30"
proof -
  assume "size_ok ts"
  then obtain k where k: "5 \<le> k" "k \<le> 30" "unat ts = 2 ^ k" using size_ok_unat by blast
  then have "(2::nat) ^ 5 \<le> 2 ^ k" and "(2::nat) ^ k \<le> 2 ^ 30"
    by (intro power_increasing; simp)+
  with k(3) show ?thesis by simp
qed

lemma size_ok_power: "5 \<le> k \<Longrightarrow> k \<le> 30 \<Longrightarrow> size_ok (2 ^ k)"
  by (auto simp: size_ok_def)

lemma size_ok_default [simp]: "size_ok MANAGED_OBJECT_HASHMAP_SIZE_DEFAULT"
  using size_ok_power [of 7] by (simp add: MANAGED_OBJECT_HASHMAP_SIZE_DEFAULT_def)

lemma size_ok_min [simp]: "size_ok MANAGED_OBJECT_HASHMAP_SIZE_MIN"
  using size_ok_power [of 5] by (simp add: MANAGED_OBJECT_HASHMAP_SIZE_MIN_def)

section \<open>Table sizes\<close>

text \<open>The sum of the code is a \<open>size_t\<close>, and wraps from \<open>3 * 2 ^ 62\<close> elements on.\<close>

lemma calc_table_size_mod:
  assumes init: "size_ok (table_size_init hb)" and t: "t = (unat sz + unat sz div 3) mod 2 ^ 64"
  shows "managed_object_hashmap_calc_table_size hb sz =
    (if t < unat (table_size_init hb) then Inr (table_size_init hb)
     else if 2 ^ 30 < t then Inl Undefined_behaviour
     else Inr (2 ^ bit_length (t - 1)))"
proof -
  let ?ts = "sz + sz div 3"
  have ts: "unat ?ts = t"
    using t by (simp add: unat_word_ariths unat_div mod_add_right_eq)
  have less: "?ts < table_size_init hb \<longleftrightarrow> t < unat (table_size_init hb)"
    by (simp add: word_less_nat_alt ts)
  show ?thesis
  proof (cases "t < unat (table_size_init hb)")
    case True
    with less show ?thesis by (simp add: managed_object_hashmap_calc_table_size_def Let_def)
  next
    case False
    with size_ok_bounds [OF init] have t32: "32 \<le> t" by simp
    have ge: "1 \<le> ?ts" using t32 ts by (simp add: word_le_nat_alt)
    then have pred: "unat (?ts - 1) = t - 1" using ts by (simp add: unat_sub)
    then have "?ts - 1 \<noteq> 0" using t32 by auto
    moreover have "bit_length (t - 1) < 31 \<longleftrightarrow> \<not> 2 ^ 30 < t"
    proof
      assume "bit_length (t - 1) < 31"
      then have "bit_length (t - 1) \<le> 30" by simp
      then have "(2::nat) ^ bit_length (t - 1) \<le> 2 ^ 30" by (intro power_increasing) simp_all
      with bit_length_upper [of "t - 1"] show "\<not> 2 ^ 30 < t" by simp
    next
      assume "\<not> 2 ^ 30 < t"
      then have "t - 1 < 2 ^ 30" using t32 by simp
      then have "bit_length (t - 1) \<le> 30" by (rule bit_length_le)
      then show "bit_length (t - 1) < 31" by simp
    qed
    ultimately show ?thesis
      using False less pred
      by (simp add: managed_object_hashmap_calc_table_size_def Let_def push_bit_eq_mult)
  qed
qed

lemma calc_table_size_nat:
  assumes "size_ok (table_size_init hb)" and "t = unat sz + unat sz div 3" and "t < 2 ^ 64"
  shows "managed_object_hashmap_calc_table_size hb sz =
    (if t < unat (table_size_init hb) then Inr (table_size_init hb)
     else if 2 ^ 30 < t then Inl Undefined_behaviour
     else Inr (2 ^ bit_length (t - 1)))"
  by (rule calc_table_size_mod [OF assms(1)]) (use assms(2,3) in simp)

lemma bit_length_size_ok: "32 \<le> t \<Longrightarrow> t \<le> 2 ^ 30 \<Longrightarrow> size_ok (2 ^ bit_length (t - 1))"
proof (rule size_ok_power)
  assume t: "32 \<le> t" "t \<le> 2 ^ 30"
  have "t - 1 < 2 ^ 30" using t by simp
  then show "bit_length (t - 1) \<le> 30" by (rule bit_length_le)
  show "5 \<le> bit_length (t - 1)"
  proof (rule ccontr)
    assume "\<not> 5 \<le> bit_length (t - 1)"
    then have "(2::nat) ^ bit_length (t - 1) \<le> 2 ^ 4" by (intro power_increasing) simp_all
    with bit_length_upper [of "t - 1"] t show False by simp
  qed
qed

lemma calc_table_size_wrapped:
  assumes "size_ok (table_size_init hb)" and "t = (unat sz + unat sz div 3) mod 2 ^ 64"
  shows "(2 ^ 30 < t \<longrightarrow> managed_object_hashmap_calc_table_size hb sz = Inl Undefined_behaviour) \<and>
    (t \<le> 2 ^ 30 \<longrightarrow>
       (\<exists>ts. managed_object_hashmap_calc_table_size hb sz = Inr ts \<and> size_ok ts \<and>
          table_size_init hb \<le> ts \<and> t \<le> unat ts \<and> (ts = table_size_init hb \<or> unat ts < 2 * t)))"
proof (intro conjI impI)
  assume big: "2 ^ 30 < t"
  with size_ok_bounds [OF assms(1)] show "managed_object_hashmap_calc_table_size hb sz = Inl Undefined_behaviour"
    using calc_table_size_mod [OF assms] by simp
next
  assume small: "t \<le> 2 ^ 30"
  let ?init = "table_size_init hb"
  show "\<exists>ts. managed_object_hashmap_calc_table_size hb sz = Inr ts \<and> size_ok ts \<and>
    ?init \<le> ts \<and> t \<le> unat ts \<and> (ts = ?init \<or> unat ts < 2 * t)"
  proof (cases "t < unat ?init")
    case True
    with calc_table_size_mod [OF assms] assms(1) show ?thesis by simp
  next
    case False
    let ?b = "bit_length (t - 1)"
    have t32: "32 \<le> t" using False size_ok_bounds [OF assms(1)] by simp
    have "t - 1 < 2 ^ 30" using small t32 by simp
    then have b30: "?b \<le> 30" by (rule bit_length_le)
    have up: "t \<le> 2 ^ ?b" using bit_length_upper [of "t - 1"] t32 by simp
    have "0 < ?b" using bit_length_pos t32 by simp
    then have "(2::nat) ^ ?b = 2 * 2 ^ (?b - 1)" by (metis Suc_diff_1 power_Suc)
    moreover have "2 ^ (?b - 1) \<le> t - 1" using bit_length_lower [of "t - 1"] t32 by simp
    ultimately have low: "(2::nat) ^ ?b < 2 * t" using t32 by simp
    have u: "unat ((2::size_t) ^ ?b) = 2 ^ ?b" using b30 by simp
    have "?init \<le> 2 ^ ?b" using False up u by (simp add: word_le_nat_alt)
    then show ?thesis
      using calc_table_size_mod [OF assms] False small bit_length_size_ok [OF t32 small] up low u
      by (intro exI [of _ "2 ^ ?b"]) simp
  qed
qed

lemma calc_table_size_cases:
  assumes "size_ok (table_size_init hb)" and "t = unat sz + unat sz div 3" and "t < 2 ^ 64"
  shows "(2 ^ 30 < t \<longrightarrow> managed_object_hashmap_calc_table_size hb sz = Inl Undefined_behaviour) \<and>
    (t \<le> 2 ^ 30 \<longrightarrow>
       (\<exists>ts. managed_object_hashmap_calc_table_size hb sz = Inr ts \<and> size_ok ts \<and>
          table_size_init hb \<le> ts \<and> t \<le> unat ts \<and> (ts = table_size_init hb \<or> unat ts < 2 * t)))"
  by (rule calc_table_size_wrapped [OF assms(1)]) (use assms(2,3) in simp)

text \<open>
  C35: The size that \<open>calc_table_size\<close> picks for \<open>size\<close> elements.  With an initial size that
  is a power of two from 32 on, let \<open>t\<close> be the sum \<open>size + size / 3\<close> as the code has it, modulo
  \<open>2 ^ 64\<close>: the result is the initial size if \<open>t\<close> is below it, and otherwise the least power of two
  that is at least \<open>t\<close>; if \<open>t\<close> is beyond \<open>2 ^ 30\<close> the \<open>int\<close> shift of the code is undefined.  The sum
  is not reduced for any number of elements below \<open>3 * 2 ^ 62\<close>; for \<open>3 * 2 ^ 62\<close> itself it is 0, and the
  result is the initial size.
\<close>

theorem calc_table_size_spec:
  assumes "size_ok (table_size_init hb)" and "t = (unat sz + unat sz div 3) mod 2 ^ 64"
  shows "(2 ^ 30 < t \<longrightarrow> managed_object_hashmap_calc_table_size hb sz = Inl Undefined_behaviour) \<and>
    (t \<le> 2 ^ 30 \<longrightarrow>
       (\<exists>ts. managed_object_hashmap_calc_table_size hb sz = Inr ts \<and> size_ok ts \<and>
          table_size_init hb \<le> ts \<and> t \<le> unat ts \<and> (ts = table_size_init hb \<or> unat ts < 2 * t))) \<and>
    (unat sz < 3 * 2 ^ 62 \<longrightarrow> t = unat sz + unat sz div 3)"
proof -
  have "unat sz + unat sz div 3 < 2 ^ 64" if "unat sz < 3 * 2 ^ 62"
  proof -
    have "unat sz div 3 < 2 ^ 62" using that by (simp add: less_mult_imp_div_less)
    with that show ?thesis by simp
  qed
  then have "unat sz < 3 * 2 ^ 62 \<longrightarrow> t = unat sz + unat sz div 3" using assms(2) by simp
  then show ?thesis using calc_table_size_wrapped [OF assms] by blast
qed

lemma calc_table_size_zero:
  assumes "size_ok (table_size_init hb)"
  shows "managed_object_hashmap_calc_table_size hb 0xC000000000000000 = Inr (table_size_init hb)"
  using calc_table_size_mod [OF assms refl, of "0xC000000000000000"] size_ok_bounds [OF assms] by simp

section \<open>Working with the invariant\<close>

lemma hm_invE:
  assumes "hm_inv hb"
  obtains hf cmp where "hash hb = Some hf" and "compare hb = Some cmp" and "key_ops hf cmp"
    and "dup_ok cmp (key_dup hb)" and "size_ok (table_size_init hb)"
    and "table hb = None \<longrightarrow> table_size hb = 0 \<and> hm_size hb = 0"
    and "\<forall>tb. table hb = Some tb \<longrightarrow> size_ok (table_size hb) \<and>
           table_ok hf cmp (table_size hb) tb \<and> unat (hm_size hb) = size (live tb)"
  using assms unfolding hm_inv_def by (auto split: option.splits)

lemma hm_invI:
  assumes "hash hb = Some hf" and "compare hb = Some cmp" and "key_ops hf cmp"
    and "dup_ok cmp (key_dup hb)" and "size_ok (table_size_init hb)"
    and "table hb = Some tb" and "size_ok (table_size hb)" and "table_ok hf cmp (table_size hb) tb"
    and "unat (hm_size hb) = size (live tb)"
  shows "hm_inv hb"
  using assms unfolding hm_inv_def by auto

lemma hm_size_le: "hm_inv hb \<Longrightarrow> unat (hm_size hb) \<le> unat (table_size hb)"
proof (erule hm_invE)
  fix hf cmp
  assume "table hb = None \<longrightarrow> table_size hb = 0 \<and> hm_size hb = 0"
    and "\<forall>tb. table hb = Some tb \<longrightarrow> size_ok (table_size hb) \<and>
           table_ok hf cmp (table_size hb) tb \<and> unat (hm_size hb) = size (live tb)"
  then show ?thesis
    using size_live_le [of "the (table hb)"] by (cases "table hb") (auto simp: table_ok_def)
qed

lemma hm_map_table:
  "compare hb = Some cmp \<Longrightarrow> table hb = Some tb \<Longrightarrow> hm_map hb = table_map cmp tb"
  by (simp add: hm_map_def entries_def)

lemma hm_map_no_table: "table hb = None \<Longrightarrow> hm_map hb key = None"
  by (auto simp: hm_map_def entries_def table_map_def split: option.splits)

lemma notify_realloc_trace: "\<exists>tr. notify_realloc ud b n hb = hb\<lparr>trace := tr\<rparr>"
proof (cases "on_realloc hb")
  case True
  then show ?thesis by (auto simp: notify_realloc_def log_event_def)
next
  case False
  have "hb\<lparr>trace := trace hb\<rparr> = hb" by simp
  with False show ?thesis by (metis notify_realloc_def)
qed

lemma hm_inv_trace [simp]: "hm_inv (hb\<lparr>trace := tr\<rparr>) = hm_inv hb"
  by (simp add: hm_inv_def split: option.split)

lemma hm_map_trace [simp]: "hm_map (hb\<lparr>trace := tr\<rparr>) = hm_map hb"
  by (simp add: hm_map_def entries_def split: option.split)

lemma calloc_entries_ok:
  "size_ok ts \<Longrightarrow> calloc_entries mem ts = (if mem then Some (replicate (unat ts) empty_entry) else None)"
  using size_ok_bounds [of ts] by (auto simp: calloc_entries_def)

section \<open>Rehashing keeps the map\<close>

lemma rehash_fail:
  "size_ok ts \<Longrightarrow> unat (hm_size hb) \<le> unat ts \<Longrightarrow>
     managed_object_hashmap_rehash hb ud ts False = Inr (- ENOMEM, hb)"
  by (simp add: managed_object_hashmap_rehash_def pow2_size_assert size_ok_pow2
      word_le_nat_alt calloc_entries_ok)

lemma rehash_ok:
  assumes inv: "hm_inv hb" and ts: "size_ok ts" and room: "unat (hm_size hb) \<le> unat ts"
  shows "\<exists>tb tr. managed_object_hashmap_rehash hb ud ts True =
      Inr (0, hb\<lparr>table_size := ts, table := Some tb, trace := tr\<rparr>) \<and>
    hm_inv (hb\<lparr>table_size := ts, table := Some tb\<rparr>) \<and>
    hm_map (hb\<lparr>table_size := ts, table := Some tb\<rparr>) = hm_map hb"
proof -
  from inv obtain hf cmp where fns: "hash hb = Some hf" "compare hb = Some cmp" and ko: "key_ops hf cmp"
    and dup: "dup_ok cmp (key_dup hb)" and init: "size_ok (table_size_init hb)"
    and none: "table hb = None \<longrightarrow> table_size hb = 0 \<and> hm_size hb = 0"
    and some: "\<forall>tb. table hb = Some tb \<longrightarrow> size_ok (table_size hb) \<and>
       table_ok hf cmp (table_size hb) tb \<and> unat (hm_size hb) = size (live tb)"
    by (rule hm_invE)
  let ?new = "replicate (unat ts) empty_entry"
  let ?hb = "hb\<lparr>table_size := ts, table := Some ?new\<rparr>"
  have p: "pow2_size ts" using ts by (rule size_ok_pow2)
  have new_ok: "table_ok hf cmp ts ?new" using p by (rule empty_table_ok)
  have start: "managed_object_hashmap_rehash hb ud ts True =
    (case table hb of
       None \<Rightarrow> Inr (0, notify_realloc ud True (ts * 2) ?hb)
     | Some old_table \<Rightarrow>
         (case rehash_loop (take (unat (table_size hb)) old_table) ?hb of
            Inl f \<Rightarrow> Inl f
          | Inr hb2 \<Rightarrow> Inr (0, log_event Table_freed (notify_realloc ud True (ts * 2) hb2))))"
    using ts room p
    by (simp add: managed_object_hashmap_rehash_def pow2_size_assert word_le_nat_alt calloc_entries_ok Let_def)
  show ?thesis
  proof (cases "table hb")
    case None
    obtain tr where "notify_realloc ud True (ts * 2) ?hb = ?hb\<lparr>trace := tr\<rparr>"
      using notify_realloc_trace by blast
    moreover have "hm_inv ?hb"
      using fns ko dup init ts new_ok none None by (intro hm_invI [of _ hf cmp ?new]) simp_all
    moreover have "hm_map ?hb = hm_map hb"
    proof
      fix key
      have "table_map cmp ?new key = None"
        by (rule key_ops.table_map_none [OF ko]) (simp add: matches_def)
      with None fns show "hm_map ?hb key = hm_map hb key"
        by (simp add: hm_map_no_table hm_map_table)
    qed
    ultimately show ?thesis using start None by auto
  next
    case (Some old)
    with some have old: "table_ok hf cmp (table_size hb) old" "unat (hm_size hb) = size (live old)"
      by simp_all
    have take: "take (unat (table_size hb)) old = old" using old(1) by (simp add: table_ok_def)
    have "\<exists>tb'. rehash_loop old ?hb = Inr (?hb\<lparr>table := Some tb'\<rparr>) \<and>
      table_ok hf cmp (table_size ?hb) tb' \<and> live tb' = live old + live ?new"
      using fns new_ok old room
      by (intro key_ops.rehash_loop_ok [OF ko]) (simp_all add: table_ok_def)
    then obtain tb' where tb': "rehash_loop old ?hb = Inr (?hb\<lparr>table := Some tb'\<rparr>)"
      "table_ok hf cmp ts tb'" "live tb' = live old" by auto
    let ?hb' = "hb\<lparr>table_size := ts, table := Some tb'\<rparr>"
    obtain tr where tr: "notify_realloc ud True (ts * 2) ?hb' = ?hb'\<lparr>trace := tr\<rparr>"
      using notify_realloc_trace by blast
    have "hm_inv ?hb'"
      using fns ko dup init ts tb' old by (intro hm_invI [of _ hf cmp tb']) simp_all
    moreover have "hm_map ?hb' = hm_map hb"
      using key_ops.table_map_same_live [OF ko old(1) tb'(2,3)] fns Some by (simp add: hm_map_table)
    ultimately show ?thesis
      using start Some take tb'(1) tr by (auto simp: log_event_def)
  qed
qed

text \<open>
  C15: Rehashing keeps the map.  On a map that satisfies the invariant, with a new size that
  is a legal power of two and not below the element count, a rehash never fails an
  assertion; if \<open>calloc\<close> succeeds it returns 0, the table has the new size, and the map,
  the element count and the invariant are the same; if not it returns \<open>-ENOMEM\<close> and
  changes nothing.
\<close>

theorem rehash_preserves_map:
  assumes "hm_inv hb" and "size_ok ts" and "unat (hm_size hb) \<le> unat ts"
  shows "\<exists>hb'. managed_object_hashmap_rehash hb ud ts mem = Inr (if mem then 0 else - ENOMEM, hb') \<and>
    hm_inv hb' \<and> hm_map hb' = hm_map hb \<and> hm_size hb' = hm_size hb \<and>
    table_size hb' = (if mem then ts else table_size hb) \<and> (\<not> mem \<longrightarrow> hb' = hb)"
proof (cases mem)
  case True
  with rehash_ok [OF assms, of ud] show ?thesis by auto
next
  case False
  with rehash_fail [OF assms(2,3), of ud] assms(1) show ?thesis by simp
qed

section \<open>Lookup\<close>

lemma entry_find_hm:
  assumes inv: "hm_inv hb"
  shows "\<exists>r. managed_object_hashmap_entry_find hb key fe = Inr r \<and>
    (hm_map hb key \<noteq> None \<longrightarrow> (\<exists>i. r = Some i \<and> i < unat (table_size hb) \<and> pop (entries hb) i \<and>
        edata (entries hb ! i) = hm_map hb key)) \<and>
    (hm_map hb key = None \<longrightarrow> \<not> fe \<longrightarrow> r = None)"
proof -
  from inv obtain hf cmp where fns: "hash hb = Some hf" "compare hb = Some cmp" and ko: "key_ops hf cmp"
    and none: "table hb = None \<longrightarrow> table_size hb = 0 \<and> hm_size hb = 0"
    and some: "\<forall>tb. table hb = Some tb \<longrightarrow> size_ok (table_size hb) \<and>
       table_ok hf cmp (table_size hb) tb \<and> unat (hm_size hb) = size (live tb)"
    by (rule hm_invE)
  show ?thesis
  proof (cases "table hb")
    case None
    with none fns show ?thesis
      by (simp add: managed_object_hashmap_entry_find_def hm_map_no_table)
  next
    case (Some tb)
    with some have ok: "table_ok hf cmp (table_size hb) tb" by simp
    have map: "hm_map hb = table_map cmp tb" using fns Some by (simp add: hm_map_table)
    obtain r where r: "managed_object_hashmap_entry_find hb key fe = Inr r"
      "find_result cmp key fe tb (home hf (table_size hb) key) r"
      using key_ops.entry_find_result [OF ko fns Some ok] by blast
    show ?thesis
    proof (cases "\<forall>j < length tb. \<not> matches cmp key (tb ! j)")
      case True
      then have "hm_map hb key = None" unfolding map by (rule key_ops.table_map_none [OF ko])
      moreover have "\<not> fe \<longrightarrow> r = None" using key_ops.find_miss [OF ko True] r(2) by auto
      ultimately show ?thesis using r(1) by simp
    next
      case False
      then obtain j where j: "j < length tb" "matches cmp key (tb ! j)" by blast
      have "r = Some j" using key_ops.find_hit [OF ko ok j r(2)] .
      moreover have "hm_map hb key = edata (tb ! j)"
        unfolding map using ok j by (intro key_ops.table_map_match [OF ko]) (auto simp: table_ok_def)
      moreover have "hm_map hb key \<noteq> None"
        unfolding map using key_ops.table_map_None_iff [OF ko ok] j by auto
      ultimately show ?thesis
        using r(1) j matches_pop [OF j(2)] Some ok by (auto simp: entries_def table_ok_def)
    qed
  qed
qed

lemma entry_find_present:
  assumes "hm_inv hb" and "hm_map hb key = Some d"
  shows "\<exists>i. managed_object_hashmap_entry_find hb key fe = Inr (Some i) \<and> i < unat (table_size hb) \<and>
    pop (entries hb) i \<and> edata (entries hb ! i) = Some d"
proof -
  obtain r where r: "managed_object_hashmap_entry_find hb key fe = Inr r"
    and some: "hm_map hb key \<noteq> None \<longrightarrow> (\<exists>i. r = Some i \<and> i < unat (table_size hb) \<and> pop (entries hb) i \<and>
        edata (entries hb ! i) = hm_map hb key)"
    using entry_find_hm [OF assms(1), of key fe] by blast
  from some assms(2) obtain i where "r = Some i" "i < unat (table_size hb)" "pop (entries hb) i"
    "edata (entries hb ! i) = Some d" by auto
  with r show ?thesis by blast
qed

lemma entry_find_absent:
  assumes "hm_inv hb" and "hm_map hb key = None"
  shows "managed_object_hashmap_entry_find hb key False = Inr None"
  using entry_find_hm [OF assms(1), of key False] assms(2) by auto

lemma get_result:
  assumes "hm_inv hb"
  shows "managed_object_hashmap_base_get hb key =
    Inr (case key of None \<Rightarrow> None | Some k \<Rightarrow> hm_map hb k)"
proof (cases key)
  case (Some k)
  show ?thesis
  proof (cases "hm_map hb k")
    case None
    with entry_find_absent [OF assms None] Some show ?thesis
      by (simp add: managed_object_hashmap_base_get_def)
  next
    case data: (Some d)
    from entry_find_present [OF assms data, of False] obtain i where
      "managed_object_hashmap_entry_find hb k False = Inr (Some i)" "edata (entries hb ! i) = Some d"
      by blast
    with data Some show ?thesis by (simp add: managed_object_hashmap_base_get_def)
  qed
qed (simp add: managed_object_hashmap_base_get_def)

text \<open>
  C16: Lookup.  On a map that satisfies the invariant, \<open>get\<close> returns exactly what the map has
  for the key, \<open>NULL\<close> for an absent key; a null key gives \<open>NULL\<close>.
\<close>

theorem get_correct:
  assumes "hm_inv hb"
  shows "managed_object_hashmap_base_get hb key =
    Inr (case key of None \<Rightarrow> None | Some k \<Rightarrow> hm_map hb k)"
  using assms by (rule get_result)

end
