(* ===== verification/HashmapPut.thy ===== *)
theory HashmapPut
  imports HashmapInv
begin

text \<open>Insertion: making room, storing, and the outcome of \<open>put\<close> on every branch.\<close>

section \<open>Storing at a free slot\<close>

lemma entry_find_full:
  assumes inv: "hm_inv hb" and none: "hm_map hb k = None" and full: "hm_size hb = table_size hb"
  shows "managed_object_hashmap_entry_find hb k True = Inr None"
proof -
  from inv obtain hf cmp where fns: "hash hb = Some hf" "compare hb = Some cmp" and ko: "key_ops hf cmp"
    and t0: "table hb = None \<longrightarrow> table_size hb = 0 \<and> hm_size hb = 0"
    and t1: "\<forall>tb. table hb = Some tb \<longrightarrow> size_ok (table_size hb) \<and>
       table_ok hf cmp (table_size hb) tb \<and> unat (hm_size hb) = size (live tb)"
    by (rule hm_invE)
  show ?thesis
  proof (cases "table hb")
    case None
    with t0 fns show ?thesis by (simp add: managed_object_hashmap_entry_find_def)
  next
    case (Some tb)
    with t1 have ok: "table_ok hf cmp (table_size hb) tb" and sz: "unat (hm_size hb) = size (live tb)"
      by simp_all
    obtain r where r: "managed_object_hashmap_entry_find hb k True = Inr r"
      "find_result cmp k True tb (home hf (table_size hb) k) r"
      using key_ops.entry_find_result [OF ko fns Some ok] by blast
    have "\<forall>j < length tb. \<not> matches cmp k (tb ! j)"
      using none key_ops.table_map_None_iff [OF ko ok] fns Some by (simp add: hm_map_table)
    moreover have "size (live tb) = length tb" using sz full ok by (simp add: table_ok_def)
    ultimately have "r = None" using key_ops.find_full [OF ko _ r(2)] by blast
    with r(1) show ?thesis by simp
  qed
qed

lemma store_entry_correct:
  assumes inv: "hm_inv hb" and none: "hm_map hb k = None" and room: "hm_size hb < table_size hb"
    and k': "same_key hb k k'"
  shows "\<exists>i. managed_object_hashmap_entry_find hb k True = Inr (Some i) \<and> ekey (entries hb ! i) = None \<and>
    hm_inv (store_entry hb i k' d) \<and>
    hm_map (store_entry hb i k' d) = (\<lambda>x. if same_key hb x k then Some d else hm_map hb x)"
proof -
  from inv obtain hf cmp where fns: "hash hb = Some hf" "compare hb = Some cmp" and ko: "key_ops hf cmp"
    and dup: "dup_ok cmp (key_dup hb)" and init: "size_ok (table_size_init hb)"
    and t0: "table hb = None \<longrightarrow> table_size hb = 0 \<and> hm_size hb = 0"
    and t1: "\<forall>tb. table hb = Some tb \<longrightarrow> size_ok (table_size hb) \<and>
       table_ok hf cmp (table_size hb) tb \<and> unat (hm_size hb) = size (live tb)"
    by (rule hm_invE)
  from room t0 obtain tb where tb: "table hb = Some tb" by (cases "table hb") auto
  with t1 have ts: "size_ok (table_size hb)" and ok: "table_ok hf cmp (table_size hb) tb"
    and sz: "unat (hm_size hb) = size (live tb)" by simp_all
  have less: "size (live tb) < length tb"
    using room sz ok by (simp add: word_less_nat_alt table_ok_def)
  obtain r where r: "managed_object_hashmap_entry_find hb k True = Inr r"
    "find_result cmp k True tb (home hf (table_size hb) k) r"
    using key_ops.entry_find_result [OF ko fns tb ok] by blast
  have miss: "\<forall>j < length tb. \<not> matches cmp k (tb ! j)"
    using none key_ops.table_map_None_iff [OF ko ok] fns tb by (simp add: hm_map_table)
  have hN: "home hf (table_size hb) k < length tb"
    using ok home_less [of "table_size hb" hf k] by (simp add: table_ok_def)
  from key_ops.find_free [OF ko miss r(2) less hN] obtain i where
    i: "r = Some i" "i < length tb" "\<not> pop tb i"
      "scanned cmp k tb (home hf (table_size hb) k) (cdist (length tb) (home hf (table_size hb) k) i)"
    by blast
  let ?e = "\<lparr>ekey = Some k', edata = Some d\<rparr>"
  have kk: "cmp k k' = 0" using k' fns by (simp add: same_key_def)
  have ok': "table_ok hf cmp (table_size hb) (tb[i := ?e])"
    and live: "live (tb[i := ?e]) = add_mset ?e (live tb)"
    using key_ops.store_ok [OF ko ok i(2,3) _ _ kk i(4) miss] by simp_all
  have "unat (hm_size hb) < 2 ^ 30"
    using room size_ok_bounds [OF ts] by (simp add: word_less_nat_alt)
  then have sz': "unat (hm_size hb + 1) = Suc (size (live tb))"
    using sz by (simp add: unat_word_ariths)
  have inv': "hm_inv (store_entry hb i k' d)"
    using fns ko dup init ts ok' live sz' tb
    by (intro hm_invI [of _ hf cmp "tb[i := ?e]"]) (simp_all add: store_entry_def entries_def)
  have "hm_map (store_entry hb i k' d) x = (if same_key hb x k then Some d else hm_map hb x)" for x
  proof -
    have "hm_map (store_entry hb i k' d) x = table_map cmp (tb[i := ?e]) x"
      using fns tb by (simp add: hm_map_def store_entry_def entries_def)
    also have "\<dots> = (if cmp x k' = 0 then Some d else table_map cmp tb x)"
      using key_ops.table_map_add [OF ko ok ok' live] by simp
    also have "(cmp x k' = 0) = same_key hb x k"
      using kk key_ops.cmp_trans [OF ko] key_ops.cmp_sym [OF ko] unfolding same_key_def fns option.case
      by blast
    finally show ?thesis using fns tb by (simp add: hm_map_table)
  qed
  then have "hm_map (store_entry hb i k' d) = (\<lambda>x. if same_key hb x k then Some d else hm_map hb x)"
    by (rule ext)
  moreover have "ekey (entries hb ! i) = None" using i(3) tb by (simp add: entries_def pop_def)
  ultimately show ?thesis using inv' r(1) i(1) by blast
qed

section \<open>Making room\<close>

text \<open>The first half of \<open>put\<close>: compute the size wanted and rehash to it if it is larger.\<close>

definition make_room :: "('k, 'v) hb \<Rightarrow> addr \<Rightarrow> size_t \<Rightarrow> bool \<Rightarrow> fault + int \<times> ('k, 'v) hb" where
  "make_room hb ud ts mem =
     (if ts > table_size hb then managed_object_hashmap_rehash hb ud ts mem else Inr (0, hb))"

lemma make_room_correct:
  assumes inv: "hm_inv hb" and max: "unat (hm_size hb) \<le> max_elements"
    and calc: "managed_object_hashmap_calc_table_size hb (hm_size hb) = Inr ts"
  shows "\<exists>r hb'. make_room hb ud ts mem = Inr (r, hb') \<and> hm_inv hb' \<and> hm_map hb' = hm_map hb \<and>
    hm_size hb' = hm_size hb \<and> key_dup hb' = key_dup hb \<and> compare hb' = compare hb \<and>
    (if mem \<or> hm_size hb < table_size hb then hm_size hb' < table_size hb'
     else r = - ENOMEM \<and> hm_size hb' = table_size hb')"
proof -
  let ?s = "unat (hm_size hb)"
  let ?t = "?s + ?s div 3"
  have init: "size_ok (table_size_init hb)" using inv by (rule hm_invE) blast
  have t: "?t \<le> 2 ^ 30" using max by (simp add: max_elements_def)
  then have ts: "size_ok ts" "?t \<le> unat ts"
    using calc_table_size_cases [OF init refl, of "hm_size hb"] calc by auto
  have s: "?s < unat ts" using ts(2) size_ok_bounds [OF ts(1)] by linarith
  show ?thesis
  proof (cases "ts > table_size hb")
    case False
    then have "hm_size hb < table_size hb" using s by (simp add: word_less_nat_alt)
    with False inv show ?thesis by (simp add: make_room_def)
  next
    case True
    show ?thesis
    proof (cases mem)
      case True
      with rehash_ok [OF inv ts(1) less_imp_le [OF s], of ud] \<open>ts > table_size hb\<close> s show ?thesis
        by (auto simp: make_room_def word_less_nat_alt)
    next
      case False
      have "hm_size hb = table_size hb" if "\<not> hm_size hb < table_size hb"
        using that hm_size_le [OF inv] by (simp add: word_less_nat_alt word_unat_eq_iff)
      with False rehash_fail [OF ts(1) less_imp_le [OF s], of ud] \<open>ts > table_size hb\<close> inv show ?thesis
        by (auto simp: make_room_def)
    qed
  qed
qed

section \<open>The outcome of put\<close>

definition dup_succeeds :: "('k, 'v) hb \<Rightarrow> 'k \<Rightarrow> bool" where
  "dup_succeeds hb k \<longleftrightarrow> (case key_dup hb of None \<Rightarrow> True | Some f \<Rightarrow> f k \<noteq> None)"

lemma put_outcome:
  assumes "hm_inv hb" and "unat (hm_size hb) \<le> max_elements"
  shows "\<exists>r hb'. managed_object_hashmap_base_put hb ud (Some k) (Some d) mem = Inr (r, hb') \<and> hm_inv hb' \<and>
    (if hm_map hb k \<noteq> None
     then r = - EEXIST \<and> hm_map hb' = hm_map hb \<and> hm_size hb' = hm_size hb
     else if (mem \<or> hm_size hb < table_size hb) \<and> dup_succeeds hb k
     then r = 0 \<and> hm_map hb' = (\<lambda>x. if same_key hb x k then Some d else hm_map hb x) \<and>
          hm_size hb' = hm_size hb + 1
     else r = - ENOMEM \<and> hm_map hb' = hm_map hb \<and> hm_size hb' = hm_size hb)"
proof -
  let ?s = "unat (hm_size hb)"
  from assms(1) obtain hf cmp where cmp: "compare hb = Some cmp" and ko: "key_ops hf cmp"
    and dup: "dup_ok cmp (key_dup hb)" and init: "size_ok (table_size_init hb)"
    by (rule hm_invE)
  have "?s + ?s div 3 \<le> 2 ^ 30" using assms(2) by (simp add: max_elements_def)
  then obtain ts where calc: "managed_object_hashmap_calc_table_size hb (hm_size hb) = Inr ts"
    using calc_table_size_cases [OF init refl, of "hm_size hb"] by auto
  obtain r1 hb1 where room: "make_room hb ud ts mem = Inr (r1, hb1)" and inv1: "hm_inv hb1"
    and same: "hm_map hb1 = hm_map hb" "hm_size hb1 = hm_size hb" "key_dup hb1 = key_dup hb"
      "compare hb1 = compare hb"
    and free: "if mem \<or> hm_size hb < table_size hb then hm_size hb1 < table_size hb1
       else r1 = - ENOMEM \<and> hm_size hb1 = table_size hb1"
    using make_room_correct [OF assms calc, of ud mem] by blast
  have put: "managed_object_hashmap_base_put hb ud (Some k) (Some d) mem =
    (case managed_object_hashmap_entry_find hb1 k True of
       Inl f \<Rightarrow> Inl f
     | Inr None \<Rightarrow> Inr (if r1 < 0 then r1 else - EADDRNOTAVAIL, hb1)
     | Inr (Some i) \<Rightarrow>
         if ekey (entries hb1 ! i) \<noteq> None then Inr (- EEXIST, hb1)
         else (case key_dup hb1 of
                 None \<Rightarrow> Inr (0, store_entry hb1 i k d)
               | Some f \<Rightarrow> (case f k of None \<Rightarrow> Inr (- ENOMEM, hb1)
                                      | Some k' \<Rightarrow> Inr (0, store_entry hb1 i k' d))))"
    using calc room by (simp add: managed_object_hashmap_base_put_def make_room_def)
  have sk: "same_key hb1 = same_key hb" by (simp add: fun_eq_iff same_key_def same(4))
  show ?thesis
  proof (cases "hm_map hb k")
    case (Some v)
    with same(1) have "hm_map hb1 k = Some v" by simp
    from entry_find_present [OF inv1 this, of True] obtain i where
      "managed_object_hashmap_entry_find hb1 k True = Inr (Some i)" "pop (entries hb1) i" by blast
    with put Some inv1 same show ?thesis by (simp add: pop_def)
  next
    case None
    with same(1) have none1: "hm_map hb1 k = None" by simp
    show ?thesis
    proof (cases "mem \<or> hm_size hb < table_size hb")
      case False
      with free have full: "hm_size hb1 = table_size hb1" and r1: "r1 = - ENOMEM"
        by (simp_all only: if_False)
      with entry_find_full [OF inv1 none1] put None False inv1 same show ?thesis
        by (simp add: ENOMEM_def)
    next
      case True
      with free have less: "hm_size hb1 < table_size hb1" by (simp only: if_True)
      have map_eq: "(\<lambda>x. if same_key hb1 x k then Some d else hm_map hb1 x) =
          (\<lambda>x. if same_key hb x k then Some d else hm_map hb x)"
        by (simp only: same(1) sk)
      have refl: "same_key hb1 k k" using cmp same(4) key_ops.cmp_refl [OF ko] by (simp add: same_key_def)
      show ?thesis
      proof (cases "key_dup hb")
        case dup_none: None
        obtain i where "managed_object_hashmap_entry_find hb1 k True = Inr (Some i)"
          "ekey (entries hb1 ! i) = None" "hm_inv (store_entry hb1 i k d)"
          "hm_map (store_entry hb1 i k d) = (\<lambda>x. if same_key hb1 x k then Some d else hm_map hb1 x)"
          using store_entry_correct [OF inv1 none1 less refl] by blast
        with put None True dup_none same(2,3) map_eq show ?thesis
          by (simp add: dup_succeeds_def store_entry_def)
      next
        case dup_some: (Some f)
        show ?thesis
        proof (cases "f k")
          case fail: None
          obtain i where "managed_object_hashmap_entry_find hb1 k True = Inr (Some i)"
            "ekey (entries hb1 ! i) = None"
            using store_entry_correct [OF inv1 none1 less refl] by blast
          with put None True dup_some fail same inv1 show ?thesis
            by (simp add: dup_succeeds_def)
        next
          case copy: (Some k')
          then have "same_key hb1 k k'"
            using dup dup_some cmp same(4) by (simp add: dup_ok_def same_key_def)
          then obtain i where "managed_object_hashmap_entry_find hb1 k True = Inr (Some i)"
            "ekey (entries hb1 ! i) = None" "hm_inv (store_entry hb1 i k' d)"
            "hm_map (store_entry hb1 i k' d) = (\<lambda>x. if same_key hb1 x k then Some d else hm_map hb1 x)"
            using store_entry_correct [OF inv1 none1 less] by blast
          with put None True dup_some copy same(2,3) map_eq show ?thesis
            by (simp add: dup_succeeds_def store_entry_def)
        qed
      qed
    qed
  qed
qed

text \<open>
  C4: Insertion.  On a map that satisfies the invariant and holds at most 805306368 entries,
  \<open>put\<close> of a non-null key and datum always returns, keeps the invariant, and has exactly one
  of three outcomes: a key that is present gives \<open>-EEXIST\<close> and changes neither the map nor
  the size; an absent key is added, with 0, when the table could grow or has a free slot and
  the key could be duplicated; otherwise it gives \<open>-ENOMEM\<close> and the map is unchanged.  So
  \<open>-EADDRNOTAVAIL\<close> is never returned.
\<close>

theorem put_correct:
  assumes "hm_inv hb" and "unat (hm_size hb) \<le> max_elements"
  shows "\<exists>r hb'. managed_object_hashmap_base_put hb ud (Some k) (Some d) mem = Inr (r, hb') \<and> hm_inv hb' \<and>
    (if hm_map hb k \<noteq> None
     then r = - EEXIST \<and> hm_map hb' = hm_map hb \<and> hm_size hb' = hm_size hb
     else if (mem \<or> hm_size hb < table_size hb) \<and> dup_succeeds hb k
     then r = 0 \<and> hm_map hb' = (\<lambda>x. if same_key hb x k then Some d else hm_map hb x) \<and>
          hm_size hb' = hm_size hb + 1
     else r = - ENOMEM \<and> hm_map hb' = hm_map hb \<and> hm_size hb' = hm_size hb)"
  using assms by (rule put_outcome)

end
