(* ===== verification/HashmapRemove.thy ===== *)
theory HashmapRemove
  imports HashmapPut
begin

text \<open>
  Removal: by key and through an iterator, with the key event and the effect on the map.
\<close>

section \<open>The entry removal on the whole map\<close>

definition removed_map :: "('k, 'v) hb \<Rightarrow> 'k \<Rightarrow> 'k \<Rightarrow> 'v option" where
  "removed_map hb k = (\<lambda>x. if same_key hb x k then None else hm_map hb x)"

lemma entry_remove_correct:
  assumes inv: "hm_inv hb" and i: "i < unat (table_size hb)" "ekey (entries hb ! i) = Some k"
    and room: "hm_size hb < table_size hb"
  shows "\<exists>tb'. managed_object_hashmap_entry_remove hb i =
      Inr (hb\<lparr>hm_size := hm_size hb - 1, table := Some tb',
              trace := trace hb @ (if key_free hb then [Key_freed k] else [])\<rparr>) \<and>
    hm_inv (hb\<lparr>hm_size := hm_size hb - 1, table := Some tb'\<rparr>) \<and>
    hm_map (hb\<lparr>hm_size := hm_size hb - 1, table := Some tb'\<rparr>) = removed_map hb k \<and>
    live (entries hb) = add_mset (entries hb ! i) (live tb') \<and> 0 < hm_size hb"
proof -
  from inv obtain hf cmp where fns: "hash hb = Some hf" "compare hb = Some cmp" and ko: "key_ops hf cmp"
    and dup: "dup_ok cmp (key_dup hb)" and init: "size_ok (table_size_init hb)"
    and t0: "table hb = None \<longrightarrow> table_size hb = 0 \<and> hm_size hb = 0"
    and t1: "\<forall>tb. table hb = Some tb \<longrightarrow> size_ok (table_size hb) \<and>
       table_ok hf cmp (table_size hb) tb \<and> unat (hm_size hb) = size (live tb)"
    by (rule hm_invE)
  from i t0 obtain tb where tb: "table hb = Some tb" by (cases "table hb") auto
  with t1 have ts: "size_ok (table_size hb)" and ok: "table_ok hf cmp (table_size hb) tb"
    and sz: "unat (hm_size hb) = size (live tb)" by simp_all
  have ent: "entries hb = tb" using tb by (simp add: entries_def)
  have pop: "pop tb i" using i ent by (simp add: pop_def)
  have "tb ! i \<in># live tb" using ok pop i by (auto simp: in_live_iff table_ok_def)
  then have pos: "0 < size (live tb)" by (cases "live tb") auto
  then have hpos: "0 < hm_size hb" using sz by (simp add: word_less_nat_alt)
  then have "1 \<le> hm_size hb" by (simp add: word_le_nat_alt word_less_nat_alt)
  then have sz1: "unat (hm_size hb - 1) = size (live tb) - 1" using sz by (simp add: unat_sub)
  have less: "size (live tb) < unat (table_size hb)" using room sz by (simp add: word_less_nat_alt)
  obtain tb1 hole where loop: "entry_remove_loop tb (table_size hb) hf (size (live tb) - 1)
      (MANAGED_OBJECT_HASHMAP_PROBE_NEXT (table_size hb) (word_of_nat i)) (word_of_nat i) = (tb1, hole)"
    by (metis surj_pair)
  let ?tb = "tb1[unat hole := empty_entry]"
  have ok': "table_ok hf cmp (table_size hb) ?tb" and live: "live tb = add_mset (tb ! i) (live ?tb)"
    using key_ops.entry_remove_table [OF ko ok i(1) pop less loop] by simp_all
  let ?hb = "hb\<lparr>hm_size := hm_size hb - 1, table := Some ?tb\<rparr>"
  have rem: "managed_object_hashmap_entry_remove hb i =
      Inr (?hb\<lparr>trace := trace hb @ (if key_free hb then [Key_freed k] else [])\<rparr>)"
    using fns loop ent sz1 i(2)
    by (simp add: managed_object_hashmap_entry_remove_def log_event_def Let_def)
  have sz': "unat (hm_size ?hb) = size (live ?tb)" using sz1 live by simp
  have inv': "hm_inv ?hb"
    using fns ko dup init ts ok' sz' by (intro hm_invI [of _ hf cmp ?tb]) simp_all
  have "hm_map ?hb x = removed_map hb k x" for x
  proof -
    have "hm_map ?hb x = table_map cmp ?tb x" using fns by (simp add: hm_map_def entries_def)
    also have "\<dots> = (if cmp x k = 0 then None else table_map cmp tb x)"
      using key_ops.table_map_remove [OF ko ok ok' live] i(2) ent by simp
    finally show ?thesis using fns tb by (simp add: removed_map_def same_key_def hm_map_table)
  qed
  then have "hm_map ?hb = removed_map hb k" by (rule ext)
  with rem inv' live hpos ent show ?thesis by auto
qed

lemma present_key:
  assumes inv: "hm_inv hb" and k: "hm_map hb k = Some d"
  shows "\<exists>i k'. managed_object_hashmap_entry_find hb k False = Inr (Some i) \<and> i < unat (table_size hb) \<and>
    ekey (entries hb ! i) = Some k' \<and> edata (entries hb ! i) = Some d \<and> same_key hb k k' \<and>
    entries hb ! i \<in># live (entries hb)"
proof -
  from inv obtain hf cmp where fns: "hash hb = Some hf" "compare hb = Some cmp" and ko: "key_ops hf cmp"
    and t1: "\<forall>tb. table hb = Some tb \<longrightarrow> size_ok (table_size hb) \<and>
       table_ok hf cmp (table_size hb) tb \<and> unat (hm_size hb) = size (live tb)"
    by (rule hm_invE)
  from k obtain tb where tb: "table hb = Some tb"
    using hm_map_no_table [of hb k] by (cases "table hb") auto
  with t1 have ok: "table_ok hf cmp (table_size hb) tb" by simp
  have len: "length tb = unat (table_size hb)" using ok by (simp add: table_ok_def)
  have map: "hm_map hb = table_map cmp tb" using fns tb by (simp add: hm_map_table)
  have ent: "entries hb = tb" using tb by (simp add: entries_def)
  obtain j where j: "j < length tb" "matches cmp k (tb ! j)"
    using k map key_ops.table_map_None_iff [OF ko ok, of k] by auto
  obtain r where r: "managed_object_hashmap_entry_find hb k False = Inr r"
    "find_result cmp k False tb (home hf (table_size hb) k) r"
    using key_ops.entry_find_result [OF ko fns tb ok] by blast
  have "r = Some j" using key_ops.find_hit [OF ko ok j r(2)] .
  moreover have "edata (tb ! j) = Some d"
    using k map key_ops.table_map_match [OF ko _ j] ok by (simp add: table_ok_def)
  moreover obtain k' where "ekey (tb ! j) = Some k'" "cmp k k' = 0"
    using j(2) by (auto simp: matches_def split: option.splits)
  moreover have "tb ! j \<in># live tb" using j matches_pop [OF j(2)] by (auto simp: in_live_iff)
  ultimately show ?thesis using r(1) j(1) len fns ent by (auto simp: same_key_def)
qed

text \<open>Removing under a stored key is removing under any key that matches it.\<close>

lemma removed_map_same:
  assumes inv: "hm_inv hb" and k: "same_key hb k k'"
  shows "removed_map hb k' = removed_map hb k"
proof -
  from inv obtain hf cmp where cmp: "compare hb = Some cmp" and ko: "key_ops hf cmp"
    by (rule hm_invE)
  have "cmp x k' = 0 \<longleftrightarrow> cmp x k = 0" for x
    using k key_ops.cmp_trans [OF ko] key_ops.cmp_sym [OF ko] unfolding same_key_def cmp option.case
    by blast
  then show ?thesis by (simp add: removed_map_def same_key_def cmp)
qed

lemma hm_map_same:
  fixes hb :: "('k, 'v) hb"
  assumes inv: "hm_inv hb" and k: "same_key hb x k"
  shows "hm_map hb x = hm_map hb k"
proof -
  from inv obtain hf cmp where cmp: "compare hb = Some cmp" and ko: "key_ops hf cmp"
    by (rule hm_invE)
  have "matches cmp x = (matches cmp k :: ('k, 'v) entry \<Rightarrow> bool)"
  proof
    fix e :: "('k, 'v) entry"
    have "cmp x a = 0 \<longleftrightarrow> cmp k a = 0" for a
      using k key_ops.cmp_trans [OF ko] key_ops.cmp_sym [OF ko]
      unfolding same_key_def cmp option.case by blast
    then show "matches cmp x e = matches cmp k e" by (simp add: matches_def split: option.split)
  qed
  then show ?thesis by (simp only: hm_map_def cmp option.case table_map_def)
qed

lemma remove_outcome:
  assumes "hm_inv hb" and "hm_size hb < table_size hb \<or> hm_map hb k = None"
  shows "\<exists>hb'. managed_object_hashmap_base_remove hb (Some k) = Inr (hm_map hb k, hb') \<and> hm_inv hb' \<and>
    hm_map hb' = (\<lambda>x. if same_key hb x k then None else hm_map hb x) \<and>
    table_size hb' = table_size hb \<and>
    (if hm_map hb k = None then hb' = hb
     else hm_size hb' = hm_size hb - 1 \<and> 0 < hm_size hb \<and>
       (\<exists>k'. same_key hb k k' \<and> Some k' \<in> ekey ` set (entries hb) \<and>
          trace hb' = trace hb @ (if key_free hb then [Key_freed k'] else [])))"
proof (cases "hm_map hb k")
  case None
  then have "hm_map hb x = None" if "same_key hb x k" for x
    using hm_map_same [OF assms(1) that] by simp
  then have "(\<lambda>x. if same_key hb x k then None else hm_map hb x) = hm_map hb" by auto
  with entry_find_absent [OF assms(1) None] None assms(1) show ?thesis
    by (simp add: managed_object_hashmap_base_remove_def)
next
  case (Some d)
  from present_key [OF assms(1) Some] obtain i k' where
    find: "managed_object_hashmap_entry_find hb k False = Inr (Some i)" and i: "i < unat (table_size hb)"
      "ekey (entries hb ! i) = Some k'" and d: "edata (entries hb ! i) = Some d"
    and same: "same_key hb k k'" and mem: "entries hb ! i \<in># live (entries hb)" by blast
  have key: "Some k' \<in> ekey ` set (entries hb)"
    using mem i(2) by (metis image_eqI live_def set_mset_mset filter_is_subset subsetD)
  have "hm_size hb < table_size hb" using assms(2) Some by simp
  from entry_remove_correct [OF assms(1) i this] obtain tb' where
    rem: "managed_object_hashmap_entry_remove hb i =
      Inr (hb\<lparr>hm_size := hm_size hb - 1, table := Some tb',
              trace := trace hb @ (if key_free hb then [Key_freed k'] else [])\<rparr>)"
    and inv': "hm_inv (hb\<lparr>hm_size := hm_size hb - 1, table := Some tb'\<rparr>)"
    and map': "hm_map (hb\<lparr>hm_size := hm_size hb - 1, table := Some tb'\<rparr>) = removed_map hb k'"
    and pos: "0 < hm_size hb" by blast
  let ?hb = "hb\<lparr>hm_size := hm_size hb - 1, table := Some tb',
              trace := trace hb @ (if key_free hb then [Key_freed k'] else [])\<rparr>"
  have "managed_object_hashmap_base_remove hb (Some k) = Inr (hm_map hb k, ?hb)"
    using find rem d Some by (simp add: managed_object_hashmap_base_remove_def)
  moreover have "hm_inv ?hb" and "hm_map ?hb = removed_map hb k"
    using inv' map' removed_map_same [OF assms(1) same] by (simp_all only: hm_inv_trace hm_map_trace)
  ultimately show ?thesis
    using same key pos Some by (intro exI [of _ ?hb]) (auto simp: removed_map_def)
qed

text \<open>
  C3: Removal.  On a map that satisfies the invariant and whose table is not full (or does
  not have the key), \<open>remove\<close> returns the datum of the key and takes exactly that key out of the map: one element less,
  every other key keeps its datum although entries are shifted back to keep their chains
  contiguous, and the stored key, not the argument, is freed, once, if \<open>key_free\<close> is set.
  For an absent key it returns \<open>NULL\<close> and changes nothing.
\<close>

theorem remove_correct:
  assumes "hm_inv hb" and "hm_size hb < table_size hb \<or> hm_map hb k = None"
  shows "\<exists>hb'. managed_object_hashmap_base_remove hb (Some k) = Inr (hm_map hb k, hb') \<and> hm_inv hb' \<and>
    hm_map hb' = (\<lambda>x. if same_key hb x k then None else hm_map hb x) \<and>
    table_size hb' = table_size hb \<and>
    (if hm_map hb k = None then hb' = hb
     else hm_size hb' = hm_size hb - 1 \<and> 0 < hm_size hb \<and>
       (\<exists>k'. same_key hb k k' \<and> Some k' \<in> ekey ` set (entries hb) \<and>
          trace hb' = trace hb @ (if key_free hb then [Key_freed k'] else [])))"
  using assms by (rule remove_outcome)

end
