(* ===== verification/HashmapLife.thy ===== *)
theory HashmapLife
  imports HashmapRemove
begin

text \<open>
  The life cycle of a map: initialisation, the setters, \<open>reserve\<close>, \<open>clear\<close>, \<open>reset\<close> and
  \<open>cleanup\<close>, with the events of the keys and tables they free.
\<close>

section \<open>Initialisation and setters\<close>

lemma init_correct:
  "key_ops hf cmp \<Longrightarrow> \<exists>hb. managed_object_hashmap_base_init (Some hf) (Some cmp) = Inr hb \<and> hm_inv hb \<and>
     hm_map hb = (\<lambda>_. None) \<and> hm_size hb = 0 \<and> table_size hb = 0 \<and> trace hb = [] \<and>
     hash hb = Some hf \<and> compare hb = Some cmp \<and> key_dup hb = None"
  by (auto simp: managed_object_hashmap_base_init_def hm_inv_def dup_ok_def hm_map_def entries_def
      table_map_def)

lemma set_on_realloc_correct:
  "hm_inv hb \<Longrightarrow> hm_inv (managed_object_hashmap_base_set_on_realloc_func hb f)"
  "hm_map (managed_object_hashmap_base_set_on_realloc_func hb f) = hm_map hb"
  by (auto simp: managed_object_hashmap_base_set_on_realloc_func_def hm_inv_def hm_map_def entries_def
      split: option.splits)

lemma set_key_alloc_correct:
  "hm_inv hb \<Longrightarrow> dup_ok (the (compare hb)) dup \<Longrightarrow>
     hm_inv (managed_object_hashmap_base_set_key_alloc_funcs hb dup fr)"
  "hm_map (managed_object_hashmap_base_set_key_alloc_funcs hb dup fr) = hm_map hb"
  by (auto simp add: managed_object_hashmap_base_set_key_alloc_funcs_def hm_inv_def hm_map_def entries_def
      split: option.splits)

section \<open>Reserving capacity\<close>

lemma hm_inv_init_size [simp]:
  "hm_inv hb \<Longrightarrow> size_ok ts \<Longrightarrow> hm_inv (hb\<lparr>table_size_init := ts\<rparr>)"
  by (auto simp: hm_inv_def split: option.splits)

lemma hm_map_init_size [simp]: "hm_map (hb\<lparr>table_size_init := ts\<rparr>) = hm_map hb"
  by (simp add: hm_map_def entries_def split: option.split)

lemma reserve_outcome:
  assumes "hm_inv hb" and "unat capacity \<le> max_elements"
  shows "\<exists>r hb'. managed_object_hashmap_base_reserve hb ud capacity mem = Inr (r, hb') \<and> hm_inv hb' \<and>
    hm_map hb' = hm_map hb \<and> hm_size hb' = hm_size hb \<and>
    (r = - ENOMEM \<and> \<not> mem \<and> hb' = hb \<or>
     r = 0 \<and> table_size hb \<le> table_size hb' \<and>
     (\<forall>s. unat s \<le> unat capacity \<longrightarrow>
        s < table_size hb' \<and>
        (\<exists>ts. managed_object_hashmap_calc_table_size hb' s = Inr ts \<and> ts \<le> table_size hb')))"
proof -
  let ?c = "unat capacity" and ?hb1 = "hb\<lparr>table_size_init := MANAGED_OBJECT_HASHMAP_SIZE_MIN\<rparr>"
  let ?t = "?c + ?c div 3"
  have t: "?t \<le> 2 ^ 30" using assms(2) by (simp add: max_elements_def)
  have init1: "size_ok (table_size_init ?hb1)" by simp
  obtain ts where calc: "managed_object_hashmap_calc_table_size ?hb1 capacity = Inr ts"
    and ts: "size_ok ts" "?t \<le> unat ts"
    using calc_table_size_cases [OF init1 refl, of capacity] t by auto
  have c_ts: "?c < unat ts" using ts(2) size_ok_bounds [OF ts(1)] by linarith
  let ?hb2 = "hb\<lparr>table_size_init := ts\<rparr>"
  have inv2: "hm_inv ?hb2" and map2: "hm_map ?hb2 = hm_map hb" using assms(1) ts(1) by simp_all
  have grow: "\<exists>u. managed_object_hashmap_calc_table_size hb' s = Inr u \<and> u \<le> ts"
    if s: "unat s \<le> ?c" and i: "table_size_init hb' = ts" for s and hb' :: "('a, 'b) hb"
  proof -
    have ok: "size_ok (table_size_init hb')" using i ts(1) by simp
    have s': "unat s + unat s div 3 \<le> ?t" using s by (intro add_mono div_le_mono) simp_all
    show ?thesis
    proof (cases "unat s + unat s div 3 < unat ts")
      case True
      then show ?thesis using calc_table_size_nat [OF ok refl, of s] i s' t by simp
    next
      case False
      then have eq: "unat s + unat s div 3 = unat ts" using s' ts(2) calc
          calc_table_size_cases [OF init1 refl, of capacity] t by linarith
      obtain k where k: "k \<le> 30" "unat ts = 2 ^ k" using size_ok_unat [OF ts(1)] by blast
      have "bit_length (unat ts - 1) \<le> k" using k by (intro bit_length_le) simp
      then have "unat ((2::size_t) ^ bit_length (unat ts - 1)) \<le> unat ts" using k by simp
      then show ?thesis
        using calc_table_size_nat [OF ok refl, of s] i eq k size_ok_bounds [OF ts(1)]
        by (simp add: word_le_nat_alt)
    qed
  qed
  show ?thesis
  proof (cases "ts > table_size hb")
    case False
    then have "managed_object_hashmap_base_reserve hb ud capacity mem = Inr (0, ?hb2)"
      using calc by (simp add: managed_object_hashmap_base_reserve_def Let_def)
    moreover have "s < table_size hb" if "unat s \<le> ?c" for s
      using that c_ts False by (simp add: word_less_nat_alt not_less)
    moreover have "\<exists>u. managed_object_hashmap_calc_table_size ?hb2 s = Inr u \<and> u \<le> table_size hb"
      if "unat s \<le> ?c" for s
      using grow [OF that, of ?hb2] False by (auto intro: order_trans)
    ultimately show ?thesis using inv2 map2 by auto
  next
    case True
    have room: "unat (hm_size ?hb2) \<le> unat ts"
      using hm_size_le [OF assms(1)] True by (simp add: word_less_nat_alt)
    show ?thesis
    proof (cases mem)
      case False
      then have "managed_object_hashmap_base_reserve hb ud capacity mem = Inr (- ENOMEM, hb)"
        using calc True rehash_fail [OF ts(1) room, of ud]
        by (simp add: managed_object_hashmap_base_reserve_def Let_def ENOMEM_def)
      with assms(1) False show ?thesis by simp
    next
      case mem: True
      obtain tb tr where re: "managed_object_hashmap_rehash ?hb2 ud ts True =
          Inr (0, ?hb2\<lparr>table_size := ts, table := Some tb, trace := tr\<rparr>)"
        and inv3: "hm_inv (?hb2\<lparr>table_size := ts, table := Some tb\<rparr>)"
        and map3: "hm_map (?hb2\<lparr>table_size := ts, table := Some tb\<rparr>) = hm_map ?hb2"
        using rehash_ok [OF inv2 ts(1) room, of ud] by blast
      let ?hb3 = "?hb2\<lparr>table_size := ts, table := Some tb, trace := tr\<rparr>"
      have "managed_object_hashmap_base_reserve hb ud capacity mem = Inr (0, ?hb3)"
        using calc True mem re by (simp add: managed_object_hashmap_base_reserve_def Let_def)
      moreover have "hm_inv ?hb3" and "hm_map ?hb3 = hm_map hb"
        using inv3 map3 map2 by (simp_all only: hm_inv_trace hm_map_trace)
      moreover have "s < ts" if "unat s \<le> ?c" for s
        using that c_ts by (simp add: word_less_nat_alt)
      moreover have "\<exists>u. managed_object_hashmap_calc_table_size ?hb3 s = Inr u \<and> u \<le> ts"
        if "unat s \<le> ?c" for s
        using grow [OF that, of ?hb3] by simp
      ultimately show ?thesis using True by (intro exI [of _ 0] exI [of _ ?hb3]) auto
    qed
  qed
qed

text \<open>
  Reserving capacity.  On a map that satisfies the invariant, \<open>reserve\<close> of a capacity up
  to 805306368 either returns 0 or, out of memory, \<open>-ENOMEM\<close> with the map untouched; the
  entries are kept in both cases.  After a 0, as long as the map holds at most \<open>capacity\<close>
  entries, an insertion asks for no larger table, so it neither rehashes nor can fail for
  lack of memory, until more than \<open>capacity\<close> entries are in it.
\<close>

theorem reserve_correct:
  assumes "hm_inv hb" and "unat capacity \<le> max_elements"
  shows "\<exists>r hb'. managed_object_hashmap_base_reserve hb ud capacity mem = Inr (r, hb') \<and> hm_inv hb' \<and>
    hm_map hb' = hm_map hb \<and> hm_size hb' = hm_size hb \<and>
    (r = - ENOMEM \<and> \<not> mem \<and> hb' = hb \<or>
     r = 0 \<and> table_size hb \<le> table_size hb' \<and>
     (\<forall>s. unat s \<le> unat capacity \<longrightarrow>
        s < table_size hb' \<and>
        (\<exists>ts. managed_object_hashmap_calc_table_size hb' s = Inr ts \<and> ts \<le> table_size hb')))"
  using assms by (rule reserve_outcome)

section \<open>Emptying a map\<close>

text \<open>The key events of an operation that empties the map: one per stored key.\<close>

definition freed_keys :: "('k, 'v) hb \<Rightarrow> 'k hm_event list" where
  "freed_keys hb = (if key_free hb then map Key_freed (List.map_filter ekey (entries hb)) else [])"

lemma map_filter_live: "mset (List.map_filter ekey tb) = image_mset (\<lambda>e. the (ekey e)) (live tb)"
  by (induction tb) (simp_all add: live_Cons List.map_filter_simps split: option.split)

lemma hm_entries:
  assumes "hm_inv hb"
  shows "length (entries hb) = unat (table_size hb)" and "unat (hm_size hb) = size (live (entries hb))"
  using assms by (rule hm_invE; cases "table hb"; simp add: entries_def table_ok_def)+

lemma free_keys_inv:
  assumes "hm_inv hb"
  shows "managed_object_hashmap_free_keys hb = hb\<lparr>trace := trace hb @ freed_keys hb\<rparr>"
proof (cases "hm_size hb = 0")
  case True
  then have "live (entries hb) = {#}" using hm_entries(2) [OF assms] by simp
  then have "List.map_filter ekey (entries hb) = []" using map_filter_live [of "entries hb"] by simp
  then have "trace hb @ freed_keys hb = trace hb" by (simp add: freed_keys_def)
  with True show ?thesis by (simp add: managed_object_hashmap_free_keys_def)
next
  case False
  with hm_entries(1) [OF assms] show ?thesis
    by (simp add: managed_object_hashmap_free_keys_def freed_keys_def)
qed

lemma empty_table_map: "table_map cmp (replicate n (empty_entry :: ('k, 'v) entry)) k = None"
proof -
  have "List.find (matches cmp k) (replicate n (empty_entry :: ('k, 'v) entry)) = None"
    by (auto simp: find_None_iff matches_def)
  then show ?thesis by (simp add: table_map_def)
qed

text \<open>A map whose table is fresh, whatever it held before.\<close>

lemma fresh_table:
  assumes inv: "hm_inv hb" and ts: "size_ok ts"
  shows "hm_inv (hb\<lparr>hm_size := 0, table_size := ts, table := Some (replicate (unat ts) empty_entry)\<rparr>)"
    and "hm_map (hb\<lparr>hm_size := 0, table_size := ts, table := Some (replicate (unat ts) empty_entry)\<rparr>) =
      (\<lambda>_. None)"
proof -
  from inv obtain hf cmp where fns: "hash hb = Some hf" "compare hb = Some cmp" and ko: "key_ops hf cmp"
    and dup: "dup_ok cmp (key_dup hb)" and init: "size_ok (table_size_init hb)"
    by (rule hm_invE)
  let ?hb = "hb\<lparr>hm_size := 0, table_size := ts, table := Some (replicate (unat ts) empty_entry)\<rparr>"
  have "table_ok hf cmp ts (replicate (unat ts) empty_entry :: ('a, 'b) entry list)"
    using ts by (intro empty_table_ok size_ok_pow2)
  then show "hm_inv ?hb"
    using fns ko dup init ts by (intro hm_invI [of _ hf cmp "replicate (unat ts) empty_entry"]) simp_all
  show "hm_map ?hb = (\<lambda>_. None)"
    using fns by (simp add: hm_map_def entries_def empty_table_map fun_eq_iff)
qed

lemma empty_no_table:
  assumes inv: "hm_inv hb" and none: "table hb = None"
  shows "hm_map hb = (\<lambda>_. None)" and "table_size hb = 0" and "hm_size hb = 0" and "freed_keys hb = []"
proof -
  show "hm_map hb = (\<lambda>_. None)" using none by (simp add: hm_map_no_table fun_eq_iff)
  from inv none show "table_size hb = 0" and "hm_size hb = 0" by (auto elim!: hm_invE)
  show "freed_keys hb = []" using none by (simp add: freed_keys_def entries_def List.map_filter_simps)
qed

lemma clear_table_inv:
  assumes inv: "hm_inv hb"
  shows "hm_inv (clear_table (hb\<lparr>trace := tr, hm_size := 0\<rparr>)) \<and>
    hm_map (clear_table (hb\<lparr>trace := tr, hm_size := 0\<rparr>)) = (\<lambda>_. None)"
proof (cases "table hb")
  case None
  then have "clear_table (hb\<lparr>trace := tr, hm_size := 0\<rparr>) = hb\<lparr>trace := tr\<rparr>"
    using empty_no_table(3) [OF inv None] by (simp add: clear_table_def)
  with inv empty_no_table(1) [OF inv None] show ?thesis by simp
next
  case (Some tb)
  with inv have ts: "size_ok (table_size hb)" and len: "length tb = unat (table_size hb)"
    by (auto elim!: hm_invE simp: table_ok_def)
  have "clear_table (hb\<lparr>trace := tr, hm_size := 0\<rparr>) =
      hb\<lparr>hm_size := 0, table_size := table_size hb,
         table := Some (replicate (unat (table_size hb)) empty_entry)\<rparr>\<lparr>trace := tr\<rparr>"
    using Some len by (simp add: clear_table_def)
  then show ?thesis using fresh_table [OF inv ts] by (simp only: hm_inv_trace hm_map_trace)
qed

lemma clear_outcome:
  assumes "hm_inv hb"
  shows "hm_inv (managed_object_hashmap_base_clear hb) \<and>
    hm_map (managed_object_hashmap_base_clear hb) = (\<lambda>_. None) \<and>
    hm_size (managed_object_hashmap_base_clear hb) = 0 \<and>
    table_size (managed_object_hashmap_base_clear hb) = table_size hb \<and>
    (\<exists>ks. trace (managed_object_hashmap_base_clear hb) =
        trace hb @ (if key_free hb then map Key_freed ks else []) \<and>
      mset ks = image_mset (\<lambda>e. the (ekey e)) (live (entries hb)))"
proof -
  have eq: "managed_object_hashmap_base_clear hb =
      clear_table (hb\<lparr>trace := trace hb @ freed_keys hb, hm_size := 0\<rparr>)"
    using free_keys_inv [OF assms] by (simp add: managed_object_hashmap_base_clear_def)
  have "trace (managed_object_hashmap_base_clear hb) =
      trace hb @ (if key_free hb then map Key_freed (List.map_filter ekey (entries hb)) else [])"
    unfolding eq by (simp add: clear_table_def freed_keys_def)
  with map_filter_live [of "entries hb"] clear_table_inv [OF assms] eq show ?thesis
    by (intro conjI exI [of _ "List.map_filter ekey (entries hb)"]) (simp_all add: clear_table_def)
qed

text \<open>
  Clearing.  On a map that satisfies the invariant, \<open>clear\<close> leaves the empty map with its
  table size, and, if \<open>key_free\<close> is set, frees every stored key exactly once.
\<close>

theorem clear_correct:
  assumes "hm_inv hb"
  shows "hm_inv (managed_object_hashmap_base_clear hb) \<and>
    hm_map (managed_object_hashmap_base_clear hb) = (\<lambda>_. None) \<and>
    hm_size (managed_object_hashmap_base_clear hb) = 0 \<and>
    table_size (managed_object_hashmap_base_clear hb) = table_size hb \<and>
    (\<exists>ks. trace (managed_object_hashmap_base_clear hb) =
        trace hb @ (if key_free hb then map Key_freed ks else []) \<and>
      mset ks = image_mset (\<lambda>e. the (ekey e)) (live (entries hb)))"
  using assms by (rule clear_outcome)

lemma reset_outcome:
  assumes "hm_inv hb" and "mem \<or> table_size hb = table_size_init hb"
  shows "\<exists>hb'. managed_object_hashmap_base_reset hb ud mem = (0, hb') \<and> hm_inv hb' \<and>
    hm_map hb' = (\<lambda>_. None) \<and> hm_size hb' = 0 \<and> table_size hb' = table_size_init hb"
proof (cases "table_size hb = table_size_init hb")
  case True
  then have "managed_object_hashmap_base_reset hb ud mem =
      (0, clear_table (hb\<lparr>trace := trace hb @ freed_keys hb, hm_size := 0\<rparr>))"
    using free_keys_inv [OF assms(1)] by (simp add: managed_object_hashmap_base_reset_def Let_def)
  with True clear_table_inv [OF assms(1)] show ?thesis by (simp add: clear_table_def)
next
  case False
  then have mem: mem using assms(2) by simp
  let ?ts = "table_size_init hb"
  have ts: "size_ok ?ts" using assms(1) by (rule hm_invE) blast
  let ?hb = "hb\<lparr>hm_size := 0, table_size := ?ts, table := Some (replicate (unat ?ts) empty_entry)\<rparr>"
  let ?h2 = "hb\<lparr>trace := trace hb @ freed_keys hb, hm_size := 0,
      table := Some (replicate (unat ?ts) empty_entry), table_size := ?ts\<rparr>"
  obtain tr where n: "notify_realloc ud True (?ts * 2) ?h2 = ?h2\<lparr>trace := tr\<rparr>"
    using notify_realloc_trace by blast
  have "managed_object_hashmap_base_reset hb ud mem =
      (0, if table hb = None then ?h2\<lparr>trace := tr\<rparr> else log_event Table_freed (?h2\<lparr>trace := tr\<rparr>))"
    using False mem free_keys_inv [OF assms(1)] n
    by (simp add: calloc_entries_ok [OF ts] managed_object_hashmap_base_reset_def Let_def)
  also have "\<dots> = (0, ?hb\<lparr>trace := (if table hb = None then tr else tr @ [Table_freed])\<rparr>)"
    by (cases "table hb") (simp_all add: log_event_def)
  finally have "managed_object_hashmap_base_reset hb ud mem =
      (0, ?hb\<lparr>trace := (if table hb = None then tr else tr @ [Table_freed])\<rparr>)" .
  with fresh_table [OF assms(1) ts] show ?thesis by simp
qed

text \<open>
  Resetting with memory.  On a map that satisfies the invariant, when the table has its
  initial size or \<open>calloc\<close> succeeds, \<open>reset\<close> returns 0 and leaves the empty map at the
  initial size, with the invariant.
\<close>

theorem reset_correct:
  assumes "hm_inv hb" and "mem \<or> table_size hb = table_size_init hb"
  shows "\<exists>hb'. managed_object_hashmap_base_reset hb ud mem = (0, hb') \<and> hm_inv hb' \<and>
    hm_map hb' = (\<lambda>_. None) \<and> hm_size hb' = 0 \<and> table_size hb' = table_size_init hb"
  using assms by (rule reset_outcome)

text \<open>
  Resetting out of memory.  When \<open>reset\<close> cannot get the new table it returns \<open>-ENOMEM\<close>
  with the element count already 0 and the keys already freed, but the old table in place:
  a lookup still returns the datum of every key that was in the map, so a map that was not
  empty no longer satisfies the invariant.
\<close>

theorem reset_enomem_stale:
  assumes "hm_inv hb" and "table_size hb \<noteq> table_size_init hb"
  shows "\<exists>hb'. managed_object_hashmap_base_reset hb ud False = (- ENOMEM, hb') \<and> hm_size hb' = 0 \<and>
    trace hb' = trace hb @ freed_keys hb \<and>
    (\<forall>k. managed_object_hashmap_base_get hb' (Some k) = Inr (hm_map hb k)) \<and>
    (hm_size hb \<noteq> 0 \<longrightarrow> \<not> hm_inv hb')"
proof -
  let ?hb = "hb\<lparr>trace := trace hb @ freed_keys hb, hm_size := 0\<rparr>"
  have reset: "managed_object_hashmap_base_reset hb ud False = (- ENOMEM, ?hb)"
    using assms(2) free_keys_inv [OF assms(1)]
    by (simp add: managed_object_hashmap_base_reset_def Let_def calloc_entries_def)
  have ent: "entries ?hb = entries hb" by (simp add: entries_def)
  from assms(1) obtain hf cmp where "hash hb = Some hf" "compare hb = Some cmp" by (rule hm_invE)
  then have "managed_object_hashmap_base_get ?hb (Some k) = managed_object_hashmap_base_get hb (Some k)" for k
    by (simp add: ent managed_object_hashmap_base_get_def managed_object_hashmap_entry_find_def
        split: option.split)
  then have get: "managed_object_hashmap_base_get ?hb (Some k) = Inr (hm_map hb k)" for k
    using get_result [OF assms(1), of "Some k"] by simp
  have "\<not> hm_inv ?hb" if "hm_size hb \<noteq> 0"
  proof
    assume "hm_inv ?hb"
    then have "size (live (entries hb)) = 0" using hm_entries(2) [of ?hb] by (simp add: entries_def)
    moreover have "unat (hm_size hb) \<noteq> 0" using that by (simp add: unat_eq_0)
    ultimately show False using hm_entries(2) [OF assms(1)] by simp
  qed
  with reset get show ?thesis by simp
qed

text \<open>
  Cleaning up.  On a map that satisfies the invariant, \<open>cleanup\<close> frees every stored key
  once if \<open>key_free\<close> is set, reports the end of the table to \<open>on_realloc\<close>, frees the table if
  there is one, in this order, and zeroes the map; a lookup after it is undefined.
\<close>

theorem cleanup_correct:
  assumes "hm_inv hb"
  shows "trace (managed_object_hashmap_base_cleanup hb ud) =
      trace hb @ freed_keys hb @ (if on_realloc hb then [Table_realloc ud False 0] else []) @
      (if table hb = None then [] else [Table_freed]) \<and>
    table (managed_object_hashmap_base_cleanup hb ud) = None \<and>
    hm_size (managed_object_hashmap_base_cleanup hb ud) = 0 \<and>
    managed_object_hashmap_base_get (managed_object_hashmap_base_cleanup hb ud) (Some k) =
      Inl Undefined_behaviour"
  using free_keys_inv [OF assms]
  by (simp add: managed_object_hashmap_base_cleanup_def notify_realloc_def log_event_def Let_def
      managed_object_hashmap_base_get_def managed_object_hashmap_entry_find_def)

end
