(* ===== verification/HashmapIter.thy ===== *)
theory HashmapIter
  imports HashmapLife
begin

text \<open>
  Iteration: the foreach loops of \<open>include/managed_object_hashmap.h\<close>, which entries they visit,
  removal while iterating, and what may be seen twice.
\<close>

section \<open>The next populated slot\<close>

lemma get_populated_SomeD:
  "get_populated_loop tb n i = Some p \<Longrightarrow> i \<le> p \<and> p < n \<and> pop tb p \<and> (\<forall>x. i \<le> x \<longrightarrow> x < p \<longrightarrow> \<not> pop tb x)"
proof (induction tb n i rule: get_populated_loop.induct)
  case (1 tb n i)
  show ?case
  proof (cases "i < n \<and> ekey (tb ! i) = None")
    case True
    then have "get_populated_loop tb n (Suc i) = Some p"
      using 1(2) by (simp add: get_populated_loop.simps [of tb n i])
    with 1(1) True have next': "Suc i \<le> p" "p < n" "pop tb p" "\<forall>x. Suc i \<le> x \<longrightarrow> x < p \<longrightarrow> \<not> pop tb x"
      by auto
    have "\<not> pop tb x" if "i \<le> x" "x < p" for x
      using that next'(4) True by (cases "x = i") (auto simp: pop_def)
    with next' show ?thesis by simp
  next
    case False
    with 1(2) show ?thesis
      by (auto simp: get_populated_loop.simps [of tb n i] pop_def split: if_splits)
  qed
qed

lemma get_populated_NoneD: "get_populated_loop tb n i = None \<Longrightarrow> i \<le> x \<Longrightarrow> x < n \<Longrightarrow> \<not> pop tb x"
proof (induction tb n i rule: get_populated_loop.induct)
  case (1 tb n i)
  then have i: "i < n" "ekey (tb ! i) = None" "get_populated_loop tb n (Suc i) = None"
    by (auto simp: get_populated_loop.simps [of tb n i] split: if_splits)
  with 1 show ?case by (cases "x = i") (auto simp: pop_def)
qed

lemma get_populated_filter:
  assumes "length tb = n" and "i \<le> n"
  shows "(case get_populated_loop tb n i of
      None \<Rightarrow> filter (\<lambda>e. ekey e \<noteq> None) (drop i tb) = []
    | Some p \<Rightarrow> filter (\<lambda>e. ekey e \<noteq> None) (drop i tb) =
        tb ! p # filter (\<lambda>e. ekey e \<noteq> None) (drop (Suc p) tb))"
  using assms
proof (induction tb n i rule: get_populated_loop.induct)
  case (1 tb n i)
  show ?case
  proof (cases "i < n")
    case True
    then have d: "drop i tb = tb ! i # drop (Suc i) tb" using 1(2) by (simp add: Cons_nth_drop_Suc)
    show ?thesis
    proof (cases "ekey (tb ! i)")
      case None
      with 1 True d show ?thesis
        by (cases "get_populated_loop tb n (Suc i)") (simp_all add: get_populated_loop.simps [of tb n i])
    next
      case (Some k)
      with True d show ?thesis by (simp add: get_populated_loop.simps [of tb n i])
    qed
  next
    case False
    then have "get_populated_loop tb n i = None" by (simp add: get_populated_loop.simps [of tb n i])
    with 1(2,3) False show ?thesis by simp
  qed
qed

section \<open>The foreach loop\<close>

text \<open>
  \<open>managed_object_hashmap_foreach\<close> with a body that does not change the map: the sequence of
  pairs the body sees.
\<close>

function foreach_from :: "('k, 'v) hb \<Rightarrow> nat option \<Rightarrow> ('k \<times> 'v) list" where
  "foreach_from hb iter =
     (case (managed_object_hashmap_base_iter_get_key hb iter,
            managed_object_hashmap_base_iter_get_data hb iter) of
        (Some k, Some d) \<Rightarrow> (k, d) # foreach_from hb (snd (managed_object_hashmap_base_iter_next hb iter))
      | _ \<Rightarrow> [])"
  by pat_completeness auto
termination
proof (relation "measure (\<lambda>(hb, it). case it of None \<Rightarrow> 0 | Some i \<Rightarrow> Suc (unat (table_size hb) - i))")
  fix hb :: "('k, 'v) hb" and iter x y k d
  assume "(x, y) = (managed_object_hashmap_base_iter_get_key hb iter,
      managed_object_hashmap_base_iter_get_data hb iter)" and "x = Some k"
  then obtain i where iter: "iter = Some i"
    by (auto simp: managed_object_hashmap_base_iter_get_key_def split: option.splits)
  show "((hb, snd (managed_object_hashmap_base_iter_next hb iter)), hb, iter)
    \<in> measure (\<lambda>(hb, it). case it of None \<Rightarrow> 0 | Some i \<Rightarrow> Suc (unat (table_size hb) - i))"
  proof (cases "managed_object_hashmap_entry_get_populated hb (Suc i)")
    case None
    with iter show ?thesis by (simp add: managed_object_hashmap_base_iter_next_def)
  next
    case (Some p)
    then have "Suc i \<le> p \<and> p < unat (table_size hb)"
      using get_populated_SomeD
      by (fastforce simp: managed_object_hashmap_entry_get_populated_def split: if_splits)
    then have "unat (table_size hb) - p < unat (table_size hb) - i" by linarith
    with Some iter show ?thesis by (simp add: managed_object_hashmap_base_iter_next_def)
  qed
qed simp

declare foreach_from.simps [simp del]

definition managed_object_hashmap_foreach :: "('k, 'v) hb \<Rightarrow> ('k \<times> 'v) list" where
  "managed_object_hashmap_foreach hb = foreach_from hb (managed_object_hashmap_base_iter hb None)"

definition pair_of :: "('k, 'v) entry \<Rightarrow> 'k \<times> 'v" where
  "pair_of e = (the (ekey e), the (edata e))"

lemma foreach_from_populated:
  assumes "length (entries hb) = unat (table_size hb)" and "slots_ok (entries hb)" and "0 < hm_size hb"
    and "i \<le> unat (table_size hb)"
  shows "foreach_from hb (managed_object_hashmap_entry_get_populated hb i) =
    map pair_of (filter (\<lambda>e. ekey e \<noteq> None) (drop i (entries hb)))"
  using assms(4)
proof (induction "unat (table_size hb) - i" arbitrary: i rule: less_induct)
  case less
  let ?tb = "entries hb" and ?n = "unat (table_size hb)"
  have gp: "managed_object_hashmap_entry_get_populated hb j = get_populated_loop ?tb ?n j" for j
    using assms(3) by (simp add: managed_object_hashmap_entry_get_populated_def)
  show ?case
  proof (cases "get_populated_loop ?tb ?n i")
    case None
    with get_populated_filter [OF assms(1) less(2)] gp show ?thesis
      by (simp add: foreach_from.simps [of hb None] managed_object_hashmap_base_iter_get_key_def)
  next
    case (Some p)
    have p: "i \<le> p" "p < ?n" "pop ?tb p" using get_populated_SomeD [OF Some] by simp_all
    then obtain k where k: "ekey (?tb ! p) = Some k" by (auto simp: pop_def)
    have "?tb ! p \<in> set ?tb" using p(2) assms(1) by simp
    then obtain d where d: "edata (?tb ! p) = Some d"
      using assms(2) k unfolding slots_ok_def by fastforce
    have "foreach_from hb (managed_object_hashmap_entry_get_populated hb (Suc p)) =
        map pair_of (filter (\<lambda>e. ekey e \<noteq> None) (drop (Suc p) ?tb))"
      using p by (intro less(1)) simp_all
    with get_populated_filter [OF assms(1) less(2)] Some gp k d show ?thesis
      by (simp add: foreach_from.simps [of hb "Some p"] managed_object_hashmap_base_iter_get_key_def
          managed_object_hashmap_base_iter_get_data_def managed_object_hashmap_base_iter_next_def
          Let_def pair_of_def)
  qed
qed

lemma foreach_filter:
  assumes inv: "hm_inv hb"
  shows "managed_object_hashmap_foreach hb = map pair_of (filter (\<lambda>e. ekey e \<noteq> None) (entries hb))"
proof (cases "hm_size hb = 0")
  case True
  then have "mset (filter (\<lambda>e. ekey e \<noteq> None) (entries hb)) = {#}"
    using hm_entries(2) [OF inv] by (simp add: live_def)
  with True show ?thesis
    by (simp add: managed_object_hashmap_foreach_def managed_object_hashmap_base_iter_def
        managed_object_hashmap_entry_get_populated_def foreach_from.simps [of hb None]
        managed_object_hashmap_base_iter_get_key_def)
next
  case False
  have "slots_ok (entries hb)"
    using inv by (rule hm_invE) (cases "table hb"; simp add: entries_def table_ok_def slots_ok_def)
  with foreach_from_populated [OF hm_entries(1) [OF inv], of 0] False show ?thesis
    by (simp add: managed_object_hashmap_foreach_def managed_object_hashmap_base_iter_def word_neq_0_conv)
qed

lemma hm_map_entries:
  assumes inv: "hm_inv hb"
  shows "hm_map hb k = Some d \<longleftrightarrow>
    (\<exists>e \<in> set (filter (\<lambda>e. ekey e \<noteq> None) (entries hb)). same_key hb k (the (ekey e)) \<and> edata e = Some d)"
proof (cases "table hb")
  case None
  then show ?thesis by (simp add: hm_map_no_table entries_def)
next
  case (Some tb)
  from inv Some obtain hf cmp where fns: "compare hb = Some cmp" and ko: "key_ops hf cmp"
    and ok: "table_ok hf cmp (table_size hb) tb" by (auto elim: hm_invE)
  have "hm_map hb k = Some d \<longleftrightarrow> (\<exists>e. e \<in># live tb \<and> matches cmp k e \<and> edata e = Some d)"
    using key_ops.table_map_live [OF ko ok] fns Some by (simp add: hm_map_table)
  with fns Some show ?thesis
    by (auto simp: live_def entries_def matches_def same_key_def split: option.splits)
qed

text \<open>
  The foreach loop.  On a map that satisfies the invariant, a loop whose body leaves the
  map alone sees every entry exactly once: as many pairs as the element count, one for each
  key that the map has, with its datum, and no two of them for matching keys.
\<close>

theorem foreach_visits_once:
  assumes "hm_inv hb"
  shows "length (managed_object_hashmap_foreach hb) = unat (hm_size hb) \<and>
    (\<forall>k d. hm_map hb k = Some d \<longleftrightarrow>
       (\<exists>k'. (k', d) \<in> set (managed_object_hashmap_foreach hb) \<and> same_key hb k k')) \<and>
    mset (managed_object_hashmap_foreach hb) = image_mset pair_of (live (entries hb))"
proof (intro conjI allI)
  let ?es = "filter (\<lambda>e. ekey e \<noteq> None) (entries hb)"
  have each: "managed_object_hashmap_foreach hb = map pair_of ?es" using assms by (rule foreach_filter)
  show "length (managed_object_hashmap_foreach hb) = unat (hm_size hb)"
    using hm_entries(2) [OF assms] each by (simp only: live_def size_mset length_map)
  show "mset (managed_object_hashmap_foreach hb) = image_mset pair_of (live (entries hb))"
    using each by (simp add: live_def)
  fix k d
  have slots: "edata e \<noteq> None" if "e \<in> set ?es" for e
    using assms that by (rule_tac hm_invE) (cases "table hb"; auto simp: entries_def table_ok_def slots_ok_def)+
  show "hm_map hb k = Some d \<longleftrightarrow>
      (\<exists>k'. (k', d) \<in> set (managed_object_hashmap_foreach hb) \<and> same_key hb k k')"
    unfolding hm_map_entries [OF assms] each using slots
    by (force simp: pair_of_def image_iff)
qed


section \<open>Removing while iterating\<close>

text \<open>Closing a gap never populates a slot that was free.\<close>

lemma entry_remove_loop_pop:
  assumes "entry_remove_loop tb ts hf n index removed = (tb', hole)" and "pow2_size ts"
    and "length tb = unat ts" and "unat removed < unat ts" and "unat index < unat ts"
    and "pop tb (unat removed)" and "pop tb' x"
  shows "pop tb x"
  using assms
proof (induction n arbitrary: tb index removed)
  case (Suc n)
  let ?next = "MANAGED_OBJECT_HASHMAP_PROBE_NEXT ts index"
  have nx: "unat ?next < unat ts"
    using Suc.prems(2) pow2_size_pos [of ts] by (simp add: probe_next_unat)
  show ?case
  proof (cases "ekey (tb ! unat index)")
    case None
    with Suc.prems show ?thesis by simp
  next
    case (Some k)
    let ?e = "managed_object_hashmap_calc_index hf ts k"
    have pi: "pop tb (unat index)" using Some by (simp add: pop_def)
    show ?thesis
    proof (cases "MANAGED_OBJECT_HASHMAP_SIZE_MOD ts (index - ?e) >
        MANAGED_OBJECT_HASHMAP_SIZE_MOD ts (removed - ?e)")
      case True
      let ?tb = "tb[unat removed := tb ! unat index]"
      have same: "pop ?tb y = pop tb y" for y
        using Suc.prems(3,4,6) Some by (cases "y = unat removed") (auto simp: pop_def)
      have "entry_remove_loop ?tb ts hf n ?next index = (tb', hole)"
        using Suc.prems(1) Some True by simp
      then have "pop ?tb x"
        using Suc.IH [of ?tb ?next index] Suc.prems nx same pi by simp
      with same show ?thesis by simp
    next
      case False
      then have "entry_remove_loop tb ts hf n ?next removed = (tb', hole)"
        using Suc.prems(1) Some by simp
      then show ?thesis using Suc.IH [of tb ?next removed] Suc.prems nx by simp
    qed
  qed
qed simp

lemma pop_clear: "pop (tb[h := empty_entry]) x \<Longrightarrow> pop tb x"
proof (cases "h < length tb")
  case True
  assume "pop (tb[h := empty_entry]) x"
  with True show ?thesis by (simp add: pop_update split: if_splits)
next
  case False
  assume "pop (tb[h := empty_entry]) x"
  with False show ?thesis by (simp add: list_update_beyond)
qed

lemma entry_remove_pop:
  assumes inv: "hm_inv hb" and i: "i < unat (table_size hb)" "ekey (entries hb ! i) = Some k"
    and rem: "managed_object_hashmap_entry_remove hb i = Inr hb'" and x: "pop (entries hb') x"
  shows "pop (entries hb) x"
proof -
  from inv obtain hf cmp where fns: "hash hb = Some hf" and
    t0: "table hb = None \<longrightarrow> table_size hb = 0 \<and> hm_size hb = 0"
    and t1: "\<forall>tb. table hb = Some tb \<longrightarrow> size_ok (table_size hb) \<and>
       table_ok hf cmp (table_size hb) tb \<and> unat (hm_size hb) = size (live tb)"
    by (rule hm_invE)
  from i t0 obtain tb where tb: "table hb = Some tb" by (cases "table hb") auto
  with t1 have p: "pow2_size (table_size hb)" "length tb = unat (table_size hb)"
    by (simp_all add: size_ok_pow2 table_ok_def)
  have ent: "entries hb = tb" using tb by (simp add: entries_def)
  have ui: "unat (word_of_nat i :: size_t) = i"
    using i(1) unat_less_64 [of "table_size hb"] by (simp add: unat_of_nat)
  obtain tb1 hole where loop: "entry_remove_loop tb (table_size hb) hf (unat (hm_size hb - 1))
      (MANAGED_OBJECT_HASHMAP_PROBE_NEXT (table_size hb) (word_of_nat i)) (word_of_nat i) = (tb1, hole)"
    by (metis surj_pair)
  have "entries hb' = tb1[unat hole := empty_entry]"
    using rem fns loop ent i(2)
    by (auto simp: managed_object_hashmap_entry_remove_def log_event_def Let_def entries_def)
  with x have "pop tb1 x" by (simp add: pop_clear)
  moreover have "unat (MANAGED_OBJECT_HASHMAP_PROBE_NEXT (table_size hb) (word_of_nat i)) <
      unat (table_size hb)"
    using p(1) pow2_size_pos [of "table_size hb"] by (simp add: probe_next_unat)
  ultimately show ?thesis
    using entry_remove_loop_pop [OF loop p] ui i ent by (auto simp: pop_def)
qed

text \<open>\<open>n\<close> calls of \<open>iter_remove\<close>, each on the iterator that the one before it left.\<close>

fun iter_remove_steps :: "nat \<Rightarrow> ('k, 'v) hb \<Rightarrow> nat option \<Rightarrow> fault + nat option \<times> ('k, 'v) hb" where
  "iter_remove_steps 0 hb iter = Inr (iter, hb)"
| "iter_remove_steps (Suc n) hb iter =
     (case managed_object_hashmap_base_iter_remove hb iter of
        Inl f \<Rightarrow> Inl f
      | Inr (valid, iter', hb') \<Rightarrow> iter_remove_steps n hb' iter')"

lemma drain_from:
  assumes "hm_inv hb" and "hm_size hb < table_size hb" and "unat (hm_size hb) = n"
    and "\<forall>x < i. \<not> pop (entries hb) x"
  shows "\<exists>hb' ks. iter_remove_steps n hb (managed_object_hashmap_entry_get_populated hb i) = Inr (None, hb') \<and>
    hm_inv hb' \<and> hm_size hb' = 0 \<and>
    trace hb' = trace hb @ (if key_free hb then map Key_freed ks else []) \<and>
    mset ks = image_mset (\<lambda>e. the (ekey e)) (live (entries hb))"
  using assms
proof (induction n arbitrary: hb i)
  case 0
  then have "hm_size hb = 0" by (simp add: unat_eq_0)
  moreover from this have "live (entries hb) = {#}" using hm_entries(2) [OF 0(1)] by simp
  ultimately show ?case
    using 0(1) by (simp add: managed_object_hashmap_entry_get_populated_def)
next
  case (Suc n)
  let ?tb = "entries hb" and ?n = "unat (table_size hb)"
  have len: "length ?tb = ?n" using hm_entries(1) [OF Suc.prems(1)] .
  have pos: "0 < hm_size hb" using Suc.prems(3) by (simp add: word_less_nat_alt)
  have "get_populated_loop ?tb ?n i \<noteq> None"
  proof
    assume none: "get_populated_loop ?tb ?n i = None"
    have "{x. x < length ?tb \<and> pop ?tb x} = {}"
      using get_populated_NoneD [OF none] Suc.prems(4) len by (auto simp: not_le [symmetric])
    then have "size (live ?tb) = 0" by (simp only: size_live card.empty)
    then show False using hm_entries(2) [OF Suc.prems(1)] Suc.prems(3) by simp
  qed
  then obtain p where p: "get_populated_loop ?tb ?n i = Some p" by blast
  then have pp: "i \<le> p" "p < ?n" "pop ?tb p" "\<forall>x. i \<le> x \<longrightarrow> x < p \<longrightarrow> \<not> pop ?tb x"
    using get_populated_SomeD [OF p] by simp_all
  then obtain k where k: "ekey (?tb ! p) = Some k" by (auto simp: pop_def)
  obtain tb' where rem: "managed_object_hashmap_entry_remove hb p =
      Inr (hb\<lparr>hm_size := hm_size hb - 1, table := Some tb',
              trace := trace hb @ (if key_free hb then [Key_freed k] else [])\<rparr>)"
    and inv': "hm_inv (hb\<lparr>hm_size := hm_size hb - 1, table := Some tb'\<rparr>)"
    and live: "live ?tb = add_mset (?tb ! p) (live tb')"
    using entry_remove_correct [OF Suc.prems(1) pp(2) k Suc.prems(2)] by blast
  let ?hb = "hb\<lparr>hm_size := hm_size hb - 1, table := Some tb',
              trace := trace hb @ (if key_free hb then [Key_freed k] else [])\<rparr>"
  have inv: "hm_inv ?hb" using inv' by (simp only: hm_inv_trace)
  have sz: "unat (hm_size hb - 1) = n"
    using Suc.prems(3) pos by (simp add: unat_sub word_le_nat_alt word_less_nat_alt)
  have room: "hm_size ?hb < table_size ?hb"
    using Suc.prems(2,3) sz by (simp add: word_less_nat_alt)
  have below: "\<forall>x < p. \<not> pop (entries ?hb) x"
    using entry_remove_pop [OF Suc.prems(1) pp(2) k rem] pp(4) Suc.prems(4) by (meson not_le)
  obtain hb' ks where IH: "iter_remove_steps n ?hb (managed_object_hashmap_entry_get_populated ?hb p) = Inr (None, hb')"
    "hm_inv hb'" "hm_size hb' = 0" "trace hb' = trace ?hb @ (if key_free hb then map Key_freed ks else [])"
    "mset ks = image_mset (\<lambda>e. the (ekey e)) (live tb')"
    using Suc.IH [OF inv room _ below] sz by (auto simp: entries_def)
  have "iter_remove_steps (Suc n) hb (managed_object_hashmap_entry_get_populated hb i) = Inr (None, hb')"
    using pos p k rem IH(1)
    by (simp add: managed_object_hashmap_entry_get_populated_def [of hb]
        managed_object_hashmap_base_iter_remove_def Let_def)
  moreover have "trace hb' = trace hb @ (if key_free hb then map Key_freed (k # ks) else [])"
    using IH(4) by simp
  moreover have "mset (k # ks) = image_mset (\<lambda>e. the (ekey e)) (live ?tb)"
    using IH(5) live k by simp
  ultimately show ?case using IH(2,3) by blast
qed

text \<open>
  C24: Draining a map through its iterator.  On a map that satisfies the invariant and is not
  full, starting at the first entry and calling \<open>iter_remove\<close> as many times as the map has
  entries leaves the empty map and an iterator at its end, with every stored key freed
  exactly once if \<open>key_free\<close> is set: no entry that a removal shifts is skipped.
\<close>

theorem iter_remove_drains:
  assumes "hm_inv hb" and "hm_size hb < table_size hb"
  shows "\<exists>hb' ks. iter_remove_steps (unat (hm_size hb)) hb (managed_object_hashmap_base_iter hb None) =
      Inr (None, hb') \<and>
    hm_inv hb' \<and> hm_size hb' = 0 \<and>
    trace hb' = trace hb @ (if key_free hb then map Key_freed ks else []) \<and>
    mset ks = image_mset (\<lambda>e. the (ekey e)) (live (entries hb))"
  using drain_from [OF assms refl, of 0] by (simp add: managed_object_hashmap_base_iter_def)

end
