(* ===== verification/HashmapReach.thy ===== *)
theory HashmapReach
  imports HashmapIter
begin

text \<open>
  The map as a state machine: every operation a client can call is a step, the client's side
  of the contract is the guard \<open>op_ok\<close>, and the invariant, the absence of failed assertions
  and of undefined behaviour, and the load bound hold in every reachable state.
\<close>

section \<open>Changing a datum in place\<close>

lemma set_data_correct:
  assumes inv: "hm_inv hb" and i: "i < unat (table_size hb)" "ekey (entries hb ! i) = Some k"
  shows "hm_inv (hb\<lparr>table := Some ((entries hb)[i := (entries hb ! i)\<lparr>edata := Some d\<rparr>])\<rparr>) \<and>
    hm_map (hb\<lparr>table := Some ((entries hb)[i := (entries hb ! i)\<lparr>edata := Some d\<rparr>])\<rparr>) =
      (\<lambda>x. if same_key hb x k then Some d else hm_map hb x)"
proof -
  from inv obtain hf cmp where fns: "hash hb = Some hf" "compare hb = Some cmp" and ko: "key_ops hf cmp"
    and dup: "dup_ok cmp (key_dup hb)" and init: "size_ok (table_size_init hb)"
    and t0: "table hb = None \<longrightarrow> table_size hb = 0 \<and> hm_size hb = 0"
    and t1: "\<forall>tb. table hb = Some tb \<longrightarrow> size_ok (table_size hb) \<and>
       table_ok hf cmp (table_size hb) tb \<and> unat (hm_size hb) = size (live tb)"
    by (rule hm_invE)
  from i t0 obtain tb where tb: "table hb = Some tb" by (cases "table hb") auto
  with t1 have ts: "size_ok (table_size hb)" and ok: "table_ok hf cmp (table_size hb) tb"
    and sz: "unat (hm_size hb) = size (live tb)" by simp_all
  have ent: "entries hb = tb" using tb by (simp add: entries_def)
  let ?e = "(tb ! i)\<lparr>edata := Some d\<rparr>" and ?M = "live tb - {#tb ! i#}"
  let ?tb = "tb[i := ?e]"
  have len: "length tb = unat (table_size hb)" using ok by (simp add: table_ok_def)
  have ik: "i < length tb" "ekey (tb ! i) = Some k" using i ent len by simp_all
  have key: "ekey (?tb ! j) = ekey (tb ! j)" for j
    using ik by (cases "j = i") simp_all
  have pop: "pop ?tb j = pop tb j" for j by (simp add: pop_def key)
  have match: "matches cmp x (?tb ! j) = matches cmp x (tb ! j)" for x j by (simp add: matches_def key)
  have mem: "tb ! i \<in># live tb" using ik by (auto simp: in_live_iff pop_def)
  have live: "live ?tb = add_mset ?e ?M" using ik by (simp add: live_update pop_def)
  have distinct: "keys_distinct cmp (live tb)" using ok by (simp add: table_ok_def)
  have "keys_distinct cmp (add_mset ?e ?M)"
  proof (rule keys_distinct_add)
    show "keys_distinct cmp ?M" using distinct by (rule keys_distinct_mono) simp
    show "ekey ?e = Some k" using ik by simp
    fix x b assume x: "x \<in># ?M" "ekey x = Some b"
    then have "{#tb ! i, x#} \<subseteq># live tb" "{#x, tb ! i#} \<subseteq># live tb"
      using mem by (simp_all add: insert_subset_eq_iff add_mset_commute [of x "tb ! i"])
    with distinct ik(2) x(2) show "cmp k b \<noteq> 0 \<and> cmp b k \<noteq> 0"
      unfolding keys_distinct_def by blast
  qed
  moreover have "slots_ok ?tb" using ok ik by (intro slots_ok_update) (simp_all add: table_ok_def)
  moreover have "chains_ok hf (table_size hb) ?tb"
    using ok by (simp add: table_ok_def chains_ok_def probe_full_def key pop)
  ultimately have ok': "table_ok hf cmp (table_size hb) ?tb"
    using ok live by (simp add: table_ok_def)
  have sz': "unat (hm_size hb) = size (live ?tb)" using sz live mem by (simp add: size_Suc_Diff1)
  have inv': "hm_inv (hb\<lparr>table := Some ?tb\<rparr>)"
    using fns ko dup init ts ok' sz' by (intro hm_invI [of _ hf cmp ?tb]) simp_all
  have "table_map cmp ?tb x = (if cmp x k = 0 then Some d else table_map cmp tb x)" for x
  proof (cases "\<exists>j < length tb. matches cmp x (tb ! j)")
    case True
    then obtain j where j: "j < length tb" "matches cmp x (tb ! j)" by blast
    have "matches cmp x (?tb ! j)" and "j < length ?tb" using j match by simp_all
    moreover have "keys_distinct cmp (live ?tb)" using ok' by (simp add: table_ok_def)
    ultimately have "table_map cmp ?tb x = edata (?tb ! j)"
      by (intro key_ops.table_map_match [OF ko])
    moreover have "table_map cmp tb x = edata (tb ! j)"
      using distinct j by (intro key_ops.table_map_match [OF ko])
    moreover have "cmp x k = 0 \<longleftrightarrow> j = i"
      using j ik key_ops.matches_unique [OF ko distinct j(1) ik(1) j(2)] by (auto simp: matches_def)
    ultimately show ?thesis using ik by simp
  next
    case False
    then have "table_map cmp ?tb x = None" "table_map cmp tb x = None"
      using match by (intro key_ops.table_map_none [OF ko]; simp)+
    moreover have "cmp x k \<noteq> 0" using False ik by (auto simp: matches_def)
    ultimately show ?thesis by simp
  qed
  then have "hm_map (hb\<lparr>table := Some ?tb\<rparr>) x = (if same_key hb x k then Some d else hm_map hb x)" for x
    using fns tb by (simp add: hm_map_def entries_def same_key_def)
  then show ?thesis using inv' ent by (simp add: fun_eq_iff)
qed

section \<open>Steps\<close>

datatype ('k, 'v) hm_op =
    Put "'k option" "'v option" bool
  | Get "'k option"
  | Remove "'k option"
  | Reserve size_t bool
  | Clear
  | Reset bool
  | Set_on_realloc bool
  | Set_key_alloc "('k \<Rightarrow> 'k option) option" bool
  | Iter_remove "nat option"
  | Iter_set_data "nat option" "'v option"

inductive hm_step :: "addr \<Rightarrow> ('k, 'v) hb \<Rightarrow> ('k, 'v) hm_op \<Rightarrow> ('k, 'v) hb \<Rightarrow> bool" for ud where
  step_put: "managed_object_hashmap_base_put hb ud k d mem = Inr (r, hb') \<Longrightarrow> hm_step ud hb (Put k d mem) hb'"
| step_get: "managed_object_hashmap_base_get hb k = Inr r \<Longrightarrow> hm_step ud hb (Get k) hb"
| step_remove: "managed_object_hashmap_base_remove hb k = Inr (r, hb') \<Longrightarrow> hm_step ud hb (Remove k) hb'"
| step_reserve: "managed_object_hashmap_base_reserve hb ud c mem = Inr (r, hb') \<Longrightarrow>
    hm_step ud hb (Reserve c mem) hb'"
| step_clear: "hm_step ud hb Clear (managed_object_hashmap_base_clear hb)"
| step_reset: "managed_object_hashmap_base_reset hb ud mem = (r, hb') \<Longrightarrow> hm_step ud hb (Reset mem) hb'"
| step_on_realloc: "hm_step ud hb (Set_on_realloc f) (managed_object_hashmap_base_set_on_realloc_func hb f)"
| step_key_alloc: "hm_step ud hb (Set_key_alloc dup fr)
    (managed_object_hashmap_base_set_key_alloc_funcs hb dup fr)"
| step_iter_remove: "managed_object_hashmap_base_iter_remove hb it = Inr (r, it', hb') \<Longrightarrow>
    hm_step ud hb (Iter_remove it) hb'"
| step_iter_set: "managed_object_hashmap_base_iter_set_data hb it d = (r, hb') \<Longrightarrow>
    hm_step ud hb (Iter_set_data it d) hb'"

inductive_cases hm_step_cases:
  "hm_step ud hb (Put k d mem) hb'"
  "hm_step ud hb (Get k) hb'"
  "hm_step ud hb (Remove k) hb'"
  "hm_step ud hb (Reserve c mem) hb'"
  "hm_step ud hb Clear hb'"
  "hm_step ud hb (Reset mem) hb'"
  "hm_step ud hb (Set_on_realloc f) hb'"
  "hm_step ud hb (Set_key_alloc dup fr) hb'"
  "hm_step ud hb (Iter_remove it) hb'"
  "hm_step ud hb (Iter_set_data it d) hb'"

text \<open>
  The client's contract.  With \<open>oom\<close> a failing \<open>calloc\<close> is allowed in \<open>put\<close> and \<open>reserve\<close>, and
  then removal is called only on a table that is not full; a \<open>reset\<close> gets its memory.  An
  iterator that is used is valid, and a key copy matches its key.
\<close>

definition not_full :: "('k, 'v) hb \<Rightarrow> bool" where
  "not_full hb \<longleftrightarrow> hm_size hb < table_size hb \<or> table_size hb = 0"

fun op_ok :: "bool \<Rightarrow> ('k, 'v) hb \<Rightarrow> ('k, 'v) hm_op \<Rightarrow> bool" where
  "op_ok oom hb (Put k d mem) = ((oom \<or> mem) \<and> unat (hm_size hb) \<le> max_elements)"
| "op_ok oom hb (Get k) = True"
| "op_ok oom hb (Remove k) = (oom \<longrightarrow> not_full hb)"
| "op_ok oom hb (Reserve c mem) = ((oom \<or> mem) \<and> unat c \<le> max_elements)"
| "op_ok oom hb Clear = True"
| "op_ok oom hb (Reset mem) = (mem \<or> table_size hb = table_size_init hb)"
| "op_ok oom hb (Set_on_realloc f) = True"
| "op_ok oom hb (Set_key_alloc dup fr) = dup_ok (the (compare hb)) dup"
| "op_ok oom hb (Iter_remove it) =
     (it \<noteq> None \<longrightarrow> managed_object_hashmap_base_iter_valid hb it = Inr True \<and> (oom \<longrightarrow> not_full hb))"
| "op_ok oom hb (Iter_set_data it d) = (it \<noteq> None \<longrightarrow> managed_object_hashmap_base_iter_valid hb it = Inr True)"

inductive hm_reach :: "bool \<Rightarrow> addr \<Rightarrow> ('k, 'v) hb \<Rightarrow> bool" for oom ud where
  reach_init: "key_ops hf cmp \<Longrightarrow> managed_object_hashmap_base_init (Some hf) (Some cmp) = Inr hb \<Longrightarrow>
    hm_reach oom ud hb"
| reach_step: "hm_reach oom ud hb \<Longrightarrow> op_ok oom hb op \<Longrightarrow> hm_step ud hb op hb' \<Longrightarrow> hm_reach oom ud hb'"


section \<open>Every step keeps the invariant\<close>

text \<open>
  The load bound: the last insertion found \<open>size - 1\<close> entries in a table large enough for
  them, so the size is at most three quarters of the table, plus one.
\<close>

definition load_ok :: "('k, 'v) hb \<Rightarrow> bool" where
  "load_ok hb \<longleftrightarrow> hm_size hb = 0 \<or> 4 * unat (hm_size hb) \<le> 3 * unat (table_size hb) + 4"

lemma hm_sizes:
  assumes "hm_inv hb"
  shows "table hb = None \<and> table_size hb = 0 \<and> hm_size hb = 0 \<or>
    table hb \<noteq> None \<and> size_ok (table_size hb) \<and> 32 \<le> unat (table_size hb)"
  using assms
proof (rule hm_invE)
  fix hf cmp
  assume "table hb = None \<longrightarrow> table_size hb = 0 \<and> hm_size hb = 0"
    and "\<forall>tb. table hb = Some tb \<longrightarrow> size_ok (table_size hb) \<and>
       table_ok hf cmp (table_size hb) tb \<and> unat (hm_size hb) = size (live tb)"
  then show ?thesis using size_ok_bounds [of "table_size hb"] by (cases "table hb") simp_all
qed

lemma load_ok_not_full: "hm_inv hb \<Longrightarrow> load_ok hb \<Longrightarrow> not_full hb"
  using hm_sizes [of hb] by (auto simp: load_ok_def not_full_def word_less_nat_alt)

lemma remove_guard: "hm_inv hb \<Longrightarrow> not_full hb \<Longrightarrow> hm_size hb < table_size hb \<or> hm_map hb k = None"
  using hm_sizes [of hb] hm_map_no_table [of hb k] by (auto simp: not_full_def)

lemma iter_valid_slot:
  assumes "managed_object_hashmap_base_iter_valid hb it = Inr True"
  obtains i k where "it = Some i" and "i < unat (table_size hb)" and "ekey (entries hb ! i) = Some k"
  using assms by (auto simp: managed_object_hashmap_base_iter_valid_def split: option.splits if_splits)

lemma iter_remove_valid:
  assumes inv: "hm_inv hb" and free: "not_full hb"
    and i: "i < unat (table_size hb)" "ekey (entries hb ! i) = Some k"
  shows "\<exists>it' hb'. managed_object_hashmap_base_iter_remove hb (Some i) = Inr (it' \<noteq> None, it', hb') \<and>
    hm_inv hb' \<and> hm_map hb' = removed_map hb k \<and> unat (hm_size hb') < unat (hm_size hb) \<and>
    table_size hb' = table_size hb"
proof -
  have room: "hm_size hb < table_size hb" using free i(1) by (auto simp: not_full_def)
  obtain tb' where rem: "managed_object_hashmap_entry_remove hb i =
      Inr (hb\<lparr>hm_size := hm_size hb - 1, table := Some tb',
              trace := trace hb @ (if key_free hb then [Key_freed k] else [])\<rparr>)"
    and inv': "hm_inv (hb\<lparr>hm_size := hm_size hb - 1, table := Some tb'\<rparr>)"
    and map': "hm_map (hb\<lparr>hm_size := hm_size hb - 1, table := Some tb'\<rparr>) = removed_map hb k"
    and pos: "0 < hm_size hb"
    using entry_remove_correct [OF inv i room] by blast
  let ?hb = "hb\<lparr>hm_size := hm_size hb - 1, table := Some tb',
              trace := trace hb @ (if key_free hb then [Key_freed k] else [])\<rparr>"
  have "hm_inv ?hb" and "hm_map ?hb = removed_map hb k"
    using inv' map' by (simp_all only: hm_inv_trace hm_map_trace)
  moreover have "unat (hm_size hb - 1) < unat (hm_size hb)"
    using pos by (simp add: unat_sub word_le_nat_alt word_less_nat_alt)
  ultimately show ?thesis
    using rem i(2) by (simp add: managed_object_hashmap_base_iter_remove_def Let_def)
qed

lemma put_load:
  assumes inv: "hm_inv hb" and max: "unat (hm_size hb) \<le> max_elements" and load: "load_ok hb"
    and put: "managed_object_hashmap_base_put hb ud k d True = Inr (r, hb')"
  shows "load_ok hb'"
proof (cases "k = None \<or> d = None")
  case True
  with put load show ?thesis by (auto simp: managed_object_hashmap_base_put_def split: option.splits)
next
  case False
  then obtain k0 d0 where kd: "k = Some k0" "d = Some d0" by auto
  let ?s = "unat (hm_size hb)"
  have init: "size_ok (table_size_init hb)" using inv by (rule hm_invE) blast
  have t: "?s + ?s div 3 \<le> 2 ^ 30" using max by (simp add: max_elements_def)
  obtain ts where calc: "managed_object_hashmap_calc_table_size hb (hm_size hb) = Inr ts"
    and ts: "size_ok ts" "?s + ?s div 3 \<le> unat ts"
    using calc_table_size_cases [OF init refl, of "hm_size hb"] t by auto
  obtain r1 hb1 where room: "make_room hb ud ts True = Inr (r1, hb1)"
    and same: "hm_size hb1 = hm_size hb"
    using make_room_correct [OF inv max calc, of ud True] by blast
  have big: "ts \<le> table_size hb1 \<and> table_size hb \<le> table_size hb1"
  proof (cases "ts > table_size hb")
    case True
    have "?s \<le> unat ts" using ts(2) by linarith
    with True rehash_ok [OF inv ts(1), of ud] room have "table_size hb1 = ts"
      by (auto simp: make_room_def)
    with True show ?thesis by simp
  next
    case False
    with room show ?thesis by (simp add: make_room_def)
  qed
  obtain k where k: "unat ts = 2 ^ k" "5 \<le> k" using size_ok_unat [OF ts(1)] by blast
  have "hm_size hb' = hm_size hb \<and> table_size hb' = table_size hb1 \<or>
      hm_size hb' = hm_size hb + 1 \<and> table_size hb' = table_size hb1"
    using put calc room kd same
    by (auto simp: managed_object_hashmap_base_put_def make_room_def store_entry_def
        split: sum.splits option.splits if_splits)
  then show ?thesis
  proof
    assume "hm_size hb' = hm_size hb \<and> table_size hb' = table_size hb1"
    with load big show ?thesis by (auto simp: load_ok_def word_le_nat_alt)
  next
    assume added: "hm_size hb' = hm_size hb + 1 \<and> table_size hb' = table_size hb1"
    have "k = Suc (Suc (k - 2))" using k(2) by simp
    then have "(2::nat) ^ k = 4 * 2 ^ (k - 2)" by (metis mult.assoc numeral_Bit0 power_Suc mult_2)
    with k(1) have "unat ts = 4 * 2 ^ (k - 2)" by (rule trans)
    then obtain m where m: "unat ts = 4 * m" ..
    have "4 * ?s \<le> 3 * unat ts + 2" using ts(2) by linarith
    with m have "?s \<le> 3 * m" by linarith
    with m have "4 * (?s + 1) \<le> 3 * unat ts + 4" by simp
    moreover have "unat (hm_size hb + 1) = ?s + 1"
      using max by (simp add: unat_word_ariths max_elements_def)
    ultimately show ?thesis using added big by (simp add: load_ok_def word_le_nat_alt)
  qed
qed


text \<open>One step, on any operation that the client's contract allows.\<close>

lemma hm_step_inv:
  assumes inv: "hm_inv hb" and ok: "op_ok oom hb op" and step: "hm_step ud hb op hb'"
    and load: "\<not> oom \<longrightarrow> load_ok hb"
  shows "hm_inv hb' \<and> (\<not> oom \<longrightarrow> load_ok hb')"
proof (cases op)
  case (Put k d mem)
  from step Put obtain r where r: "managed_object_hashmap_base_put hb ud k d mem = Inr (r, hb')"
    by (auto elim: hm_step_cases)
  have max: "unat (hm_size hb) \<le> max_elements" and "oom \<or> mem" using ok Put by simp_all
  have "hm_inv hb'"
  proof (cases "k = None \<or> d = None")
    case True
    with r inv show ?thesis by (auto simp: managed_object_hashmap_base_put_def split: option.splits)
  next
    case False
    then obtain k0 d0 where kd: "k = Some k0" "d = Some d0" by auto
    obtain r' hb2 where "managed_object_hashmap_base_put hb ud (Some k0) (Some d0) mem = Inr (r', hb2)"
      and "hm_inv hb2" using put_outcome [OF inv max, of ud k0 d0 mem] by blast
    with r kd show ?thesis by simp
  qed
  moreover have "load_ok hb'" if "\<not> oom"
  proof -
    have "mem" using that \<open>oom \<or> mem\<close> by simp
    with r have "managed_object_hashmap_base_put hb ud k d True = Inr (r, hb')" by simp
    then show ?thesis using put_load [OF inv max] load that by blast
  qed
  ultimately show ?thesis by blast
next
  case (Get k)
  with step inv load show ?thesis by (auto elim: hm_step_cases)
next
  case (Remove k)
  then obtain r where r: "managed_object_hashmap_base_remove hb k = Inr (r, hb')"
    using step by (auto elim: hm_step_cases)
  have free: "not_full hb" using ok Remove load load_ok_not_full [OF inv] by auto
  show ?thesis
  proof (cases k)
    case None
    with r inv load show ?thesis by (simp add: managed_object_hashmap_base_remove_def)
  next
    case (Some k0)
    from remove_outcome [OF inv remove_guard [OF inv free, of k0]] r Some
    have "hm_inv hb'" and "table_size hb' = table_size hb"
      and "hb' = hb \<or> hm_size hb' = hm_size hb - 1 \<and> 0 < hm_size hb"
      by (auto split: if_splits)
    moreover have "load_ok hb'" if "hm_size hb' = hm_size hb - 1" "0 < hm_size hb" "load_ok hb"
      using that \<open>table_size hb' = table_size hb\<close>
      by (auto simp: load_ok_def unat_sub word_le_nat_alt word_less_nat_alt)
    ultimately show ?thesis using load by auto
  qed
next
  case (Reserve c mem)
  then obtain r where "managed_object_hashmap_base_reserve hb ud c mem = Inr (r, hb')"
    using step by (auto elim: hm_step_cases)
  with reserve_outcome [OF inv, of c ud mem] Reserve ok load show ?thesis
    by (auto simp: load_ok_def word_le_nat_alt)
next
  case Clear
  with step clear_outcome [OF inv] show ?thesis by (auto elim: hm_step_cases simp: load_ok_def)
next
  case (Reset mem)
  then obtain r where "managed_object_hashmap_base_reset hb ud mem = (r, hb')"
    using step by (auto elim: hm_step_cases)
  with reset_outcome [OF inv, of mem ud] Reset ok show ?thesis by (auto simp: load_ok_def)
next
  case (Set_on_realloc f)
  with step set_on_realloc_correct(1) [OF inv] load show ?thesis
    by (auto elim!: hm_step_cases simp: load_ok_def managed_object_hashmap_base_set_on_realloc_func_def)
next
  case (Set_key_alloc dup fr)
  with step ok set_key_alloc_correct(1) [OF inv] load show ?thesis
    by (auto elim!: hm_step_cases simp: load_ok_def managed_object_hashmap_base_set_key_alloc_funcs_def)
next
  case (Iter_remove it)
  then obtain r it' where r: "managed_object_hashmap_base_iter_remove hb it = Inr (r, it', hb')"
    using step by (auto elim: hm_step_cases)
  have free: "not_full hb" if "it \<noteq> None"
    using that ok Iter_remove load load_ok_not_full [OF inv] by auto
  show ?thesis
  proof (cases it)
    case None
    with r inv load show ?thesis by (simp add: managed_object_hashmap_base_iter_remove_def)
  next
    case (Some i)
    with ok Iter_remove obtain k where i: "i < unat (table_size hb)" "ekey (entries hb ! i) = Some k"
      by (auto elim: iter_valid_slot)
    from iter_remove_valid [OF inv free i] r Some
    have "hm_inv hb'" "unat (hm_size hb') < unat (hm_size hb)" "table_size hb' = table_size hb" by auto
    with load show ?thesis by (auto simp: load_ok_def)
  qed
next
  case (Iter_set_data it d)
  then obtain r where r: "managed_object_hashmap_base_iter_set_data hb it d = (r, hb')"
    using step by (auto elim: hm_step_cases)
  show ?thesis
  proof (cases "it = None \<or> d = None")
    case True
    with r inv load show ?thesis
      by (auto simp: managed_object_hashmap_base_iter_set_data_def split: option.splits)
  next
    case False
    then obtain i d0 where it: "it = Some i" "d = Some d0" by auto
    with ok Iter_set_data obtain k where i: "i < unat (table_size hb)" "ekey (entries hb ! i) = Some k"
      by (auto elim: iter_valid_slot)
    from r it have "hb' = hb\<lparr>table := Some ((entries hb)[i := (entries hb ! i)\<lparr>edata := Some d0\<rparr>])\<rparr>"
      by (simp add: managed_object_hashmap_base_iter_set_data_def)
    with set_data_correct [OF inv i, of d0] load show ?thesis by (auto simp: load_ok_def)
  qed
qed


lemma base_init_inv:
  fixes hb :: "('k, 'v) hb"
  assumes "key_ops hf cmp" and "managed_object_hashmap_base_init (Some hf) (Some cmp) = Inr hb"
  shows "hm_inv hb \<and> load_ok hb"
proof -
  obtain hb0 :: "('k, 'v) hb" where "managed_object_hashmap_base_init (Some hf) (Some cmp) = Inr hb0" "hm_inv hb0" "hm_size hb0 = 0"
    using init_correct [OF assms(1)] by blast
  with assms(2) show ?thesis by (simp add: load_ok_def)
qed

lemma reach_inv: "hm_reach oom ud hb \<Longrightarrow> hm_inv hb \<and> (\<not> oom \<longrightarrow> load_ok hb)"
proof (induction rule: hm_reach.induct)
  case (reach_init hf cmp hb)
  then show ?case using base_init_inv by blast
next
  case (reach_step hb op hb')
  then show ?case using hm_step_inv by blast
qed

section \<open>No fault in a reachable state\<close>

lemma step_enabled:
  assumes inv: "hm_inv hb" and ok: "op_ok oom hb op" and load: "\<not> oom \<longrightarrow> load_ok hb"
  shows "\<exists>hb'. hm_step ud hb op hb'"
proof (cases op)
  case (Put k d mem)
  then have max: "unat (hm_size hb) \<le> max_elements" using ok by simp
  show ?thesis
  proof (cases "k = None \<or> d = None")
    case True
    then have "managed_object_hashmap_base_put hb ud k d mem = Inr (- EINVAL, hb)"
      by (auto simp: managed_object_hashmap_base_put_def split: option.split)
    with Put show ?thesis by (blast intro: hm_step.intros)
  next
    case False
    then obtain k0 d0 where "k = Some k0" "d = Some d0" by auto
    with put_outcome [OF inv max, of ud k0 d0 mem] Put show ?thesis by (blast intro: hm_step.intros)
  qed
next
  case (Get k)
  with get_result [OF inv, of k] show ?thesis by (blast intro: hm_step.intros)
next
  case (Remove k)
  then have free: "not_full hb" using ok load load_ok_not_full [OF inv] by auto
  show ?thesis
  proof (cases k)
    case None
    then have "managed_object_hashmap_base_remove hb k = Inr (None, hb)"
      by (simp add: managed_object_hashmap_base_remove_def)
    with Remove show ?thesis by (blast intro: hm_step.intros)
  next
    case (Some k0)
    with remove_outcome [OF inv remove_guard [OF inv free, of k0]] Remove show ?thesis
      by (blast intro: hm_step.intros)
  qed
next
  case (Reserve c mem)
  with reserve_outcome [OF inv, of c ud mem] ok show ?thesis by simp (blast intro: hm_step.intros)
next
  case (Reset mem)
  then show ?thesis by (metis hm_step.step_reset surj_pair)
next
  case (Iter_remove it)
  show ?thesis
  proof (cases it)
    case None
    then have "managed_object_hashmap_base_iter_remove hb it = Inr (False, None, hb)"
      by (simp add: managed_object_hashmap_base_iter_remove_def)
    with Iter_remove show ?thesis by (blast intro: hm_step.intros)
  next
    case (Some i)
    with ok Iter_remove obtain k where i: "i < unat (table_size hb)" "ekey (entries hb ! i) = Some k"
      by (auto elim: iter_valid_slot)
    have "not_full hb" using ok Iter_remove Some load load_ok_not_full [OF inv] by auto
    from iter_remove_valid [OF inv this i] Some Iter_remove show ?thesis by (blast intro: hm_step.intros)
  qed
next
  case (Iter_set_data it d)
  then show ?thesis by (metis hm_step.step_iter_set surj_pair)
qed (blast intro: hm_step.intros)+

text \<open>
  C2: Safety of the whole map.  Start from \<open>init\<close> with callbacks that obey their laws and
  apply any sequence of operations that keeps to the client's contract.  Then every state
  satisfies the invariant, and if no allocation fails the table is never more than three
  quarters full plus one entry.
\<close>

theorem reachable_invariant:
  assumes "hm_reach oom ud hb"
  shows "hm_inv hb \<and>
    (\<not> oom \<longrightarrow> hm_size hb = 0 \<or> 4 * unat (hm_size hb) \<le> 3 * unat (table_size hb) + 4)"
  using reach_inv [OF assms] by (simp add: load_ok_def)

text \<open>
  C1: No faults.  In every reachable state every operation that the contract allows returns:
  no assertion fails (in particular the one in the rehash loop that a free slot is found), no
  null callback is called and no shift is undefined.  It reaches a state in which the same
  holds again.
\<close>

theorem reachable_no_fault:
  assumes "hm_reach oom ud hb" and "op_ok oom hb op"
  shows "\<exists>hb'. hm_step ud hb op hb' \<and> hm_reach oom ud hb'"
proof -
  have inv: "hm_inv hb" "\<not> oom \<longrightarrow> load_ok hb" using reach_inv [OF assms(1)] by simp_all
  from step_enabled [OF inv(1) assms(2) inv(2)] obtain hb' where "hm_step ud hb op hb'" by blast
  with reach_step [OF assms] show ?thesis by blast
qed

end
