(* ===== verification/KvTable.thy ===== *)
theory KvTable
  imports Prelude
begin

text \<open>
  The contract of a lookup table, as its clients see it: a state with an invariant, a lookup,
  an insertion that refuses a key that is present and may fail, and a removal.  Both hash
  tables of the library provide it; what a client can rely on after a sequence of
  operations is proved here once.
\<close>

locale kv_table =
  fixes inv :: "'s \<Rightarrow> bool" and look :: "'s \<Rightarrow> 'k \<Rightarrow> 'v option"
    and add :: "'s \<Rightarrow> 'k \<Rightarrow> 'v \<Rightarrow> 's option" and del :: "'s \<Rightarrow> 'k \<Rightarrow> 's"
    and same :: "'k \<Rightarrow> 'k \<Rightarrow> bool"
  assumes add_inv: "inv s \<Longrightarrow> add s k v = Some s' \<Longrightarrow> inv s'"
    and add_new: "inv s \<Longrightarrow> add s k v = Some s' \<Longrightarrow> look s k = None"
    and look_add: "inv s \<Longrightarrow> add s k v = Some s' \<Longrightarrow> look s' x = (if same x k then Some v else look s x)"
    and del_inv: "inv s \<Longrightarrow> inv (del s k)"
    and look_del: "inv s \<Longrightarrow> look (del s k) x = (if same x k then None else look s x)"
    and same_refl: "same k k"
    and look_same: "inv s \<Longrightarrow> same x k \<Longrightarrow> look s x = look s k"
begin

text \<open>Insert a list of bindings, stopping at the first failure.\<close>

fun add_all :: "'s \<Rightarrow> ('k \<times> 'v) list \<Rightarrow> 's option" where
  "add_all s [] = Some s"
| "add_all s ((k, v) # kvs) = (case add s k v of None \<Rightarrow> None | Some s' \<Rightarrow> add_all s' kvs)"

definition del_all :: "'s \<Rightarrow> 'k list \<Rightarrow> 's" where
  "del_all = foldl del"

lemma add_all_inv: "inv s \<Longrightarrow> add_all s kvs = Some s' \<Longrightarrow> inv s'"
  by (induction s kvs rule: add_all.induct) (auto split: option.splits intro: add_inv)

lemma add_all_frame:
  "inv s \<Longrightarrow> add_all s kvs = Some s' \<Longrightarrow> \<forall>(k, v) \<in> set kvs. \<not> same x k \<Longrightarrow> look s' x = look s x"
proof (induction s kvs rule: add_all.induct)
  case (2 s k v kvs)
  then obtain s1 where s1: "add s k v = Some s1" "add_all s1 kvs = Some s'"
    by (auto split: option.splits)
  with 2 have "look s' x = look s1 x" by (intro 2(1)) (auto intro: add_inv)
  also have "\<dots> = look s x" using 2(2,4) look_add [OF 2(2) s1(1), of x] by simp
  finally show ?case .
qed simp

lemma add_all_keeps:
  "inv s \<Longrightarrow> add_all s kvs = Some s' \<Longrightarrow> look s x = Some v \<Longrightarrow> look s' x = Some v"
proof (induction s kvs rule: add_all.induct)
  case (2 s k w kvs)
  then obtain s1 where s1: "add s k w = Some s1" "add_all s1 kvs = Some s'"
    by (auto split: option.splits)
  have "\<not> same x k"
  proof
    assume "same x k"
    then have "look s k = Some v" using look_same [OF 2(2)] 2(4) by simp
    with add_new [OF 2(2) s1(1)] show False by simp
  qed
  then have "look s1 x = Some v" using look_add [OF 2(2) s1(1), of x] 2(4) by simp
  then show ?case using 2(1) [OF s1(1) add_inv [OF 2(2) s1(1)] s1(2)] by blast
qed simp

text \<open>Every binding of a list that went in completely is there afterwards.\<close>

lemma add_all_found:
  "inv s \<Longrightarrow> add_all s kvs = Some s' \<Longrightarrow> (k, v) \<in> set kvs \<Longrightarrow> look s' k = Some v"
proof (induction s kvs rule: add_all.induct)
  case (2 s a w kvs)
  then obtain s1 where s1: "add s a w = Some s1" "add_all s1 kvs = Some s'"
    by (auto split: option.splits)
  have inv1: "inv s1" using 2(2) s1(1) by (rule add_inv)
  show ?case
  proof (cases "(k, v) = (a, w)")
    case True
    then have "look s1 k = Some v" using look_add [OF 2(2) s1(1), of k] same_refl by simp
    with inv1 s1(2) show ?thesis by (rule add_all_keeps)
  next
    case False
    with 2(4) have "(k, v) \<in> set kvs" by auto
    with 2(1) [OF s1(1) inv1 s1(2)] show ?thesis .
  qed
qed simp

lemma del_all_look:
  "inv s \<Longrightarrow> look (del_all s ks) x = (if \<exists>k \<in> set ks. same x k then None else look s x)"
  unfolding del_all_def
  by (induction ks arbitrary: s) (auto simp: look_del del_inv)

lemma add_del: "inv s \<Longrightarrow> add s k v = Some s' \<Longrightarrow> look (del s' k) = look s"
proof
  fix x
  assume inv: "inv s" and add: "add s k v = Some s'"
  have "look s x = None" if "same x k"
    using look_same [OF inv that] add_new [OF inv add] by simp
  then show "look (del s' k) x = look s x"
    using look_del [OF add_inv [OF inv add]] look_add [OF inv add] by simp
qed

end

end
