(* ===== verification/StringMap.thy ===== *)
theory StringMap
  imports HashmapReach KvTable
begin

text \<open>
  The hashmap with the library's own callbacks for C strings, \<open>hash_string\<close> and \<open>strcmp\<close>: they
  obey the laws of \<open>key_ops\<close>, and the map they give provides \<open>kv_table\<close>.  The sample map that
  the witnesses use is one of these.
\<close>

section \<open>C strings as keys\<close>

text \<open>A key is the bytes before the terminator; in memory the terminator follows.\<close>

definition str_hash :: "byte list \<Rightarrow> size_t" where
  "str_hash k = (case managed_object_hashmap_hash_string (k @ [0]) of Inr h \<Rightarrow> h | Inl f \<Rightarrow> 0)"

definition str_cmp :: "byte list \<Rightarrow> byte list \<Rightarrow> int" where
  "str_cmp a b = (case c_strcmp (a @ [0]) (b @ [0]) of Inr r \<Rightarrow> r | Inl f \<Rightarrow> 1)"

lemma str_cmp_eq: "str_cmp a b = 0 \<longleftrightarrow> c_string (a @ [0]) = c_string (b @ [0])"
proof -
  obtain r where "c_strcmp (a @ [0]) (b @ [0]) = Inr r"
    "r = 0 \<longleftrightarrow> c_string (a @ [0]) = c_string (b @ [0])"
    using c_strcmp_terminated [of "a @ [0]" "b @ [0]"] by auto
  then show ?thesis by (simp add: str_cmp_def)
qed

interpretation str_keys: key_ops str_hash str_cmp
proof
  fix a b c :: "byte list"
  show "str_cmp a a = 0" by (simp add: str_cmp_eq)
  show "str_cmp a b = 0 \<Longrightarrow> str_cmp b a = 0" by (simp add: str_cmp_eq)
  show "str_cmp a b = 0 \<Longrightarrow> str_cmp b c = 0 \<Longrightarrow> str_cmp a c = 0" by (simp add: str_cmp_eq)
  show "str_cmp a b = 0 \<Longrightarrow> str_hash a = str_hash b"
    by (simp add: str_cmp_eq str_hash_def managed_object_hashmap_hash_string_def hash_string_loop_terminated)
qed

section \<open>The contract of a lookup table\<close>

text \<open>
  A client's view while memory lasts: the invariant and the load bound, lookup by \<open>get\<close>, and
  insertion by \<open>put\<close>, which counts as done only when it returns 0.
\<close>

definition str_inv :: "(byte list, 'v) hb \<Rightarrow> bool" where
  "str_inv hb \<longleftrightarrow> hm_inv hb \<and> load_ok hb \<and> compare hb = Some str_cmp"

definition str_look :: "(byte list, 'v) hb \<Rightarrow> byte list \<Rightarrow> 'v option" where
  "str_look hb k = (case managed_object_hashmap_base_get hb (Some k) of Inr r \<Rightarrow> r | Inl f \<Rightarrow> None)"

definition str_add :: "(byte list, 'v) hb \<Rightarrow> byte list \<Rightarrow> 'v \<Rightarrow> (byte list, 'v) hb option" where
  "str_add hb k d =
     (case managed_object_hashmap_base_put hb 0 (Some k) (Some d) True of
        Inr (r, hb') \<Rightarrow> if r = 0 then Some hb' else None
      | Inl f \<Rightarrow> None)"

definition str_del :: "(byte list, 'v) hb \<Rightarrow> byte list \<Rightarrow> (byte list, 'v) hb" where
  "str_del hb k =
     (case managed_object_hashmap_base_remove hb (Some k) of Inr (d, hb') \<Rightarrow> hb' | Inl f \<Rightarrow> hb)"

lemma str_look_map: "str_inv hb \<Longrightarrow> str_look hb = hm_map hb"
  by (simp add: str_inv_def str_look_def get_result fun_eq_iff)

lemma put_overflow:
  assumes "size_ok (table_size_init hb)" and "max_elements < unat (hm_size hb)"
    and "unat (hm_size hb) \<le> 2 ^ 30"
  shows "managed_object_hashmap_base_put hb ud (Some k) (Some d) mem = Inl Undefined_behaviour"
proof -
  let ?t = "unat (hm_size hb) + unat (hm_size hb) div 3"
  have "2 ^ 30 < ?t" "?t < 2 ^ 64" using assms(2,3) by (simp_all add: max_elements_def)
  then show ?thesis
    using calc_table_size_cases [OF assms(1) refl, of "hm_size hb"]
    by (simp add: managed_object_hashmap_base_put_def)
qed

text \<open>No operation of a client changes the callbacks.\<close>

lemma rehash_loop_compare:
  "rehash_loop es hb = Inr hb' \<Longrightarrow> compare hb' = compare hb \<and> key_dup hb' = key_dup hb"
proof (induction es arbitrary: hb)
  case (Cons e es)
  then show ?case by (auto split: option.splits sum.splits)
qed simp

lemma rehash_compare:
  "managed_object_hashmap_rehash hb ud ts mem = Inr (r, hb') \<Longrightarrow>
     compare hb' = compare hb \<and> key_dup hb' = key_dup hb"
  by (auto simp: managed_object_hashmap_rehash_def Let_def notify_realloc_def log_event_def
      split: if_splits option.splits sum.splits dest!: rehash_loop_compare)

lemma put_compare:
  assumes "managed_object_hashmap_base_put hb ud k d mem = Inr (r, hb')"
  shows "compare hb' = compare hb \<and> key_dup hb' = key_dup hb"
  using assms
  by (auto simp: managed_object_hashmap_base_put_def store_entry_def
      split: option.splits sum.splits if_splits prod.splits dest: rehash_compare)

lemma remove_compare:
  "managed_object_hashmap_base_remove hb k = Inr (d, hb') \<Longrightarrow> compare hb' = compare hb"
  by (auto simp: managed_object_hashmap_base_remove_def managed_object_hashmap_entry_remove_def
      Let_def log_event_def split: option.splits sum.splits if_splits prod.splits)

lemma same_key_str: "str_inv hb \<Longrightarrow> same_key hb x k \<longleftrightarrow> str_cmp x k = 0"
  by (simp add: str_inv_def same_key_def)

lemma str_add_put:
  assumes inv: "str_inv hb" and add: "str_add hb k d = Some hb'"
  shows "str_inv hb' \<and> hm_map hb k = None \<and>
    hm_map hb' = (\<lambda>x. if str_cmp x k = 0 then Some d else hm_map hb x)"
proof -
  from add have put: "managed_object_hashmap_base_put hb 0 (Some k) (Some d) True = Inr (0, hb')"
    by (auto simp: str_add_def split: sum.splits if_splits)
  have hm: "hm_inv hb" "load_ok hb" "compare hb = Some str_cmp" using inv by (simp_all add: str_inv_def)
  have init: "size_ok (table_size_init hb)" using hm(1) by (rule hm_invE) blast
  have "unat (hm_size hb) \<le> 2 ^ 30"
    using hm_sizes [OF hm(1)] hm_size_le [OF hm(1)] size_ok_bounds [of "table_size hb"] by auto
  with put_overflow [OF init] put have max: "unat (hm_size hb) \<le> max_elements" by force
  have out: "hm_inv hb' \<and> (if hm_map hb k \<noteq> None then 0 = - EEXIST
      else if dup_succeeds hb k then hm_map hb' = (\<lambda>x. if same_key hb x k then Some d else hm_map hb x)
      else 0 = - ENOMEM)"
    using put_outcome [OF hm(1) max, of 0 k d True] put by (auto split: if_splits)
  have "load_ok hb'" using put_load [OF hm(1) max hm(2) put] .
  moreover have "compare hb' = Some str_cmp" using put_compare [OF put] hm(3) by simp
  ultimately show ?thesis
    using out same_key_str [OF inv] by (auto simp: str_inv_def errno_defs split: if_splits)
qed

lemma str_del_remove:
  assumes inv: "str_inv hb"
  shows "str_inv (str_del hb k) \<and>
    hm_map (str_del hb k) = (\<lambda>x. if str_cmp x k = 0 then None else hm_map hb x)"
proof -
  have hm: "hm_inv hb" "load_ok hb" "compare hb = Some str_cmp" using inv by (simp_all add: str_inv_def)
  obtain hb' where rem: "managed_object_hashmap_base_remove hb (Some k) = Inr (hm_map hb k, hb')"
    and inv': "hm_inv hb'" and map': "hm_map hb' = (\<lambda>x. if same_key hb x k then None else hm_map hb x)"
    using remove_outcome [OF hm(1) remove_guard [OF hm(1) load_ok_not_full [OF hm(1,2)], of k]] by blast
  have "load_ok hb'"
    using hm_step_inv [OF hm(1), of False "Remove (Some k)" 0 hb'] rem hm(2)
    by (auto intro: hm_step.intros)
  with rem inv' map' hm(3) remove_compare [OF rem] show ?thesis
    by (simp add: str_del_def str_inv_def same_key_str [OF inv])
qed

interpretation str_map: kv_table str_inv str_look str_add str_del "\<lambda>a b. str_cmp a b = 0"
proof
  fix s s' :: "(byte list, 'v) hb" and k x v
  assume inv: "str_inv s"
  show "str_inv (str_del s k)" using str_del_remove [OF inv] by simp
  show "str_look (str_del s k) x = (if str_cmp x k = 0 then None else str_look s x)"
    using str_del_remove [OF inv, of k] inv by (simp add: str_look_map)
  show "str_look s x = str_look s k" if "str_cmp x k = 0"
    using hm_map_same [of s x k] that inv by (simp add: str_look_map same_key_str str_inv_def)
  assume add: "str_add s k v = Some s'"
  show "str_inv s'" using str_add_put [OF inv add] by simp
  show "str_look s k = None" using str_add_put [OF inv add] inv by (simp add: str_look_map)
  show "str_look s' x = (if str_cmp x k = 0 then Some v else str_look s x)"
    using str_add_put [OF inv add] inv by (simp add: str_look_map)
qed (simp add: str_keys.cmp_refl)


section \<open>Filling a map\<close>

text \<open>A client that puts a list of bindings and stops at the first one that is not accepted.\<close>

fun put_all :: "(byte list, 'v) hb \<Rightarrow> (byte list \<times> 'v) list \<Rightarrow> (byte list, 'v) hb option" where
  "put_all hb [] = Some hb"
| "put_all hb ((k, d) # kvs) =
     (case str_add hb k d of None \<Rightarrow> None | Some hb' \<Rightarrow> put_all hb' kvs)"

lemma put_all_add_all: "put_all hb kvs = str_map.add_all hb kvs"
  by (induction hb kvs rule: put_all.induct) (simp_all split: option.split)

lemma str_init:
  "\<exists>hb :: (byte list, 'v) hb. managed_object_hashmap_base_init (Some str_hash) (Some str_cmp) = Inr hb \<and>
     str_inv hb \<and> hm_map hb = (\<lambda>_. None) \<and> hm_size hb = 0 \<and> key_dup hb = None"
proof -
  obtain hb :: "(byte list, 'v) hb" where
    "managed_object_hashmap_base_init (Some str_hash) (Some str_cmp) = Inr hb" "hm_inv hb"
    "hm_map hb = (\<lambda>_. None)" "hm_size hb = 0" "compare hb = Some str_cmp" "key_dup hb = None"
    using init_correct [OF str_keys.key_ops_axioms] by blast
  then show ?thesis by (simp add: str_inv_def load_ok_def)
qed

text \<open>An absent key always goes in, below the size limit.\<close>

lemma str_add_succeeds:
  assumes inv: "str_inv hb" and new: "hm_map hb k = None" and dup: "key_dup hb = None"
    and max: "unat (hm_size hb) \<le> max_elements"
  shows "\<exists>hb'. str_add hb k d = Some hb' \<and> hm_size hb' = hm_size hb + 1 \<and> key_dup hb' = None"
proof -
  have "hm_inv hb" using inv by (simp add: str_inv_def)
  from put_outcome [OF this max, of 0 k d True] new dup obtain hb' where
    put: "managed_object_hashmap_base_put hb 0 (Some k) (Some d) True = Inr (0, hb')"
    and "hm_size hb' = hm_size hb + 1"
    by (auto simp: dup_succeeds_def)
  with put_compare [OF put] dup show ?thesis by (simp add: str_add_def)
qed

lemma put_all_succeeds:
  assumes "str_inv hb" and "key_dup hb = None" and "\<forall>(k, d) \<in> set kvs. hm_map hb k = None"
    and "sorted_wrt (\<lambda>p q. str_cmp (fst q) (fst p) \<noteq> 0) kvs"
    and "unat (hm_size hb) + length kvs \<le> max_elements"
  shows "\<exists>hb'. put_all hb kvs = Some hb' \<and> unat (hm_size hb') = unat (hm_size hb) + length kvs"
  using assms
proof (induction hb kvs rule: put_all.induct)
  case (2 hb k d kvs)
  obtain hb1 where add: "str_add hb k d = Some hb1" and sz: "hm_size hb1 = hm_size hb + 1"
    and dup: "key_dup hb1 = None"
    using str_add_succeeds [of hb k d] 2(2-6) by auto
  have inv1: "str_inv hb1" and map1: "hm_map hb1 = (\<lambda>x. if str_cmp x k = 0 then Some d else hm_map hb x)"
    using str_add_put [OF 2(2) add] by simp_all
  have sz1: "unat (hm_size hb1) = Suc (unat (hm_size hb))"
    using sz 2(6) by (simp add: unat_word_ariths max_elements_def)
  have "\<exists>hb'. put_all hb1 kvs = Some hb' \<and> unat (hm_size hb') = unat (hm_size hb1) + length kvs"
  proof (rule 2(1) [OF add inv1 dup])
    show "\<forall>(k, d) \<in> set kvs. hm_map hb1 k = None" using 2(4,5) unfolding map1 by fastforce
    show "sorted_wrt (\<lambda>p q. str_cmp (fst q) (fst p) \<noteq> 0) kvs" using 2(5) by simp
    show "unat (hm_size hb1) + length kvs \<le> max_elements" using 2(6) sz1 by simp
  qed
  with add sz1 show ?case by simp
qed simp

text \<open>
  C5: Filling and emptying a string-keyed map.  On a map initialised with the library's
  string hash and \<open>strcmp\<close>, while memory lasts, a list of at most 805306368 bindings with
  pairwise different keys is accepted completely, whatever rehashes it causes; after that
  and after the removal of any list of keys, \<open>get\<close> finds exactly the bindings whose keys were
  not removed.
\<close>

theorem string_map_roundtrip:
  fixes kvs :: "(byte list \<times> 'v) list"
  assumes "sorted_wrt (\<lambda>p q. str_cmp (fst q) (fst p) \<noteq> 0) kvs" and "length kvs \<le> max_elements"
  shows "\<exists>hb hb'. managed_object_hashmap_base_init (Some str_hash) (Some str_cmp) = Inr hb \<and>
    put_all hb kvs = Some hb' \<and> unat (hm_size hb') = length kvs \<and>
    (\<forall>(k, d) \<in> set kvs. \<forall>ks. str_look (foldl str_del hb' ks) k =
       (if \<exists>x \<in> set ks. str_cmp k x = 0 then None else Some d))"
proof -
  obtain hb :: "(byte list, 'v) hb" where init: "managed_object_hashmap_base_init (Some str_hash) (Some str_cmp) = Inr hb"
    and hb: "str_inv hb" "hm_map hb = (\<lambda>_. None)" "hm_size hb = 0" "key_dup hb = None"
    using str_init by blast
  obtain hb' where put: "put_all hb kvs = Some hb'" and sz: "unat (hm_size hb') = length kvs"
    using put_all_succeeds [OF hb(1,4) _ assms(1)] hb(2,3) assms(2) by auto
  have add: "str_map.add_all hb kvs = Some hb'" using put by (simp add: put_all_add_all)
  have inv: "str_inv hb'" using str_map.add_all_inv [OF hb(1) add] .
  have "str_look (foldl str_del hb' ks) k = (if \<exists>x \<in> set ks. str_cmp k x = 0 then None else Some d)"
    if "(k, d) \<in> set kvs" for k d ks
    using str_map.del_all_look [OF inv, of ks k] str_map.add_all_found [OF hb(1) add that]
    by (simp add: str_map.del_all_def)
  with init put sz show ?thesis by blast
qed

theorem string_map_roundtrip_witness:
  "\<exists>hb hb'. managed_object_hashmap_base_init (Some str_hash) (Some str_cmp) = Inr hb \<and>
    put_all hb [([97], 1 :: nat), ([98], 2)] = Some hb' \<and>
    str_look hb' [97] = Some 1 \<and> str_look (str_del hb' [97]) [97] = None \<and>
    str_look (str_del hb' [97]) [98] = Some 2"
proof -
  have "sorted_wrt (\<lambda>p q. str_cmp (fst q) (fst p) \<noteq> 0) [([97], 1 :: nat), ([98], 2)]"
    by (simp add: str_cmp_eq c_string_def)
  moreover have "length [([97 :: byte], 1 :: nat), ([98], 2)] \<le> max_elements" by (simp add: max_elements_def)
  ultimately obtain hb hb' where
    "managed_object_hashmap_base_init (Some str_hash) (Some str_cmp) = Inr hb"
    "put_all hb [([97], 1 :: nat), ([98], 2)] = Some hb'"
    and look: "\<forall>(k, d) \<in> set [([97], 1 :: nat), ([98], 2)]. \<forall>ks. str_look (foldl str_del hb' ks) k =
       (if \<exists>x \<in> set ks. str_cmp k x = 0 then None else Some d)"
    using string_map_roundtrip [of "[([97], 1 :: nat), ([98], 2)]"] by blast
  moreover have "\<forall>ks. str_look (foldl str_del hb' ks) [97] =
       (if \<exists>x \<in> set ks. str_cmp [97] x = 0 then None else Some 1)"
    and "\<forall>ks. str_look (foldl str_del hb' ks) [98] =
       (if \<exists>x \<in> set ks. str_cmp [98] x = 0 then None else Some 2)"
    using look by simp_all
  from this(1) [rule_format, of "[]"] this(1) [rule_format, of "[[97]]"] this(2) [rule_format, of "[[97]]"]
  have "str_look hb' [97] = Some 1" "str_look (str_del hb' [97]) [97] = None"
    "str_look (str_del hb' [97]) [98] = Some 2"
    by (simp_all add: str_cmp_eq c_string_def)
  ultimately show ?thesis by blast
qed

end
