(* ===== verification/HashmapSample.thy ===== *)
theory HashmapSample
  imports StringMap
begin

text \<open>
  A concrete map, with a collision, that satisfies the invariant, and the properties of the
  hashmap applied to it.
\<close>

section \<open>The sample map\<close>

text \<open>
  A string-keyed map with 64 slots that holds \<open>c\<close>, \<open>f\<close> and \<open>a\<close>.  The first two have the same
  home slot, 25, so \<open>f\<close> is displaced to slot 26; \<open>a\<close> is at its home, 29.
\<close>

definition sample_table :: "(byte list, nat) entry list" where
  "sample_table = (((replicate 64 empty_entry)
      [25 := \<lparr>ekey = Some [99], edata = Some 1\<rparr>])
      [26 := \<lparr>ekey = Some [102], edata = Some 2\<rparr>])
      [29 := \<lparr>ekey = Some [97], edata = Some 3\<rparr>]"

definition sample :: "(byte list, nat) hb" where
  "sample = \<lparr>table_size_init = 32, table_size = 64, hm_size = 3, table = Some sample_table,
     hash = Some str_hash, compare = Some str_cmp, key_dup = None, key_free = True,
     on_realloc = False, trace = []\<rparr>"

lemma sample_homes:
  "managed_object_hashmap_calc_index str_hash 64 [99] = 25"
  "managed_object_hashmap_calc_index str_hash 64 [102] = 25"
  "managed_object_hashmap_calc_index str_hash 64 [97] = 29"
  by code_simp+

lemma sample_home [simp]:
  "home str_hash 64 [99] = 25" "home str_hash 64 [102] = 25" "home str_hash 64 [97] = 29"
  by (simp_all add: home_def sample_homes)

lemma sample_slot: "ekey (sample_table ! i) = Some k \<Longrightarrow> i < 64 \<Longrightarrow>
    i = 25 \<and> k = [99] \<or> i = 26 \<and> k = [102] \<or> i = 29 \<and> k = [97]"
  by (auto simp: sample_table_def nth_list_update split: if_splits)

lemma sample_entry: "i < 64 \<Longrightarrow> sample_table ! i =
    (if i = 29 then \<lparr>ekey = Some [97], edata = Some 3\<rparr>
     else if i = 26 then \<lparr>ekey = Some [102], edata = Some 2\<rparr>
     else if i = 25 then \<lparr>ekey = Some [99], edata = Some 1\<rparr> else empty_entry)"
  by (simp add: sample_table_def nth_list_update)

lemma sample_length [simp]: "length sample_table = 64"
  by (simp add: sample_table_def)

lemma sample_live: "live sample_table =
    {#\<lparr>ekey = Some [99], edata = Some 1\<rparr>, \<lparr>ekey = Some [102], edata = Some 2\<rparr>,
      \<lparr>ekey = Some [97], edata = Some 3\<rparr>#}"
  by (simp add: sample_table_def live_update pop_update pop_def)

lemma str_cmp_letters: "str_cmp [a] [b] = 0 \<longleftrightarrow> a = b"
  by (auto simp: str_cmp_eq c_string_def)

lemma sample_chains: "chains_ok str_hash 64 sample_table"
  unfolding chains_ok_def probe_full_def
proof (intro allI impI)
  fix i k x
  assume i: "i < length sample_table" "ekey (sample_table ! i) = Some k"
    and x: "x < length sample_table"
      "cdist (length sample_table) (home str_hash 64 k) x < cdist (length sample_table) (home str_hash 64 k) i"
  from i sample_slot [of i k] have "i = 25 \<and> k = [99] \<or> i = 26 \<and> k = [102] \<or> i = 29 \<and> k = [97]" by simp
  then have "x = 25"
  proof (elim disjE conjE)
    assume "i = 26" "k = [102]"
    with x show "x = 25" by (simp add: cdist_def split: if_splits)
  qed (use x in simp_all)
  then show "pop sample_table x" by (simp add: pop_def sample_entry)
qed

lemma sample_ok: "table_ok str_hash str_cmp 64 sample_table"
proof -
  have "pow2_size 64" unfolding pow2_size_def by (intro exI [of _ 6]) simp
  moreover have "keys_distinct str_cmp (live sample_table)"
    unfolding sample_live
    by (intro keys_distinct_add keys_distinct_empty) (auto simp: str_cmp_letters)
  moreover have "slots_ok sample_table"
    unfolding sample_table_def by (intro slots_ok_update) simp_all
  ultimately show ?thesis using sample_chains by (simp add: table_ok_def)
qed

lemma sample_inv: "hm_inv sample"
proof (rule hm_invI)
  show "key_ops str_hash str_cmp" by (rule str_keys.key_ops_axioms)
  show "size_ok (table_size_init sample)" using size_ok_power [of 5] by (simp add: sample_def)
  show "size_ok (table_size sample)" using size_ok_power [of 6] by (simp add: sample_def)
  show "unat (hm_size sample) = size (live sample_table)" by (simp add: sample_def sample_live)
qed (use sample_ok in \<open>simp_all add: sample_def dup_ok_def\<close>)

lemma sample_same: "same_key sample a b \<longleftrightarrow> str_cmp a b = 0"
  by (simp add: same_key_def sample_def)

lemma sample_map:
  "hm_map sample [99] = Some 1" "hm_map sample [102] = Some 2" "hm_map sample [97] = Some 3"
  "hm_map sample [98] = None"
proof -
  have "set (filter (\<lambda>e. ekey e \<noteq> None) (entries sample)) = set_mset (live sample_table)"
    by (simp add: live_def sample_def entries_def)
  also have "\<dots> = {\<lparr>ekey = Some [99], edata = Some 1\<rparr>, \<lparr>ekey = Some [102], edata = Some 2\<rparr>,
      \<lparr>ekey = Some [97], edata = Some 3\<rparr>}"
    by (auto simp: sample_live)
  finally have e: "hm_map sample [c] = Some d \<longleftrightarrow> c = 99 \<and> d = 1 \<or> c = 102 \<and> d = 2 \<or> c = 97 \<and> d = 3" for c d
    unfolding hm_map_entries [OF sample_inv]
    by (auto simp: sample_same str_cmp_letters)
  show "hm_map sample [99] = Some 1" "hm_map sample [102] = Some 2" "hm_map sample [97] = Some 3"
    using e by simp_all
  have "hm_map sample [98] \<noteq> Some d" for d using e [of 98 d] by simp
  then show "hm_map sample [98] = None" by (metis not_Some_eq)
qed


lemma sample_fields [simp]:
  "table_size_init sample = 32" "table_size sample = 64" "hm_size sample = 3" "key_dup sample = None"
  "key_free sample = True" "on_realloc sample = False" "trace sample = []" "entries sample = sample_table"
  "table sample = Some sample_table"
  by (simp_all add: sample_def entries_def)

lemma sample_init_ok: "size_ok (table_size_init sample)"
  using size_ok_power [of 5] by simp

section \<open>The properties at the sample map\<close>

theorem calc_table_size_spec_witness:
  "\<exists>ts. managed_object_hashmap_calc_table_size sample 96 = Inr ts \<and> 128 \<le> unat ts \<and> unat ts < 256"
  using calc_table_size_spec [OF sample_init_ok, of 128 96] by auto

theorem rehash_preserves_map_witness:
  "\<exists>hb'. managed_object_hashmap_rehash sample 0 128 True = Inr (0, hb') \<and>
     hm_map hb' [102] = Some 2 \<and> table_size hb' = 128"
proof -
  have "size_ok 128" using size_ok_power [of 7] by simp
  from rehash_preserves_map [OF sample_inv this, of 0 True] sample_map show ?thesis by auto
qed

theorem get_correct_witness:
  "managed_object_hashmap_base_get sample (Some [102]) = Inr (Some 2) \<and>
   managed_object_hashmap_base_get sample (Some [98]) = Inr None"
  using get_correct [OF sample_inv] sample_map by simp

theorem put_correct_witness:
  "\<exists>hb'. managed_object_hashmap_base_put sample 0 (Some [98]) (Some 9) False = Inr (0, hb') \<and>
     hm_map hb' [98] = Some 9 \<and> hm_map hb' [102] = Some 2 \<and> hm_size hb' = 4"
proof -
  have "unat (hm_size sample) \<le> max_elements" by (simp add: max_elements_def)
  from put_correct [OF sample_inv this, of 0 "[98]" 9 False] show ?thesis
    by (auto simp: sample_map dup_succeeds_def sample_same str_cmp_letters)
qed

theorem remove_correct_witness:
  "\<exists>hb'. managed_object_hashmap_base_remove sample (Some [99]) = Inr (Some 1, hb') \<and>
     hm_map hb' [99] = None \<and> hm_map hb' [102] = Some 2 \<and> hm_size hb' = 2"
proof -
  have "hm_size sample < table_size sample \<or> hm_map sample [99] = None" by simp
  from remove_correct [OF sample_inv this] show ?thesis
    by (auto simp: sample_map sample_same str_cmp_letters)
qed

theorem reserve_correct_witness:
  "\<exists>r hb'. managed_object_hashmap_base_reserve sample 0 100 True = Inr (r, hb') \<and> r = 0 \<and>
     hm_map hb' [97] = Some 3 \<and> 100 < table_size hb'"
proof -
  have "unat (100 :: size_t) \<le> max_elements" by (simp add: max_elements_def)
  from reserve_correct [OF sample_inv this, of 0 True] show ?thesis by (auto simp: sample_map)
qed

theorem clear_correct_witness:
  "hm_map (managed_object_hashmap_base_clear sample) [97] = None \<and>
   hm_size (managed_object_hashmap_base_clear sample) = 0 \<and>
   (\<exists>ks. trace (managed_object_hashmap_base_clear sample) = map Key_freed ks \<and> mset ks = {#[99], [102], [97]#})"
  using clear_correct [OF sample_inv] by (simp add: sample_live)

theorem reset_correct_witness:
  "\<exists>hb'. managed_object_hashmap_base_reset sample 0 True = (0, hb') \<and> hm_map hb' [97] = None \<and>
     table_size hb' = 32"
  using reset_correct [OF sample_inv, of True 0] by auto

theorem reset_enomem_stale_witness:
  "\<exists>hb'. managed_object_hashmap_base_reset sample 0 False = (- ENOMEM, hb') \<and> hm_size hb' = 0 \<and>
     managed_object_hashmap_base_get hb' (Some [97]) = Inr (Some 3) \<and> \<not> hm_inv hb'"
proof -
  have "table_size sample \<noteq> table_size_init sample" by simp
  from reset_enomem_stale [OF sample_inv this, of 0] sample_map show ?thesis by auto
qed

theorem cleanup_correct_witness:
  "table (managed_object_hashmap_base_cleanup sample 0) = None \<and>
   managed_object_hashmap_base_get (managed_object_hashmap_base_cleanup sample 0) (Some [97]) =
     Inl Undefined_behaviour"
  using cleanup_correct [OF sample_inv, of 0 "[97]"] by simp

theorem foreach_visits_once_witness:
  "mset (managed_object_hashmap_foreach sample) = {#([99], 1), ([102], 2), ([97], 3)#}"
  using foreach_visits_once [OF sample_inv] by (simp add: sample_live pair_of_def)

theorem iter_remove_drains_witness:
  "\<exists>hb' ks. iter_remove_steps 3 sample (managed_object_hashmap_base_iter sample None) = Inr (None, hb') \<and>
     hm_size hb' = 0 \<and> trace hb' = map Key_freed ks \<and> mset ks = {#[99], [102], [97]#}"
proof -
  have "hm_size sample < table_size sample" by simp
  from iter_remove_drains [OF sample_inv this] show ?thesis by (auto simp: sample_live)
qed

section \<open>The state machine\<close>

definition fresh_map :: "(byte list, nat) hb" where
  "fresh_map = \<lparr>table_size_init = 128, table_size = 0, hm_size = 0, table = None,
     hash = Some str_hash, compare = Some str_cmp, key_dup = None, key_free = False,
     on_realloc = False, trace = []\<rparr>"

lemma fresh_reach: "hm_reach oom ud fresh_map"
proof (rule reach_init [OF str_keys.key_ops_axioms])
  show "managed_object_hashmap_base_init (Some str_hash) (Some str_cmp) = Inr fresh_map"
    by (simp add: managed_object_hashmap_base_init_def fresh_map_def MANAGED_OBJECT_HASHMAP_SIZE_DEFAULT_def)
qed

theorem reachable_invariant_witness: "hm_inv (managed_object_hashmap_base_set_on_realloc_func fresh_map True)"
proof -
  have "hm_reach True 0 (managed_object_hashmap_base_set_on_realloc_func fresh_map True)"
  proof (rule reach_step [OF fresh_reach])
    show "op_ok True fresh_map (Set_on_realloc True)" by simp
    show "hm_step 0 fresh_map (Set_on_realloc True)
        (managed_object_hashmap_base_set_on_realloc_func fresh_map True)" by (rule step_on_realloc)
  qed
  from reachable_invariant [OF this] show ?thesis by simp
qed

theorem reachable_no_fault_witness:
  "\<exists>hb'. hm_step 0 fresh_map (Put (Some [97]) (Some 1) True) hb' \<and> hm_reach False 0 hb'"
proof -
  have "op_ok False fresh_map (Put (Some [97]) (Some 1) True)" by (simp add: fresh_map_def)
  with fresh_reach show ?thesis by (rule reachable_no_fault)
qed

end
