(* ===== verification/HashmapForeach.thy ===== *)
theory HashmapForeach
  imports HashmapSample
begin

text \<open>
  The safe foreach loop of \<open>include/managed_object_hashmap.h\<close>, whose body may remove the current
  entry: what it visits and what is left, although each removal shifts other entries.
\<close>

section \<open>The loop\<close>

text \<open>
  \<open>managed_object_hashmap_foreach_safe\<close> with a body that can change the map.  Because it can, nothing
  says that the loop ends: \<open>None\<close> stands for a loop that does not.  After the body the loop goes on
  with the next entry if the slot still has the same key, and otherwise looks at the slot again.  Keys are
  compared as pointers; keys of a table that differ as pointers differ here as values.
\<close>

partial_function (option) foreach_safe_from ::
  "('k \<Rightarrow> 'v \<Rightarrow> ('k, 'v) hb \<Rightarrow> fault + ('k, 'v) hb) \<Rightarrow> ('k, 'v) hb \<Rightarrow> nat option \<Rightarrow>
   (fault + ('k \<times> 'v) list \<times> ('k, 'v) hb) option"
where
  "foreach_safe_from body hb iter =
     (case managed_object_hashmap_base_iter_get_key hb iter of
        None \<Rightarrow> Some (Inr ([], hb))
      | Some temp \<Rightarrow>
          (case managed_object_hashmap_base_iter_get_data hb iter of
             None \<Rightarrow> Some (Inr ([], hb))
           | Some d \<Rightarrow>
               (case body temp d hb of
                  Inl f \<Rightarrow> Some (Inl f)
                | Inr hb1 \<Rightarrow>
                    Option.bind
                      (foreach_safe_from body hb1
                         (if managed_object_hashmap_base_iter_get_key hb1 iter = Some temp
                          then snd (managed_object_hashmap_base_iter_next hb1 iter)
                          else managed_object_hashmap_base_iter hb1 iter))
                      (\<lambda>r. Some (andthen r (\<lambda>(vs, hb2). Inr ((temp, d) # vs, hb2)))))))"

declare foreach_safe_from.simps [code]

definition managed_object_hashmap_foreach_safe ::
  "('k \<Rightarrow> 'v \<Rightarrow> ('k, 'v) hb \<Rightarrow> fault + ('k, 'v) hb) \<Rightarrow> ('k, 'v) hb \<Rightarrow>
   (fault + ('k \<times> 'v) list \<times> ('k, 'v) hb) option"
where
  "managed_object_hashmap_foreach_safe body hb =
     foreach_safe_from body hb (managed_object_hashmap_base_iter hb None)"

text \<open>The body that the loop is made for: it removes the current entry if a test says so.\<close>

definition remove_if :: "('k \<Rightarrow> 'v \<Rightarrow> bool) \<Rightarrow> 'k \<Rightarrow> 'v \<Rightarrow> ('k, 'v) hb \<Rightarrow> fault + ('k, 'v) hb" where
  "remove_if P k d hb =
     (if P k d then andthen (managed_object_hashmap_base_remove hb (Some k)) (\<lambda>(r, hb'). Inr hb') else Inr hb)"

section \<open>Where a removal moves entries\<close>

text \<open>
  No entry moves from a slot behind the removed one to a slot in front of it: after a removal at \<open>p\<close>, what is
  in a slot below \<open>p\<close> was below \<open>p\<close> before.
\<close>

definition low :: "nat \<Rightarrow> ('k, 'v) entry list \<Rightarrow> ('k, 'v) entry list \<Rightarrow> nat \<Rightarrow> bool" where
  "low p tb0 tb hole \<longleftrightarrow> (\<forall>x < p. x \<noteq> hole \<longrightarrow> pop tb x \<longrightarrow> (\<exists>y < p. tb0 ! y = tb ! x))"

lemma low_move:
  assumes "low p tb0 tb r" and "pop tb i" and "i \<noteq> r" and "r < p \<longrightarrow> i < p" and "r < length tb"
  shows "low p tb0 (tb[r := tb ! i]) i"
  unfolding low_def
proof (intro allI impI)
  fix x assume x: "x < p" "x \<noteq> i" "pop (tb[r := tb ! i]) x"
  show "\<exists>y < p. tb0 ! y = tb[r := tb ! i] ! x"
  proof (cases "x = r")
    case True
    then have "i < p" using x(1) assms(4) by simp
    with assms(1-3,5) True show ?thesis by (simp add: low_def)
  next
    case False
    with x have "pop tb x" by (simp add: pop_def)
    with False x(1) assms(1) show ?thesis by (simp add: low_def)
  qed
qed

lemma entry_remove_loop_low:
  assumes "entry_remove_loop tb ts hf n index removed = (tb', hole)" and "pow2_size ts" and "length tb = unat ts"
    and "p < unat ts" and "unat removed < unat ts" and "unat index < unat ts"
    and "cdist (unat ts) p (unat removed) < cdist (unat ts) p (unat index)"
    and "cdist (unat ts) p (unat index) + n \<le> unat ts - 1" and "low p tb0 tb (unat removed)"
  shows "low p tb0 tb' (unat hole)"
  using assms
proof (induction n arbitrary: tb index removed)
  case (Suc n)
  let ?N = "unat ts" and ?next = "MANAGED_OBJECT_HASHMAP_PROBE_NEXT ts index"
  have nx: "unat ?next = Suc (unat index) mod ?N" using Suc.prems(2) by (rule probe_next_unat)
  have nxN: "unat ?next < ?N" using nx Suc.prems(4) by simp
  have d: "cdist ?N p (unat ?next) = Suc (cdist ?N p (unat index))"
    using cdist_next [OF Suc.prems(4,6)] Suc.prems(8) nx by simp
  show ?case
  proof (cases "ekey (tb ! unat index)")
    case None
    with Suc.prems show ?thesis by simp
  next
    case (Some k)
    let ?e = "managed_object_hashmap_calc_index hf ts k"
    show ?thesis
    proof (cases "MANAGED_OBJECT_HASHMAP_SIZE_MOD ts (index - ?e) > MANAGED_OBJECT_HASHMAP_SIZE_MOD ts (removed - ?e)")
      case True
      let ?tb = "tb[unat removed := tb ! unat index]"
      have "unat removed < p \<longrightarrow> unat index < p"
        using Suc.prems(4-7) by (auto simp: cdist_def split: if_splits)
      moreover have "unat index \<noteq> unat removed" using Suc.prems(7) by auto
      ultimately have "low p tb0 ?tb (unat index)"
        using low_move [OF Suc.prems(9), of "unat index"] Some Suc.prems(3,5) by (simp add: pop_def)
      moreover have "entry_remove_loop ?tb ts hf n ?next index = (tb', hole)"
        using Suc.prems(1) Some True by simp
      ultimately show ?thesis using Suc.IH [of ?tb ?next index] Suc.prems(2-6,8) d nxN by simp
    next
      case False
      then have "entry_remove_loop tb ts hf n ?next removed = (tb', hole)"
        using Suc.prems(1) Some by simp
      then show ?thesis using Suc.IH [of tb ?next removed] Suc.prems(2-9) d nxN by simp
    qed
  qed
qed simp

lemma entry_remove_loop_length:
  "entry_remove_loop tb ts hf n index removed = (tb', hole) \<Longrightarrow> length tb' = length tb"
  by (induction tb ts hf n index removed rule: entry_remove_loop.induct)
    (auto simp: Let_def split: option.splits if_splits)

section \<open>Removing the current entry\<close>

text \<open>Different populated slots have different entries.\<close>

lemma slots_differ:
  assumes "hm_inv hb" and "x < unat (table_size hb)" and "y < unat (table_size hb)" and "pop (entries hb) x"
    and "entries hb ! x = entries hb ! y"
  shows "x = y"
proof -
  from assms(1) obtain hf cmp where ko: "key_ops hf cmp" and t0: "table hb = None \<longrightarrow> table_size hb = 0 \<and> hm_size hb = 0"
    and t1: "\<forall>tb. table hb = Some tb \<longrightarrow> size_ok (table_size hb) \<and>
       table_ok hf cmp (table_size hb) tb \<and> unat (hm_size hb) = size (live tb)"
    by (rule hm_invE)
  from assms(2) t0 obtain tb where tb: "table hb = Some tb" by (cases "table hb") auto
  have ok: "table_ok hf cmp (table_size hb) (entries hb)" using t1 tb by (simp add: entries_def)
  obtain k where "ekey (entries hb ! x) = Some k" using assms(4) by (auto simp: pop_def)
  then show ?thesis
    using keys_distinct_slots [of cmp "entries hb" x y k k] ok assms(2,3,5) key_ops.cmp_refl [OF ko]
    by (simp add: table_ok_def)
qed

lemma hm_distinct:
  assumes "hm_inv hb" and "ekey e1 = Some k" and "ekey e2 = Some k" and "{#e1, e2#} \<subseteq># live (entries hb)"
  shows False
proof -
  from assms(1) obtain hf cmp where ko: "key_ops hf cmp"
    and t1: "\<forall>tb. table hb = Some tb \<longrightarrow> size_ok (table_size hb) \<and>
       table_ok hf cmp (table_size hb) tb \<and> unat (hm_size hb) = size (live tb)"
    by (rule hm_invE)
  have "keys_distinct cmp (live (entries hb))"
    using t1 by (cases "table hb") (simp_all add: entries_def table_ok_def)
  then show False using assms(2-4) key_ops.cmp_refl [OF ko, of k] unfolding keys_distinct_def by blast
qed

lemma stored_key_found:
  assumes "hm_inv hb" and "p < unat (table_size hb)" and "ekey (entries hb ! p) = Some k"
  shows "managed_object_hashmap_entry_find hb k False = Inr (Some p)"
proof -
  from assms(1) obtain hf cmp where fns: "hash hb = Some hf" "compare hb = Some cmp" and ko: "key_ops hf cmp"
    and t0: "table hb = None \<longrightarrow> table_size hb = 0 \<and> hm_size hb = 0"
    and t1: "\<forall>tb. table hb = Some tb \<longrightarrow> size_ok (table_size hb) \<and>
       table_ok hf cmp (table_size hb) tb \<and> unat (hm_size hb) = size (live tb)"
    by (rule hm_invE)
  from assms(2) t0 obtain tb where tb: "table hb = Some tb" by (cases "table hb") auto
  have ok: "table_ok hf cmp (table_size hb) tb" and ent: "entries hb = tb" using t1 tb by (simp_all add: entries_def)
  obtain r where r: "managed_object_hashmap_entry_find hb k False = Inr r"
    "find_result cmp k False tb (home hf (table_size hb) k) r"
    using key_ops.entry_find_result [OF ko fns tb ok] by blast
  have "p < length tb" "matches cmp k (tb ! p)"
    using ok assms(2,3) ent key_ops.cmp_refl [OF ko] by (simp_all add: table_ok_def matches_def)
  with r show ?thesis using key_ops.find_hit [OF ko ok] by blast
qed

lemma entry_remove_low:
  assumes inv: "hm_inv hb" and p: "p < unat (table_size hb)" "ekey (entries hb ! p) = Some k"
    and room: "hm_size hb < table_size hb" and rem: "managed_object_hashmap_entry_remove hb p = Inr hb'"
    and x: "x < p" "pop (entries hb') x"
  shows "\<exists>y < p. entries hb ! y = entries hb' ! x"
proof -
  let ?N = "unat (table_size hb)"
  from inv obtain hf cmp where fns: "hash hb = Some hf"
    and t0: "table hb = None \<longrightarrow> table_size hb = 0 \<and> hm_size hb = 0"
    and t1: "\<forall>tb. table hb = Some tb \<longrightarrow> size_ok (table_size hb) \<and>
       table_ok hf cmp (table_size hb) tb \<and> unat (hm_size hb) = size (live tb)"
    by (rule hm_invE)
  from p t0 obtain tb where tb: "table hb = Some tb" by (cases "table hb") auto
  with t1 have pw: "pow2_size (table_size hb)" "length tb = ?N" by (simp_all add: size_ok_pow2 table_ok_def)
  have N: "32 \<le> ?N" using t1 tb size_ok_bounds by blast
  have ent: "entries hb = tb" using tb by (simp add: entries_def)
  let ?w = "word_of_nat p :: size_t" and ?next = "MANAGED_OBJECT_HASHMAP_PROBE_NEXT (table_size hb) (word_of_nat p)"
  have up: "unat ?w = p" using p(1) unat_less_64 [of "table_size hb"] by (simp add: unat_of_nat)
  have nx: "unat ?next = Suc p mod ?N" using probe_next_unat [OF pw(1)] up by simp
  obtain tb1 hole where loop: "entry_remove_loop tb (table_size hb) hf (unat (hm_size hb - 1)) ?next ?w = (tb1, hole)"
    by (metis surj_pair)
  have d: "cdist ?N p (unat ?next) = 1" using cdist_next [OF p(1) p(1)] nx N by simp
  have "tb ! p \<in># live tb" using p ent pw(2) by (auto simp: in_live_iff pop_def)
  then have "0 < size (live tb)" by (cases "live tb") auto
  then have "0 < unat (hm_size hb)" using t1 tb by simp
  then have n: "1 + unat (hm_size hb - 1) \<le> ?N - 1"
    using room by (simp add: unat_sub word_le_nat_alt word_less_nat_alt)
  have "low p tb tb p" by (auto simp: low_def)
  then have "low p tb tb1 (unat hole)"
    using entry_remove_loop_low [OF loop pw p(1)] p(1) up nx N d n by simp
  moreover have e': "entries hb' = tb1[unat hole := empty_entry]"
    using rem fns loop ent p(2)
    by (auto simp: managed_object_hashmap_entry_remove_def log_event_def Let_def entries_def)
  moreover have "x \<noteq> unat hole"
    using x p(1) e' pop_update [of "unat hole" tb1 empty_entry x] entry_remove_loop_length [OF loop] pw(2) by auto
  ultimately show ?thesis using x pop_clear [of tb1 "unat hole" x] ent e' by (auto simp: low_def)
qed

text \<open>What the body does, and where the other entries are after it.\<close>

lemma remove_current:
  assumes inv: "hm_inv hb" and p: "p < unat (table_size hb)" "ekey (entries hb ! p) = Some k" "edata (entries hb ! p) = Some d"
    and room: "hm_size hb < table_size hb"
  obtains hb' where "managed_object_hashmap_base_remove hb (Some k) = Inr (Some d, hb')" "hm_inv hb'"
    "table_size hb' = table_size hb" "key_free hb' = key_free hb" "unat (hm_size hb) = Suc (unat (hm_size hb'))"
    "trace hb' = trace hb @ (if key_free hb then [Key_freed k] else [])"
    "live (entries hb) = add_mset (entries hb ! p) (live (entries hb'))"
    "\<And>x. x < p \<Longrightarrow> pop (entries hb') x \<Longrightarrow> \<exists>y < p. entries hb ! y = entries hb' ! x"
    "\<And>z. p < z \<Longrightarrow> z < unat (table_size hb) \<Longrightarrow> pop (entries hb) z \<Longrightarrow>
       \<exists>x. p \<le> x \<and> x < unat (table_size hb) \<and> entries hb' ! x = entries hb ! z"
proof -
  from entry_remove_correct [OF inv p(1,2) room] obtain tb' where
    rem: "managed_object_hashmap_entry_remove hb p = Inr (hb\<lparr>hm_size := hm_size hb - 1, table := Some tb',
              trace := trace hb @ (if key_free hb then [Key_freed k] else [])\<rparr>)"
    and inv': "hm_inv (hb\<lparr>hm_size := hm_size hb - 1, table := Some tb'\<rparr>)"
    and live: "live (entries hb) = add_mset (entries hb ! p) (live tb')" and pos: "0 < hm_size hb" by blast
  let ?hb = "hb\<lparr>hm_size := hm_size hb - 1, table := Some tb', trace := trace hb @ (if key_free hb then [Key_freed k] else [])\<rparr>"
  have ihb: "hm_inv ?hb" using inv' by (simp only: hm_inv_trace)
  have low: "\<exists>y < p. entries hb ! y = entries ?hb ! x" if "x < p" "pop (entries ?hb) x" for x
    using entry_remove_low [OF inv p(1,2) room rem that] .
  have len: "length (entries hb) = unat (table_size hb)" "length (entries ?hb) = unat (table_size hb)"
    using hm_entries(1) [OF inv] hm_entries(1) [OF ihb] by simp_all
  have high: "\<exists>x. p \<le> x \<and> x < unat (table_size hb) \<and> entries ?hb ! x = entries hb ! z"
    if z: "p < z" "z < unat (table_size hb)" "pop (entries hb) z" for z
  proof -
    have "entries hb ! z \<noteq> entries hb ! p" using slots_differ [OF inv z(2) p(1) z(3)] z(1) by auto
    moreover have "entries hb ! z \<in># live (entries hb)" using z len by (auto simp: in_live_iff)
    ultimately have "entries hb ! z \<in># live (entries ?hb)" using live by (simp add: entries_def)
    then obtain x where x: "x < unat (table_size hb)" "entries ?hb ! x = entries hb ! z" "pop (entries ?hb) x"
      using len by (auto simp: in_live_iff)
    have "\<not> x < p"
    proof
      assume "x < p"
      from low [OF this x(3)] x(2) obtain y where y: "y < p" "entries hb ! y = entries hb ! z" by auto
      then have "z = y" using slots_differ [OF inv z(2) _ z(3), of y] p(1) by simp
      with y z show False by simp
    qed
    with x show ?thesis by (auto simp: not_less)
  qed
  have "managed_object_hashmap_base_remove hb (Some k) = Inr (Some d, ?hb)"
    using stored_key_found [OF inv p(1,2)] rem p(3) by (simp add: managed_object_hashmap_base_remove_def)
  moreover have "unat (hm_size hb) = Suc (unat (hm_size ?hb))"
    using pos by (simp add: unat_sub word_le_nat_alt word_less_nat_alt)
  ultimately show ?thesis using that [of ?hb] ihb live low high by (simp add: entries_def)
qed

section \<open>The whole loop\<close>

definition hit :: "('k \<Rightarrow> 'v \<Rightarrow> bool) \<Rightarrow> ('k, 'v) entry \<Rightarrow> bool" where
  "hit P e \<longleftrightarrow> P (the (ekey e)) (the (edata e))"

text \<open>
  The part of the loop from slot \<open>i\<close> on, on a map in which the slots below have nothing left to
  remove: what it visits (\<open>vs\<close>) and the map that it leaves.
\<close>

definition foreach_run ::
  "('k \<Rightarrow> 'v \<Rightarrow> bool) \<Rightarrow> ('k, 'v) hb \<Rightarrow> nat \<Rightarrow> ('k \<times> 'v) list \<Rightarrow> ('k, 'v) hb \<Rightarrow> bool" where
  "foreach_run P hb i vs hb' \<longleftrightarrow> hm_inv hb' \<and> table_size hb' = table_size hb \<and>
     live (entries hb') = filter_mset (\<lambda>e. \<not> hit P e) (live (entries hb)) \<and>
     set vs \<subseteq> pair_of ` set_mset (live (entries hb)) \<and>
     (\<forall>z. i \<le> z \<longrightarrow> z < unat (table_size hb) \<longrightarrow> pop (entries hb) z \<longrightarrow> pair_of (entries hb ! z) \<in> set vs) \<and>
     mset (filter (case_prod P) vs) = image_mset pair_of (filter_mset (hit P) (live (entries hb))) \<and>
     trace hb' = trace hb @ (if key_free hb then map (\<lambda>v. Key_freed (fst v)) (filter (case_prod P) vs) else [])"

lemma foreach_run_end:
  assumes "hm_inv hb" and low: "\<And>x. x < i \<Longrightarrow> pop (entries hb) x \<Longrightarrow> \<not> hit P (entries hb ! x)"
    and none: "managed_object_hashmap_entry_get_populated hb i = None"
  shows "foreach_run P hb i [] hb"
proof -
  have high: "\<not> pop (entries hb) z" if "i \<le> z" "z < unat (table_size hb)" for z
  proof (cases "hm_size hb = 0")
    case True
    then have "live (entries hb) = {#}" using hm_entries(2) [OF assms(1)] by simp
    then show ?thesis using in_live_iff [of "entries hb ! z" "entries hb"] hm_entries(1) [OF assms(1)] that by auto
  next
    case False
    then show ?thesis using none get_populated_NoneD [OF _ that]
      by (simp add: managed_object_hashmap_entry_get_populated_def word_neq_0_conv)
  qed
  have "\<not> hit P e" if "e \<in># live (entries hb)" for e
  proof -
    obtain x where "x < unat (table_size hb)" "entries hb ! x = e" "pop (entries hb) x"
      using \<open>e \<in># live (entries hb)\<close> hm_entries(1) [OF assms(1)] by (auto simp: in_live_iff)
    then show ?thesis using low [of x] high [of x] by (cases "x < i") auto
  qed
  then have "filter_mset (hit P) (live (entries hb)) = {#}" "filter_mset (\<lambda>e. \<not> hit P e) (live (entries hb)) = live (entries hb)"
    by (auto simp: filter_mset_eq_conv)
  then show ?thesis using assms(1) high by (simp add: foreach_run_def)
qed

lemma foreach_run_keep:
  assumes "foreach_run P hb (Suc p) vs hb'" and "pop (entries hb) p" and "p < length (entries hb)"
    and "\<not> hit P (entries hb ! p)" and "i \<le> p" and "\<And>x. i \<le> x \<Longrightarrow> x < p \<Longrightarrow> \<not> pop (entries hb) x"
  shows "foreach_run P hb i (pair_of (entries hb ! p) # vs) hb'"
proof -
  have "pair_of (entries hb ! z) \<in> set (pair_of (entries hb ! p) # vs)"
    if "i \<le> z" "z < unat (table_size hb)" "pop (entries hb) z" for z
    using assms(1,6) that unfolding foreach_run_def by (cases z p rule: linorder_cases) auto
  moreover have "entries hb ! p \<in># live (entries hb)" using assms(2,3) by (auto simp: in_live_iff)
  ultimately show ?thesis using assms(1,4) by (auto simp: foreach_run_def pair_of_def hit_def)
qed

lemma foreach_run_remove:
  assumes run: "foreach_run P hb1 p vs hb'" and len: "length (entries hb) = unat (table_size hb)" "length (entries hb1) = unat (table_size hb)"
    and p: "p < unat (table_size hb)" "ekey (entries hb ! p) = Some k"
    and hit: "hit P (entries hb ! p)" and "i \<le> p" and gap: "\<And>x. i \<le> x \<Longrightarrow> x < p \<Longrightarrow> \<not> pop (entries hb) x"
    and hb1: "table_size hb1 = table_size hb" "key_free hb1 = key_free hb"
      "trace hb1 = trace hb @ (if key_free hb then [Key_freed k] else [])"
    and live: "live (entries hb) = add_mset (entries hb ! p) (live (entries hb1))"
    and high: "\<And>z. p < z \<Longrightarrow> z < unat (table_size hb) \<Longrightarrow> pop (entries hb) z \<Longrightarrow>
       \<exists>x. p \<le> x \<and> x < unat (table_size hb) \<and> entries hb1 ! x = entries hb ! z"
  shows "foreach_run P hb i (pair_of (entries hb ! p) # vs) hb'"
proof -
  have "pair_of (entries hb ! z) \<in> set (pair_of (entries hb ! p) # vs)"
    if z: "i \<le> z" "z < unat (table_size hb)" "pop (entries hb) z" for z
  proof (cases z p rule: linorder_cases)
    case greater
    from high [OF greater z(2,3)] obtain x where x: "p \<le> x" "x < unat (table_size hb)" "entries hb1 ! x = entries hb ! z"
      by blast
    then have "pop (entries hb1) x" using z(3) by (simp add: pop_def)
    then have "pair_of (entries hb1 ! x) \<in> set vs" using run x(1,2) hb1(1) unfolding foreach_run_def by auto
    with x(3) show ?thesis by simp
  qed (use gap z in auto)
  moreover have "set (pair_of (entries hb ! p) # vs) \<subseteq> pair_of ` set_mset (live (entries hb))"
    using run live by (auto simp: foreach_run_def)
  moreover have "case_prod P (pair_of (entries hb ! p))" "fst (pair_of (entries hb ! p)) = k"
    using hit p(2) by (simp_all add: hit_def pair_of_def)
  ultimately show ?thesis using run hit hb1 live unfolding foreach_run_def by simp
qed

lemma foreach_safe_run:
  assumes "hm_inv hb" and "hm_size hb < table_size hb" and "i \<le> unat (table_size hb)"
    and "\<And>x. x < i \<Longrightarrow> pop (entries hb) x \<Longrightarrow> \<not> hit P (entries hb ! x)"
  shows "\<exists>vs hb'. foreach_safe_from (remove_if P) hb (managed_object_hashmap_entry_get_populated hb i) = Some (Inr (vs, hb')) \<and>
    foreach_run P hb i vs hb'"
  using assms
proof (induction "unat (hm_size hb) + (unat (table_size hb) - i)" arbitrary: hb i rule: less_induct)
  case less
  let ?N = "unat (table_size hb)" and ?gp = "managed_object_hashmap_entry_get_populated"
  have len: "length (entries hb) = ?N" using hm_entries(1) [OF less.prems(1)] .
  show ?case
  proof (cases "?gp hb i")
    case None
    then show ?thesis using foreach_run_end [OF less.prems(1,4) None]
      by (simp add: foreach_safe_from.simps [of _ hb None] managed_object_hashmap_base_iter_get_key_def)
  next
    case (Some p)
    then have "get_populated_loop (entries hb) ?N i = Some p"
      by (simp add: managed_object_hashmap_entry_get_populated_def split: if_splits)
    from get_populated_SomeD [OF this] have p: "i \<le> p" "p < ?N" "pop (entries hb) p"
      and gap: "\<And>x. i \<le> x \<Longrightarrow> x < p \<Longrightarrow> \<not> pop (entries hb) x" by auto
    obtain k where k: "ekey (entries hb ! p) = Some k" using p(3) by (auto simp: pop_def)
    have "slots_ok (entries hb)"
      using less.prems(1) by (rule hm_invE) (cases "table hb"; simp add: entries_def table_ok_def slots_ok_def)
    then obtain d where d: "edata (entries hb ! p) = Some d"
      using k p(2) len unfolding slots_ok_def by (metis nth_mem option.exhaust option.simps(3))
    have pd: "pair_of (entries hb ! p) = (k, d)" "hit P (entries hb ! p) \<longleftrightarrow> P k d"
      using k d by (simp_all add: pair_of_def hit_def)
    have below: "\<not> hit P (entries hb ! x)" if "x < p" "pop (entries hb) x" for x
      using that less.prems(4) [of x] gap [of x] by (cases "x < i") auto
    have step: "foreach_safe_from (remove_if P) hb (Some p) =
        (case remove_if P k d hb of Inl f \<Rightarrow> Some (Inl f)
         | Inr hb1 \<Rightarrow> Option.bind (foreach_safe_from (remove_if P) hb1
             (?gp hb1 (if ekey (entries hb1 ! p) = Some k then Suc p else p)))
             (\<lambda>r. Some (andthen r (\<lambda>(vs, hb2). Inr ((k, d) # vs, hb2)))))"
      using k d by (simp add: foreach_safe_from.simps [of _ hb "Some p"] managed_object_hashmap_base_iter_get_key_def
        managed_object_hashmap_base_iter_get_data_def managed_object_hashmap_base_iter_next_def
        managed_object_hashmap_base_iter_def Let_def split: sum.split)
    show ?thesis
    proof (cases "P k d")
      case False
      have "\<not> hit P (entries hb ! x)" if "x < Suc p" "pop (entries hb) x" for x
        using that below [of x] False pd by (cases "x = p") auto
      with less.hyps [of hb "Suc p"] less.prems(1,2) p obtain vs hb' where
        r: "foreach_safe_from (remove_if P) hb (?gp hb (Suc p)) = Some (Inr (vs, hb'))" "foreach_run P hb (Suc p) vs hb'"
        by fastforce
      then have "foreach_run P hb i ((k, d) # vs) hb'"
        using foreach_run_keep [OF r(2) p(3) _ _ p(1) gap] p(2) len False pd by simp
      with r(1) step k False Some show ?thesis by (simp add: remove_if_def)
    next
      case True
      obtain hb1 where rm: "managed_object_hashmap_base_remove hb (Some k) = Inr (Some d, hb1)" "hm_inv hb1"
        and ts: "table_size hb1 = table_size hb" "key_free hb1 = key_free hb"
        and sz: "unat (hm_size hb) = Suc (unat (hm_size hb1))"
        and tr: "trace hb1 = trace hb @ (if key_free hb then [Key_freed k] else [])"
        and live: "live (entries hb) = add_mset (entries hb ! p) (live (entries hb1))"
        and low: "\<And>x. x < p \<Longrightarrow> pop (entries hb1) x \<Longrightarrow> \<exists>y < p. entries hb ! y = entries hb1 ! x"
        and high: "\<And>z. p < z \<Longrightarrow> z < ?N \<Longrightarrow> pop (entries hb) z \<Longrightarrow> \<exists>x. p \<le> x \<and> x < ?N \<and> entries hb1 ! x = entries hb ! z"
        by (rule remove_current [OF less.prems(1) p(2) k d less.prems(2)]) (rule that)
      have len1: "length (entries hb1) = ?N" using hm_entries(1) [OF rm(2)] ts by simp
      have other: "ekey (entries hb1 ! p) \<noteq> Some k"
      proof
        assume same: "ekey (entries hb1 ! p) = Some k"
        then have "entries hb1 ! p \<in># live (entries hb1)" using p(2) len1 by (auto simp: in_live_iff pop_def)
        then have "{#entries hb ! p, entries hb1 ! p#} \<subseteq># live (entries hb)" using live by simp
        with less.prems(1) k same show False by (rule_tac hm_distinct)
      qed
      have room: "hm_size hb1 < table_size hb1" using less.prems(2) ts(1) sz by (simp add: word_less_nat_alt)
      have below1: "\<not> hit P (entries hb1 ! x)" if x: "x < p" "pop (entries hb1) x" for x
      proof -
        from low [OF x] obtain y where y: "y < p" "entries hb ! y = entries hb1 ! x" by blast
        then have "pop (entries hb) y" using x(2) by (simp add: pop_def)
        with below [OF y(1)] y(2) show ?thesis by simp
      qed
      have "unat (hm_size hb1) + (unat (table_size hb1) - p) < unat (hm_size hb) + (?N - i)"
        using sz ts(1) p(1) by simp
      from less.hyps [OF this rm(2) room _ below1] p(2) ts(1) obtain vs hb' where
        r: "foreach_safe_from (remove_if P) hb1 (?gp hb1 p) = Some (Inr (vs, hb'))" "foreach_run P hb1 p vs hb'" by auto
      have "foreach_run P hb i ((k, d) # vs) hb'"
        using foreach_run_remove [OF r(2) len len1 p(2) k _ p(1) gap ts tr live high] True pd by simp
      with r(1) step rm(1) other True Some show ?thesis by (simp add: remove_if_def)
    qed
  qed
qed

lemma foreach_safe_outcome:
  assumes "hm_inv hb" and "hm_size hb < table_size hb"
  shows "\<exists>vs hb'. managed_object_hashmap_foreach_safe (remove_if P) hb = Some (Inr (vs, hb')) \<and> hm_inv hb' \<and>
    live (entries hb') = filter_mset (\<lambda>e. \<not> hit P e) (live (entries hb)) \<and>
    set vs = pair_of ` set_mset (live (entries hb)) \<and>
    mset (filter (case_prod P) vs) = image_mset pair_of (filter_mset (hit P) (live (entries hb))) \<and>
    trace hb' = trace hb @ (if key_free hb then map (\<lambda>v. Key_freed (fst v)) (filter (case_prod P) vs) else [])"
proof -
  from foreach_safe_run [OF assms, of 0 P] obtain vs hb' where
    r: "managed_object_hashmap_foreach_safe (remove_if P) hb = Some (Inr (vs, hb'))" "foreach_run P hb 0 vs hb'"
    by (auto simp: managed_object_hashmap_foreach_safe_def managed_object_hashmap_base_iter_def)
  have "pair_of e \<in> set vs" if "e \<in># live (entries hb)" for e
    using that r(2) hm_entries(1) [OF assms(1)] by (auto simp: in_live_iff foreach_run_def)
  then show ?thesis using r unfolding foreach_run_def by blast
qed

text \<open>
  C23: The safe foreach loop with a body that removes the entries that pass a test.  On a map that
  satisfies the invariant and is not full, the loop ends; it visits every entry and nothing else,
  each entry that it removes exactly once, it leaves exactly the entries that fail the test, and frees
  each key it removes once, in the order of the visits.
\<close>

theorem foreach_safe_correct:
  assumes "hm_inv hb" and "hm_size hb < table_size hb"
  shows "\<exists>vs hb'. managed_object_hashmap_foreach_safe (remove_if P) hb = Some (Inr (vs, hb')) \<and> hm_inv hb' \<and>
    live (entries hb') = filter_mset (\<lambda>e. \<not> hit P e) (live (entries hb)) \<and>
    set vs = pair_of ` set_mset (live (entries hb)) \<and>
    mset (filter (case_prod P) vs) = image_mset pair_of (filter_mset (hit P) (live (entries hb))) \<and>
    trace hb' = trace hb @ (if key_free hb then map (\<lambda>v. Key_freed (fst v)) (filter (case_prod P) vs) else [])"
  using assms by (rule foreach_safe_outcome)

text \<open>Removing \<open>c\<close> from the sample shifts \<open>f\<close> into its slot, which is visited next.\<close>

theorem foreach_safe_correct_witness:
  "\<exists>vs hb'. managed_object_hashmap_foreach_safe (remove_if (\<lambda>k d. d = 1)) sample = Some (Inr (vs, hb')) \<and> hm_inv hb' \<and>
    set vs = {([99], 1), ([102], 2), ([97], 3)} \<and> trace hb' = [Key_freed [99]]"
proof -
  let ?P = "\<lambda>(k :: byte list) (d :: nat). d = 1"
  have "hm_size sample < table_size sample" by simp
  from foreach_safe_correct [OF sample_inv this, of ?P] obtain vs hb' where
    r: "managed_object_hashmap_foreach_safe (remove_if ?P) sample = Some (Inr (vs, hb'))" "hm_inv hb'"
    "set vs = pair_of ` set_mset (live sample_table)"
    and m: "mset (filter (case_prod ?P) vs) = image_mset pair_of (filter_mset (hit ?P) (live sample_table))"
    and t: "trace hb' = map (\<lambda>v. Key_freed (fst v)) (filter (case_prod ?P) vs)" by auto
  have "mset (filter (case_prod ?P) vs) = {#([99], 1)#}"
    unfolding m sample_live by (simp add: hit_def pair_of_def)
  then have "filter (case_prod ?P) vs = [([99], 1)]" by (simp only: mset_single_iff)
  moreover have "set vs = {([99], 1), ([102], 2), ([97], 3)}"
    unfolding r(3) sample_live by (auto simp: pair_of_def)
  ultimately show ?thesis using r(1,2) t by auto
qed

section \<open>What may be visited twice\<close>

text \<open>
  The keys \<open>154\<close> and \<open>136\<close> have the last of 32 slots as their home, and \<open>136\<close>, the later one, is at the
  beginning of the table.  It is visited, and when the last slot is emptied it moves there and is visited again.
\<close>

definition wrapped :: "(nat, nat) hb" where
  "wrapped = \<lparr>table_size_init = 32, table_size = 32, hm_size = 2,
     table = Some ((replicate 32 empty_entry)[31 := \<lparr>ekey = Some 154, edata = Some 1\<rparr>, 0 := \<lparr>ekey = Some 136, edata = Some 2\<rparr>]),
     hash = Some (\<lambda>k. word_of_nat k), compare = Some (\<lambda>a b. if a = b then 0 else 1), key_dup = None, key_free = False,
     on_realloc = False, trace = []\<rparr>"

lemma wrapped_visits_twice:
  "map_option (\<lambda>r. case r of Inl f \<Rightarrow> [] | Inr (vs, hb') \<Rightarrow> vs)
     (managed_object_hashmap_foreach_safe (remove_if (\<lambda>k d. k = 154)) wrapped) = Some [(136, 2), (154, 1), (136, 2)]"
  by code_simp

end
