(* ===== verification/HashmapStats.thy ===== *)
theory HashmapStats
  imports HashmapForeach
begin

text \<open>
  The statistics of the hashmap (\<open>src/src/managed_object_hashmap.c\<close>): the collisions of a key are the
  distance from its home slot, and mean and variance are computed from these.  The arithmetic of
  \<open>double\<close> is an argument.
\<close>

section \<open>Definitions\<close>

record 'd floating =
  of_size :: "size_t \<Rightarrow> 'd"
  f_zero :: 'd
  f_add :: "'d \<Rightarrow> 'd \<Rightarrow> 'd"
  f_sub :: "'d \<Rightarrow> 'd \<Rightarrow> 'd"
  f_mult :: "'d \<Rightarrow> 'd \<Rightarrow> 'd"
  f_div :: "'d \<Rightarrow> 'd \<Rightarrow> 'd"

definition managed_object_hashmap_base_load_factor :: "'d floating \<Rightarrow> ('k, 'v) hb \<Rightarrow> 'd" where
  "managed_object_hashmap_base_load_factor fl hb =
     (if table_size hb = 0 then f_zero fl else f_div fl (of_size fl (hm_size hb)) (of_size fl (table_size hb)))"

primrec mean_loop :: "('k, 'v) hb \<Rightarrow> ('k, 'v) entry list \<Rightarrow> size_t \<Rightarrow> fault + size_t" where
  "mean_loop hb [] acc = Inr acc"
| "mean_loop hb (e # es) acc =
     (case ekey e of
        None \<Rightarrow> mean_loop hb es acc
      | Some k \<Rightarrow> andthen (managed_object_hashmap_base_collisions hb (Some k)) (\<lambda>c. mean_loop hb es (acc + c)))"

definition managed_object_hashmap_base_collisions_mean :: "'d floating \<Rightarrow> ('k, 'v) hb \<Rightarrow> fault + 'd" where
  "managed_object_hashmap_base_collisions_mean fl hb =
     (if hm_size hb = 0 then Inr (f_zero fl)
      else andthen (mean_loop hb (entries hb) 0) (\<lambda>acc.
        Inr (f_div fl (of_size fl acc) (of_size fl (hm_size hb)))))"

primrec variance_loop :: "'d floating \<Rightarrow> ('k, 'v) hb \<Rightarrow> 'd \<Rightarrow> ('k, 'v) entry list \<Rightarrow> 'd \<Rightarrow> fault + 'd" where
  "variance_loop fl hb mean [] acc = Inr acc"
| "variance_loop fl hb mean (e # es) acc =
     (case ekey e of
        None \<Rightarrow> variance_loop fl hb mean es acc
      | Some k \<Rightarrow> andthen (managed_object_hashmap_base_collisions hb (Some k)) (\<lambda>c.
          let variance = f_sub fl (of_size fl c) mean
          in variance_loop fl hb mean es (f_add fl acc (f_mult fl variance variance))))"

definition managed_object_hashmap_base_collisions_variance :: "'d floating \<Rightarrow> ('k, 'v) hb \<Rightarrow> fault + 'd" where
  "managed_object_hashmap_base_collisions_variance fl hb =
     (if hm_size hb = 0 then Inr (f_zero fl)
      else andthen (managed_object_hashmap_base_collisions_mean fl hb) (\<lambda>mean.
        andthen (variance_loop fl hb mean (entries hb) (f_zero fl)) (\<lambda>acc.
          Inr (f_div fl acc (of_size fl (hm_size hb))))))"

section \<open>The collisions of a stored key\<close>

lemma collisions_loop_dist:
  assumes ok: "table_ok hf cmp ts tb" and refl: "cmp k k = 0"
    and uniq: "\<And>j a. j < length tb \<Longrightarrow> ekey (tb ! j) = Some a \<Longrightarrow> cmp k a = 0 \<Longrightarrow> j = p"
    and p: "p < length tb" "ekey (tb ! p) = Some k" and h: "home hf ts k < length tb"
  shows "unat index < length tb \<Longrightarrow> cdist (length tb) (home hf ts k) (unat index) \<le> cdist (length tb) (home hf ts k) p \<Longrightarrow>
    n + cdist (length tb) (home hf ts k) (unat index) = length tb \<Longrightarrow>
    i = word_of_nat (cdist (length tb) (home hf ts k) (unat index)) \<Longrightarrow>
    collisions_loop tb ts cmp k n i index = word_of_nat (cdist (length tb) (home hf ts k) p)"
proof (induction n arbitrary: i index)
  case 0
  then show ?case using cdist_less [OF h 0(1)] by simp
next
  case (Suc n)
  let ?N = "length tb" and ?h = "home hf ts k" and ?next = "MANAGED_OBJECT_HASHMAP_PROBE_NEXT ts index"
  show ?case
  proof (cases "unat index = p")
    case True
    with p refl Suc.prems(4) show ?thesis by simp
  next
    case False
    have N: "pow2_size ts" "?N = unat ts" using ok by (simp_all add: table_ok_def)
    have less: "cdist ?N ?h (unat index) < cdist ?N ?h p"
      using Suc.prems(2) cdist_inj [OF h Suc.prems(1) p(1)] False by linarith
    have "probe_full tb ?h p" using ok p by (simp add: table_ok_def chains_ok_def)
    then obtain a where a: "ekey (tb ! unat index) = Some a"
      using less Suc.prems(1) by (auto simp: probe_full_def pop_def)
    have "cmp k a \<noteq> 0" using uniq [OF Suc.prems(1) a] False by auto
    have nx: "unat ?next = Suc (unat index) mod ?N" using probe_next_unat [OF N(1)] N(2) by simp
    have d: "cdist ?N ?h (unat ?next) = Suc (cdist ?N ?h (unat index))"
      using cdist_next [OF h Suc.prems(1)] less cdist_less [OF h p(1)] nx by simp
    have "0 < ?N" using p(1) by linarith
    with nx have ln: "unat ?next < ?N" by simp
    have "collisions_loop tb ts cmp k n (i + 1) ?next = word_of_nat (cdist ?N ?h p)"
      using Suc.prems less d ln by (intro Suc.IH) simp_all
    with a \<open>cmp k a \<noteq> 0\<close> show ?thesis by simp
  qed
qed

definition probe_dist :: "('k, 'v) hb \<Rightarrow> nat \<Rightarrow> nat" where
  "probe_dist hb p = (case (hash hb, ekey (entries hb ! p)) of
     (Some hf, Some k) \<Rightarrow> cdist (unat (table_size hb)) (home hf (table_size hb) k) p | _ \<Rightarrow> 0)"

lemma collisions_dist:
  assumes inv: "hm_inv hb" and p: "p < unat (table_size hb)" "ekey (entries hb ! p) = Some k"
  shows "managed_object_hashmap_base_collisions hb (Some k) = Inr (word_of_nat (probe_dist hb p))"
    and "probe_dist hb p < unat (table_size hb)"
proof -
  from inv obtain hf cmp where fns: "hash hb = Some hf" "compare hb = Some cmp" and ko: "key_ops hf cmp"
    and t0: "table hb = None \<longrightarrow> table_size hb = 0 \<and> hm_size hb = 0"
    and t1: "\<forall>tb. table hb = Some tb \<longrightarrow> size_ok (table_size hb) \<and>
       table_ok hf cmp (table_size hb) tb \<and> unat (hm_size hb) = size (live tb)"
    by (rule hm_invE)
  from p t0 obtain tb where tb: "table hb = Some tb" by (cases "table hb") auto
  have ok: "table_ok hf cmp (table_size hb) tb" and ent: "entries hb = tb" using t1 tb by (simp_all add: entries_def)
  have N: "pow2_size (table_size hb)" "length tb = unat (table_size hb)" using ok by (simp_all add: table_ok_def)
  have h: "home hf (table_size hb) k < unat (table_size hb)" using size_mod_less [OF N(1)]
    by (simp add: home_def managed_object_hashmap_calc_index_def)
  have uniq: "j = p" if "j < length tb" "ekey (tb ! j) = Some a" "cmp k a = 0" for j a
    using keys_distinct_slots [of cmp tb p j k a] ok p ent N(2) that by (simp add: table_ok_def)
  have "collisions_loop tb (table_size hb) cmp k (unat (table_size hb)) 0
      (managed_object_hashmap_calc_index hf (table_size hb) k) = word_of_nat (cdist (length tb) (home hf (table_size hb) k) p)"
    using h p ent N(2) by (intro collisions_loop_dist [OF ok key_ops.cmp_refl [OF ko] uniq]) (simp_all add: home_def)
  then show "managed_object_hashmap_base_collisions hb (Some k) = Inr (word_of_nat (probe_dist hb p))"
    using fns ent p(2) N(2) by (simp add: managed_object_hashmap_base_collisions_def probe_dist_def)
  show "probe_dist hb p < unat (table_size hb)"
    using cdist_less [OF h p(1)] fns p(2) by (simp add: probe_dist_def)
qed

section \<open>Mean and variance\<close>

definition stored_slots :: "('k, 'v) hb \<Rightarrow> nat list" where
  "stored_slots hb = filter (\<lambda>p. ekey (entries hb ! p) \<noteq> None) [0..<unat (table_size hb)]"

text \<open>The distances of the stored keys from their home slots, in the order of the table.\<close>

definition stored_dists :: "('k, 'v) hb \<Rightarrow> nat list" where
  "stored_dists hb = map (probe_dist hb) (stored_slots hb)"

definition add_deviation :: "'d floating \<Rightarrow> 'd \<Rightarrow> 'd \<Rightarrow> nat \<Rightarrow> 'd" where
  "add_deviation fl mean acc d =
     f_add fl acc (f_mult fl (f_sub fl (of_size fl (word_of_nat d)) mean) (f_sub fl (of_size fl (word_of_nat d)) mean))"

lemma loops_over_slots:
  assumes inv: "hm_inv hb" and ps: "\<forall>p \<in> set ps. p < unat (table_size hb)"
  shows "mean_loop hb (map ((!) (entries hb)) ps) tc =
      Inr (tc + word_of_nat (sum_list (map (probe_dist hb) (filter (\<lambda>p. ekey (entries hb ! p) \<noteq> None) ps))))"
    and "variance_loop fl hb mean (map ((!) (entries hb)) ps) acc =
      Inr (foldl (add_deviation fl mean) acc (map (probe_dist hb) (filter (\<lambda>p. ekey (entries hb ! p) \<noteq> None) ps)))"
  using ps
proof (induction ps arbitrary: tc acc)
  case (Cons p ps)
  {
    case 1
    then show ?case using Cons.IH(1) collisions_dist(1) [OF inv, of p]
      by (cases "ekey (entries hb ! p)") (simp_all add: add.assoc)
  next
    case 2
    then show ?case using Cons.IH(2) collisions_dist(1) [OF inv, of p]
      by (cases "ekey (entries hb ! p)") (simp_all add: add_deviation_def Let_def)
  }
qed simp_all

lemma entries_slots: "hm_inv hb \<Longrightarrow> map ((!) (entries hb)) [0..<unat (table_size hb)] = entries hb"
  using hm_entries(1) [of hb] map_nth [of "entries hb"] by simp

lemma stored_count:
  assumes "hm_inv hb"
  shows "length (stored_slots hb) = unat (hm_size hb)"
proof -
  have "length (stored_slots hb) = length (filter (\<lambda>e. ekey e \<noteq> None) (map ((!) (entries hb)) [0..<unat (table_size hb)]))"
    by (simp add: stored_slots_def filter_map comp_def)
  also have "\<dots> = size (live (entries hb))" unfolding entries_slots [OF assms] by (simp add: live_def flip: size_mset)
  also have "\<dots> = unat (hm_size hb)" using assms by (auto elim!: hm_invE simp: entries_def live_def split: option.splits)
  finally show ?thesis .
qed

lemma stored_dists_bound:
  assumes inv: "hm_inv hb"
  shows "sum_list (stored_dists hb) < 2 ^ 64"
proof -
  let ?N = "unat (table_size hb)"
  have N: "?N \<le> 2 ^ 30" using inv size_ok_bounds by (auto elim!: hm_invE)
  have "probe_dist hb p \<le> ?N" if "p \<in> set (stored_slots hb)" for p
    using that collisions_dist(2) [OF inv, of p] by (auto simp: stored_slots_def intro: less_imp_le)
  then have "sum_list (stored_dists hb) \<le> sum_list (map (\<lambda>_. ?N) (stored_slots hb))"
    unfolding stored_dists_def by (rule sum_list_mono)
  also have "\<dots> = length (stored_slots hb) * ?N" by (simp add: sum_list_triv)
  also have "\<dots> \<le> ?N * ?N" using hm_size_le [OF inv] stored_count [OF inv] by (intro mult_le_mono1) simp
  also have "\<dots> \<le> 2 ^ 30 * 2 ^ 30" using mult_le_mono [OF N N] .
  finally show ?thesis by simp
qed

text \<open>
  C22: The statistics of a map that satisfies the invariant.  The collisions of a stored key are the
  distance of its slot from its home slot.  Their sum over all keys does not overflow; the mean divides
  it by the number of keys, and the variance divides the sum of the squared deviations from this mean,
  added up in the order of the table, by the number of keys.  Both are 0 for the empty map.
\<close>

theorem collisions_mean_correct:
  assumes "hm_inv hb"
  shows "(\<forall>p k. p < unat (table_size hb) \<longrightarrow> ekey (entries hb ! p) = Some k \<longrightarrow>
      managed_object_hashmap_base_collisions hb (Some k) = Inr (word_of_nat (probe_dist hb p))) \<and>
    length (stored_dists hb) = unat (hm_size hb) \<and> sum_list (stored_dists hb) < 2 ^ 64 \<and>
    (let n = of_size fl (hm_size hb);
         mean = f_div fl (of_size fl (word_of_nat (sum_list (stored_dists hb)))) n
     in managed_object_hashmap_base_collisions_mean fl hb = Inr (if hm_size hb = 0 then f_zero fl else mean) \<and>
        managed_object_hashmap_base_collisions_variance fl hb = Inr (if hm_size hb = 0 then f_zero fl
          else f_div fl (foldl (add_deviation fl mean) (f_zero fl) (stored_dists hb)) n))"
proof -
  have "\<forall>p \<in> set [0..<unat (table_size hb)]. p < unat (table_size hb)" by simp
  note loops = loops_over_slots [OF assms this, unfolded entries_slots [OF assms], folded stored_slots_def stored_dists_def]
  from collisions_dist(1) [OF assms] stored_count [OF assms] stored_dists_bound [OF assms] loops(1) [of 0] loops(2) [of fl]
  show ?thesis
    by (simp add: managed_object_hashmap_base_collisions_mean_def managed_object_hashmap_base_collisions_variance_def
        stored_dists_def Let_def)
qed

text \<open>
  In the sample, \<open>f\<close> is one slot behind its home and the other two keys are at theirs; the arithmetic
  is that of the rational numbers.
\<close>

definition rationals :: "rat floating" where
  "rationals = \<lparr>of_size = (\<lambda>n. of_nat (unat n)), f_zero = 0, f_add = (+), f_sub = (-), f_mult = (*), f_div = (/)\<rparr>"

lemma sample_slots: "stored_slots sample = [25, 26, 29]"
proof -
  have "[0..<64] = [0..<25] @ [25, 26, 27, 28, 29] @ [30..<64 :: nat]" by (simp add: upt_rec)
  moreover have "filter (\<lambda>p. ekey (sample_table ! p) \<noteq> None) [0..<25] = []" "filter (\<lambda>p. ekey (sample_table ! p) \<noteq> None) [30..<64] = []"
    by (auto simp: filter_empty_conv sample_entry)
  ultimately show ?thesis by (simp add: stored_slots_def sample_entry)
qed

lemma sample_dist: "probe_dist sample 25 = 0" "probe_dist sample 26 = 1" "probe_dist sample 29 = 0"
proof -
  have "hash sample = Some str_hash" by (simp add: sample_def)
  then show "probe_dist sample 25 = 0" "probe_dist sample 26 = 1" "probe_dist sample 29 = 0"
    by (simp_all add: probe_dist_def sample_entry cdist_def)
qed

lemma sample_dists: "stored_dists sample = [0, 1, 0]"
  by (simp add: stored_dists_def sample_slots sample_dist)

theorem collisions_mean_correct_witness:
  "managed_object_hashmap_base_collisions sample (Some [102]) = Inr 1 \<and>
    managed_object_hashmap_base_collisions_mean rationals sample = Inr (1 / 3) \<and>
    managed_object_hashmap_base_collisions_variance rationals sample = Inr (2 / 9)"
proof -
  note spec = collisions_mean_correct [OF sample_inv, of rationals, unfolded sample_dists Let_def]
  have "managed_object_hashmap_base_collisions sample (Some [102]) = Inr (word_of_nat (probe_dist sample 26))"
    using spec by (elim conjE allE [of _ 26]) (simp add: sample_entry)
  then show ?thesis using spec by (simp add: sample_dist rationals_def add_deviation_def)
qed

end
