(* ===== verification/HashmapKeys.thy ===== *)
theory HashmapKeys
  imports HashmapForeach
begin

text \<open>
  The foreach loops of \<open>include/managed_object_hashmap.h\<close> whose bodies see only the keys or only the
  data.  They stop at the first null key or null datum, each at its own; on a map that satisfies the
  invariant they visit the same entries as the loops over both.
\<close>

section \<open>The loops\<close>

text \<open>The iterator that \<open>iter_next\<close> gives for an entry is behind it, so these loops end.\<close>

definition still_ahead :: "('k, 'v) hb \<times> nat option \<Rightarrow> nat" where
  "still_ahead w = (case w of (hb, it) \<Rightarrow> case it of None \<Rightarrow> 0 | Some i \<Rightarrow> Suc (unat (table_size hb) - i))"

lemma iter_next_range:
  "snd (managed_object_hashmap_base_iter_next hb (Some i)) = Some p \<Longrightarrow> i < p \<and> p < unat (table_size hb)"
  using get_populated_SomeD [of "entries hb" "unat (table_size hb)" "Suc i" p]
  by (auto simp: managed_object_hashmap_base_iter_next_def managed_object_hashmap_entry_get_populated_def Let_def split: if_splits)

lemma iter_next_ahead:
  assumes "iter = Some i"
  shows "still_ahead (hb, snd (managed_object_hashmap_base_iter_next hb iter)) < still_ahead (hb, iter)"
  using assms iter_next_range [of hb i]
  by (cases "snd (managed_object_hashmap_base_iter_next hb iter)") (auto simp: still_ahead_def)

function foreach_key_from :: "('k, 'v) hb \<Rightarrow> nat option \<Rightarrow> 'k list" where
  "foreach_key_from hb iter =
     (case managed_object_hashmap_base_iter_get_key hb iter of
        None \<Rightarrow> []
      | Some k \<Rightarrow> k # foreach_key_from hb (snd (managed_object_hashmap_base_iter_next hb iter)))"
  by pat_completeness auto
termination
  by (relation "measure still_ahead")
    (auto intro!: iter_next_ahead simp: managed_object_hashmap_base_iter_get_key_def split: option.splits)

function foreach_data_from :: "('k, 'v) hb \<Rightarrow> nat option \<Rightarrow> 'v list" where
  "foreach_data_from hb iter =
     (case managed_object_hashmap_base_iter_get_data hb iter of
        None \<Rightarrow> []
      | Some d \<Rightarrow> d # foreach_data_from hb (snd (managed_object_hashmap_base_iter_next hb iter)))"
  by pat_completeness auto
termination
  by (relation "measure still_ahead")
    (auto intro!: iter_next_ahead simp: managed_object_hashmap_base_iter_get_data_def split: option.splits)

declare foreach_key_from.simps [simp del] foreach_data_from.simps [simp del]

definition managed_object_hashmap_foreach_key :: "('k, 'v) hb \<Rightarrow> 'k list" where
  "managed_object_hashmap_foreach_key hb = foreach_key_from hb (managed_object_hashmap_base_iter hb None)"

definition managed_object_hashmap_foreach_data :: "('k, 'v) hb \<Rightarrow> 'v list" where
  "managed_object_hashmap_foreach_data hb = foreach_data_from hb (managed_object_hashmap_base_iter hb None)"

partial_function (option) foreach_key_safe_from ::
  "('k \<Rightarrow> ('k, 'v) hb \<Rightarrow> fault + ('k, 'v) hb) \<Rightarrow> ('k, 'v) hb \<Rightarrow> nat option \<Rightarrow> (fault + 'k list \<times> ('k, 'v) hb) option"
where
  "foreach_key_safe_from body hb iter =
     (case managed_object_hashmap_base_iter_get_key hb iter of
        None \<Rightarrow> Some (Inr ([], hb))
      | Some temp \<Rightarrow>
          (case body temp hb of
             Inl f \<Rightarrow> Some (Inl f)
           | Inr hb1 \<Rightarrow>
               Option.bind
                 (foreach_key_safe_from body hb1
                    (if managed_object_hashmap_base_iter_get_key hb1 iter = Some temp
                     then snd (managed_object_hashmap_base_iter_next hb1 iter)
                     else managed_object_hashmap_base_iter hb1 iter))
                 (\<lambda>r. Some (andthen r (\<lambda>(vs, hb2). Inr (temp # vs, hb2))))))"

partial_function (option) foreach_data_safe_from ::
  "('v \<Rightarrow> ('k, 'v) hb \<Rightarrow> fault + ('k, 'v) hb) \<Rightarrow> ('k, 'v) hb \<Rightarrow> nat option \<Rightarrow> (fault + 'v list \<times> ('k, 'v) hb) option"
where
  "foreach_data_safe_from body hb iter =
     (case managed_object_hashmap_base_iter_get_key hb iter of
        None \<Rightarrow> Some (Inr ([], hb))
      | Some temp \<Rightarrow>
          (case managed_object_hashmap_base_iter_get_data hb iter of
             None \<Rightarrow> Some (Inr ([], hb))
           | Some d \<Rightarrow>
               (case body d hb of
                  Inl f \<Rightarrow> Some (Inl f)
                | Inr hb1 \<Rightarrow>
                    Option.bind
                      (foreach_data_safe_from body hb1
                         (if managed_object_hashmap_base_iter_get_key hb1 iter = Some temp
                          then snd (managed_object_hashmap_base_iter_next hb1 iter)
                          else managed_object_hashmap_base_iter hb1 iter))
                      (\<lambda>r. Some (andthen r (\<lambda>(vs, hb2). Inr (d # vs, hb2)))))))"

declare foreach_key_safe_from.simps [code] foreach_data_safe_from.simps [code]

definition managed_object_hashmap_foreach_key_safe ::
  "('k \<Rightarrow> ('k, 'v) hb \<Rightarrow> fault + ('k, 'v) hb) \<Rightarrow> ('k, 'v) hb \<Rightarrow> (fault + 'k list \<times> ('k, 'v) hb) option"
where
  "managed_object_hashmap_foreach_key_safe body hb =
     foreach_key_safe_from body hb (managed_object_hashmap_base_iter hb None)"

definition managed_object_hashmap_foreach_data_safe ::
  "('v \<Rightarrow> ('k, 'v) hb \<Rightarrow> fault + ('k, 'v) hb) \<Rightarrow> ('k, 'v) hb \<Rightarrow> (fault + 'v list \<times> ('k, 'v) hb) option"
where
  "managed_object_hashmap_foreach_data_safe body hb =
     foreach_data_safe_from body hb (managed_object_hashmap_base_iter hb None)"

section \<open>Iterators in the table\<close>

definition in_table :: "('k, 'v) hb \<Rightarrow> nat option \<Rightarrow> bool" where
  "in_table hb iter = (case iter of None \<Rightarrow> True | Some i \<Rightarrow> i < unat (table_size hb))"

lemma in_table_populated [simp]: "in_table hb (managed_object_hashmap_entry_get_populated hb i)"
  using get_populated_SomeD [of "entries hb" "unat (table_size hb)" i]
  by (auto simp: in_table_def managed_object_hashmap_entry_get_populated_def split: option.split)

lemma in_table_iter [simp]: "in_table hb (managed_object_hashmap_base_iter hb iter)"
  by (simp add: managed_object_hashmap_base_iter_def)

lemma in_table_next [simp]: "in_table hb (snd (managed_object_hashmap_base_iter_next hb iter))"
  by (cases iter) (simp_all add: managed_object_hashmap_base_iter_next_def Let_def in_table_def [of _ None])

text \<open>In a map that satisfies the invariant an entry has a key iff it has a datum.\<close>

lemma key_iff_data:
  assumes "hm_inv hb" and "in_table hb iter"
  shows "managed_object_hashmap_base_iter_get_key hb iter = None \<longleftrightarrow> managed_object_hashmap_base_iter_get_data hb iter = None"
proof (cases iter)
  case (Some i)
  have "slots_ok (entries hb)"
    using assms(1) by (rule hm_invE) (cases "table hb"; simp add: entries_def table_ok_def slots_ok_def)
  moreover have "entries hb ! i \<in> set (entries hb)"
    using assms(2) Some hm_entries(1) [OF assms(1)] by (simp add: in_table_def)
  ultimately show ?thesis
    using Some by (auto simp: slots_ok_def managed_object_hashmap_base_iter_get_key_def managed_object_hashmap_base_iter_get_data_def)
qed (simp add: managed_object_hashmap_base_iter_get_key_def managed_object_hashmap_base_iter_get_data_def)

section \<open>The same entries\<close>

lemma foreach_parts:
  assumes inv: "hm_inv hb" and "in_table hb iter"
  shows "foreach_key_from hb iter = map fst (foreach_from hb iter) \<and> foreach_data_from hb iter = map snd (foreach_from hb iter)"
  using assms
proof (induction hb iter rule: foreach_key_from.induct)
  case (1 hb iter)
  show ?case
  proof (cases "managed_object_hashmap_base_iter_get_key hb iter")
    case None
    then show ?thesis using key_iff_data [OF 1(2,3)]
      by (simp add: foreach_key_from.simps [of hb iter] foreach_data_from.simps [of hb iter] foreach_from.simps [of hb iter])
  next
    case (Some k)
    then obtain d where "managed_object_hashmap_base_iter_get_data hb iter = Some d" using key_iff_data [OF 1(2,3)] by auto
    with 1(1) [OF Some 1(2)] Some show ?thesis
      by (simp add: foreach_key_from.simps [of hb iter] foreach_data_from.simps [of hb iter] foreach_from.simps [of hb iter])
  qed
qed

lemma foreach_key_data:
  assumes "hm_inv hb"
  shows "managed_object_hashmap_foreach_key hb = map fst (managed_object_hashmap_foreach hb)"
    and "managed_object_hashmap_foreach_data hb = map snd (managed_object_hashmap_foreach hb)"
  using foreach_parts [OF assms]
  by (simp_all add: managed_object_hashmap_foreach_key_def managed_object_hashmap_foreach_data_def managed_object_hashmap_foreach_def)

text \<open>A body that keeps the invariant and does not fill the table.\<close>

definition roomy :: "('k, 'v) hb \<Rightarrow> bool" where
  "roomy hb \<longleftrightarrow> hm_inv hb \<and> hm_size hb < table_size hb"


definition keeps :: "('k \<Rightarrow> 'v \<Rightarrow> ('k, 'v) hb \<Rightarrow> fault + ('k, 'v) hb) \<Rightarrow> bool" where
  "keeps body \<longleftrightarrow> (\<forall>k d hb hb'. roomy hb \<longrightarrow> body k d hb = Inr hb' \<longrightarrow> roomy hb')"

definition visited :: "('a \<Rightarrow> 'b) \<Rightarrow> fault + 'a list \<times> 'c \<Rightarrow> fault + 'b list \<times> 'c" where
  "visited f r = andthen r (\<lambda>(vs, hb). Inr (map f vs, hb))"

lemma visited_simps [simp]: "visited f (Inl e) = Inl e" "visited f (Inr (vs, hb)) = Inr (map f vs, hb)"
  by (simp_all add: visited_def)

lemma visited_cons: "visited f (andthen r (\<lambda>(vs, hb). Inr (v # vs, hb))) = andthen (visited f r) (\<lambda>(vs, hb). Inr (f v # vs, hb))"
  by (cases r) auto

lemma safe_to_parts:
  "foreach_safe_from B hb iter = Some r \<Longrightarrow> keeps B \<Longrightarrow> roomy hb \<Longrightarrow> in_table hb iter \<Longrightarrow>
    (B = (\<lambda>k d. body1 k) \<longrightarrow> foreach_key_safe_from body1 hb iter = Some (visited fst r)) \<and>
    (B = (\<lambda>k d. body2 d) \<longrightarrow> foreach_data_safe_from body2 hb iter = Some (visited snd r))"
proof (induction rule: foreach_safe_from.raw_induct [rotated, consumes 1, case_names step])
  case (step f B hb iter r)
  note key = foreach_key_safe_from.simps [of body1 hb iter] and data = foreach_data_safe_from.simps [of body2 hb iter]
  show ?case
  proof (cases "managed_object_hashmap_base_iter_get_key hb iter")
    case None
    with step.hyps show ?thesis by (auto simp: key data)
  next
    case (Some k)
    then obtain d where d: "managed_object_hashmap_base_iter_get_data hb iter = Some d"
      using key_iff_data [OF _ step.prems(3)] step.prems(2) by (auto simp: roomy_def)
    show ?thesis
    proof (cases "B k d hb")
      case (Inl e)
      with Some d step.hyps show ?thesis by (auto simp: key data)
    next
      case (Inr hb1)
      let ?it = "if managed_object_hashmap_base_iter_get_key hb1 iter = Some k
        then snd (managed_object_hashmap_base_iter_next hb1 iter) else managed_object_hashmap_base_iter hb1 iter"
      from step.hyps Some d Inr obtain r1 where
        r1: "f B hb1 ?it = Some r1" "r = andthen r1 (\<lambda>(vs, hb2). Inr ((k, d) # vs, hb2))"
        by (auto simp: bind_eq_Some_conv)
      have "roomy hb1" using step.prems(1,2) Inr unfolding keeps_def by blast
      from step.IH [OF r1(1) step.prems(1) this] have
        key1: "B = (\<lambda>k d. body1 k) \<longrightarrow> foreach_key_safe_from body1 hb1 ?it = Some (visited fst r1)" and
        data1: "B = (\<lambda>k d. body2 d) \<longrightarrow> foreach_data_safe_from body2 hb1 ?it = Some (visited snd r1)" by simp_all
      show ?thesis
      proof (intro conjI impI)
        assume B: "B = (\<lambda>k d. body1 k)"
        with Inr have "body1 k hb = Inr hb1" by simp
        with Some r1(2) mp [OF key1 B] show "foreach_key_safe_from body1 hb iter = Some (visited fst r)"
          by (simp add: key visited_cons)
      next
        assume B: "B = (\<lambda>k d. body2 d)"
        with Inr have "body2 d hb = Inr hb1" by simp
        with Some d r1(2) mp [OF data1 B] show "foreach_data_safe_from body2 hb iter = Some (visited snd r)"
          by (simp add: data visited_cons)
      qed
    qed
  qed
qed

lemma remove_if_keeps: "keeps (remove_if P)"
  unfolding keeps_def
proof (intro allI impI)
  fix k d and hb hb' :: "('a, 'b) hb"
  assume hb: "roomy hb" and eq: "remove_if P k d hb = Inr hb'"
  show "roomy hb'"
  proof (cases "P k d")
    case True
    from hb have "hm_inv hb" "hm_size hb < table_size hb" by (simp_all add: roomy_def)
    from remove_outcome [OF this(1), of k] this(2) obtain hb1 r where
      "managed_object_hashmap_base_remove hb (Some k) = Inr (r, hb1)" "hm_inv hb1" "table_size hb1 = table_size hb"
      "hb1 = hb \<or> hm_size hb1 = hm_size hb - 1 \<and> 0 < hm_size hb"
      by (auto split: if_splits)
    with True eq hb show ?thesis
      by (auto simp: remove_if_def roomy_def word_less_nat_alt unat_sub_if_size split: if_splits)
  next
    case False
    with hb eq show ?thesis by (simp add: remove_if_def)
  qed
qed

text \<open>
  The loops over keys, or data, alone.  On a map that satisfies the invariant they visit what the loop over
  both visits, in the same order.  The safe ones, with a body that keeps the invariant, end when the safe loop over both
  ends, in the same map; so a safe loop over the keys whose body removes the keys that pass a test ends, visits
  every key, and leaves exactly the entries whose keys fail it.
\<close>

theorem foreach_variants:
  assumes "hm_inv hb" and "hm_size hb < table_size hb"
  shows "managed_object_hashmap_foreach_key hb = map fst (managed_object_hashmap_foreach hb) \<and>
    managed_object_hashmap_foreach_data hb = map snd (managed_object_hashmap_foreach hb) \<and>
    (\<exists>ks hb'. managed_object_hashmap_foreach_key_safe (\<lambda>k. remove_if (\<lambda>k d. P k) k d0) hb = Some (Inr (ks, hb')) \<and> hm_inv hb' \<and>
      live (entries hb') = filter_mset (\<lambda>e. \<not> P (the (ekey e))) (live (entries hb)) \<and>
      set ks = (\<lambda>e. the (ekey e)) ` set_mset (live (entries hb))) \<and>
    (\<forall>body vs hb'. keeps (\<lambda>k. body) \<longrightarrow> managed_object_hashmap_foreach_safe (\<lambda>k. body) hb = Some (Inr (vs, hb')) \<longrightarrow>
      managed_object_hashmap_foreach_data_safe body hb = Some (Inr (map snd vs, hb')))"
proof (intro conjI allI impI)
  have room: "roomy hb" using assms by (simp add: roomy_def)
  show "managed_object_hashmap_foreach_key hb = map fst (managed_object_hashmap_foreach hb)"
    and "managed_object_hashmap_foreach_data hb = map snd (managed_object_hashmap_foreach hb)"
    using foreach_key_data [OF assms(1)] by blast+
  let ?B = "remove_if (\<lambda>k (d :: 'b). P k)"
  have B: "?B = (\<lambda>k d. ?B k d0)" by (simp add: remove_if_def fun_eq_iff)
  from foreach_safe_outcome [OF assms, of "\<lambda>k d. P k"] obtain vs hb' where
    r: "foreach_safe_from ?B hb (managed_object_hashmap_base_iter hb None) = Some (Inr (vs, hb'))"
    and out: "hm_inv hb'" "live (entries hb') = filter_mset (\<lambda>e. \<not> P (the (ekey e))) (live (entries hb))"
      "set vs = pair_of ` set_mset (live (entries hb))"
    by (auto simp: managed_object_hashmap_foreach_safe_def hit_def)
  from safe_to_parts [OF r remove_if_keeps room] B have
    "managed_object_hashmap_foreach_key_safe (\<lambda>k. ?B k d0) hb = Some (Inr (map fst vs, hb'))"
    by (simp add: managed_object_hashmap_foreach_key_safe_def)
  moreover have "set (map fst vs) = (\<lambda>e. the (ekey e)) ` set_mset (live (entries hb))"
    by (simp add: out(3) image_image pair_of_def)
  ultimately show "\<exists>ks hb'. managed_object_hashmap_foreach_key_safe (\<lambda>k. ?B k d0) hb = Some (Inr (ks, hb')) \<and> hm_inv hb' \<and>
      live (entries hb') = filter_mset (\<lambda>e. \<not> P (the (ekey e))) (live (entries hb)) \<and>
      set ks = (\<lambda>e. the (ekey e)) ` set_mset (live (entries hb))"
    using out(1,2) by blast
next
  fix body vs hb'
  assume "keeps (\<lambda>k. body)" "managed_object_hashmap_foreach_safe (\<lambda>k. body) hb = Some (Inr (vs, hb'))"
  with safe_to_parts [of "\<lambda>k. body" hb "managed_object_hashmap_base_iter hb None" "Inr (vs, hb')"] assms
  show "managed_object_hashmap_foreach_data_safe body hb = Some (Inr (map snd vs, hb'))"
    by (simp add: managed_object_hashmap_foreach_data_safe_def managed_object_hashmap_foreach_safe_def roomy_def)
qed

text \<open>On the sample: all keys are visited, and the safe loop that removes the key \<open>c\<close> leaves the other two entries.\<close>

theorem foreach_variants_witness:
  "managed_object_hashmap_foreach_key sample = map fst (managed_object_hashmap_foreach sample) \<and>
    (\<exists>ks hb'. managed_object_hashmap_foreach_key_safe (\<lambda>k. remove_if (\<lambda>k d. k = [99]) k 0) sample = Some (Inr (ks, hb')) \<and>
      set ks = {[99], [102], [97]} \<and> size (live (entries hb')) = 2)"
proof -
  have "hm_size sample < table_size sample" by simp
  note all = foreach_variants [OF sample_inv this, of "\<lambda>k. k = [99]" 0]
  then obtain ks hb' where
    ks: "managed_object_hashmap_foreach_key_safe (\<lambda>k. remove_if (\<lambda>k d. k = [99]) k 0) sample = Some (Inr (ks, hb'))"
    "live (entries hb') = filter_mset (\<lambda>e. the (ekey e) \<noteq> [99]) (live sample_table)"
    "set ks = (\<lambda>e. the (ekey e)) ` set_mset (live sample_table)" by auto
  have "set ks = {[99], [102], [97]}" unfolding ks(3) sample_live by auto
  moreover have "size (live (entries hb')) = 2" unfolding ks(2) sample_live by simp
  ultimately show ?thesis using all ks(1) by blast
qed

end
