(* ===== verification/ObjFormat.thy ===== *)
theory ObjFormat
  imports Prelude
begin

text \<open>
  The objects of the garbage-collected heap (\<open>include/managed_object_obj.h\<close>) and the format
  methods that describe them to the Memory Pool System (\<open>src/managed_object_obj.c\<close>): skip,
  isfwd, ispinned, fwd and pad, and the scanner.

  An object is its \<open>type\<close> and \<open>pinned\<close> words, which every member of the union shares, and the
  64-bit words after them, so that writing one member of the union and reading another means
  what it means in C.  The words of each member, in order, are
    scanned pointer: pointer, scanner, finalization callback;
    hash buckets: dependent, length, used, deleted, the buckets;
    string: length, the characters;
    fwd2: the new address;  fwd: the new address, the size;  pad: the size.
  The MPS is code outside the repository: its fix operations and the size of its location
  dependency structure are arguments.
\<close>

section \<open>Types and layout\<close>

datatype managed_obj_type_t =
    MANAGED_OBJECT_TYPE_EMPTY
  | MANAGED_OBJECT_TYPE_SCANNED_POINTER
  | MANAGED_OBJECT_TYPE_METADATA
  | MANAGED_OBJECT_TYPE_METADATA_FIELD_POINTER
  | MANAGED_OBJECT_TYPE_METADATA_METHOD_POINTER
  | MANAGED_OBJECT_TYPE_METADATA_HASH_TABLE
  | MANAGED_OBJECT_TYPE_METADATA_HASH_TABLE_BUCKET
  | MANAGED_OBJECT_TYPE_METADATA_STRING
  | MANAGED_OBJECT_TYPE_FWD2
  | MANAGED_OBJECT_TYPE_FWD
  | MANAGED_OBJECT_TYPE_PAD1
  | MANAGED_OBJECT_TYPE_PAD
  | Other_type int  \<comment> \<open>any \<open>int\<close> that is no enumerator\<close>

record managed_obj =
  otype :: managed_obj_type_t
  opinned :: bool
  owords :: "64 word list"

text \<open>Sizes on an LP64 target; \<open>ld\<close> is the size of \<open>mps_ld_s\<close>.\<close>

definition sizeof_empty :: size_t where "sizeof_empty = 8"
definition sizeof_scanned_pointer :: size_t where "sizeof_scanned_pointer = 32"
definition sizeof_fwd2 :: size_t where "sizeof_fwd2 = 16"
definition sizeof_fwd :: size_t where "sizeof_fwd = 24"
definition sizeof_pad1 :: size_t where "sizeof_pad1 = 8"
definition sizeof_buckets :: size_t where "sizeof_buckets = 48"
definition offsetof_bucket :: size_t where "offsetof_bucket = 40"
definition sizeof_hashtable :: "size_t \<Rightarrow> size_t" where "sizeof_hashtable ld = 56 + ld"
definition sizeof_string :: size_t where "sizeof_string = 24"
definition offsetof_string :: size_t where "offsetof_string = 16"

lemmas sizeof_defs = sizeof_empty_def sizeof_scanned_pointer_def sizeof_fwd2_def sizeof_fwd_def
  sizeof_pad1_def sizeof_buckets_def offsetof_bucket_def sizeof_hashtable_def sizeof_string_def
  offsetof_string_def

definition MANAGED_OBJECT_ALIGNMENT :: size_t where
  "MANAGED_OBJECT_ALIGNMENT = 8"

definition MANAGED_OBJECT_ALIGN_WORD :: "size_t \<Rightarrow> size_t" where
  "MANAGED_OBJECT_ALIGN_WORD s = (s + MANAGED_OBJECT_ALIGNMENT - 1) AND NOT (MANAGED_OBJECT_ALIGNMENT - 1)"

definition MANAGED_OBJECT_ALIGN_OBJ :: "size_t \<Rightarrow> size_t" where
  "MANAGED_OBJECT_ALIGN_OBJ s =
     (if MANAGED_OBJECT_ALIGN_WORD s \<ge> MANAGED_OBJECT_ALIGN_WORD sizeof_fwd
      then MANAGED_OBJECT_ALIGN_WORD s else MANAGED_OBJECT_ALIGN_WORD sizeof_fwd)"

definition MANAGED_OBJECT_METADATA_TAG_COUNT :: "size_t \<Rightarrow> size_t" where
  "MANAGED_OBJECT_METADATA_TAG_COUNT i = push_bit 1 i + 1"

definition MANAGED_OBJECT_METADATA_UNTAG_COUNT :: "size_t \<Rightarrow> size_t" where
  "MANAGED_OBJECT_METADATA_UNTAG_COUNT i = drop_bit 1 i"

text \<open>Reading and writing the \<open>n\<close>-th word after the header; outside the object it is undefined.\<close>

definition word_at :: "managed_obj \<Rightarrow> nat \<Rightarrow> fault + 64 word" where
  "word_at obj n = (if n < length (owords obj) then Inr (owords obj ! n) else Inl Undefined_behaviour)"

definition set_word :: "managed_obj \<Rightarrow> nat \<Rightarrow> 64 word \<Rightarrow> fault + managed_obj" where
  "set_word obj n w =
     (if n < length (owords obj) then Inr (obj\<lparr>owords := (owords obj)[n := w]\<rparr>)
      else Inl Undefined_behaviour)"

definition managed_obj_assert :: "managed_obj option \<Rightarrow> managed_obj_type_t \<Rightarrow> fault + managed_obj" where
  "managed_obj_assert obj type =
     (case obj of
        None \<Rightarrow> Inl Assert_failed
      | Some ob \<Rightarrow> if otype ob = type then Inr ob else Inl Assert_failed)"

section \<open>The format methods\<close>

definition managed_obj_skip :: "size_t \<Rightarrow> addr \<Rightarrow> managed_obj \<Rightarrow> fault + addr" where
  "managed_obj_skip ld base obj =
     (case otype obj of
        MANAGED_OBJECT_TYPE_EMPTY \<Rightarrow> Inr (base + MANAGED_OBJECT_ALIGN_OBJ sizeof_empty)
      | MANAGED_OBJECT_TYPE_SCANNED_POINTER \<Rightarrow> Inr (base + MANAGED_OBJECT_ALIGN_OBJ sizeof_scanned_pointer)
      | MANAGED_OBJECT_TYPE_METADATA_HASH_TABLE_BUCKET \<Rightarrow>
          andthen (word_at obj 1) (\<lambda>len.
            Inr (base + MANAGED_OBJECT_ALIGN_OBJ
                   (offsetof_bucket + MANAGED_OBJECT_METADATA_UNTAG_COUNT len * 8)))
      | MANAGED_OBJECT_TYPE_METADATA_HASH_TABLE \<Rightarrow>
          Inr (base + MANAGED_OBJECT_ALIGN_OBJ (sizeof_hashtable ld))
      | MANAGED_OBJECT_TYPE_METADATA_STRING \<Rightarrow>
          andthen (word_at obj 0) (\<lambda>len. Inr (base + MANAGED_OBJECT_ALIGN_OBJ (offsetof_string + len + 1)))
      | MANAGED_OBJECT_TYPE_FWD2 \<Rightarrow> Inr (base + MANAGED_OBJECT_ALIGN_WORD sizeof_fwd2)
      | MANAGED_OBJECT_TYPE_FWD \<Rightarrow>
          andthen (word_at obj 1) (\<lambda>sz. Inr (base + MANAGED_OBJECT_ALIGN_WORD sz))
      | MANAGED_OBJECT_TYPE_PAD \<Rightarrow>
          andthen (word_at obj 0) (\<lambda>sz. Inr (base + MANAGED_OBJECT_ALIGN_WORD sz))
      | MANAGED_OBJECT_TYPE_PAD1 \<Rightarrow> Inr (base + MANAGED_OBJECT_ALIGN_WORD sizeof_pad1)
      | _ \<Rightarrow> Inl Fatal_error)"

definition managed_obj_isfwd :: "managed_obj \<Rightarrow> fault + addr" where
  "managed_obj_isfwd obj =
     (case otype obj of
        MANAGED_OBJECT_TYPE_FWD2 \<Rightarrow> word_at obj 0
      | MANAGED_OBJECT_TYPE_FWD \<Rightarrow> word_at obj 0
      | _ \<Rightarrow> Inr 0)"

definition managed_obj_ispinned :: "managed_obj \<Rightarrow> bool" where
  "managed_obj_ispinned obj = opinned obj"

definition managed_obj_fwd :: "size_t \<Rightarrow> addr \<Rightarrow> managed_obj \<Rightarrow> addr \<Rightarrow> fault + managed_obj" where
  "managed_obj_fwd ld old obj new =
     andthen (managed_obj_skip ld old obj) (\<lambda>limit.
       let sz = limit - old
       in if \<not> sz \<ge> MANAGED_OBJECT_ALIGN_WORD sizeof_fwd2 then Inl Assert_failed
          else if sz = MANAGED_OBJECT_ALIGN_WORD sizeof_fwd2
          then set_word (obj\<lparr>otype := MANAGED_OBJECT_TYPE_FWD2\<rparr>) 0 new
          else andthen (set_word (obj\<lparr>otype := MANAGED_OBJECT_TYPE_FWD\<rparr>) 0 new) (\<lambda>obj1.
                 set_word obj1 1 sz))"

definition managed_obj_pad :: "managed_obj \<Rightarrow> size_t \<Rightarrow> fault + managed_obj" where
  "managed_obj_pad obj sz =
     (if \<not> sz \<ge> MANAGED_OBJECT_ALIGN_WORD sizeof_pad1 then Inl Assert_failed
      else if sz = MANAGED_OBJECT_ALIGN_WORD sizeof_pad1
      then Inr (obj\<lparr>otype := MANAGED_OBJECT_TYPE_PAD1\<rparr>)
      else set_word (obj\<lparr>otype := MANAGED_OBJECT_TYPE_PAD\<rparr>) 0 sz)"

section \<open>Alignment\<close>

lemma unat_and_not_7: "unat ((x :: 64 word) AND NOT 7) = unat x div 8 * 8"
proof -
  have "(7 :: 64 word) = mask 3" by (simp add: mask_eq_exp_minus_1)
  moreover have "x AND NOT (mask 3) = push_bit 3 (drop_bit 3 x)"
    by (rule bit_word_eqI) (auto simp: bit_simps)
  ultimately have "x AND NOT 7 = push_bit 3 (drop_bit 3 x)" by (simp only:)
  moreover have "unat (push_bit 3 (drop_bit 3 x)) = unat x div 8 * 8 mod 2 ^ 64"
    by (simp add: push_bit_eq_mult drop_bit_eq_div unat_word_ariths unat_div mult.commute mod_mult_right_eq)
  moreover have "unat x div 8 * 8 < 2 ^ 64"
    using unat_less_64 [of x] by (rule order_le_less_trans [OF div_times_less_eq_dividend])
  ultimately show ?thesis by simp
qed

lemma align_word_eq: "MANAGED_OBJECT_ALIGN_WORD s = (s + 7) AND NOT 7"
  by (simp add: MANAGED_OBJECT_ALIGN_WORD_def MANAGED_OBJECT_ALIGNMENT_def add.commute)

lemma align_word_unat:
  "unat s + 7 < 2 ^ 64 \<Longrightarrow> unat (MANAGED_OBJECT_ALIGN_WORD s) = (unat s + 7) div 8 * 8"
  by (simp only: align_word_eq unat_and_not_7) (simp add: unat_word_ariths)

lemma align_word_mod: "unat (MANAGED_OBJECT_ALIGN_WORD s) mod 8 = 0"
  by (simp only: align_word_eq unat_and_not_7) simp

lemma align_word_id: "unat s mod 8 = 0 \<Longrightarrow> MANAGED_OBJECT_ALIGN_WORD s = s"
proof -
  assume s: "unat s mod 8 = 0"
  have "unat s < 2 ^ 64" by (rule unat_less_64)
  with s have "unat s + 7 < 2 ^ 64" by simp presburger
  from align_word_unat [OF this] s have "unat (MANAGED_OBJECT_ALIGN_WORD s) = unat s" by presburger
  then show ?thesis by (simp only: word_unat_eq_iff)
qed

lemma align_consts [simp]:
  "MANAGED_OBJECT_ALIGN_WORD sizeof_fwd = 24" "MANAGED_OBJECT_ALIGN_WORD sizeof_fwd2 = 16"
  "MANAGED_OBJECT_ALIGN_WORD sizeof_pad1 = 8"
  by (simp_all add: align_word_id sizeof_defs)

lemma align_obj_ge: "24 \<le> unat (MANAGED_OBJECT_ALIGN_OBJ s)"
  by (auto simp: MANAGED_OBJECT_ALIGN_OBJ_def word_le_nat_alt)

lemma align_obj_mod: "unat (MANAGED_OBJECT_ALIGN_OBJ s) mod 8 = 0"
  by (simp add: MANAGED_OBJECT_ALIGN_OBJ_def align_word_mod)

text \<open>
  Allocation sizes.  The size that the allocation macro gives an object of \<open>s\<close> bytes is
  a multiple of the alignment, holds the object and a forwarding record of 24 bytes, and
  wastes less than a word over the larger of the two, as long as \<open>s\<close> is not within a word
  of \<open>SIZE_MAX\<close>.
\<close>

lemma align_obj_spec:
  assumes "unat s + 7 < 2 ^ 64"
  shows "unat (MANAGED_OBJECT_ALIGN_OBJ s) mod 8 = 0 \<and> unat s \<le> unat (MANAGED_OBJECT_ALIGN_OBJ s) \<and>
    24 \<le> unat (MANAGED_OBJECT_ALIGN_OBJ s) \<and> unat (MANAGED_OBJECT_ALIGN_OBJ s) < max 24 (unat s) + 8"
  using align_word_unat [OF assms]
  by (auto simp: MANAGED_OBJECT_ALIGN_OBJ_def word_le_nat_alt max_def)

lemma align_obj_spec_witness:
  "unat (MANAGED_OBJECT_ALIGN_OBJ 33) mod 8 = 0 \<and> 33 \<le> unat (MANAGED_OBJECT_ALIGN_OBJ 33) \<and>
   unat (MANAGED_OBJECT_ALIGN_OBJ 33) < 41"
  using align_obj_spec [of 33] by simp

section \<open>Forwarding and padding\<close>

text \<open>An object that fills its memory: its words and its header are as long as skip says.\<close>

definition obj_size :: "size_t \<Rightarrow> managed_obj \<Rightarrow> fault + size_t" where
  "obj_size ld obj = managed_obj_skip ld 0 obj"

definition wf_obj :: "size_t \<Rightarrow> managed_obj \<Rightarrow> bool" where
  "wf_obj ld obj \<longleftrightarrow> (\<exists>sz. obj_size ld obj = Inr sz \<and> unat sz = 8 + 8 * length (owords obj))"

lemma andthen_add: "andthen m (\<lambda>x. Inr (base + f x)) = andthen (andthen m (\<lambda>x. Inr (f x))) (\<lambda>y. Inr (base + y))"
  by (cases m) simp_all

lemma skip_size: "managed_obj_skip ld base obj = andthen (obj_size ld obj) (\<lambda>sz. Inr (base + sz))"
  by (cases "otype obj")
    (simp_all add: obj_size_def managed_obj_skip_def andthen_def split: sum.split)

lemma skip_fwd:
  assumes "otype obj = MANAGED_OBJECT_TYPE_FWD" and "word_at obj 1 = Inr sz" and "unat sz mod 8 = 0"
  shows "obj_size ld obj = Inr sz"
  using assms by (simp add: obj_size_def managed_obj_skip_def align_word_id)

text \<open>
  C28: Forwarding.  Forwarding an object of at least two words that fills its memory to a
  non-null address succeeds; afterwards \<open>isfwd\<close> gives the new address, and the broken heart
  has the size and the pinned flag of the object, so the heap can still be walked.
\<close>

theorem fwd_correct:
  assumes "wf_obj ld obj" and "1 \<le> length (owords obj)"
  shows "\<exists>obj'. managed_obj_fwd ld old obj new = Inr obj' \<and> managed_obj_isfwd obj' = Inr new \<and>
    managed_obj_skip ld old obj' = managed_obj_skip ld old obj \<and>
    managed_obj_ispinned obj' = managed_obj_ispinned obj \<and> wf_obj ld obj'"
proof -
  obtain sz where sz: "obj_size ld obj = Inr sz" "unat sz = 8 + 8 * length (owords obj)"
    using assms(1) by (auto simp: wf_obj_def)
  have skip: "managed_obj_skip ld old obj = Inr (old + sz)" using sz(1) by (simp add: skip_size)
  have mod: "unat sz mod 8 = 0" using sz(2) by presburger
  have ge: "16 \<le> sz" using sz(2) assms(2) by (simp add: word_le_nat_alt)
  have some: "owords obj \<noteq> []" using assms(2) by auto
  show ?thesis
  proof (cases "sz = 16")
    case True
    let ?obj = "obj\<lparr>otype := MANAGED_OBJECT_TYPE_FWD2, owords := (owords obj)[0 := new]\<rparr>"
    have "managed_obj_fwd ld old obj new = Inr ?obj"
      using skip True some by (simp add: managed_obj_fwd_def set_word_def)
    moreover have "obj_size ld ?obj = Inr 16" by (simp add: obj_size_def managed_obj_skip_def)
    ultimately show ?thesis
      using True sz skip some
      by (simp add: managed_obj_isfwd_def word_at_def managed_obj_ispinned_def wf_obj_def skip_size)
  next
    case False
    have "length (owords obj) \<noteq> 1"
    proof
      assume "length (owords obj) = 1"
      then have "unat sz = unat (16 :: size_t)" using sz(2) by simp
      with False show False by (simp only: word_unat_eq_iff)
    qed
    with assms(2) have two: "1 < length (owords obj)" by simp
    let ?obj = "obj\<lparr>otype := MANAGED_OBJECT_TYPE_FWD, owords := (owords obj)[0 := new, 1 := sz]\<rparr>"
    have "managed_obj_fwd ld old obj new = Inr ?obj"
      using skip False ge two some by (simp add: managed_obj_fwd_def set_word_def not_le [symmetric])
    moreover have "obj_size ld ?obj = Inr sz"
      using two mod by (intro skip_fwd) (simp_all add: word_at_def)
    ultimately show ?thesis
      using sz skip two some
      by (simp add: managed_obj_isfwd_def word_at_def managed_obj_ispinned_def wf_obj_def skip_size)
  qed
qed

definition sample_obj :: managed_obj where
  "sample_obj = \<lparr>otype = MANAGED_OBJECT_TYPE_SCANNED_POINTER, opinned = True, owords = [4096, 1, 2]\<rparr>"

lemma sample_obj_wf: "wf_obj 16 sample_obj"
  by (simp add: wf_obj_def obj_size_def managed_obj_skip_def sample_obj_def MANAGED_OBJECT_ALIGN_OBJ_def
      align_word_id sizeof_scanned_pointer_def)

theorem fwd_correct_witness:
  "\<exists>obj'. managed_obj_fwd 16 64 sample_obj 128 = Inr obj' \<and> managed_obj_isfwd obj' = Inr 128 \<and>
     managed_obj_ispinned obj'"
proof -
  have "1 \<le> length (owords sample_obj)" by (simp add: sample_obj_def)
  from fwd_correct [OF sample_obj_wf this, of 64 128] show ?thesis
    by (auto simp: managed_obj_ispinned_def sample_obj_def)
qed

text \<open>
  No two-word hearts.  Every object that the library allocates (an empty object, a scanned
  pointer, a hash table, its buckets or a string) takes at least 24 bytes, so forwarding it
  always writes the three-word record; the two-word record is never produced for them.
\<close>

theorem fwd_never_two_words:
  assumes "otype obj \<in> {MANAGED_OBJECT_TYPE_EMPTY, MANAGED_OBJECT_TYPE_SCANNED_POINTER,
      MANAGED_OBJECT_TYPE_METADATA_HASH_TABLE, MANAGED_OBJECT_TYPE_METADATA_HASH_TABLE_BUCKET,
      MANAGED_OBJECT_TYPE_METADATA_STRING}"
    and "managed_obj_fwd ld old obj new = Inr obj'"
  shows "otype obj' = MANAGED_OBJECT_TYPE_FWD"
proof -
  have size: "\<exists>s. obj_size ld obj = Inr (MANAGED_OBJECT_ALIGN_OBJ s)" if "obj_size ld obj = Inr sz" for sz
    using assms(1) that by (auto simp: obj_size_def managed_obj_skip_def ebind)
  from assms(2) obtain sz where sz: "obj_size ld obj = Inr sz"
    by (auto simp: managed_obj_fwd_def skip_size ebind)
  with size obtain s where "sz = MANAGED_OBJECT_ALIGN_OBJ s" by auto
  then have "unat sz \<noteq> unat (16 :: size_t)" using align_obj_ge [of s] by simp
  then have "sz \<noteq> 16" by auto
  with assms(2) sz show ?thesis
    by (auto simp: managed_obj_fwd_def skip_size ebind set_word_def split: if_splits)
qed

theorem fwd_never_two_words_witness:
  "\<exists>obj'. managed_obj_fwd 16 64 sample_obj 128 = Inr obj' \<and> otype obj' = MANAGED_OBJECT_TYPE_FWD"
proof -
  have t: "otype sample_obj \<in> {MANAGED_OBJECT_TYPE_EMPTY, MANAGED_OBJECT_TYPE_SCANNED_POINTER,
      MANAGED_OBJECT_TYPE_METADATA_HASH_TABLE, MANAGED_OBJECT_TYPE_METADATA_HASH_TABLE_BUCKET,
      MANAGED_OBJECT_TYPE_METADATA_STRING}" by (simp add: sample_obj_def)
  obtain obj' where "managed_obj_fwd 16 64 sample_obj 128 = Inr obj'"
    by (simp add: managed_obj_fwd_def managed_obj_skip_def sample_obj_def MANAGED_OBJECT_ALIGN_OBJ_def
        align_word_id sizeof_scanned_pointer_def set_word_def)
  with fwd_never_two_words [OF t this] show ?thesis by blast
qed

text \<open>
  Padding.  Filling a block of memory of any multiple of eight bytes with a padding
  object succeeds, and the object is skipped in one step of exactly that size and is not
  taken for a broken heart.
\<close>

theorem pad_correct:
  assumes "unat sz = 8 + 8 * length (owords obj)"
  shows "\<exists>obj'. managed_obj_pad obj sz = Inr obj' \<and> managed_obj_skip ld base obj' = Inr (base + sz) \<and>
    managed_obj_isfwd obj' = Inr 0 \<and> wf_obj ld obj'"
proof -
  have mod: "unat sz mod 8 = 0" using assms by presburger
  have ge: "8 \<le> sz" using assms by (simp add: word_le_nat_alt)
  show ?thesis
  proof (cases "sz = 8")
    case True
    with assms show ?thesis
      by (simp add: managed_obj_pad_def managed_obj_skip_def managed_obj_isfwd_def wf_obj_def obj_size_def)
  next
    case False
    have "owords obj \<noteq> []"
    proof
      assume "owords obj = []"
      then have "unat sz = unat (8 :: size_t)" using assms by simp
      with False show False by (simp only: word_unat_eq_iff)
    qed
    with assms False ge mod show ?thesis
      by (simp add: managed_obj_pad_def managed_obj_skip_def managed_obj_isfwd_def wf_obj_def obj_size_def
          set_word_def word_at_def align_word_id not_le [symmetric])
  qed
qed

theorem pad_correct_witness:
  "\<exists>obj'. managed_obj_pad sample_obj 32 = Inr obj' \<and> managed_obj_skip 16 4096 obj' = Inr 4128"
proof -
  have "unat (32 :: size_t) = 8 + 8 * length (owords sample_obj)" by (simp add: sample_obj_def)
  from pad_correct [OF this, of 16 4096] show ?thesis by auto
qed

end
