(* ===== verification/ObjScan.thy ===== *)
theory ObjScan
  imports ObjFormat
begin

text \<open>
  The scanner of the object format (\<open>managed_obj_scan\<close> in \<open>src/managed_object_obj.c\<close>, with the
  cases for hash tables in \<open>include/managed_object_obj_metadata.h\<close>): it walks a range of
  objects, hands every reference to the MPS and stores back what the MPS makes of it; a
  weak reference that the MPS clears takes its partner in the dependent object with it.
\<close>

section \<open>The fix operations of the MPS\<close>

text \<open>
  \<open>MPS_FIX1\<close> says whether a word may be a reference of interest, \<open>MPS_FIX2\<close> gives a result
  code (0 is \<open>MPS_RES_OK\<close>) and the new value of the reference, and \<open>call_scanner\<close> is the
  client's scanner of a scanned pointer.  All may change the scan state.
\<close>

record 's mps_fix =
  fix1 :: "'s \<Rightarrow> addr \<Rightarrow> bool \<times> 's"
  fix2 :: "'s \<Rightarrow> addr \<Rightarrow> int \<times> 's \<times> addr"
  call_scanner :: "addr \<Rightarrow> 's \<Rightarrow> addr \<Rightarrow> int \<times> 's"

type_synonym heap = "addr \<Rightarrow> managed_obj option"

definition MPS_FIX12 :: "'s mps_fix \<Rightarrow> 's \<Rightarrow> addr \<Rightarrow> int \<times> 's \<times> addr" where
  "MPS_FIX12 fx s p = (case fix1 fx s p of (b, s1) \<Rightarrow> if b then fix2 fx s1 p else (0, s1, p))"

definition obj_at :: "heap \<Rightarrow> addr \<Rightarrow> fault + managed_obj" where
  "obj_at h a = (case h a of None \<Rightarrow> Inl Undefined_behaviour | Some obj \<Rightarrow> Inr obj)"

definition field_at :: "heap \<Rightarrow> addr \<Rightarrow> nat \<Rightarrow> fault + 64 word" where
  "field_at h a n = andthen (obj_at h a) (\<lambda>obj. word_at obj n)"

definition set_field :: "heap \<Rightarrow> addr \<Rightarrow> nat \<Rightarrow> 64 word \<Rightarrow> fault + heap" where
  "set_field h a n w = andthen (obj_at h a) (\<lambda>obj. andthen (set_word obj n w) (\<lambda>obj'. Inr (h(a \<mapsto> obj'))))"

text \<open>\<open>MANAGED_OBJECT_FIX\<close> on the \<open>n\<close>-th field of the object at \<open>a\<close>.\<close>

definition MANAGED_OBJECT_FIX :: "'s mps_fix \<Rightarrow> 's \<Rightarrow> heap \<Rightarrow> addr \<Rightarrow> nat \<Rightarrow> fault + int \<times> 's \<times> heap" where
  "MANAGED_OBJECT_FIX fx s h a n =
     andthen (field_at h a n) (\<lambda>p.
       case MPS_FIX12 fx s p of (res, s1, p') \<Rightarrow>
         if res \<noteq> 0 then Inr (res, s1, h)
         else andthen (set_field h a n p') (\<lambda>h1. Inr (0, s1, h1)))"

section \<open>Scanning hash buckets\<close>

definition bump_deleted :: "heap \<Rightarrow> addr \<Rightarrow> fault + heap" where
  "bump_deleted h a =
     andthen (field_at h a 3) (\<lambda>d.
       set_field h a 3 (MANAGED_OBJECT_METADATA_TAG_COUNT (MANAGED_OBJECT_METADATA_UNTAG_COUNT d + 1)))"

text \<open>The reference in bucket \<open>i\<close> was cleared: count it, and clear and count its partner.\<close>

definition splat :: "heap \<Rightarrow> addr \<Rightarrow> nat \<Rightarrow> addr \<Rightarrow> fault + heap" where
  "splat h a i del =
     andthen (bump_deleted h a) (\<lambda>h1.
     andthen (field_at h1 a 0) (\<lambda>dependent.
       if dependent \<noteq> 0
       then andthen (set_field h1 dependent (4 + i) del) (\<lambda>h2. bump_deleted h2 dependent)
       else Inr h1))"

fun scan_buckets_loop ::
  "'s mps_fix \<Rightarrow> addr \<Rightarrow> addr \<Rightarrow> nat \<Rightarrow> nat \<Rightarrow> 's \<Rightarrow> heap \<Rightarrow> fault + int \<times> 's \<times> heap"
where
  "scan_buckets_loop fx del a 0 i s h = Inr (0, s, h)"
| "scan_buckets_loop fx del a (Suc n) i s h =
     andthen (field_at h a (4 + i)) (\<lambda>p.
       case fix1 fx s p of (interesting, s1) \<Rightarrow>
         if \<not> interesting then scan_buckets_loop fx del a n (Suc i) s1 h
         else case fix2 fx s1 p of (res, s2, p1) \<Rightarrow>
           if res \<noteq> 0 then Inr (res, s2, h)
           else andthen (if p1 = 0 then splat h a i del else Inr h) (\<lambda>h1.
                let p2 = (if p1 = 0 then del else p1)
                in andthen (field_at h1 a (4 + i)) (\<lambda>cur.
                   andthen (if cur \<noteq> p2 then set_field h1 a (4 + i) p2 else Inr h1) (\<lambda>h2.
                     scan_buckets_loop fx del a n (Suc i) s2 h2))))"

text \<open>The dependent object, if there is one, is fixed first and has as many buckets.\<close>

definition fix_dependent :: "'s mps_fix \<Rightarrow> addr \<Rightarrow> 's \<Rightarrow> heap \<Rightarrow> fault + int \<times> 's \<times> heap" where
  "fix_dependent fx a s h =
     andthen (field_at h a 0) (\<lambda>dependent.
       if dependent = 0 then Inr (0, s, h)
       else andthen (MANAGED_OBJECT_FIX fx s h a 0) (\<lambda>(res, s1, h1).
            if res \<noteq> 0 then Inr (res, s1, h1)
            else andthen (field_at h1 a 0) (\<lambda>dependent1.
                 andthen (field_at h1 dependent1 1) (\<lambda>dlen.
                 andthen (field_at h1 a 1) (\<lambda>len1.
                   if dlen = len1 then Inr (0, s1, h1) else Inl Assert_failed)))))"

definition scan_buckets :: "'s mps_fix \<Rightarrow> addr \<Rightarrow> addr \<Rightarrow> 's \<Rightarrow> heap \<Rightarrow> fault + int \<times> 's \<times> heap" where
  "scan_buckets fx del a s h =
     andthen (field_at h a 1) (\<lambda>len.
     andthen (fix_dependent fx a s h) (\<lambda>(res, s1, h1).
       if res \<noteq> 0 then Inr (res, s1, h1)
       else scan_buckets_loop fx del a (unat (MANAGED_OBJECT_METADATA_UNTAG_COUNT len)) 0 s1 h1))"

section \<open>Scanning one object\<close>

text \<open>The fields \<open>keys\<close> and \<open>values\<close> of a hash table come after the location dependency.\<close>

definition keys_field :: "size_t \<Rightarrow> nat" where "keys_field ld = 4 + unat ld div 8"
definition values_field :: "size_t \<Rightarrow> nat" where "values_field ld = 5 + unat ld div 8"

text \<open>
  One turn of the loop in \<open>managed_obj_scan\<close>: the result code, the scan state, the heap and
  the next base.
\<close>

definition scan_object ::
  "'s mps_fix \<Rightarrow> addr \<Rightarrow> size_t \<Rightarrow> addr \<Rightarrow> 's \<Rightarrow> heap \<Rightarrow> fault + int \<times> 's \<times> heap \<times> addr"
where
  "scan_object fx del ld base s h =
     andthen (obj_at h base) (\<lambda>obj.
     case otype obj of
       MANAGED_OBJECT_TYPE_EMPTY \<Rightarrow> Inr (0, s, h, base + MANAGED_OBJECT_ALIGN_OBJ sizeof_empty)
     | MANAGED_OBJECT_TYPE_SCANNED_POINTER \<Rightarrow>
         andthen (word_at obj 1) (\<lambda>scanner.
         andthen (word_at obj 0) (\<lambda>pointer.
           case call_scanner fx scanner s pointer of (res, s1) \<Rightarrow>
             Inr (res, s1, h, if res \<noteq> 0 then base
                              else base + MANAGED_OBJECT_ALIGN_OBJ sizeof_scanned_pointer)))
     | MANAGED_OBJECT_TYPE_METADATA_HASH_TABLE_BUCKET \<Rightarrow>
         andthen (word_at obj 1) (\<lambda>len.
         andthen (scan_buckets fx del base s h) (\<lambda>(res, s1, h1).
           Inr (res, s1, h1, if res \<noteq> 0 then base
              else base + MANAGED_OBJECT_ALIGN_OBJ
                     (offsetof_bucket + MANAGED_OBJECT_METADATA_UNTAG_COUNT len * 8))))
     | MANAGED_OBJECT_TYPE_METADATA_HASH_TABLE \<Rightarrow>
         andthen (MANAGED_OBJECT_FIX fx s h base (keys_field ld)) (\<lambda>(res, s1, h1).
           if res \<noteq> 0 then Inr (res, s1, h1, base)
           else andthen (MANAGED_OBJECT_FIX fx s1 h1 base (values_field ld)) (\<lambda>(res, s2, h2).
             if res \<noteq> 0 then Inr (res, s2, h2, base)
             else Inr (0, s2, h2, base + MANAGED_OBJECT_ALIGN_OBJ (sizeof_hashtable ld))))
     | MANAGED_OBJECT_TYPE_METADATA_STRING \<Rightarrow>
         andthen (word_at obj 0) (\<lambda>len.
           Inr (0, s, h, base + MANAGED_OBJECT_ALIGN_OBJ (offsetof_string + len + 1)))
     | MANAGED_OBJECT_TYPE_FWD2 \<Rightarrow> Inr (0, s, h, base + MANAGED_OBJECT_ALIGN_WORD sizeof_fwd2)
     | MANAGED_OBJECT_TYPE_FWD \<Rightarrow>
         andthen (word_at obj 1) (\<lambda>sz. Inr (0, s, h, base + MANAGED_OBJECT_ALIGN_WORD sz))
     | MANAGED_OBJECT_TYPE_PAD1 \<Rightarrow> Inr (0, s, h, base + MANAGED_OBJECT_ALIGN_WORD sizeof_pad1)
     | MANAGED_OBJECT_TYPE_PAD \<Rightarrow>
         andthen (word_at obj 0) (\<lambda>sz. Inr (0, s, h, base + MANAGED_OBJECT_ALIGN_WORD sz))
     | _ \<Rightarrow> Inl Fatal_error)"

text \<open>The whole scanner; a range it never gets to the end of has no result.\<close>

partial_function (option) managed_obj_scan ::
  "'s mps_fix \<Rightarrow> addr \<Rightarrow> size_t \<Rightarrow> addr \<Rightarrow> addr \<Rightarrow> 's \<Rightarrow> heap \<Rightarrow> (fault + int \<times> 's \<times> heap) option"
where
  "managed_obj_scan fx del ld base limit s h =
     (if base < limit
      then (case scan_object fx del ld base s h of
              Inl f \<Rightarrow> Some (Inl f)
            | Inr (res, s1, h1, next) \<Rightarrow>
                if res \<noteq> 0 then Some (Inr (res, s1, h1))
                else managed_obj_scan fx del ld next limit s1 h1)
      else Some (Inr (0, s, h)))"

section \<open>Scanning keeps the layout of the heap\<close>

definition same_layout :: "size_t \<Rightarrow> heap \<Rightarrow> heap \<Rightarrow> bool" where
  "same_layout ld h h' \<longleftrightarrow>
     (\<forall>a. map_option otype (h' a) = map_option otype (h a) \<and>
          map_option (\<lambda>obj. length (owords obj)) (h' a) = map_option (\<lambda>obj. length (owords obj)) (h a) \<and>
          map_option (obj_size ld) (h' a) = map_option (obj_size ld) (h a))"

lemma same_layout_refl [simp]: "same_layout ld h h"
  by (simp add: same_layout_def)

lemma same_layout_trans: "same_layout ld h h1 \<Longrightarrow> same_layout ld h1 h2 \<Longrightarrow> same_layout ld h h2"
  by (simp add: same_layout_def)

text \<open>Words from the third on do not matter for the size, nor does the first of a bucket object.\<close>

lemma obj_size_word:
  assumes "2 \<le> n \<or> otype obj = MANAGED_OBJECT_TYPE_METADATA_HASH_TABLE_BUCKET \<and> n = 0 \<or>
    otype obj = MANAGED_OBJECT_TYPE_METADATA_HASH_TABLE"
  shows "obj_size ld (obj\<lparr>owords := (owords obj)[n := w]\<rparr>) = obj_size ld obj"
  using assms
  by (cases "otype obj") (auto simp: obj_size_def managed_obj_skip_def word_at_def)

lemma set_field_layout:
  assumes "set_field h a n w = Inr h'"
    and "\<And>obj. h a = Some obj \<Longrightarrow> 2 \<le> n \<or>
      otype obj = MANAGED_OBJECT_TYPE_METADATA_HASH_TABLE_BUCKET \<and> n = 0 \<or>
      otype obj = MANAGED_OBJECT_TYPE_METADATA_HASH_TABLE"
  shows "same_layout ld h h'"
proof -
  obtain obj where obj: "h a = Some obj" "n < length (owords obj)"
    "h' = h(a \<mapsto> obj\<lparr>owords := (owords obj)[n := w]\<rparr>)"
    using assms(1) by (auto simp: set_field_def obj_at_def set_word_def ebind split: option.splits if_splits)
  with obj_size_word [OF assms(2) [OF obj(1)], of ld w] show ?thesis
    by (auto simp: same_layout_def)
qed

lemma set_field_layout2: "set_field h a n w = Inr h' \<Longrightarrow> 2 \<le> n \<Longrightarrow> same_layout ld h h'"
  by (erule set_field_layout) blast

lemma bump_deleted_layout: "bump_deleted h a = Inr h' \<Longrightarrow> same_layout ld h h'"
  by (auto simp: bump_deleted_def ebind intro: set_field_layout2)

lemma splat_layout:
  assumes "splat h a i del = Inr h'"
  shows "same_layout ld h h'"
proof -
  from assms obtain h1 d where h1: "bump_deleted h a = Inr h1"
    and rest: "(if d \<noteq> 0 then andthen (set_field h1 d (4 + i) del) (\<lambda>h2. bump_deleted h2 d) else Inr h1) = Inr h'"
    by (auto simp: splat_def ebind)
  have "same_layout ld h1 h'"
  proof (cases "d = 0")
    case False
    with rest obtain h2 where "set_field h1 d (4 + i) del = Inr h2" "bump_deleted h2 d = Inr h'"
      by (auto simp: ebind)
    then have "same_layout ld h1 h2" and "same_layout ld h2 h'"
      by (auto intro: set_field_layout2 bump_deleted_layout)
    then show ?thesis by (rule same_layout_trans)
  qed (use rest in simp)
  with bump_deleted_layout [OF h1] show ?thesis by (rule same_layout_trans)
qed

lemma scan_buckets_loop_layout:
  "scan_buckets_loop fx del a n i s h = Inr (res, s', h') \<Longrightarrow> same_layout ld h h'"
proof (induction fx del a n i s h arbitrary: s' h' rule: scan_buckets_loop.induct)
  case (2 fx del a n i s h)
  from 2(3) obtain p where p: "field_at h a (4 + i) = Inr p" by (auto simp: ebind)
  obtain b s1 where f1: "fix1 fx s p = (b, s1)" by (metis surj_pair)
  show ?case
  proof (cases b)
    case False
    with 2(3) p f1 have "scan_buckets_loop fx del a n (Suc i) s1 h = Inr (res, s', h')" by simp
    with 2(1) [OF p f1 [symmetric]] False show ?thesis by simp
  next
    case True
    obtain r s2 p1 where f2: "fix2 fx s1 p = (r, s2, p1)" by (metis prod_cases3)
    show ?thesis
    proof (cases "r = 0")
      case False
      with 2(3) p f1 f2 True show ?thesis by simp
    next
      case r: True
      let ?p2 = "if p1 = 0 then del else p1"
      from 2(3) p f1 f2 True r obtain h1 cur h2 where
        h1: "(if p1 = 0 then splat h a i del else Inr h) = Inr h1"
        and cur: "field_at h1 a (4 + i) = Inr cur"
        and h2: "(if cur \<noteq> ?p2 then set_field h1 a (4 + i) ?p2 else Inr h1) = Inr h2"
        and rec: "scan_buckets_loop fx del a n (Suc i) s2 h2 = Inr (res, s', h')"
        by (auto simp: ebind Let_def)
      have "same_layout ld h h1" using h1 by (auto split: if_splits intro: splat_layout)
      moreover have "same_layout ld h1 h2" using h2 by (auto split: if_splits intro: set_field_layout2)
      moreover have "same_layout ld h2 h'"
        using 2(2) [OF p f1 [symmetric] _ f2 [symmetric] refl _ h1 refl cur h2 rec] True r by simp
      ultimately show ?thesis by (blast intro: same_layout_trans)
    qed
  qed
qed simp

lemma fix_layout:
  assumes "MANAGED_OBJECT_FIX fx s h a n = Inr (res, s', h')"
    and "\<And>obj. h a = Some obj \<Longrightarrow> 2 \<le> n \<or>
      otype obj = MANAGED_OBJECT_TYPE_METADATA_HASH_TABLE_BUCKET \<and> n = 0 \<or>
      otype obj = MANAGED_OBJECT_TYPE_METADATA_HASH_TABLE"
  shows "same_layout ld h h'"
proof -
  from assms(1) obtain p where p: "field_at h a n = Inr p"
    by (auto simp: MANAGED_OBJECT_FIX_def ebind)
  obtain r s1 p' where f: "MPS_FIX12 fx s p = (r, s1, p')" by (metis prod_cases3)
  show ?thesis
  proof (cases "r = 0")
    case True
    with assms(1) p f have "set_field h a n p' = Inr h'"
      by (auto simp: MANAGED_OBJECT_FIX_def ebind)
    then show ?thesis by (rule set_field_layout) (rule assms(2))
  next
    case False
    with assms(1) p f show ?thesis by (simp add: MANAGED_OBJECT_FIX_def)
  qed
qed

lemma fix_dependent_layout:
  assumes "fix_dependent fx a s h = Inr (res, s', h')"
    and "h a = Some obj" and "otype obj = MANAGED_OBJECT_TYPE_METADATA_HASH_TABLE_BUCKET"
  shows "same_layout ld h h'"
proof -
  from assms(1) obtain d where d: "field_at h a 0 = Inr d" by (auto simp: fix_dependent_def ebind)
  show ?thesis
  proof (cases "d = 0")
    case True
    with assms(1) d show ?thesis by (simp add: fix_dependent_def)
  next
    case False
    with assms(1) d obtain r s2 where "MANAGED_OBJECT_FIX fx s h a 0 = Inr (r, s2, h')"
      by (auto simp: fix_dependent_def ebind split: if_splits)
    then show ?thesis by (rule fix_layout) (use assms(2,3) in simp)
  qed
qed

lemma scan_buckets_layout:
  assumes "scan_buckets fx del a s h = Inr (res, s', h')"
    and "h a = Some obj" and "otype obj = MANAGED_OBJECT_TYPE_METADATA_HASH_TABLE_BUCKET"
  shows "same_layout ld h h'"
proof -
  from assms(1) obtain n r s1 h1 where first: "fix_dependent fx a s h = Inr (r, s1, h1)"
    and rest: "(if r \<noteq> 0 then Inr (r, s1, h1) else scan_buckets_loop fx del a n 0 s1 h1) =
      Inr (res, s', h')"
    by (auto simp: scan_buckets_def ebind)
  have "same_layout ld h h1" using first assms(2,3) by (rule fix_dependent_layout)
  moreover have "same_layout ld h1 h'"
    using rest by (auto split: if_splits intro: scan_buckets_loop_layout)
  ultimately show ?thesis by (rule same_layout_trans)
qed

lemma scan_object_layout:
  assumes "scan_object fx del ld base s h = Inr (res, s', h', next)"
  shows "same_layout ld h h'"
proof -
  from assms obtain obj where obj: "h base = Some obj"
    by (auto simp: scan_object_def obj_at_def ebind split: option.splits)
  show ?thesis
  proof (cases "otype obj")
    case MANAGED_OBJECT_TYPE_METADATA_HASH_TABLE_BUCKET
    with assms obj obtain s1 where "scan_buckets fx del base s h = Inr (res, s1, h')"
      by (auto simp: scan_object_def obj_at_def ebind)
    then show ?thesis using obj MANAGED_OBJECT_TYPE_METADATA_HASH_TABLE_BUCKET by (rule scan_buckets_layout)
  next
    case MANAGED_OBJECT_TYPE_METADATA_HASH_TABLE
    with assms obj obtain r s1 h1 where f1: "MANAGED_OBJECT_FIX fx s h base (keys_field ld) = Inr (r, s1, h1)"
      and rest: "(if r \<noteq> 0 then Inr (r, s1, h1, base)
           else andthen (MANAGED_OBJECT_FIX fx s1 h1 base (values_field ld)) (\<lambda>(res, s2, h2).
             if res \<noteq> 0 then Inr (res, s2, h2, base)
             else Inr (0, s2, h2, base + MANAGED_OBJECT_ALIGN_OBJ (sizeof_hashtable ld)))) =
         Inr (res, s', h', next)"
      by (auto simp: scan_object_def obj_at_def ebind)
    have "same_layout ld h h1" using f1 by (rule fix_layout) (simp add: keys_field_def)
    moreover have "same_layout ld h1 h'"
    proof (cases "r = 0")
      case True
      with rest obtain r2 s2 where "MANAGED_OBJECT_FIX fx s1 h1 base (values_field ld) = Inr (r2, s2, h')"
        by (auto simp: ebind split: if_splits)
      then show ?thesis by (rule fix_layout) (simp add: values_field_def)
    qed (use rest in simp)
    ultimately show ?thesis by (rule same_layout_trans)
  qed (use assms obj in \<open>auto simp: scan_object_def obj_at_def ebind case_prod_unfold\<close>)
qed

section \<open>The scanner and skip agree\<close>

text \<open>
  The scanner and skip agree.  When the scanner is done with an object without an error,
  it goes on at exactly the address that skip gives for it, whatever the MPS and the client's
  scanner did to the references.
\<close>

theorem scan_advances_like_skip:
  assumes "h base = Some obj" and "scan_object fx del ld base s h = Inr (0, s', h', next)"
  shows "managed_obj_skip ld base obj = Inr next"
  using assms
  by (cases "otype obj")
    (auto simp: scan_object_def managed_obj_skip_def obj_at_def ebind case_prod_unfold split: if_splits)


definition sample_fix :: "nat mps_fix" where
  "sample_fix = \<lparr>fix1 = \<lambda>s p. (p \<noteq> 0, s), fix2 = \<lambda>s p. (0, s, p), call_scanner = \<lambda>f s p. (0, Suc s)\<rparr>"

theorem scan_advances_like_skip_witness: "managed_obj_skip 16 64 sample_obj = Inr 96"
proof (rule scan_advances_like_skip [of "[64 \<mapsto> sample_obj]" 64 sample_obj sample_fix 8 16 0 1
      "[64 \<mapsto> sample_obj]" 96])
  show "[64 \<mapsto> sample_obj] 64 = Some sample_obj" by simp
  show "scan_object sample_fix 8 16 64 0 [64 \<mapsto> sample_obj] = Inr (0, 1, [64 \<mapsto> sample_obj], 96)"
    by (simp add: scan_object_def obj_at_def sample_obj_def word_at_def sample_fix_def
        MANAGED_OBJECT_ALIGN_OBJ_def align_word_id sizeof_scanned_pointer_def)
qed

section \<open>Walking a range\<close>

text \<open>The objects at the addresses \<open>bs\<close> fill the range from \<open>base\<close> to \<open>limit\<close>.\<close>

fun tiles :: "size_t \<Rightarrow> heap \<Rightarrow> addr \<Rightarrow> addr list \<Rightarrow> addr \<Rightarrow> bool" where
  "tiles ld h base [] limit = (base = limit)"
| "tiles ld h base (b # bs) limit =
     (b = base \<and>
      (case map_option (obj_size ld) (h base) of
         Some (Inr sz) \<Rightarrow> 0 < sz \<and> unat base + unat sz \<le> unat limit \<and> tiles ld h (base + sz) bs limit
       | _ \<Rightarrow> False))"

text \<open>Scan the objects at given addresses, up to the first that gives an error.\<close>

fun scan_each ::
  "'s mps_fix \<Rightarrow> addr \<Rightarrow> size_t \<Rightarrow> addr list \<Rightarrow> 's \<Rightarrow> heap \<Rightarrow> fault + int \<times> 's \<times> heap" where
  "scan_each fx del ld [] s h = Inr (0, s, h)"
| "scan_each fx del ld (b # bs) s h =
     andthen (scan_object fx del ld b s h) (\<lambda>(res, s1, h1, next).
       if res \<noteq> 0 then Inr (res, s1, h1) else scan_each fx del ld bs s1 h1)"

lemma tiles_layout: "same_layout ld h h' \<Longrightarrow> tiles ld h base bs limit \<Longrightarrow> tiles ld h' base bs limit"
proof (induction ld h base bs limit rule: tiles.induct)
  case (2 ld h base b bs limit)
  from 2(3) obtain sz where sz: "map_option (obj_size ld) (h base) = Some (Inr sz)"
    and rest: "b = base" "0 < sz" "unat base + unat sz \<le> unat limit" "tiles ld h (base + sz) bs limit"
    by (auto split: option.splits sum.splits)
  moreover have "map_option (obj_size ld) (h' base) = Some (Inr sz)"
    using 2(2) sz by (simp add: same_layout_def)
  then obtain ob where "h' base = Some ob" "obj_size ld ob = Inr sz" by auto
  moreover have "tiles ld h' (base + sz) bs limit" using 2(1) [OF sz refl 2(2) rest(4)] .
  ultimately show ?case by simp
qed simp

text \<open>
  C26: The scanner visits every object once.  On a range that is filled by objects of positive
  size, the scanner returns, and it has done exactly what scanning the objects one by one,
  in the order of their addresses, up to the first error does.
\<close>

theorem scan_visits_each:
  assumes "tiles ld h base bs limit"
  shows "managed_obj_scan fx del ld base limit s h = Some (scan_each fx del ld bs s h)"
  using assms
proof (induction bs arbitrary: base s h)
  case Nil
  then show ?case by (simp add: managed_obj_scan.simps)
next
  case (Cons b bs)
  from Cons.prems obtain obj sz where obj: "h base = Some obj" and sz: "obj_size ld obj = Inr sz"
    and b: "b = base" and pos: "0 < sz" and lim: "unat base + unat sz \<le> unat limit"
    and rest: "tiles ld h (base + sz) bs limit"
    by (auto split: option.splits sum.splits)
  have "base < limit" using pos lim by (simp add: word_less_nat_alt)
  show ?case
  proof (cases "scan_object fx del ld base s h")
    case (Inl f)
    with \<open>base < limit\<close> b show ?thesis by (simp add: managed_obj_scan.simps [of _ _ _ base])
  next
    case (Inr r)
    obtain res s1 h1 nx where r: "r = (res, s1, h1, nx)" by (cases r) auto
    show ?thesis
    proof (cases "res = 0")
      case True
      have so: "scan_object fx del ld base s h = Inr (0, s1, h1, nx)" using Inr r True by simp
      have "managed_obj_skip ld base obj = Inr nx"
        using obj so
        by (cases "otype obj")
          (auto simp: scan_object_def managed_obj_skip_def obj_at_def ebind case_prod_unfold split: if_splits)
      then have nx: "nx = base + sz" using sz by (simp add: skip_size)
      have "tiles ld h1 nx bs limit"
        using tiles_layout [OF scan_object_layout [OF so] rest] nx by simp
      from Cons.IH [OF this] so \<open>base < limit\<close> b show ?thesis
        by (simp add: managed_obj_scan.simps [of _ _ _ base])
    next
      case False
      with Inr r \<open>base < limit\<close> b show ?thesis by (simp add: managed_obj_scan.simps [of _ _ _ base])
    qed
  qed
qed

theorem scan_visits_each_witness:
  "managed_obj_scan sample_fix 8 16 64 128 0 [64 \<mapsto> sample_obj, 96 \<mapsto> sample_obj] =
     Some (Inr (0, 2, [64 \<mapsto> sample_obj, 96 \<mapsto> sample_obj]))"
proof -
  have "obj_size 16 sample_obj = Inr 32"
    by (simp add: obj_size_def managed_obj_skip_def sample_obj_def MANAGED_OBJECT_ALIGN_OBJ_def
        align_word_id sizeof_scanned_pointer_def)
  then have "tiles 16 [64 \<mapsto> sample_obj, 96 \<mapsto> sample_obj] 64 [64, 96] 128" by simp
  from scan_visits_each [OF this, of sample_fix 8 0] show ?thesis
    by (simp add: scan_object_def obj_at_def sample_obj_def word_at_def sample_fix_def)
qed

section \<open>Weak references\<close>

text \<open>
  The effect of the MPS on a word, when it is a function of the word: \<open>w\<close> tells the words of
  interest and \<open>f\<close> where they go, 0 for a weak reference to a dead object.
\<close>

definition fixes_by :: "'s mps_fix \<Rightarrow> (addr \<Rightarrow> bool) \<Rightarrow> (addr \<Rightarrow> addr) \<Rightarrow> bool" where
  "fixes_by fx w f \<longleftrightarrow> (\<forall>s p. fix1 fx s p = (w p, s) \<and> fix2 fx s p = (0, s, f p))"

definition dead :: "(addr \<Rightarrow> bool) \<Rightarrow> (addr \<Rightarrow> addr) \<Rightarrow> addr \<Rightarrow> bool" where
  "dead w f p \<longleftrightarrow> w p \<and> f p = 0"

definition moved :: "(addr \<Rightarrow> bool) \<Rightarrow> (addr \<Rightarrow> addr) \<Rightarrow> addr \<Rightarrow> addr \<Rightarrow> addr" where
  "moved w f del p = (if dead w f p then del else if w p then f p else p)"

text \<open>A tagged count after \<open>c\<close> increments.\<close>

fun count_up :: "nat \<Rightarrow> size_t \<Rightarrow> size_t" where
  "count_up 0 d = d"
| "count_up (Suc c) d =
     count_up c (MANAGED_OBJECT_METADATA_TAG_COUNT (MANAGED_OBJECT_METADATA_UNTAG_COUNT d + 1))"

lemma untag_tag:
  "unat i < 2 ^ 63 \<Longrightarrow> MANAGED_OBJECT_METADATA_UNTAG_COUNT (MANAGED_OBJECT_METADATA_TAG_COUNT i) = i"
proof -
  assume i: "unat i < 2 ^ 63"
  then have "unat (push_bit 1 i + 1) = 2 * unat i + 1"
    by (simp add: push_bit_eq_mult unat_word_ariths)
  then have "unat (drop_bit 1 (push_bit 1 i + 1)) = unat i"
    by (simp add: drop_bit_eq_div unat_div)
  then show ?thesis
    by (simp only: MANAGED_OBJECT_METADATA_UNTAG_COUNT_def MANAGED_OBJECT_METADATA_TAG_COUNT_def word_unat_eq_iff)
qed


text \<open>A bucket object: its first four words and its buckets.\<close>

definition bkt :: "heap \<Rightarrow> addr \<Rightarrow> addr \<Rightarrow> size_t \<Rightarrow> size_t \<Rightarrow> size_t \<Rightarrow> addr list \<Rightarrow> bool" where
  "bkt h a dep len used deleted ks \<longleftrightarrow>
     (case h a of None \<Rightarrow> False | Some obj \<Rightarrow> owords obj = dep # len # used # deleted # ks)"

lemma nth4: "(a # b # c # d # zs) ! (4 + n) = zs ! n"
  by (simp add: eval_nat_numeral)

lemma upd4: "(a # b # c # d # zs)[4 + n := w] = a # b # c # d # zs[n := w]"
  by (simp add: eval_nat_numeral)

lemma bkt_fields:
  assumes "bkt h a d len u dw ks"
  shows "field_at h a 0 = Inr d" and "field_at h a 1 = Inr len" and "field_at h a 3 = Inr dw"
    and "i < length ks \<Longrightarrow> field_at h a (4 + i) = Inr (ks ! i)"
  using assms
  by (auto simp: bkt_def field_at_def obj_at_def word_at_def nth4 split: option.splits)

lemma bkt_frame: "bkt h x d len u dw ks \<Longrightarrow> h' x = h x \<Longrightarrow> bkt h' x d len u dw ks"
  by (simp add: bkt_def)

lemma bkt_set_deleted:
  assumes "bkt h a d len u dw ks"
  shows "\<exists>h'. set_field h a 3 v = Inr h' \<and> bkt h' a d len u v ks \<and> (\<forall>x. x \<noteq> a \<longrightarrow> h' x = h x)"
  using assms
  by (auto simp: bkt_def set_field_def obj_at_def set_word_def split: option.splits)

lemma bkt_set_bucket:
  assumes "bkt h a d len u dw ks" and "i < length ks"
  shows "\<exists>h'. set_field h a (4 + i) v = Inr h' \<and> bkt h' a d len u dw (ks[i := v]) \<and>
    (\<forall>x. x \<noteq> a \<longrightarrow> h' x = h x)"
  using assms
  by (auto simp: bkt_def set_field_def obj_at_def set_word_def upd4 split: option.splits)

lemma bkt_bump:
  assumes "bkt h a d len u dw ks"
  shows "\<exists>h'. bump_deleted h a = Inr h' \<and> bkt h' a d len u (count_up 1 dw) ks \<and> (\<forall>x. x \<noteq> a \<longrightarrow> h' x = h x)"
  using bkt_set_deleted [OF assms, of "count_up 1 dw"] bkt_fields(3) [OF assms]
  by (simp add: bump_deleted_def)

lemma count_up_add: "count_up c (count_up 1 d) = count_up (Suc c) d"
  by simp

declare count_up.simps [simp del]

lemma splat_both:
  assumes a: "bkt h a d len u dw ks" and b: "bkt h d e len2 u2 dw2 vs" and "a \<noteq> d" and "d \<noteq> 0"
    and i: "i < length vs"
  shows "\<exists>h'. splat h a i del = Inr h' \<and> bkt h' a d len u (count_up 1 dw) ks \<and>
    bkt h' d e len2 u2 (count_up 1 dw2) (vs[i := del]) \<and> (\<forall>x. x \<noteq> a \<longrightarrow> x \<noteq> d \<longrightarrow> h' x = h x)"
proof -
  obtain h1 where h1: "bump_deleted h a = Inr h1" "bkt h1 a d len u (count_up 1 dw) ks"
    "\<forall>x. x \<noteq> a \<longrightarrow> h1 x = h x" using bkt_bump [OF a] by blast
  have "bkt h1 d e len2 u2 dw2 vs" using b by (rule bkt_frame) (use h1(3) assms(3) in simp)
  then obtain h2 where h2: "set_field h1 d (4 + i) del = Inr h2" "bkt h2 d e len2 u2 dw2 (vs[i := del])"
    "\<forall>x. x \<noteq> d \<longrightarrow> h2 x = h1 x" using bkt_set_bucket i by blast
  obtain h3 where h3: "bump_deleted h2 d = Inr h3" "bkt h3 d e len2 u2 (count_up 1 dw2) (vs[i := del])"
    "\<forall>x. x \<noteq> d \<longrightarrow> h3 x = h2 x" using bkt_bump [OF h2(2)] by blast
  have "splat h a i del = Inr h3"
    using h1(1) h2(1) h3(1) bkt_fields(1) [OF h1(2)] assms(4) by (simp add: splat_def)
  moreover have "bkt h3 a d len u (count_up 1 dw) ks"
    using h1(2) by (rule bkt_frame) (use h2(3) h3(3) assms(3) in simp)
  ultimately show ?thesis using h3 h2(3) h1(3) by simp
qed

lemma scan_buckets_loop_weak:
  assumes fx: "fixes_by fx w f" and ad: "a \<noteq> d" "d \<noteq> 0"
  shows "bkt h a d len u dw ks \<Longrightarrow> bkt h d e len2 u2 dw2 vs \<Longrightarrow> length vs = length ks \<Longrightarrow> i + n = length ks \<Longrightarrow>
    \<exists>h'. scan_buckets_loop fx del a n i s h = Inr (0, s, h') \<and>
      bkt h' a d len u (count_up (length (filter (dead w f) (drop i ks))) dw)
        (take i ks @ map (moved w f del) (drop i ks)) \<and>
      bkt h' d e len2 u2 (count_up (length (filter (dead w f) (drop i ks))) dw2)
        (take i vs @ map2 (\<lambda>p v. if dead w f p then del else v) (drop i ks) (drop i vs)) \<and>
      (\<forall>x. x \<noteq> a \<longrightarrow> x \<noteq> d \<longrightarrow> h' x = h x)"
proof (induction n arbitrary: i h ks vs dw dw2)
  case 0
  then show ?case by (simp add: count_up.simps)
next
  case (Suc n)
  have i: "i < length ks" "i < length vs" using Suc.prems by simp_all
  let ?p = "ks ! i"
  let ?k = "moved w f del ?p" and ?v = "if dead w f ?p then del else vs ! i"
  let ?c = "if dead w f ?p then 1 else 0 :: nat"
  have p: "field_at h a (4 + i) = Inr ?p" using bkt_fields(4) [OF Suc.prems(1) i(1)] .
  have fx': "fix1 fx s ?p = (w ?p, s)" "fix2 fx s ?p = (0, s, f ?p)" using fx by (simp_all add: fixes_by_def)
  have step: "\<exists>h2. scan_buckets_loop fx del a (Suc n) i s h = scan_buckets_loop fx del a n (Suc i) s h2 \<and>
      bkt h2 a d len u (count_up ?c dw) (ks[i := ?k]) \<and> bkt h2 d e len2 u2 (count_up ?c dw2) (vs[i := ?v]) \<and>
      (\<forall>x. x \<noteq> a \<longrightarrow> x \<noteq> d \<longrightarrow> h2 x = h x)"
  proof (cases "dead w f ?p")
    case True
    obtain h1 where h1: "splat h a i del = Inr h1" "bkt h1 a d len u (count_up 1 dw) ks"
      "bkt h1 d e len2 u2 (count_up 1 dw2) (vs[i := del])" "\<forall>x. x \<noteq> a \<longrightarrow> x \<noteq> d \<longrightarrow> h1 x = h x"
      using splat_both [OF Suc.prems(1,2) ad i(2)] by blast
    obtain h2 where h2: "(if ?p \<noteq> del then set_field h1 a (4 + i) del else Inr h1) = Inr h2"
      "bkt h2 a d len u (count_up 1 dw) (ks[i := del])" "\<forall>x. x \<noteq> a \<longrightarrow> h2 x = h1 x"
      using bkt_set_bucket [OF h1(2) i(1), of del] h1(2) by (cases "?p = del") auto
    have "scan_buckets_loop fx del a (Suc n) i s h = scan_buckets_loop fx del a n (Suc i) s h2"
      using p fx' True h1(1) h2(1) bkt_fields(4) [OF h1(2) i(1)] by (simp add: dead_def)
    moreover have "bkt h2 d e len2 u2 (count_up 1 dw2) (vs[i := del])"
      using h1(3) by (rule bkt_frame) (use h2(3) ad(1) in simp)
    ultimately show ?thesis using True h2(2,3) h1(4) by (intro exI [of _ h2]) (simp add: moved_def)
  next
    case False
    show ?thesis
    proof (cases "w ?p")
      case w: False
      then have "scan_buckets_loop fx del a (Suc n) i s h = scan_buckets_loop fx del a n (Suc i) s h"
        using p fx' by simp
      with w False Suc.prems(1,2) show ?thesis
        by (intro exI [of _ h]) (simp add: moved_def count_up.simps)
    next
      case w: True
      with False have nz: "f ?p \<noteq> 0" by (simp add: dead_def)
      obtain h2 where h2: "(if ?p \<noteq> f ?p then set_field h a (4 + i) (f ?p) else Inr h) = Inr h2"
        "bkt h2 a d len u dw (ks[i := f ?p])" "\<forall>x. x \<noteq> a \<longrightarrow> h2 x = h x"
        using bkt_set_bucket [OF Suc.prems(1) i(1), of "f ?p"] Suc.prems(1) by (cases "?p = f ?p") auto
      have "scan_buckets_loop fx del a (Suc n) i s h = scan_buckets_loop fx del a n (Suc i) s h2"
        using p fx' w nz h2(1) by simp
      moreover have "bkt h2 d e len2 u2 dw2 vs" using Suc.prems(2) by (rule bkt_frame) (use h2(3) ad(1) in simp)
      ultimately show ?thesis
        using w False h2(2,3) by (intro exI [of _ h2]) (simp add: moved_def count_up.simps)
    qed
  qed
  then obtain h2 where h2: "scan_buckets_loop fx del a (Suc n) i s h = scan_buckets_loop fx del a n (Suc i) s h2"
    "bkt h2 a d len u (count_up ?c dw) (ks[i := ?k])" "bkt h2 d e len2 u2 (count_up ?c dw2) (vs[i := ?v])"
    "\<forall>x. x \<noteq> a \<longrightarrow> x \<noteq> d \<longrightarrow> h2 x = h x" by blast
  have dk: "drop i ks = ?p # drop (Suc i) ks" and dv: "drop i vs = vs ! i # drop (Suc i) vs"
    using i by (simp_all add: Cons_nth_drop_Suc)
  have tk: "take (Suc i) (ks[i := ?k]) = take i ks @ [?k]" and tv: "take (Suc i) (vs[i := ?v]) = take i vs @ [?v]"
    using i by (simp_all add: take_Suc_conv_app_nth)
  have dk2: "drop (Suc i) (ks[i := ?k]) = drop (Suc i) ks" and dv2: "drop (Suc i) (vs[i := ?v]) = drop (Suc i) vs"
    by simp_all
  have cu: "count_up (length (filter (dead w f) (drop (Suc i) ks))) (count_up ?c x) =
      count_up (length (filter (dead w f) (drop i ks))) x" for x
    unfolding dk using count_up_add by (cases "dead w f ?p") (simp_all add: count_up.simps(1))
  have len: "length (vs[i := ?v]) = length (ks[i := ?k])" "Suc i + n = length (ks[i := ?k])"
    using Suc.prems(3,4) by simp_all
  from Suc.IH [OF h2(2,3) len] obtain h' where
    "scan_buckets_loop fx del a n (Suc i) s h2 = Inr (0, s, h')"
    "bkt h' a d len u (count_up (length (filter (dead w f) (drop i ks))) dw)
        (take i ks @ map (moved w f del) (drop i ks))"
    "bkt h' d e len2 u2 (count_up (length (filter (dead w f) (drop i ks))) dw2)
        (take i vs @ map2 (\<lambda>p v. if dead w f p then del else v) (drop i ks) (drop i vs))"
    "\<forall>x. x \<noteq> a \<longrightarrow> x \<noteq> d \<longrightarrow> h' x = h2 x"
    unfolding tk tv dk2 dv2 cu unfolding dk dv by auto
  with h2(1,4) show ?case by auto
qed

lemma scan_outcome:
  assumes "fixes_by fx w f" and "a \<noteq> d" and "d \<noteq> 0" and "w d \<longrightarrow> f d = d"
    and "bkt h a d len u dw ks" and "bkt h d e len u2 dw2 vs" and "length vs = length ks"
    and "unat (MANAGED_OBJECT_METADATA_UNTAG_COUNT len) = length ks"
  shows "\<exists>h'. scan_buckets fx del a s h = Inr (0, s, h') \<and>
    bkt h' a d len u (count_up (length (filter (dead w f) ks)) dw) (map (moved w f del) ks) \<and>
    bkt h' d e len u2 (count_up (length (filter (dead w f) ks)) dw2)
      (map2 (\<lambda>p v. if dead w f p then del else v) ks vs) \<and>
    (\<forall>x. x \<noteq> a \<longrightarrow> x \<noteq> d \<longrightarrow> h' x = h x)"
proof -
  have "MPS_FIX12 fx s d = (0, s, d)" using assms(1,4) by (auto simp: fixes_by_def MPS_FIX12_def)
  moreover have "set_field h a 0 d = Inr h"
    using assms(5) by (auto simp: bkt_def set_field_def obj_at_def set_word_def split: option.splits)
  ultimately have "fix_dependent fx a s h = Inr (0, s, h)"
    using assms(3) bkt_fields(1,2) [OF assms(5)] bkt_fields(2) [OF assms(6)]
    by (simp add: fix_dependent_def MANAGED_OBJECT_FIX_def)
  then have "scan_buckets fx del a s h = scan_buckets_loop fx del a (length ks) 0 s h"
    using bkt_fields(2) [OF assms(5)] assms(8) by (simp add: scan_buckets_def)
  with scan_buckets_loop_weak [OF assms(1,2,3,5,6,7), of 0 "length ks" del s] show ?thesis by simp
qed

text \<open>
  C25: Scanning a weak table.  Let the MPS move or clear words as a function of the word; the
  dependent, if the MPS is interested in its address, stays where it is: the pool of the buckets is
  an AWL pool, which does not move its objects, and the table holds both bucket objects.
  Scanning the buckets of an object that has a dependent object of the same length fixes
  every bucket once: a moved reference is updated in place, and a cleared one is replaced by
  the deleted marker in both objects, at the same index, and counted in both; every other
  bucket of the dependent, and every other object, is untouched.
\<close>

theorem weak_scan_splats_both:
  assumes "fixes_by fx w f" and "a \<noteq> d" and "d \<noteq> 0" and "w d \<longrightarrow> f d = d"
    and "bkt h a d len u dw ks" and "bkt h d e len u2 dw2 vs" and "length vs = length ks"
    and "unat (MANAGED_OBJECT_METADATA_UNTAG_COUNT len) = length ks"
  shows "\<exists>h'. scan_buckets fx del a s h = Inr (0, s, h') \<and>
    bkt h' a d len u (count_up (length (filter (dead w f) ks)) dw) (map (moved w f del) ks) \<and>
    bkt h' d e len u2 (count_up (length (filter (dead w f) ks)) dw2)
      (map2 (\<lambda>p v. if dead w f p then del else v) ks vs) \<and>
    (\<forall>x. x \<noteq> a \<longrightarrow> x \<noteq> d \<longrightarrow> h' x = h x)"
  using scan_outcome [OF assms] .


text \<open>
  Two buckets: the object at 1000 is dead and the one at 2000 moves to 3000.  The bucket objects are
  condemned too: the MPS is interested in the dependent, and fixes it to itself.
\<close>

definition weak_heap :: heap where
  "weak_heap =
     [64 \<mapsto> \<lparr>otype = MANAGED_OBJECT_TYPE_METADATA_HASH_TABLE_BUCKET, opinned = False,
            owords = [128, 5, 5, 1, 1000, 2000]\<rparr>,
      128 \<mapsto> \<lparr>otype = MANAGED_OBJECT_TYPE_METADATA_HASH_TABLE_BUCKET, opinned = False,
            owords = [64, 5, 5, 1, 70, 80]\<rparr>]"

definition weak_fix :: "unit mps_fix" where
  "weak_fix = \<lparr>fix1 = \<lambda>s p. (p = 64 \<or> p = 128 \<or> p \<ge> 1000, s),
     fix2 = \<lambda>s p. (0, s, if p = 1000 then 0 else if p < 1000 then p else p + 1000),
     call_scanner = \<lambda>f s p. (0, s)\<rparr>"

theorem weak_scan_splats_both_witness:
  "\<exists>h'. scan_buckets weak_fix 8 64 () weak_heap = Inr (0, (), h') \<and>
     bkt h' 64 128 5 5 3 [8, 3000] \<and> bkt h' 128 64 5 5 3 [8, 80]"
proof -
  let ?w = "\<lambda>p :: addr. p = 64 \<or> p = 128 \<or> p \<ge> 1000"
    and ?f = "\<lambda>p :: addr. if p = 1000 then 0 else if p < 1000 then p else p + 1000"
  have fx: "fixes_by weak_fix ?w ?f" by (simp add: fixes_by_def weak_fix_def)
  have a: "bkt weak_heap 64 128 5 5 1 [1000, 2000]" and b: "bkt weak_heap 128 64 5 5 1 [70, 80]"
    by (simp_all add: bkt_def weak_heap_def)
  have len: "unat (MANAGED_OBJECT_METADATA_UNTAG_COUNT 5) = length [1000 :: addr, 2000]"
    by (simp add: MANAGED_OBJECT_METADATA_UNTAG_COUNT_def drop_bit_eq_div unat_div)
  have up: "count_up 1 1 = 3"
    by (simp add: count_up.simps MANAGED_OBJECT_METADATA_UNTAG_COUNT_def
        MANAGED_OBJECT_METADATA_TAG_COUNT_def drop_bit_eq_div push_bit_eq_mult)
  from weak_scan_splats_both [OF fx _ _ _ a b _ len, of 8 "()"] show ?thesis
    using up by (auto simp: dead_def moved_def)
qed

end
