(* ===== verification/ObjState.thy ===== *)
theory ObjState
  imports ObjFormat
begin

text \<open>
  The client state of \<open>src/managed_object_obj.c\<close>: memory and object accounting, allocation with
  the reserve and commit protocol, pinning, finalization messages, and the conversion of
  clock stamps.  What the MPS answers (addresses, commit results, messages) is an argument.
  The state is the part of \<open>ManagedObjState\<close> that the library itself reads and writes; the
  handles of MPS resources are in the theory of the life cycle.  The operations are defined on every
  extension of the record, so that a client can add what its callbacks work on.
\<close>

section \<open>State\<close>

record obj_state =
  allocated_bytes :: size_t
  freed_bytes :: size_t
  allocated_obj_bytes :: size_t
  allocated_aligned_obj_bytes :: size_t
  freed_obj_bytes :: size_t
  freed_aligned_obj_bytes :: size_t
  pinned_used :: size_t
  registered :: "addr list"
    \<comment> \<open>ghost: registered with \<open>mps_finalize\<close>, the message not yet taken\<close>

type_synonym obj_heap = "addr \<Rightarrow> managed_obj option"

section \<open>Client memory\<close>

definition managed_obj_malloc :: "'z obj_state_scheme \<Rightarrow> size_t \<Rightarrow> addr \<Rightarrow> addr \<times> 'z obj_state_scheme" where
  "managed_obj_malloc st s p =
     (p, if p \<noteq> 0 then st\<lparr>allocated_bytes := allocated_bytes st + s\<rparr> else st)"

definition managed_obj_free :: "'z obj_state_scheme \<Rightarrow> addr \<Rightarrow> size_t \<Rightarrow> 'z obj_state_scheme" where
  "managed_obj_free st p s =
     (if p \<noteq> 0 then st\<lparr>freed_bytes := freed_bytes st + s\<rparr> else st)"

section \<open>Allocating objects\<close>

text \<open>
  The loop around \<open>mps_reserve\<close> and \<open>mps_commit\<close>.  The list has what the MPS answers to each
  attempt: the reserved address, or none, and whether the commit succeeds.
\<close>

fun reserve_commit :: "(addr option \<times> bool) list \<Rightarrow> fault + addr" where
  "reserve_commit [] = Inl Diverges"
| "reserve_commit ((None, _) # _) = Inl Fatal_error"
| "reserve_commit ((Some a, committed) # attempts) =
     (if committed then Inr a else reserve_commit attempts)"

definition count_object :: "size_t \<Rightarrow> size_t \<Rightarrow> addr \<Rightarrow> 'z obj_state_scheme \<Rightarrow> 'z obj_state_scheme" where
  "count_object sz aligned a st =
     st\<lparr>allocated_obj_bytes := allocated_obj_bytes st + sz,
        allocated_aligned_obj_bytes := allocated_aligned_obj_bytes st + aligned,
        registered := registered st @ [a]\<rparr>"

definition managed_obj_make_scanned_with_finalizer ::
  "'z obj_state_scheme \<Rightarrow> obj_heap \<Rightarrow> (addr option \<times> bool) list \<Rightarrow> addr \<Rightarrow> addr \<Rightarrow> addr \<Rightarrow>
     fault + addr \<times> 'z obj_state_scheme \<times> obj_heap"
where
  "managed_obj_make_scanned_with_finalizer st h attempts pointer scanner fin =
     andthen (reserve_commit attempts) (\<lambda>a.
       Inr (a, count_object sizeof_scanned_pointer (MANAGED_OBJECT_ALIGN_OBJ sizeof_scanned_pointer) a st,
            h(a \<mapsto> \<lparr>otype = MANAGED_OBJECT_TYPE_SCANNED_POINTER, opinned = False,
                    owords = [pointer, scanner, fin]\<rparr>)))"

text \<open>The addresses of the two static callbacks are arguments.\<close>

definition managed_obj_make where
  "managed_obj_make no_scan no_fin st h attempts pointer =
     managed_obj_make_scanned_with_finalizer st h attempts pointer no_scan no_fin"

definition managed_obj_make_scanned where
  "managed_obj_make_scanned no_fin st h attempts pointer scanner =
     managed_obj_make_scanned_with_finalizer st h attempts pointer scanner no_fin"

definition managed_obj_make_with_finalizer where
  "managed_obj_make_with_finalizer no_scan st h attempts pointer fin =
     managed_obj_make_scanned_with_finalizer st h attempts pointer no_scan fin"

definition managed_obj_make_empty ::
  "'z obj_state_scheme \<Rightarrow> obj_heap \<Rightarrow> (addr option \<times> bool) list \<Rightarrow> fault + addr \<times> 'z obj_state_scheme \<times> obj_heap"
where
  "managed_obj_make_empty st h attempts =
     andthen (reserve_commit attempts) (\<lambda>a.
       Inr (a, count_object sizeof_empty (MANAGED_OBJECT_ALIGN_OBJ sizeof_empty) a st,
            h(a \<mapsto> \<lparr>otype = MANAGED_OBJECT_TYPE_EMPTY, opinned = False, owords = [0, 0]\<rparr>)))"

section \<open>Pinning\<close>

definition managed_obj_pin :: "'z obj_state_scheme \<Rightarrow> managed_obj \<Rightarrow> 'z obj_state_scheme \<times> managed_obj" where
  "managed_obj_pin st obj = (st\<lparr>pinned_used := pinned_used st + 1\<rparr>, obj\<lparr>opinned := True\<rparr>)"

definition managed_obj_unpin :: "'z obj_state_scheme \<Rightarrow> managed_obj \<Rightarrow> 'z obj_state_scheme \<times> managed_obj" where
  "managed_obj_unpin st obj = (st\<lparr>pinned_used := pinned_used st - 1\<rparr>, obj\<lparr>opinned := False\<rparr>)"

section \<open>Finalization\<close>

datatype mps_message = Gc_start | Gc | Finalization addr | Other_message

text \<open>
  What a finalization callback does to the state and the heap is an argument, and the calls
  made are recorded in order, as callback and pointer.
\<close>

type_synonym 'z callbacks = "addr \<Rightarrow> addr \<Rightarrow> 'z obj_state_scheme \<times> obj_heap \<Rightarrow> 'z obj_state_scheme \<times> obj_heap"
type_synonym 'z chat_state = "'z obj_state_scheme \<times> obj_heap \<times> (addr \<times> addr) list"

definition clear_pointer :: "addr \<Rightarrow> 'z chat_state \<Rightarrow> fault + 'z chat_state" where
  "clear_pointer a w =
     (case w of (st, h, calls) \<Rightarrow>
       (case h a of
          None \<Rightarrow> Inl Undefined_behaviour
        | Some obj \<Rightarrow> andthen (set_word obj 0 0) (\<lambda>obj'. Inr (st, h(a \<mapsto> obj'), calls))))"

definition call_finalizer :: "'z callbacks \<Rightarrow> addr \<Rightarrow> addr \<Rightarrow> 'z chat_state \<Rightarrow> 'z chat_state" where
  "call_finalizer cb fin pointer w =
     (case w of (st, h, calls) \<Rightarrow>
       (case cb fin pointer (st, h) of (st', h') \<Rightarrow> (st', h', calls @ [(fin, pointer)])))"

definition count_freed :: "size_t \<Rightarrow> 'z obj_state_scheme \<Rightarrow> 'z obj_state_scheme" where
  "count_freed sz st =
     st\<lparr>freed_obj_bytes := freed_obj_bytes st + sz,
        freed_aligned_obj_bytes := freed_aligned_obj_bytes st + MANAGED_OBJECT_ALIGN_OBJ sz\<rparr>"

definition finalize_object :: "'z callbacks \<Rightarrow> addr \<Rightarrow> 'z chat_state \<Rightarrow> fault + 'z chat_state" where
  "finalize_object cb a w =
     (case w of (st0, h, calls) \<Rightarrow>
       (let st = st0\<lparr>registered := remove1 a (registered st0)\<rparr> in
        case h a of
          None \<Rightarrow> Inl Undefined_behaviour
        | Some obj \<Rightarrow>
            if otype obj = MANAGED_OBJECT_TYPE_EMPTY
            then Inr (count_freed sizeof_empty st, h, calls)
            else if otype obj = MANAGED_OBJECT_TYPE_SCANNED_POINTER
            then let st1 = count_freed sizeof_scanned_pointer st
                 in andthen (word_at obj 0) (\<lambda>pointer.
                      if pointer \<noteq> 0
                      then andthen (word_at obj 2) (\<lambda>fin.
                             clear_pointer a
                               (if fin \<noteq> 0 then call_finalizer cb fin pointer (st1, h, calls)
                                else (st1, h, calls)))
                      else Inr (st1, h, calls))
            else Inr (st, h, calls)))"

fun managed_obj_mps_chat :: "'z callbacks \<Rightarrow> mps_message list \<Rightarrow> 'z chat_state \<Rightarrow> fault + 'z chat_state" where
  "managed_obj_mps_chat cb [] w = Inr w"
| "managed_obj_mps_chat cb (Finalization a # ms) w =
     andthen (finalize_object cb a w) (\<lambda>w1. managed_obj_mps_chat cb ms w1)"
| "managed_obj_mps_chat cb (_ # ms) w = managed_obj_mps_chat cb ms w"

section \<open>Clock stamps\<close>

record ManagedObjTime =
  seconds :: int
  milliseconds :: int
  microseconds :: int

text \<open>
  Assigning an \<open>unsigned long\<close> to an \<open>int\<close> keeps the low 32 bits; a product of \<open>int\<close>s that does
  not fit is undefined; an \<open>int\<close> that meets an \<open>unsigned long\<close> is converted to it.
\<close>

definition to_int :: "ulong \<Rightarrow> int" where
  "to_int x = sint (ucast x :: 32 word)"

definition int_mult :: "int \<Rightarrow> int \<Rightarrow> fault + int" where
  "int_mult a b = (if - (2 ^ 31) \<le> a * b \<and> a * b < 2 ^ 31 then Inr (a * b) else Inl Undefined_behaviour)"

definition managed_obj_convert_to_time :: "ulong \<Rightarrow> ulong \<Rightarrow> fault + ManagedObjTime" where
  "managed_obj_convert_to_time cps stamp =
     (if cps \<ge> 1000000 then
        (if stamp \<ge> 1000000 then
           let sec = to_int (stamp div 1000000)
           in andthen (int_mult sec 1000000) (\<lambda>whole.
              let ms = to_int (stamp - word_of_int whole);
                  stamp_ms = word_of_int ms :: ulong;
                  ms' = to_int (stamp_ms div 1000)
              in andthen (int_mult ms' 1000) (\<lambda>part.
                 Inr \<lparr>seconds = sec, milliseconds = ms', microseconds = to_int (stamp_ms - word_of_int part)\<rparr>))
         else if stamp \<ge> 1000 then
           let ms = to_int (stamp div 1000)
           in andthen (int_mult ms 1000) (\<lambda>part.
              Inr \<lparr>seconds = 0, milliseconds = ms, microseconds = to_int (stamp - word_of_int part)\<rparr>)
         else Inr \<lparr>seconds = 0, milliseconds = 0, microseconds = to_int stamp\<rparr>)
      else if cps \<ge> 1000 then
        (if stamp \<ge> 1000 then
           let sec = to_int (stamp div 1000)
           in andthen (int_mult sec 1000) (\<lambda>whole.
              Inr \<lparr>seconds = sec, milliseconds = to_int (stamp - word_of_int whole), microseconds = 0\<rparr>)
         else Inr \<lparr>seconds = 0, milliseconds = to_int stamp, microseconds = 0\<rparr>)
      else Inr \<lparr>seconds = to_int stamp, milliseconds = 0, microseconds = 0\<rparr>)"

section \<open>The clock\<close>

lemma low_int: "n < 2 ^ 31 \<Longrightarrow> take_bit 32 (int n) = int n \<and> signed_take_bit 31 (int n) = int n"
  by (simp add: take_bit_int_eq_self signed_take_bit_int_eq_self)

lemma to_int_small: "unat x < 2 ^ 31 \<Longrightarrow> to_int x = int (unat x)"
proof -
  assume x: "unat x < 2 ^ 31"
  have "uint (ucast x :: 32 word) = take_bit 32 (uint x)"
    by transfer (simp add: take_bit_take_bit)
  also have "\<dots> = int (unat x)" using low_int [OF x] by (simp only: uint_nat)
  finally show ?thesis
    using low_int [OF x] by (simp add: to_int_def sint_uint)
qed

lemma minus_div_times:
  "unat (x - x div k * (k :: 64 word)) = unat x mod unat k"
  by (metis minus_div_mult_eq_mod unat_mod)

lemma part_of:
  assumes "unat x div unat k < 2 ^ 31"
  shows "word_of_int (to_int (x div k) * uint k) = x div k * (k :: 64 word)"
proof -
  have "to_int (x div k) = int (unat (x div k))"
    using assms by (simp only: to_int_small unat_div)
  then have "(word_of_int (to_int (x div k) * uint k) :: 64 word) = of_nat (unat (x div k)) * word_of_int (uint k)"
    by (simp only: of_int_mult of_int_of_nat_eq)
  then show ?thesis by (simp only: of_nat_unat of_int_uint ucast_id)
qed

text \<open>What is left of a stamp after the whole units are taken away.\<close>

lemma rest_of:
  assumes "unat x div unat (k :: 64 word) < 2 ^ 31" and "unat k \<le> 2 ^ 31" and "k \<noteq> 0"
  shows "to_int (x - word_of_int (to_int (x div k) * uint k)) = int (unat x mod unat k)"
proof -
  have "unat (x - x div k * k) < 2 ^ 31"
    using assms(2,3) by (simp only: minus_div_times)
      (meson mod_less_divisor order_less_le_trans unat_gt_0)
  then show ?thesis
    by (simp only: part_of [OF assms(1)] to_int_small minus_div_times)
qed

lemma unit_consts:
  "unat (1000000 :: 64 word) = 1000000" "unat (1000 :: 64 word) = 1000"
  "uint (1000000 :: 64 word) = 1000000" "uint (1000 :: 64 word) = 1000"
  by simp_all

lemmas rest_of_million = rest_of [where k = 1000000, unfolded unit_consts]
lemmas rest_of_thousand = rest_of [where k = 1000, unfolded unit_consts]

lemma to_int_div:
  "unat x div unat k < 2 ^ 31 \<Longrightarrow> to_int (x div k) = int (unat x div unat k)"
  by (simp only: to_int_small unat_div)

lemma int_mult_ok: "n * k < 2147483648 \<Longrightarrow> int_mult (int n) (int k) = Inr (int n * int k)"
proof -
  assume "n * k < 2147483648"
  then have "int (n * k) < int 2147483648" by (simp only: of_nat_less_iff)
  moreover have "- (2 ^ 31) \<le> int n * int k" by (rule order_trans [of _ 0]) simp_all
  ultimately show ?thesis by (simp add: int_mult_def)
qed

lemma int_mult_overflow: "2 ^ 31 \<le> a * b \<Longrightarrow> int_mult a b = Inl Undefined_behaviour"
  by (simp add: int_mult_def)

lemma millis_part:
  assumes "unat x < 1000000"
  shows "to_int (x div 1000) = int (unat x div 1000)"
    and "int_mult (to_int (x div 1000)) 1000 = Inr (to_int (x div 1000) * 1000)"
    and "to_int (x - word_of_int (to_int (x div 1000) * 1000)) = int (unat x mod 1000)"
proof -
  have small: "unat x div 1000 < 2 ^ 31" using assms by simp
  then show ms: "to_int (x div 1000) = int (unat x div 1000)"
    using to_int_div [of x 1000] by simp
  have "unat x div 1000 * 1000 < 2147483648" using assms by linarith
  from int_mult_ok [OF this]
  show "int_mult (to_int (x div 1000)) 1000 = Inr (to_int (x div 1000) * 1000)"
    by (simp only: ms of_nat_numeral)
  show "to_int (x - word_of_int (to_int (x div 1000) * 1000)) = int (unat x mod 1000)"
    using rest_of_thousand [OF small] by simp
qed

lemma convert_to_time_micro:
  assumes "1000000 \<le> cps" and "unat stamp < 2148 * 10 ^ 6"
  shows "managed_obj_convert_to_time cps stamp =
    Inr \<lparr>seconds = int (unat stamp div 10 ^ 6), milliseconds = int (unat stamp mod 10 ^ 6 div 1000),
         microseconds = int (unat stamp mod 1000)\<rparr>"
proof (cases "1000000 \<le> stamp")
  case True
  have small: "unat stamp div 1000000 < 2 ^ 31" using assms(2) by simp
  have sec: "to_int (stamp div 1000000) = int (unat stamp div 1000000)"
    using to_int_div [of stamp 1000000] small by simp
  have "unat stamp div 1000000 \<le> 2147" using assms(2) by simp
  then have "unat stamp div 1000000 * 1000000 < 2147483648" by linarith
  from int_mult_ok [OF this]
  have whole: "int_mult (to_int (stamp div 1000000)) 1000000 = Inr (to_int (stamp div 1000000) * 1000000)"
    by (simp only: sec of_nat_numeral)
  have ms: "to_int (stamp - word_of_int (to_int (stamp div 1000000) * 1000000)) = int (unat stamp mod 1000000)"
    using rest_of_million [OF small] by simp
  let ?x = "word_of_int (int (unat stamp mod 1000000)) :: 64 word"
  have x: "unat ?x = unat stamp mod 1000000"
    by (simp only: of_int_of_nat_eq unat_of_nat)
      (simp add: take_bit_nat_eq_self_iff)
  have lt: "unat ?x < 1000000" unfolding x by simp
  have part: "int_mult (int (unat stamp mod 1000000 div 1000)) 1000 = Inr (int (unat stamp mod 1000000 div 1000) * 1000)"
    using millis_part(1,2) [OF lt] by (simp only: x)
  have us: "to_int (?x - word_of_int (int (unat stamp mod 1000000 div 1000) * 1000)) = int (unat stamp mod 1000)"
    using millis_part(3) [OF lt] unfolding millis_part(1) [OF lt] unfolding x
    by (simp add: mod_mod_cancel)
  show ?thesis
    by (simp only: managed_obj_convert_to_time_def Let_def True assms(1) if_True whole andthen_Inr ms
        millis_part(1) [OF lt, unfolded x] part us) (simp add: sec)
next
  case False
  then have small: "unat stamp < 1000000" by (simp add: word_le_nat_alt)
  show ?thesis
  proof (cases "1000 \<le> stamp")
    case True
    then show ?thesis
      using False assms(1) small millis_part [OF small]
      by (simp add: managed_obj_convert_to_time_def Let_def)
  next
    case lt: False
    then have "unat stamp < 1000" by (simp add: word_le_nat_alt)
    then show ?thesis
      using False lt assms(1) by (simp add: managed_obj_convert_to_time_def to_int_small)
  qed
qed

lemma convert_to_time_overflow:
  assumes "1000000 \<le> cps" and "2148 * 10 ^ 6 \<le> unat stamp" and "unat stamp < 2 ^ 31 * 10 ^ 6"
  shows "managed_obj_convert_to_time cps stamp = Inl Undefined_behaviour"
proof -
  have "unat stamp div 1000000 < 2 ^ 31" using assms(3) by simp
  then have sec: "to_int (stamp div 1000000) = int (unat stamp div 1000000)"
    using to_int_div [of stamp 1000000] by simp
  have "2148 \<le> unat stamp div 1000000" using assms(2) by simp
  then have "2148000000 \<le> unat stamp div 1000000 * 1000000" by linarith
  then have "int 2148000000 \<le> int (unat stamp div 1000000 * 1000000)" by (simp only: of_nat_le_iff)
  then have "2 ^ 31 \<le> int (unat stamp div 1000000) * 1000000" by simp
  from int_mult_overflow [OF this]
  have whole: "int_mult (to_int (stamp div 1000000)) 1000000 = Inl Undefined_behaviour"
    by (simp only: sec)
  have ge: "1000000 \<le> stamp" using assms(2) by (simp add: word_le_nat_alt)
  show ?thesis
    by (simp only: managed_obj_convert_to_time_def Let_def ge assms(1) if_True whole andthen_Inl)
qed

lemma time_parts:
  "int (N div 10 ^ 6) * 10 ^ 6 + int (N mod 10 ^ 6 div 1000) * 1000 + int (N mod 1000) = int N \<and>
   0 \<le> int (N div 10 ^ 6) \<and> int (N mod 10 ^ 6 div 1000) \<in> {0..<1000} \<and> int (N mod 1000) \<in> {0..<1000}"
proof -
  have "N mod 1000000 mod 1000 = N mod 1000" by (rule mod_mod_cancel) simp
  then have "N mod 1000000 div 1000 * 1000 + N mod 1000 = N mod 1000000"
    by (metis div_mult_mod_eq)
  then have "N div 1000000 * 1000000 + N mod 1000000 div 1000 * 1000 + N mod 1000 = N"
    by (metis add.assoc div_mult_mod_eq)
  then have "int (N div 1000000 * 1000000 + N mod 1000000 div 1000 * 1000 + N mod 1000) = int N"
    by (simp only:)
  moreover have "N mod 1000000 div 1000 < 1000"
    by (rule less_mult_imp_div_less) simp
  ultimately show ?thesis by simp
qed

text \<open>
  Clock stamps.  With a clock of microseconds, the time of a stamp below 2148 seconds has
  the stamp's seconds, milliseconds and microseconds, and adds up to it; from 2148 seconds on
  (36 minutes), as long as the seconds fit an \<open>int\<close>, the conversion overflows an \<open>int\<close>
  multiplication.
\<close>

theorem convert_to_time_spec:
  assumes "1000000 \<le> cps"
  shows "(unat stamp < 2148 * 10 ^ 6 \<longrightarrow>
      (\<exists>t. managed_obj_convert_to_time cps stamp = Inr t \<and>
        seconds t * 10 ^ 6 + milliseconds t * 1000 + microseconds t = int (unat stamp) \<and>
        0 \<le> seconds t \<and> milliseconds t \<in> {0..<1000} \<and> microseconds t \<in> {0..<1000})) \<and>
    (2148 * 10 ^ 6 \<le> unat stamp \<and> unat stamp < 2 ^ 31 * 10 ^ 6 \<longrightarrow>
      managed_obj_convert_to_time cps stamp = Inl Undefined_behaviour)"
proof (intro conjI impI)
  assume small: "unat stamp < 2148 * 10 ^ 6"
  show "\<exists>t. managed_obj_convert_to_time cps stamp = Inr t \<and>
        seconds t * 10 ^ 6 + milliseconds t * 1000 + microseconds t = int (unat stamp) \<and>
        0 \<le> seconds t \<and> milliseconds t \<in> {0..<1000} \<and> microseconds t \<in> {0..<1000}"
    unfolding convert_to_time_micro [OF assms small]
    by (rule exI, rule conjI [OF refl]) (simp only: ManagedObjTime.select_convs time_parts)
next
  assume "2148 * 10 ^ 6 \<le> unat stamp \<and> unat stamp < 2 ^ 31 * 10 ^ 6"
  then show "managed_obj_convert_to_time cps stamp = Inl Undefined_behaviour"
    by (intro convert_to_time_overflow [OF assms]) blast+
qed

theorem convert_to_time_spec_witness:
  "\<exists>t. managed_obj_convert_to_time 1000000 61002003 = Inr t \<and>
     seconds t * 10 ^ 6 + milliseconds t * 1000 + microseconds t = 61002003"
  using convert_to_time_spec [of 1000000 61002003] by auto

end
