(* ===== verification/ObjChat.thy ===== *)
theory ObjChat
  imports ObjState
begin

text \<open>
  What the message loop does over a whole queue, what allocation gives, and that pinning does not
  nest.
\<close>

section \<open>Allocation\<close>

lemma reserve_commit_retries:
  "\<forall>t \<in> set tries. fst t \<noteq> None \<and> \<not> snd t \<Longrightarrow>
    reserve_commit (tries @ rest) = reserve_commit rest"
  by (induction tries) auto

lemma reserve_commit_faults: "reserve_commit xs = Inl f \<Longrightarrow> f \<in> {Fatal_error, Diverges}"
  by (induction xs rule: reserve_commit.induct) (auto split: if_splits)

text \<open>
  Allocating.  Allocating a scanned pointer tries again while commits fail, and takes the
  address of the first that succeeds: there is then an unpinned, unforwarded object of 32 bytes
  that has the pointer, the scanner and the callback, it is counted and registered for
  finalization, and no other object is touched.  If the MPS is out of memory before a commit
  succeeds, the process dies.
\<close>

theorem make_correct:
  assumes "\<forall>t \<in> set tries. fst t \<noteq> None \<and> \<not> snd t"
  shows "(\<exists>st' h' obj. managed_obj_make_scanned_with_finalizer st h (tries @ (Some a, True) # rest) pointer scanner fin =
      Inr (a, st', h') \<and> h' a = Some obj \<and> word_at obj 0 = Inr pointer \<and> word_at obj 1 = Inr scanner \<and>
      word_at obj 2 = Inr fin \<and> managed_obj_isfwd obj = Inr 0 \<and> \<not> managed_obj_ispinned obj \<and>
      managed_obj_skip ld a obj = Inr (a + 32) \<and> wf_obj ld obj \<and>
      (\<forall>b. b \<noteq> a \<longrightarrow> h' b = h b) \<and> registered st' = registered st @ [a] \<and>
      allocated_obj_bytes st' = allocated_obj_bytes st + 32) \<and>
    managed_obj_make_scanned_with_finalizer st h (tries @ (None, c) # rest) pointer scanner fin = Inl Fatal_error"
  using reserve_commit_retries [OF assms]
  by (simp add: managed_obj_make_scanned_with_finalizer_def count_object_def word_at_def managed_obj_isfwd_def
      managed_obj_ispinned_def managed_obj_skip_def wf_obj_def obj_size_def MANAGED_OBJECT_ALIGN_OBJ_def
      align_word_id sizeof_scanned_pointer_def)

definition new_state :: obj_state where
  "new_state = \<lparr>allocated_bytes = 0, freed_bytes = 0, allocated_obj_bytes = 0, allocated_aligned_obj_bytes = 0,
     freed_obj_bytes = 0, freed_aligned_obj_bytes = 0, pinned_used = 0, registered = []\<rparr>"

theorem make_correct_witness:
  "\<exists>st' h'. managed_obj_make_scanned_with_finalizer new_state Map.empty [(Some 64, False), (Some 96, True)] 5 1 2 =
     Inr (96, st', h') \<and> registered st' = [96]"
  using make_correct [of "[(Some 64, False)]" new_state Map.empty 96 "[]" 5 1 2 16 True]
  by (auto simp: new_state_def)

section \<open>A queue of messages\<close>

fun finalized :: "mps_message list \<Rightarrow> addr list" where
  "finalized [] = []"
| "finalized (Finalization a # ms) = a # finalized ms"
| "finalized (_ # ms) = finalized ms"

text \<open>The first occurrence of each element.\<close>

fun firsts :: "'a list \<Rightarrow> 'a list" where
  "firsts [] = []"
| "firsts (x # xs) = x # filter (\<lambda>y. y \<noteq> x) (firsts xs)"

lemma set_firsts [simp]: "set (firsts xs) = set xs"
  by (induction xs) auto

lemma distinct_firsts [simp]: "distinct (firsts xs)"
  by (induction xs) auto

definition due :: "obj_heap \<Rightarrow> addr \<Rightarrow> bool" where
  "due h a = (case h a of None \<Rightarrow> False
     | Some obj \<Rightarrow> otype obj = MANAGED_OBJECT_TYPE_SCANNED_POINTER \<and> owords obj ! 0 \<noteq> 0 \<and> owords obj ! 2 \<noteq> 0)"

definition call_of :: "obj_heap \<Rightarrow> addr \<Rightarrow> addr \<times> addr" where
  "call_of h a = (owords (the (h a)) ! 2, owords (the (h a)) ! 0)"

definition clear_obj :: "managed_obj \<Rightarrow> managed_obj" where
  "clear_obj obj = (if otype obj = MANAGED_OBJECT_TYPE_SCANNED_POINTER
     then obj\<lparr>owords := (owords obj)[0 := 0]\<rparr> else obj)"

definition bytes_of :: "obj_heap \<Rightarrow> addr \<Rightarrow> size_t" where
  "bytes_of h a = (case map_option otype (h a) of
     Some MANAGED_OBJECT_TYPE_EMPTY \<Rightarrow> sizeof_empty
   | Some MANAGED_OBJECT_TYPE_SCANNED_POINTER \<Rightarrow> sizeof_scanned_pointer
   | _ \<Rightarrow> 0)"

definition aligned_of :: "obj_heap \<Rightarrow> addr \<Rightarrow> size_t" where
  "aligned_of h a = (case map_option otype (h a) of
     Some MANAGED_OBJECT_TYPE_EMPTY \<Rightarrow> MANAGED_OBJECT_ALIGN_OBJ sizeof_empty
   | Some MANAGED_OBJECT_TYPE_SCANNED_POINTER \<Rightarrow> MANAGED_OBJECT_ALIGN_OBJ sizeof_scanned_pointer
   | _ \<Rightarrow> 0)"

text \<open>An object with the words of its type, and callbacks that leave heap and books alone.\<close>

definition fin_ready :: "obj_heap \<Rightarrow> addr \<Rightarrow> bool" where
  "fin_ready h a = (case h a of None \<Rightarrow> False
     | Some obj \<Rightarrow> otype obj = MANAGED_OBJECT_TYPE_SCANNED_POINTER \<longrightarrow> length (owords obj) = 3)"

definition books :: "'z obj_state_scheme \<Rightarrow> size_t \<times> size_t \<times> size_t \<times> size_t \<times> addr list" where
  "books st = (allocated_obj_bytes st, allocated_aligned_obj_bytes st, freed_obj_bytes st,
     freed_aligned_obj_bytes st, registered st)"

definition tame :: "'z callbacks \<Rightarrow> bool" where
  "tame cb \<longleftrightarrow> (\<forall>f p st h. snd (cb f p (st, h)) = h \<and> books (fst (cb f p (st, h))) = books st)"

definition cleared :: "addr set \<Rightarrow> obj_heap \<Rightarrow> obj_heap" where
  "cleared A h = (\<lambda>a. if a \<in> A then map_option clear_obj (h a) else h a)"

lemma clear_obj_otype [simp]: "otype (clear_obj obj) = otype obj"
  by (simp add: clear_obj_def)

lemma clear_obj_idem [simp]: "clear_obj (clear_obj obj) = clear_obj obj"
  by (simp add: clear_obj_def)

lemma cleared_empty [simp]: "cleared {} h = h"
  by (simp add: cleared_def)

lemma cleared_cleared: "cleared A (cleared B h) = cleared (A \<union> B) h"
  by (auto simp: cleared_def option.map_comp o_def)

lemma cleared_otype [simp]: "map_option otype (cleared A h a) = map_option otype (h a)"
  by (cases "h a") (simp_all add: cleared_def)

lemma bytes_cleared [simp]: "bytes_of (cleared A h) = bytes_of h" "aligned_of (cleared A h) = aligned_of h"
  by (simp_all add: fun_eq_iff bytes_of_def aligned_of_def)

lemma ready_cleared [simp]: "fin_ready (cleared A h) a = fin_ready h a"
  by (auto simp: fin_ready_def cleared_def clear_obj_def split: option.split)

lemma due_cleared: "fin_ready h b \<Longrightarrow> due (cleared {a} h) b \<longleftrightarrow> due h b \<and> b \<noteq> a"
  by (auto simp: due_def cleared_def clear_obj_def fin_ready_def split: option.splits)

lemma call_of_cleared: "b \<noteq> a \<Longrightarrow> call_of (cleared {a} h) b = call_of h b"
  by (simp add: call_of_def cleared_def)

text \<open>One message.\<close>

lemma finalize_object_tame:
  assumes "tame cb" and "fin_ready h a"
  shows "\<exists>st'. finalize_object cb a (st, h, calls) =
      Inr (st', cleared {a} h, calls @ (if due h a then [call_of h a] else [])) \<and>
    books st' = (allocated_obj_bytes st, allocated_aligned_obj_bytes st, freed_obj_bytes st + bytes_of h a,
      freed_aligned_obj_bytes st + aligned_of h a, remove1 a (registered st))"
proof -
  from assms(2) obtain obj where obj: "h a = Some obj"
    and len: "otype obj = MANAGED_OBJECT_TYPE_SCANNED_POINTER \<Longrightarrow> length (owords obj) = 3"
    by (auto simp: fin_ready_def split: option.splits)
  have upd: "h(a \<mapsto> clear_obj obj) = cleared {a} h" using obj by (auto simp: cleared_def)
  show ?thesis
  proof (cases "otype obj = MANAGED_OBJECT_TYPE_SCANNED_POINTER")
    case False
    then have "clear_obj obj = obj" by (simp add: clear_obj_def)
    with upd obj have "cleared {a} h = h" by (metis fun_upd_triv)
    then show ?thesis
      using False obj
      by (cases "otype obj")
        (simp_all add: finalize_object_def count_freed_def due_def books_def bytes_of_def aligned_of_def)
  next
    case True
    from len [OF True] obtain p sc f where w: "owords obj = [p, sc, f]"
      by (auto simp: length_Suc_conv numeral_3_eq_3)
    let ?st = "count_freed sizeof_scanned_pointer (st\<lparr>registered := remove1 a (registered st)\<rparr>)"
    obtain st1 h1 where cb: "cb f p (?st, h) = (st1, h1)" by (metis surj_pair)
    with assms(1) have tame: "h1 = h" "books st1 = books ?st"
      unfolding tame_def by (metis fst_conv snd_conv)+
    have clear: "obj\<lparr>owords := [0, sc, f]\<rparr> = clear_obj obj" using True w by (simp add: clear_obj_def)
    have zero: "p = 0 \<Longrightarrow> clear_obj obj = obj" using True w by (simp add: clear_obj_def)
    show ?thesis
      using obj True w cb tame upd [symmetric] clear zero
      by (cases "p = 0"; cases "f = 0")
        (simp_all add: finalize_object_def clear_pointer_def call_finalizer_def word_at_def set_word_def
          due_def call_of_def bytes_of_def aligned_of_def books_def count_freed_def fun_upd_idem)
  qed
qed

lemma calls_after:
  assumes "\<forall>b \<in> set xs. fin_ready h b"
  shows "map (call_of (cleared {a} h)) (filter (due (cleared {a} h)) (firsts xs)) =
    map (call_of h) (filter (due h) (filter (\<lambda>b. b \<noteq> a) (firsts xs)))"
proof -
  have "filter (due (cleared {a} h)) (firsts xs) = filter (\<lambda>b. due h b \<and> b \<noteq> a) (firsts xs)"
    by (rule filter_cong [OF refl]) (use assms in \<open>simp add: due_cleared\<close>)
  then show ?thesis by (simp add: call_of_cleared filter_filter conj_commute)
qed

lemma chat_outcome:
  assumes "tame cb" and "\<forall>a \<in> set (finalized ms). fin_ready h a"
  shows "\<exists>st'. managed_obj_mps_chat cb ms (st, h, calls) = Inr (st', cleared (set (finalized ms)) h,
      calls @ map (call_of h) (filter (due h) (firsts (finalized ms)))) \<and>
    books st' = (allocated_obj_bytes st, allocated_aligned_obj_bytes st,
      freed_obj_bytes st + sum_list (map (bytes_of h) (finalized ms)),
      freed_aligned_obj_bytes st + sum_list (map (aligned_of h) (finalized ms)),
      fold remove1 (finalized ms) (registered st))"
  using assms(2)
proof (induction ms arbitrary: st h calls rule: finalized.induct)
  case 1
  then show ?case by (simp add: books_def)
next
  case (2 a ms)
  have "fin_ready h a" using 2(2) by simp
  from finalize_object_tame [OF assms(1) this, of st calls] obtain st1 where st1:
    "finalize_object cb a (st, h, calls) =
      Inr (st1, cleared {a} h, calls @ (if due h a then [call_of h a] else []))"
    "books st1 = (allocated_obj_bytes st, allocated_aligned_obj_bytes st, freed_obj_bytes st + bytes_of h a,
      freed_aligned_obj_bytes st + aligned_of h a, remove1 a (registered st))"
    by blast
  have ready: "\<forall>b \<in> set (finalized ms). fin_ready (cleared {a} h) b" using 2(2) by simp
  from 2(1) [OF this, of st1 "calls @ (if due h a then [call_of h a] else [])"] obtain st2 where st2:
    "managed_obj_mps_chat cb ms (st1, cleared {a} h, calls @ (if due h a then [call_of h a] else [])) =
      Inr (st2, cleared (set (finalized ms)) (cleared {a} h), calls @ (if due h a then [call_of h a] else []) @
        map (call_of (cleared {a} h)) (filter (due (cleared {a} h)) (firsts (finalized ms))))"
    "books st2 = (allocated_obj_bytes st1, allocated_aligned_obj_bytes st1,
      freed_obj_bytes st1 + sum_list (map (bytes_of h) (finalized ms)),
      freed_aligned_obj_bytes st1 + sum_list (map (aligned_of h) (finalized ms)),
      fold remove1 (finalized ms) (registered st1))"
    by auto
  have "cleared (set (finalized ms)) (cleared {a} h) = cleared (set (finalized (Finalization a # ms))) h"
    by (simp add: cleared_cleared Un_commute)
  moreover have "map (call_of (cleared {a} h)) (filter (due (cleared {a} h)) (firsts (finalized ms))) =
    map (call_of h) (filter (due h) (filter (\<lambda>b. b \<noteq> a) (firsts (finalized ms))))"
    by (rule calls_after) (use 2(2) in simp)
  ultimately show ?case using st1 st2 by (auto simp: books_def add.assoc)
qed simp_all

text \<open>
  C29: Finalization.  If the callbacks leave the heap and the object counters alone, the message
  loop takes the whole queue without a fault; for each scanned pointer with a message, its
  callback is called exactly once with its pointer (in the order of the first messages, and not
  if one of the two is null), however many messages the object has; its pointer is null
  afterwards, all other memory is as before, and every message counts its object's bytes as
  freed.
\<close>

theorem chat_finalizes_once:
  assumes "tame cb" and "\<forall>a \<in> set (finalized ms). fin_ready h a"
  shows "\<exists>st'. managed_obj_mps_chat cb ms (st, h, calls) = Inr (st', cleared (set (finalized ms)) h,
      calls @ map (call_of h) (filter (due h) (firsts (finalized ms)))) \<and>
    freed_obj_bytes st' = freed_obj_bytes st + sum_list (map (bytes_of h) (finalized ms)) \<and>
    freed_aligned_obj_bytes st' = freed_aligned_obj_bytes st + sum_list (map (aligned_of h) (finalized ms))"
  using chat_outcome [OF assms, of st calls] by (auto simp: books_def)

definition quiet :: "'z callbacks" where
  "quiet f p w = w"

lemma tame_quiet: "tame quiet"
  by (simp add: tame_def quiet_def)

definition two_objects :: obj_heap where
  "two_objects = [64 \<mapsto> \<lparr>otype = MANAGED_OBJECT_TYPE_SCANNED_POINTER, opinned = False, owords = [5, 1, 2]\<rparr>,
     96 \<mapsto> \<lparr>otype = MANAGED_OBJECT_TYPE_EMPTY, opinned = False, owords = [0, 0]\<rparr>]"

theorem chat_finalizes_once_witness:
  "\<exists>st' h'. managed_obj_mps_chat quiet [Gc_start, Finalization 64, Finalization 96, Gc, Finalization 64]
     (new_state, two_objects, []) = Inr (st', h', [(2, 5)]) \<and> freed_obj_bytes st' = 72"
proof -
  let ?ms = "[Gc_start, Finalization 64, Finalization 96, Gc, Finalization 64]"
  have "\<forall>a \<in> set (finalized ?ms). fin_ready two_objects a"
    by (simp add: two_objects_def fin_ready_def)
  from chat_finalizes_once [OF tame_quiet this, of new_state "[]"] show ?thesis
    by (auto simp: two_objects_def due_def call_of_def bytes_of_def new_state_def sizeof_defs)
qed

section \<open>Taking messages off the register\<close>

lemma fold_remove1:
  assumes "distinct xs" and "distinct ys" and "set xs \<subseteq> set ys"
  shows "distinct (fold remove1 xs ys) \<and> set (fold remove1 xs ys) = set ys - set xs \<and>
    sum_list (map f ys) = sum_list (map f xs) + (sum_list (map f (fold remove1 xs ys)) :: 64 word)"
  using assms
proof (induction xs arbitrary: ys)
  case (Cons x xs)
  have x: "x \<in> set ys" using Cons.prems by simp
  have "set xs \<subseteq> set (remove1 x ys)" using Cons.prems by auto
  with Cons.IH [of "remove1 x ys"] Cons.prems sum_list_map_remove1 [OF x, of f]
  show ?case by (auto simp: add.assoc)
qed simp

section \<open>Pinning\<close>

fun pin_ops :: "bool list \<Rightarrow> obj_state \<times> managed_obj \<Rightarrow> obj_state \<times> managed_obj" where
  "pin_ops [] w = w"
| "pin_ops (b # bs) (st, obj) = pin_ops bs (if b then managed_obj_pin st obj else managed_obj_unpin st obj)"

text \<open>
  Pinning does not nest.  After any sequence of pins and unpins of an object, it is pinned
  if the last of them was a pin, while the counter has moved by the number of pins minus the
  number of unpins: two pins and one unpin leave an object that is not pinned and a counter
  that is one too high.
\<close>

theorem pin_does_not_nest:
  "let w = pin_ops bs (st, obj) in
     managed_obj_ispinned (snd w) = (if bs = [] then managed_obj_ispinned obj else last bs) \<and>
     pinned_used (fst w) = pinned_used st + of_nat (count_list bs True) - of_nat (count_list bs False)"
proof (induction bs arbitrary: st obj)
  case (Cons b bs)
  show ?case
    using Cons [of "fst (managed_obj_pin st obj)" "snd (managed_obj_pin st obj)"]
      Cons [of "fst (managed_obj_unpin st obj)" "snd (managed_obj_unpin st obj)"]
    by (cases b) (auto simp: Let_def managed_obj_pin_def managed_obj_unpin_def managed_obj_ispinned_def)
qed (simp add: Let_def)

end
