(* ===== verification/ObjMemory.thy ===== *)
theory ObjMemory
  imports ObjChat
begin

text \<open>
  The memory of the client's values: \<open>managed_obj_new\<close>, \<open>managed_obj_delete\<close> and
  \<open>managed_obj_volatile_memset\<close> of \<open>include/managed_object_obj.h\<close>, and the callback that
  \<open>src/managed_object_obj.c\<close> takes when the client gives none.  The state is extended by the blocks
  that \<open>malloc\<close> has given out, so that a finalization callback that frees a block twice, or
  touches one that is gone, is seen as such.  Which address \<open>malloc\<close> answers is an argument.
\<close>

section \<open>Blocks\<close>

text \<open>A block is its bytes, those never written being \<open>None\<close>; a block that was freed is not there.\<close>

type_synonym block = "byte option list"

datatype life_event = Constructed addr | Destructed addr | Freed addr

record client_memory =
  blocks :: "addr \<Rightarrow> block option"
  life :: "life_event list"
    \<comment> \<open>ghost: the constructor and destructor calls and the blocks freed, in order\<close>

text \<open>The state of a client; the memory is the fault instead once something undefined was done.\<close>

record client_state = obj_state +
  client_memory :: "fault + client_memory"

definition c_malloc :: "addr \<Rightarrow> size_t \<Rightarrow> client_memory \<Rightarrow> client_memory" where
  "c_malloc p s m = (if p = 0 then m else m\<lparr>blocks := (blocks m)(p \<mapsto> replicate (unat s) None)\<rparr>)"

definition c_free :: "addr \<Rightarrow> client_memory \<Rightarrow> fault + client_memory" where
  "c_free p m =
     (if p = 0 then Inr m
      else case blocks m p of
             None \<Rightarrow> Inl Undefined_behaviour
           | Some bs \<Rightarrow> Inr (m\<lparr>blocks := (blocks m)(p := None), life := life m @ [Freed p]\<rparr>))"

text \<open>The loop that fills bytes from \<open>i\<close> on.\<close>

primrec memset_loop :: "byte \<Rightarrow> nat \<Rightarrow> nat \<Rightarrow> block \<Rightarrow> fault + block" where
  "memset_loop value 0 i bs = Inr bs"
| "memset_loop value (Suc n) i bs =
     (if length bs \<le> i then Inl Undefined_behaviour else memset_loop value n (Suc i) (bs[i := Some value]))"

text \<open>Compiled as C++ the function fills with 0, whatever the value.\<close>

definition managed_obj_volatile_memset :: "bool \<Rightarrow> addr \<Rightarrow> byte \<Rightarrow> size_t \<Rightarrow> client_memory \<Rightarrow> fault + client_memory" where
  "managed_obj_volatile_memset cplusplus ptr value length_in_bytes m =
     (if length_in_bytes = 0 then Inr m
      else case blocks m ptr of
             None \<Rightarrow> Inl Undefined_behaviour
           | Some bs \<Rightarrow>
               andthen (memset_loop (if cplusplus then 0 else value) (unat length_in_bytes) 0 bs) (\<lambda>bs1.
                 Inr (m\<lparr>blocks := (blocks m)(ptr \<mapsto> bs1)\<rparr>)))"

section \<open>Making and deleting values\<close>

text \<open>A type of the client: its size, and the bytes of a value after its constructor.\<close>

record ctype =
  sizeof_T :: size_t
  construct_T :: block

definition constructor :: "ctype \<Rightarrow> addr \<Rightarrow> client_memory \<Rightarrow> fault + client_memory" where
  "constructor T p m =
     (case blocks m p of
        None \<Rightarrow> Inl Undefined_behaviour
      | Some bs \<Rightarrow> Inr (m\<lparr>blocks := (blocks m)(p \<mapsto> construct_T T), life := life m @ [Constructed p]\<rparr>))"

definition destructor_T :: "addr \<Rightarrow> client_memory \<Rightarrow> fault + client_memory" where
  "destructor_T p m =
     (case blocks m p of
        None \<Rightarrow> Inl Undefined_behaviour
      | Some bs \<Rightarrow> Inr (m\<lparr>life := life m @ [Destructed p]\<rparr>))"

text \<open>The answer of \<open>malloc\<close> goes to the constructor unchecked.\<close>

definition managed_obj_new :: "ctype \<Rightarrow> addr \<Rightarrow> client_state \<Rightarrow> addr \<times> client_state" where
  "managed_obj_new T p st =
     (case managed_obj_malloc st (sizeof_T T) p of (q, st1) \<Rightarrow>
        (q, st1\<lparr>client_memory := andthen (client_memory st1) (\<lambda>m. constructor T q (c_malloc q (sizeof_T T) m))\<rparr>))"

definition managed_obj_delete :: "size_t \<Rightarrow> addr \<Rightarrow> client_state \<Rightarrow> client_state" where
  "managed_obj_delete sizeof_ty ptr st =
     (managed_obj_free st ptr sizeof_ty)\<lparr>client_memory :=
        andthen (client_memory st) (\<lambda>m.
        andthen (destructor_T ptr m) (\<lambda>m1.
        andthen (managed_obj_volatile_memset True ptr 0 sizeof_ty m1) (\<lambda>m2.
        c_free ptr m2)))\<rparr>"

text \<open>The callback of objects that are made without one.\<close>

definition managed_obj_no_finalization_callback :: "addr \<Rightarrow> client_state \<Rightarrow> client_state" where
  "managed_obj_no_finalization_callback p st = st\<lparr>client_memory := andthen (client_memory st) (c_free p)\<rparr>"

text \<open>
  The finalization callbacks of a program: at an address there is the one that deletes a value
  of a type of some size, as in the README, or the default one.
\<close>

datatype finalizer = Delete size_t | No_callback

definition run_finalizer :: "(addr \<Rightarrow> finalizer) \<Rightarrow> addr \<Rightarrow> addr \<Rightarrow> client_state \<Rightarrow> client_state" where
  "run_finalizer fins f p st =
     (case fins f of Delete n \<Rightarrow> managed_obj_delete n p st | No_callback \<Rightarrow> managed_obj_no_finalization_callback p st)"

definition client_callbacks :: "(addr \<Rightarrow> finalizer) \<Rightarrow> unit client_state_ext callbacks" where
  "client_callbacks fins f p w = (case w of (st, h) \<Rightarrow> (run_finalizer fins f p st, h))"

section \<open>What one callback does\<close>

lemma memset_loop_fill:
  "i + n \<le> length bs \<Longrightarrow>
    memset_loop v n i bs = Inr (take i bs @ replicate n (Some v) @ drop (i + n) bs)"
proof (induction n arbitrary: i bs)
  case (Suc n)
  then show ?case by (simp add: take_Suc_conv_app_nth drop_update_swap replicate_app_Cons_same)
qed simp

lemma memset_fills:
  assumes "blocks m p = Some bs" and "length bs = unat n"
  shows "managed_obj_volatile_memset cpp p v n m =
    Inr (m\<lparr>blocks := (blocks m)(p \<mapsto> replicate (unat n) (Some (if cpp then 0 else v)))\<rparr>)"
proof (cases "n = 0")
  case True
  with assms have "(blocks m)(p \<mapsto> []) = blocks m" by (simp add: fun_upd_idem)
  with True show ?thesis by (simp add: managed_obj_volatile_memset_def)
next
  case False
  with assms show ?thesis by (simp add: managed_obj_volatile_memset_def memset_loop_fill)
qed

text \<open>The callbacks touch neither the heap of objects nor its books.\<close>

lemma run_finalizer_books [simp]: "books (run_finalizer fins f p st) = books st"
  by (simp add: run_finalizer_def managed_obj_delete_def managed_obj_no_finalization_callback_def
      managed_obj_free_def books_def split: finalizer.split)

lemma tame_client_callbacks: "tame (client_callbacks fins)"
  by (simp add: tame_def client_callbacks_def)

definition counted :: "(addr \<Rightarrow> finalizer) \<Rightarrow> addr \<Rightarrow> size_t" where
  "counted fins f = (case fins f of Delete n \<Rightarrow> n | No_callback \<Rightarrow> 0)"

text \<open>The block at \<open>p\<close> suits the callback at \<open>f\<close>: a value that is deleted has the size of its type.\<close>

definition suits :: "(addr \<Rightarrow> finalizer) \<Rightarrow> client_memory \<Rightarrow> addr \<times> addr \<Rightarrow> bool" where
  "suits fins m c = (case blocks m (snd c) of None \<Rightarrow> False
     | Some bs \<Rightarrow> snd c \<noteq> 0 \<and> (\<forall>n. fins (fst c) = Delete n \<longrightarrow> length bs = unat n))"

definition ends :: "(addr \<Rightarrow> finalizer) \<Rightarrow> addr \<times> addr \<Rightarrow> life_event list" where
  "ends fins c = (if fins (fst c) = No_callback then [Freed (snd c)] else [Destructed (snd c), Freed (snd c)])"

lemma run_finalizer_frees:
  assumes "client_memory st = Inr m" and "suits fins m c"
  shows "client_memory (run_finalizer fins (fst c) (snd c) st) =
      Inr (m\<lparr>blocks := (blocks m)(snd c := None), life := life m @ ends fins c\<rparr>)"
    and "freed_bytes (run_finalizer fins (fst c) (snd c) st) = freed_bytes st + counted fins (fst c)"
    and "allocated_bytes (run_finalizer fins (fst c) (snd c) st) = allocated_bytes st"
proof -
  from assms(2) obtain bs where bs: "blocks m (snd c) = Some bs" "snd c \<noteq> 0"
    "\<And>n. fins (fst c) = Delete n \<Longrightarrow> length bs = unat n"
    by (auto simp: suits_def split: option.splits)
  show "client_memory (run_finalizer fins (fst c) (snd c) st) =
      Inr (m\<lparr>blocks := (blocks m)(snd c := None), life := life m @ ends fins c\<rparr>)"
    using bs assms(1) memset_fills [of "m\<lparr>life := life m @ [Destructed (snd c)]\<rparr>" "snd c" bs]
    by (cases "fins (fst c)")
      (simp_all add: run_finalizer_def managed_obj_delete_def managed_obj_no_finalization_callback_def
        managed_obj_free_def destructor_T_def c_free_def ends_def)
  show "freed_bytes (run_finalizer fins (fst c) (snd c) st) = freed_bytes st + counted fins (fst c)"
    and "allocated_bytes (run_finalizer fins (fst c) (snd c) st) = allocated_bytes st"
    using bs(2) by (cases "fins (fst c)"; simp add: run_finalizer_def managed_obj_delete_def
        managed_obj_no_finalization_callback_def managed_obj_free_def counted_def)+
qed

section \<open>What a whole queue does\<close>

definition own :: "client_state \<Rightarrow> size_t \<times> size_t \<times> (fault + client_memory)" where
  "own st = (allocated_bytes st, freed_bytes st, client_memory st)"

definition run_all_finalizers :: "(addr \<Rightarrow> finalizer) \<Rightarrow> (addr \<times> addr) list \<Rightarrow> client_state \<Rightarrow> client_state" where
  "run_all_finalizers fins cs st = fold (\<lambda>c. run_finalizer fins (fst c) (snd c)) cs st"

lemma run_finalizer_own: "own st = own st' \<Longrightarrow> own (run_finalizer fins f p st) = own (run_finalizer fins f p st')"
  by (simp add: own_def run_finalizer_def managed_obj_delete_def managed_obj_no_finalization_callback_def
      managed_obj_free_def split: finalizer.split)

lemma run_all_own: "own st = own st' \<Longrightarrow> own (run_all_finalizers fins cs st) = own (run_all_finalizers fins cs st')"
proof (induction cs arbitrary: st st')
  case (Cons c cs)
  from Cons.IH [OF run_finalizer_own [OF Cons.prems]] show ?case by (simp add: run_all_finalizers_def)
qed (simp add: run_all_finalizers_def)

lemma own_registered [simp]: "own (st\<lparr>registered := r\<rparr>) = own st"
  unfolding own_def by simp

lemma own_count [simp]: "own (count_freed n st) = own st"
  unfolding own_def count_freed_def by simp

lemma finalize_object_replay:
  assumes "finalize_object (client_callbacks fins) a (st, h, calls) = Inr (st', h', calls')"
  shows "\<exists>cs. calls' = calls @ cs \<and> own st' = own (run_all_finalizers fins cs st)"
proof -
  let ?st = "\<lambda>n. count_freed n (st\<lparr>registered := remove1 a (registered st)\<rparr>)"
  have "own (run_finalizer fins f p (?st n)) = own (run_finalizer fins f p st)" for f p n
    by (rule run_finalizer_own) simp
  then have one: "own (run_finalizer fins f p (?st n)) = own (run_all_finalizers fins [(f, p)] st)" for f p n
    by (simp add: run_all_finalizers_def)
  have none: "own st = own (run_all_finalizers fins [] st)" by (simp add: run_all_finalizers_def)
  have "(calls' = calls \<and> own st' = own st) \<or>
      (\<exists>f p n. calls' = calls @ [(f, p)] \<and> st' = run_finalizer fins f p (?st n))"
    using assms
    by (auto simp: finalize_object_def clear_pointer_def call_finalizer_def client_callbacks_def ebind Let_def
        split: option.splits if_splits)
  then show ?thesis using one none by (metis append_Nil2)
qed

lemma chat_replay:
  "managed_obj_mps_chat (client_callbacks fins) ms (st, h, calls) = Inr (st', h', calls') \<Longrightarrow>
    \<exists>cs. calls' = calls @ cs \<and> own st' = own (run_all_finalizers fins cs st)"
proof (induction ms arbitrary: st h calls rule: finalized.induct)
  case (2 a ms)
  from 2(2) obtain st1 h1 calls1 where
    step: "finalize_object (client_callbacks fins) a (st, h, calls) = Inr (st1, h1, calls1)"
    and rest: "managed_obj_mps_chat (client_callbacks fins) ms (st1, h1, calls1) = Inr (st', h', calls')"
    by (auto simp: ebind)
  from finalize_object_replay [OF step] obtain c1 where
    c1: "calls1 = calls @ c1" "own st1 = own (run_all_finalizers fins c1 st)" by blast
  from 2(1) [OF rest] obtain c2 where
    c2: "calls' = calls1 @ c2" "own st' = own (run_all_finalizers fins c2 st1)" by blast
  have "own st' = own (run_all_finalizers fins (c1 @ c2) st)"
    using c2(2) run_all_own [OF c1(2)] by (simp add: run_all_finalizers_def)
  with c1(1) c2(1) show ?case by (intro exI [of _ "c1 @ c2"]) simp
qed (auto simp: run_all_finalizers_def)

text \<open>Callbacks with different blocks free each its own.\<close>

lemma run_all_frees:
  assumes "client_memory st = Inr m" and "distinct (map snd cs)" and "\<forall>c \<in> set cs. suits fins m c"
  shows "own (run_all_finalizers fins cs st) =
    (allocated_bytes st, freed_bytes st + sum_list (map (\<lambda>c. counted fins (fst c)) cs),
     Inr (m\<lparr>blocks := (\<lambda>p. if p \<in> snd ` set cs then None else blocks m p), life := life m @ concat (map (ends fins) cs)\<rparr>))"
  using assms
proof (induction cs arbitrary: st m)
  case Nil
  then show ?case by (simp add: run_all_finalizers_def own_def)
next
  case (Cons c cs)
  let ?st = "run_finalizer fins (fst c) (snd c) st"
  let ?m = "m\<lparr>blocks := (blocks m)(snd c := None), life := life m @ ends fins c\<rparr>"
  have "suits fins m c" using Cons.prems(3) by simp
  note one = run_finalizer_frees [OF Cons.prems(1) this]
  have "snd c \<notin> snd ` set cs" using Cons.prems(2) by simp
  then have "\<forall>d \<in> set cs. snd d \<noteq> snd c" by (metis image_eqI)
  then have "\<forall>d \<in> set cs. suits fins ?m d" using Cons.prems(3) by (simp add: suits_def)
  from Cons.IH [OF one(1) _ this] Cons.prems(2)
  have "own (run_all_finalizers fins cs ?st) =
    (allocated_bytes st, freed_bytes st + counted fins (fst c) + sum_list (map (\<lambda>c. counted fins (fst c)) cs),
     Inr (?m\<lparr>blocks := (\<lambda>p. if p \<in> snd ` set cs then None else blocks ?m p), life := life ?m @ concat (map (ends fins) cs)\<rparr>))"
    by (simp add: one)
  moreover have "(\<lambda>p. if p \<in> snd ` set cs then None else blocks ?m p) =
      (\<lambda>p. if p \<in> snd ` set (c # cs) then None else blocks m p)" by auto
  ultimately show ?case by (simp add: run_all_finalizers_def add.assoc)
qed

section \<open>A program whose objects own values\<close>

text \<open>
  The states of a program that makes a value with \<open>managed_obj_new\<close> and gives it to a new object, whose
  callback deletes a value of that type or is the default one; it pins objects and takes messages.
  \<open>malloc\<close> gives a block where there is none and the MPS memory where no registered object is.
\<close>

definition client_start :: client_state where
  "client_start = obj_state.extend new_state (client_state.fields (Inr \<lparr>blocks = Map.empty, life = []\<rparr>))"

inductive client_program :: "(addr \<Rightarrow> finalizer) \<Rightarrow> client_state \<Rightarrow> obj_heap \<Rightarrow> bool" for fins where
  start: "client_program fins client_start Map.empty"
| make: "client_program fins st h \<Longrightarrow> managed_obj_new T q st = (p, st1) \<Longrightarrow>
    q \<noteq> 0 \<Longrightarrow> (\<forall>m. client_memory st = Inr m \<longrightarrow> blocks m q = None) \<Longrightarrow>
    length (construct_T T) = unat (sizeof_T T) \<Longrightarrow> f \<noteq> 0 \<Longrightarrow> fins f \<in> {Delete (sizeof_T T), No_callback} \<Longrightarrow>
    managed_obj_make_scanned_with_finalizer st1 h attempts p sc f = Inr (a, st2, h2) \<Longrightarrow>
    a \<notin> set (registered st) \<Longrightarrow> client_program fins st2 h2"
| make_empty: "client_program fins st h \<Longrightarrow> managed_obj_make_empty st h attempts = Inr (a, st', h') \<Longrightarrow>
    a \<notin> set (registered st) \<Longrightarrow> client_program fins st' h'"
| pin: "client_program fins st h \<Longrightarrow> h a = Some obj \<Longrightarrow> managed_obj_pin st obj = (st', obj') \<Longrightarrow>
    client_program fins st' (h(a \<mapsto> obj'))"
| unpin: "client_program fins st h \<Longrightarrow> h a = Some obj \<Longrightarrow> managed_obj_unpin st obj = (st', obj') \<Longrightarrow>
    client_program fins st' (h(a \<mapsto> obj'))"
| chat: "client_program fins st h \<Longrightarrow> distinct (finalized ms) \<Longrightarrow> set (finalized ms) \<subseteq> set (registered st) \<Longrightarrow>
    managed_obj_mps_chat (client_callbacks fins) ms (st, h, []) = Inr (st', h', calls) \<Longrightarrow> client_program fins st' h'"

text \<open>The value an object still owns, and the bytes its callback will count as freed.\<close>

definition owned :: "obj_heap \<Rightarrow> addr \<Rightarrow> addr option" where
  "owned h a = (if due h a then Some (snd (call_of h a)) else None)"

definition debt :: "(addr \<Rightarrow> finalizer) \<Rightarrow> obj_heap \<Rightarrow> addr \<Rightarrow> size_t" where
  "debt fins h a = (if due h a then counted fins (fst (call_of h a)) else 0)"

text \<open>Every block belongs to exactly one registered object, and suits its callback.\<close>

definition owners :: "(addr \<Rightarrow> finalizer) \<Rightarrow> addr list \<Rightarrow> obj_heap \<Rightarrow> client_memory \<Rightarrow> bool" where
  "owners fins as h m \<longleftrightarrow> distinct as \<and> (\<forall>a \<in> set as. fin_ready h a \<and> (due h a \<longrightarrow> suits fins m (call_of h a))) \<and>
     (\<forall>a \<in> set as. \<forall>b \<in> set as. owned h a \<noteq> None \<longrightarrow> owned h a = owned h b \<longrightarrow> a = b) \<and>
     (\<forall>p. blocks m p \<noteq> None \<longrightarrow> (\<exists>a \<in> set as. owned h a = Some p))"

definition in_order :: "(addr \<Rightarrow> finalizer) \<Rightarrow> client_memory \<Rightarrow> bool" where
  "in_order fins m \<longleftrightarrow> (\<forall>p. count_list (life m) (Constructed p) =
       count_list (life m) (Freed p) + (if blocks m p = None then 0 else 1)) \<and>
     ((\<forall>f. fins f \<noteq> No_callback) \<longrightarrow> (\<forall>p. count_list (life m) (Destructed p) = count_list (life m) (Freed p)))"

definition client_ok :: "(addr \<Rightarrow> finalizer) \<Rightarrow> client_state \<Rightarrow> obj_heap \<Rightarrow> client_memory \<Rightarrow> bool" where
  "client_ok fins st h m \<longleftrightarrow> client_memory st = Inr m \<and> owners fins (registered st) h m \<and> in_order fins m \<and>
     ((\<forall>f. fins f \<noteq> No_callback) \<longrightarrow>
       allocated_bytes st = freed_bytes st + sum_list (map (debt fins h) (registered st)))"

text \<open>What an object owns depends on its memory only.\<close>

lemma owned_cong: "h' a = h a \<Longrightarrow> due h' a = due h a \<and> call_of h' a = call_of h a \<and> owned h' a = owned h a \<and>
    debt fins h' a = debt fins h a \<and> fin_ready h' a = fin_ready h a"
  by (simp add: due_def call_of_def owned_def debt_def fin_ready_def)

lemma debts_cong: "(\<And>b. b \<in> set as \<Longrightarrow> h' b = h b) \<Longrightarrow>
    sum_list (map (debt fins h') as) = sum_list (map (debt fins h) as)"
  by (intro arg_cong [where f = sum_list]) (simp add: debt_def due_def call_of_def)

lemma owned_Some: "owned h a = Some p \<longleftrightarrow> due h a \<and> snd (call_of h a) = p"
  by (simp add: owned_def)

lemma owners_unique:
  "owners fins as h m \<Longrightarrow> a \<in> set as \<Longrightarrow> b \<in> set as \<Longrightarrow> owned h a = Some p \<Longrightarrow> owned h b = Some p \<Longrightarrow> a = b"
  unfolding owners_def by (metis option.simps(3))

lemma due_pinned: "h a = Some obj \<Longrightarrow> obj' = obj\<lparr>opinned := b\<rparr> \<Longrightarrow>
    due (h(a \<mapsto> obj')) c = due h c \<and> call_of (h(a \<mapsto> obj')) c = call_of h c \<and> owned (h(a \<mapsto> obj')) c = owned h c \<and>
    debt fins (h(a \<mapsto> obj')) c = debt fins h c \<and> fin_ready (h(a \<mapsto> obj')) c = fin_ready h c"
  by (cases "c = a") (auto simp: due_def call_of_def owned_def debt_def fin_ready_def)

lemma client_ok_pinned:
  assumes "client_ok fins st h m" and "h a = Some obj" and "obj' = obj\<lparr>opinned := b\<rparr>"
    and "own st' = own st" and "registered st' = registered st"
  shows "client_ok fins st' (h(a \<mapsto> obj')) m"
proof -
  note same = due_pinned [where h = h and a = a and fins = fins and obj = obj and obj' = obj', OF assms(2,3)]
  then have "due (h(a \<mapsto> obj')) = due h" "call_of (h(a \<mapsto> obj')) = call_of h" "owned (h(a \<mapsto> obj')) = owned h"
    "debt fins (h(a \<mapsto> obj')) = debt fins h" "fin_ready (h(a \<mapsto> obj')) = fin_ready h" by auto
  moreover from this have "owners fins as (h(a \<mapsto> obj')) m = owners fins as h m" for as by (simp add: owners_def)
  ultimately show ?thesis using assms(1,4,5) by (simp add: client_ok_def own_def)
qed

section \<open>The invariant\<close>

text \<open>A new object, with the value it owns or with none.\<close>

lemma owners_new:
  assumes "owners fins as h m" and "a \<notin> set as" and "fin_ready h' a" and "\<And>b. b \<noteq> a \<Longrightarrow> h' b = h b"
    and "blocks m' = (case owned h' a of None \<Rightarrow> blocks m | Some p \<Rightarrow> (blocks m)(p \<mapsto> bs))"
    and "\<And>p. owned h' a = Some p \<Longrightarrow> blocks m p = None"
    and "due h' a \<Longrightarrow> suits fins m' (call_of h' a)"
  shows "owners fins (as @ [a]) h' m'"
proof -
  have old: "due h' b = due h b" "call_of h' b = call_of h b" "owned h' b = owned h b" "fin_ready h' b = fin_ready h b"
    if "b \<in> set as" for b using owned_cong [of h' b h fins] assms(4) [of b] that assms(2) by auto
  have held: "blocks m p \<noteq> None" if "b \<in> set as" "owned h b = Some p" for b p
    using assms(1) that by (auto simp: owners_def owned_def suits_def split: if_splits option.splits)
  then have new: "owned h b \<noteq> owned h' a" if "b \<in> set as" "owned h b \<noteq> None" for b
    using that assms(6) by (metis option.exhaust)
  have "suits fins m' (call_of h b)" if b: "b \<in> set as" "due h b" for b
  proof -
    have "owned h b = Some (snd (call_of h b))" using b by (simp add: owned_def)
    then have "blocks m' (snd (call_of h b)) = blocks m (snd (call_of h b))"
      using new [OF b(1)] assms(5) by (auto split: option.split)
    moreover have "suits fins m (call_of h b)" using assms(1) b by (simp add: owners_def)
    ultimately show ?thesis by (simp add: suits_def)
  qed
  moreover have "\<exists>b \<in> set (as @ [a]). owned h' b = Some p" if "blocks m' p \<noteq> None" for p
    using that assms(1,5) old unfolding owners_def by (auto split: option.splits if_splits)
  moreover have "owned h' x \<noteq> None \<longrightarrow> owned h' x = owned h' y \<longrightarrow> x = y" if "x \<in> set (as @ [a])" "y \<in> set (as @ [a])" for x y
    using that assms(1) old new unfolding owners_def by (metis Un_iff empty_iff insert_iff list.set(1,2) set_append)
  ultimately show ?thesis using assms(1-3,7) old unfolding owners_def by auto
qed

lemma client_ok_make:
  assumes "client_ok fins st h m" and "managed_obj_new T q st = (p, st1)" and "q \<noteq> 0" and "blocks m q = None"
    and "length (construct_T T) = unat (sizeof_T T)" and "f \<noteq> 0" and "fins f \<in> {Delete (sizeof_T T), No_callback}"
    and "managed_obj_make_scanned_with_finalizer st1 h attempts p sc f = Inr (a, st2, h2)" and "a \<notin> set (registered st)"
  shows "client_ok fins st2 h2 (m\<lparr>blocks := (blocks m)(q \<mapsto> construct_T T), life := life m @ [Constructed q]\<rparr>)"
proof -
  let ?m = "m\<lparr>blocks := (blocks m)(q \<mapsto> construct_T T), life := life m @ [Constructed q]\<rparr>"
  have mem: "client_memory st = Inr m" using assms(1) by (simp add: client_ok_def)
  then have p: "p = q" "own st1 = (allocated_bytes st + sizeof_T T, freed_bytes st, Inr ?m)" "registered st1 = registered st"
    using assms(2,3) by (auto simp: managed_obj_new_def managed_obj_malloc_def constructor_def c_malloc_def own_def)
  have h2: "h2 = h(a \<mapsto> \<lparr>otype = MANAGED_OBJECT_TYPE_SCANNED_POINTER, opinned = False, owords = [q, sc, f]\<rparr>)"
    and st2: "own st2 = own st1" "registered st2 = registered st @ [a]"
    using assms(8) p by (auto simp: managed_obj_make_scanned_with_finalizer_def ebind count_object_def own_def)
  have new: "due h2 a" "call_of h2 a = (f, q)" "owned h2 a = Some q" "fin_ready h2 a" "debt fins h2 a = counted fins f"
    using h2 assms(3,6) by (simp_all add: due_def call_of_def owned_def fin_ready_def debt_def)
  have old: "h2 b = h b" if "b \<noteq> a" for b using h2 that by simp
  have "owners fins (registered st @ [a]) h2 ?m"
    using assms(1,3,4,5,7,9) new old
    by (intro owners_new [where h = h and m = m and bs = "construct_T T"]) (auto simp: client_ok_def suits_def)
  moreover have "in_order fins ?m" using assms(1,4) by (auto simp: client_ok_def in_order_def)
  moreover have "sum_list (map (debt fins h2) (registered st)) = sum_list (map (debt fins h) (registered st))"
    using assms(9) by (intro debts_cong old) auto
  ultimately show ?thesis
    using assms(1,7) p st2 new(5) by (auto simp: client_ok_def own_def counted_def)
qed

lemma client_ok_make_empty:
  assumes "client_ok fins st h m" and "managed_obj_make_empty st h attempts = Inr (a, st', h')" and "a \<notin> set (registered st)"
  shows "client_ok fins st' h' m"
proof -
  have h': "h' = h(a \<mapsto> \<lparr>otype = MANAGED_OBJECT_TYPE_EMPTY, opinned = False, owords = [0, 0]\<rparr>)"
    and st': "own st' = own st" "registered st' = registered st @ [a]"
    using assms(2) by (auto simp: managed_obj_make_empty_def ebind count_object_def own_def)
  have new: "\<not> due h' a" "owned h' a = None" "fin_ready h' a" "debt fins h' a = 0"
    using h' by (simp_all add: due_def owned_def fin_ready_def debt_def)
  have old: "h' b = h b" if "b \<noteq> a" for b using h' that by simp
  have "owners fins (registered st @ [a]) h' m"
    using assms(1,3) new old by (intro owners_new [where h = h and m = m]) (auto simp: client_ok_def)
  moreover have "sum_list (map (debt fins h') (registered st)) = sum_list (map (debt fins h) (registered st))"
    using assms(3) by (intro debts_cong old) auto
  ultimately show ?thesis using assms(1) st' new(4) by (auto simp: client_ok_def own_def)
qed

section \<open>Taking messages\<close>

lemma ends_counts:
  "distinct (map snd cs) \<Longrightarrow>
    count_list (concat (map (ends fins) cs)) (Freed p) = (if p \<in> snd ` set cs then 1 else 0)"
  "count_list (concat (map (ends fins) cs)) (Constructed p) = 0"
  "(\<forall>f. fins f \<noteq> No_callback) \<Longrightarrow>
    count_list (concat (map (ends fins) cs)) (Destructed p) = count_list (concat (map (ends fins) cs)) (Freed p)"
  by (induction cs) (auto simp: ends_def)

lemma firsts_distinct: "distinct xs \<Longrightarrow> firsts xs = xs"
  by (induction xs) (auto intro: filter_True)

lemma client_ok_chat:
  assumes ok: "client_ok fins st h m" and ms: "distinct (finalized ms)" "set (finalized ms) \<subseteq> set (registered st)"
  shows "\<exists>st' h' calls m'. managed_obj_mps_chat (client_callbacks fins) ms (st, h, []) = Inr (st', h', calls) \<and>
    client_ok fins st' h' m' \<and> registered st' = fold remove1 (finalized ms) (registered st)"
proof -
  let ?xs = "finalized ms" and ?left = "fold remove1 (finalized ms) (registered st)"
  let ?cs = "map (call_of h) (filter (due h) ?xs)"
  have own: "owners fins (registered st) h m" "client_memory st = Inr m" "in_order fins m" using ok by (simp_all add: client_ok_def)
  have ready: "\<forall>a \<in> set ?xs. fin_ready h a" using own(1) ms(2) by (auto simp: owners_def)
  from chat_outcome [OF tame_client_callbacks this, of fins st "[]"] obtain st' where
    chat: "managed_obj_mps_chat (client_callbacks fins) ms (st, h, []) = Inr (st', cleared (set ?xs) h, ?cs)"
    and reg: "registered st' = ?left"
    using firsts_distinct [OF ms(1)] by (auto simp: books_def)
  have "inj_on (\<lambda>a. snd (call_of h a)) (set (filter (due h) ?xs))"
    using owners_unique [OF own(1)] ms(2) by (auto simp: inj_on_def owned_Some)
  then have dist: "distinct (map snd ?cs)" using ms(1) by (simp add: distinct_map o_def)
  have suit: "\<forall>c \<in> set ?cs. suits fins m c" using own(1) ms(2) by (auto simp: owners_def)
  let ?m = "m\<lparr>blocks := (\<lambda>p. if p \<in> snd ` set ?cs then None else blocks m p), life := life m @ concat (map (ends fins) ?cs)\<rparr>"
  have own': "own st' = (allocated_bytes st, freed_bytes st + sum_list (map (\<lambda>c. counted fins (fst c)) ?cs), Inr ?m)"
    using chat_replay [OF chat] run_all_frees [OF own(2) dist suit] by simp
  have "distinct (registered st)" using own(1) by (simp add: owners_def)
  note left = fold_remove1 [OF ms(1) this ms(2)]
  have same: "cleared (set ?xs) h a = h a" if "a \<in> set ?left" for a using left that by (simp add: cleared_def)
  note cong = owned_cong [of "cleared (set ?xs) h" _ h fins, OF same]
  have taken: "p \<in> snd ` set ?cs \<longleftrightarrow> (\<exists>a \<in> set ?xs. owned h a = Some p)" for p by (auto simp: owned_Some)
  have gone: "p \<notin> snd ` set ?cs" if "a \<in> set ?left" "owned h a = Some p" for a p
    using that left ms(2) owners_unique [OF own(1)] unfolding taken by blast
  have "owners fins ?left (cleared (set ?xs) h) ?m"
    unfolding owners_def
  proof (intro conjI ballI allI impI)
    show "distinct ?left" using left by simp
  next
    fix a assume a: "a \<in> set ?left"
    with own(1) left cong [OF a] show "fin_ready (cleared (set ?xs) h) a" by (simp add: owners_def)
  next
    fix a assume a: "a \<in> set ?left" "due (cleared (set ?xs) h) a"
    with cong [OF a(1)] have d: "due h a" "call_of (cleared (set ?xs) h) a = call_of h a" by simp_all
    then have "suits fins m (call_of h a)" using own(1) a(1) left by (simp add: owners_def)
    moreover have "blocks ?m (snd (call_of h a)) = blocks m (snd (call_of h a))"
      using gone [OF a(1), of "snd (call_of h a)"] d(1) by (simp add: owned_Some)
    ultimately show "suits fins ?m (call_of (cleared (set ?xs) h) a)" using d(2) by (simp only: suits_def)
  next
    fix a b assume "a \<in> set ?left" "b \<in> set ?left" "owned (cleared (set ?xs) h) a \<noteq> None"
      "owned (cleared (set ?xs) h) a = owned (cleared (set ?xs) h) b"
    with cong left owners_unique [OF own(1), of a b] show "a = b" by auto
  next
    fix p assume "blocks ?m p \<noteq> None"
    then have p: "p \<notin> snd ` set ?cs" "blocks m p \<noteq> None" by (auto split: if_splits)
    then obtain a where "a \<in> set (registered st)" "owned h a = Some p" using own(1) by (auto simp: owners_def)
    with p(1) left have "a \<in> set ?left" unfolding taken by auto
    with cong \<open>owned h a = Some p\<close> show "\<exists>a \<in> set ?left. owned (cleared (set ?xs) h) a = Some p" by metis
  qed
  moreover have "in_order fins ?m"
    using own(3) suit ends_counts(1) [OF dist, of fins] ends_counts(2,3) [of fins ?cs]
    by (auto simp: in_order_def suits_def split: option.splits)
  moreover have "sum_list (map (\<lambda>c. counted fins (fst c)) ?cs) = sum_list (map (debt fins h) ?xs)"
    by (simp add: sum_list_map_filter' debt_def [abs_def] o_def)
  moreover have "sum_list (map (debt fins (cleared (set ?xs) h)) ?left) = sum_list (map (debt fins h) ?left)"
    using same by (rule debts_cong)
  ultimately have "client_ok fins st' (cleared (set ?xs) h) ?m"
    using ok own' reg left [of "debt fins h"] by (simp add: client_ok_def own_def add.assoc)
  with chat reg show ?thesis by blast
qed

section \<open>No value is freed twice and none is forgotten\<close>

lemma client_start_ok: "client_ok fins client_start Map.empty \<lparr>blocks = Map.empty, life = []\<rparr>"
  by (simp add: client_ok_def client_start_def new_state_def obj_state.extend_def client_state.fields_def
      owners_def in_order_def)

lemma client_program_ok: "client_program fins st h \<Longrightarrow> \<exists>m. client_ok fins st h m"
proof (induction rule: client_program.induct)
  case start
  then show ?case using client_start_ok by blast
next
  case (make st h T q p st1 f attempts sc a st2 h2)
  then obtain m where ok: "client_ok fins st h m" by blast
  then have "blocks m q = None" using make.hyps(4) by (simp add: client_ok_def)
  from client_ok_make [OF ok make.hyps(2,3) this make.hyps(5-9)] show ?case by blast
next
  case (make_empty st h attempts a st' h')
  then show ?case using client_ok_make_empty by blast
next
  case (pin st h a obj st' obj')
  then obtain m where ok: "client_ok fins st h m" by blast
  have "obj' = obj\<lparr>opinned := True\<rparr>" "own st' = own st" "registered st' = registered st"
    using pin.hyps(3) by (auto simp: managed_obj_pin_def own_def)
  from client_ok_pinned [OF ok pin.hyps(2) this] show ?case by blast
next
  case (unpin st h a obj st' obj')
  then obtain m where ok: "client_ok fins st h m" by blast
  have "obj' = obj\<lparr>opinned := False\<rparr>" "own st' = own st" "registered st' = registered st"
    using unpin.hyps(3) by (auto simp: managed_obj_unpin_def own_def)
  from client_ok_pinned [OF ok unpin.hyps(2) this] show ?case by blast
next
  case (chat st h ms st' h' calls)
  then obtain m where "client_ok fins st h m" by blast
  from client_ok_chat [OF this chat.hyps(2,3)] chat.hyps(4) show ?case by auto
qed

text \<open>
  C30: Values of the client.  In every state of a program whose objects own values made with
  \<open>managed_obj_new\<close>, nothing undefined has been done to the client's memory: every value that was constructed
  was freed exactly once or is the one value of exactly one object whose message is still to come.  Every further
  queue of messages is taken without a fault, and once all messages were taken no block is left.  If all values
  are deleted by \<open>managed_obj_delete\<close>, each is destructed exactly as often as it is freed, and the byte counters
  are then equal.
\<close>

theorem client_values_freed_once:
  assumes "client_program fins st h"
  shows "\<exists>m. client_memory st = Inr m \<and>
    (\<forall>p. count_list (life m) (Constructed p) = count_list (life m) (Freed p) + (if blocks m p = None then 0 else 1)) \<and>
    (\<forall>p. blocks m p \<noteq> None \<longleftrightarrow> (\<exists>!a. a \<in> set (registered st) \<and> owned h a = Some p)) \<and>
    (\<forall>ms. distinct (finalized ms) \<and> set (finalized ms) \<subseteq> set (registered st) \<longrightarrow>
      (\<exists>st' h' calls. managed_obj_mps_chat (client_callbacks fins) ms (st, h, []) = Inr (st', h', calls))) \<and>
    (registered st = [] \<longrightarrow> blocks m = Map.empty) \<and>
    ((\<forall>f. fins f \<noteq> No_callback) \<longrightarrow>
      (\<forall>p. count_list (life m) (Destructed p) = count_list (life m) (Freed p)) \<and>
      (registered st = [] \<longrightarrow> allocated_bytes st = freed_bytes st))"
proof -
  from client_program_ok [OF assms] obtain m where ok: "client_ok fins st h m" by blast
  then have own: "owners fins (registered st) h m" by (simp add: client_ok_def)
  have "blocks m p \<noteq> None \<longleftrightarrow> (\<exists>a. a \<in> set (registered st) \<and> owned h a = Some p)" for p
    using own by (auto simp: owners_def owned_Some suits_def split: option.splits)
  then have "blocks m p \<noteq> None \<longleftrightarrow> (\<exists>!a. a \<in> set (registered st) \<and> owned h a = Some p)" for p
    using owners_unique [OF own] by (metis (no_types, lifting))
  moreover have "blocks m = Map.empty" if "registered st = []"
    using own that by (auto simp: owners_def fun_eq_iff)
  moreover have "\<exists>st' h' calls. managed_obj_mps_chat (client_callbacks fins) ms (st, h, []) = Inr (st', h', calls)"
    if "distinct (finalized ms)" "set (finalized ms) \<subseteq> set (registered st)" for ms
    using client_ok_chat [OF ok that] by blast
  moreover have "client_memory st = Inr m" "in_order fins m"
    "(\<forall>f. fins f \<noteq> No_callback) \<and> registered st = [] \<longrightarrow> allocated_bytes st = freed_bytes st"
    using ok by (auto simp: client_ok_def)
  ultimately show ?thesis unfolding in_order_def by (intro exI [of _ m]) blast
qed

text \<open>A program that makes a value of four bytes at 512, gives it to an object, and takes the object's message.\<close>

definition four_bytes :: ctype where
  "four_bytes = \<lparr>sizeof_T = 4, construct_T = [Some 1, None, Some 3, Some 4]\<rparr>"

definition made_value :: "client_state \<times> obj_heap" where
  "made_value = (count_object sizeof_scanned_pointer (MANAGED_OBJECT_ALIGN_OBJ sizeof_scanned_pointer) 96
       (snd (managed_obj_new four_bytes 512 client_start)),
     [96 \<mapsto> \<lparr>otype = MANAGED_OBJECT_TYPE_SCANNED_POINTER, opinned = False, owords = [512, 1, 7]\<rparr>])"

lemma made_value_program: "client_program (\<lambda>_. Delete 4) (fst made_value) (snd made_value)"
proof (rule client_program.make [OF client_program.start, where q = 512 and T = four_bytes and f = 7 and
      attempts = "[(Some 64, False), (Some 96, True)]"])
  show "managed_obj_new four_bytes 512 client_start = (512, snd (managed_obj_new four_bytes 512 client_start))"
    by (simp add: managed_obj_new_def managed_obj_malloc_def)
  show "managed_obj_make_scanned_with_finalizer (snd (managed_obj_new four_bytes 512 client_start)) Map.empty
      [(Some 64, False), (Some 96, True)] 512 1 7 = Inr (96, fst made_value, snd made_value)"
    by (simp add: managed_obj_make_scanned_with_finalizer_def made_value_def)
qed (simp_all add: client_start_def new_state_def obj_state.extend_def client_state.fields_def four_bytes_def)

theorem client_values_freed_once_witness:
  "\<exists>m st' h' calls. client_memory (fst made_value) = Inr m \<and> count_list (life m) (Constructed 512) = Suc (count_list (life m) (Freed 512)) \<and>
    managed_obj_mps_chat (client_callbacks (\<lambda>_. Delete 4)) [Gc_start, Finalization 96] (fst made_value, snd made_value, []) =
      Inr (st', h', calls)"
proof -
  let ?st = "fst made_value" and ?h = "snd made_value" and ?ms = "[Gc_start, Finalization 96]"
  from client_values_freed_once [OF made_value_program] obtain m where
    m: "client_memory ?st = Inr m"
      "\<forall>p. count_list (life m) (Constructed p) = count_list (life m) (Freed p) + (if blocks m p = None then 0 else 1)"
      "\<forall>p. blocks m p \<noteq> None \<longleftrightarrow> (\<exists>!a. a \<in> set (registered ?st) \<and> owned ?h a = Some p)"
      "\<forall>ms. distinct (finalized ms) \<and> set (finalized ms) \<subseteq> set (registered ?st) \<longrightarrow>
        (\<exists>st' h' calls. managed_obj_mps_chat (client_callbacks (\<lambda>_. Delete 4)) ms (?st, ?h, []) = Inr (st', h', calls))"
    by blast
  have reg: "registered ?st = [96]"
    by (simp add: made_value_def count_object_def managed_obj_new_def managed_obj_malloc_def client_start_def
        new_state_def obj_state.extend_def client_state.fields_def)
  have "owned ?h 96 = Some 512" by (simp add: made_value_def owned_def due_def call_of_def)
  with reg have "\<exists>!a. a \<in> set (registered ?st) \<and> owned ?h a = Some 512" by auto
  with m(3) have "blocks m 512 \<noteq> None" by blast
  with m(2) have "count_list (life m) (Constructed 512) = Suc (count_list (life m) (Freed 512))" by simp
  moreover have "\<exists>st' h' calls. managed_obj_mps_chat (client_callbacks (\<lambda>_. Delete 4)) ?ms (?st, ?h, []) = Inr (st', h', calls)"
    using reg by (intro mp [OF spec [OF m(4)]]) simp
  ultimately show ?thesis using m(1) by blast
qed

text \<open>Two cases the program leaves out: \<open>malloc\<close> fails, or two objects own the same value.\<close>

lemma new_without_memory: "client_memory st = Inr m \<Longrightarrow> blocks m 0 = None \<Longrightarrow>
    client_memory (snd (managed_obj_new T 0 st)) = Inl Undefined_behaviour"
  by (simp add: managed_obj_new_def managed_obj_malloc_def c_malloc_def constructor_def)

lemma delete_twice:
  assumes "client_memory st = Inr m" and "suits fins m (f, p)"
  shows "client_memory (run_finalizer fins f p (run_finalizer fins f p st)) = Inl Undefined_behaviour"
proof -
  have "p \<noteq> 0" using assms(2) by (simp add: suits_def split: option.splits)
  then show ?thesis
    using run_finalizer_frees(1) [OF assms, unfolded fst_conv snd_conv]
    by (cases "fins f") (simp_all add: run_finalizer_def [of _ _ _ "run_finalizer fins f p st"]
      managed_obj_delete_def [of _ _ "run_finalizer fins f p st"] managed_obj_no_finalization_callback_def [of _ "run_finalizer fins f p st"]
      destructor_T_def c_free_def)
qed

end
