(* ===== verification/MetaTable.thy ===== *)
theory MetaTable
  imports ObjChat HashFuns
begin

text \<open>
  The hash table of the metadata subsystem (\<open>include/managed_object_obj_metadata.h\<close>): open
  addressing with double hashing, a marker for unused and one for deleted buckets, counts that
  carry a tag bit, and a rehash when the table is half full or when keys may have moved.

  A bucket object is its counts and its list of references; the heap view of the same object is
  in the theory of the scanner.  The table does not have the two allocation points, weak or strong,
  from which its keys and values come, nor the links \<open>dependent\<close> between the two bucket objects: no
  operation of the table reads them.  The scanner does, and has them in the heap view.  No collection
  happens inside an operation, although \<open>mps_reserve\<close> may run one; between two operations any may.  The hash and comparison functions of a table, the location
  dependencies of the MPS and the answers to its allocations are the arguments in \<open>tbl_env\<close>.
\<close>

section \<open>State\<close>

record buckets =
  b_length :: size_t   \<comment> \<open>the three counts are tagged\<close>
  b_used :: size_t
  b_deleted :: size_t
  bucket :: "addr list"

record 'ld hashtable =
  t_type :: managed_obj_type_t
  t_keys :: buckets
  t_values :: buckets
  t_ld :: 'ld

record 'ld tbl_env =
  id_unused :: addr
  id_deleted :: addr
  hashf :: "addr \<Rightarrow> 'ld option \<Rightarrow> fault + ulong \<times> 'ld option"
  cmpf :: "addr \<Rightarrow> addr \<Rightarrow> fault + bool"
  ld_reset :: 'ld
  ld_isstale :: "'ld \<Rightarrow> addr \<Rightarrow> bool"
  answers :: "nat \<Rightarrow> (addr option \<times> bool) list"

text \<open>The client state, and how often the MPS was asked for an object.\<close>

record meta_mem =
  asked :: nat
  mstate :: obj_state

definition UNTAG :: "size_t \<Rightarrow> nat" where
  "UNTAG c = unat (MANAGED_OBJECT_METADATA_UNTAG_COUNT c)"

section \<open>Making tables\<close>

definition ask :: "'ld tbl_env \<Rightarrow> size_t \<Rightarrow> size_t \<Rightarrow> meta_mem \<Rightarrow> fault + addr \<times> meta_mem" where
  "ask env sz aligned m =
     andthen (reserve_commit (answers env (asked m))) (\<lambda>a.
       Inr (a, m\<lparr>asked := Suc (asked m), mstate := count_object sz aligned a (mstate m)\<rparr>))"

definition managed_obj_metadata_make_buckets ::
  "'ld tbl_env \<Rightarrow> size_t \<Rightarrow> meta_mem \<Rightarrow> fault + buckets \<times> meta_mem"
where
  "managed_obj_metadata_make_buckets env len m =
     (if 2 ^ 64 \<le> unat offsetof_bucket + unat len * 8 + 7
      then Inl Undefined_behaviour  \<comment> \<open>the size wraps, and the object does not hold its buckets\<close>
      else andthen (ask env sizeof_buckets (MANAGED_OBJECT_ALIGN_OBJ (offsetof_bucket + len * 8)) m) (\<lambda>(a, m1).
        Inr (\<lparr>b_length = MANAGED_OBJECT_METADATA_TAG_COUNT len, b_used = MANAGED_OBJECT_METADATA_TAG_COUNT 0,
              b_deleted = MANAGED_OBJECT_METADATA_TAG_COUNT 0, bucket = replicate (unat len) (id_unused env)\<rparr>, m1)))"

text \<open>\<open>for (l = 1; l < length; l *= 2);\<close> the bound is the number of doublings.\<close>

fun round_up :: "nat \<Rightarrow> size_t \<Rightarrow> size_t \<Rightarrow> fault + size_t" where
  "round_up 0 l len = (if l < len then Inl Diverges else Inr l)"
| "round_up (Suc n) l len = (if l < len then round_up n (l * 2) len else Inr l)"

definition managed_obj_metadata_make_table ::
  "'ld tbl_env \<Rightarrow> size_t \<Rightarrow> size_t \<Rightarrow> meta_mem \<Rightarrow> fault + 'ld hashtable \<times> meta_mem"
where
  "managed_obj_metadata_make_table env ldsize len m =
     andthen (reserve_commit (answers env (asked m))) (\<lambda>a.
     andthen (round_up 64 1 len) (\<lambda>l.
     andthen (managed_obj_metadata_make_buckets env l (m\<lparr>asked := Suc (asked m)\<rparr>)) (\<lambda>(ks, m1).
     andthen (managed_obj_metadata_make_buckets env l m1) (\<lambda>(vs, m2).
       Inr (\<lparr>t_type = MANAGED_OBJECT_TYPE_METADATA_HASH_TABLE, t_keys = ks, t_values = vs, t_ld = ld_reset env\<rparr>,
            m2\<lparr>mstate := count_object (sizeof_hashtable ldsize)
                  (MANAGED_OBJECT_ALIGN_OBJ (sizeof_hashtable ldsize)) a (mstate m2)\<rparr>)))))"

section \<open>Finding a bucket\<close>

definition bucket_at :: "buckets \<Rightarrow> size_t \<Rightarrow> fault + addr" where
  "bucket_at bs i = (if unat i < length (bucket bs) then Inr (bucket bs ! unat i) else Inl Undefined_behaviour)"

definition set_bucket :: "buckets \<Rightarrow> size_t \<Rightarrow> addr \<Rightarrow> fault + buckets" where
  "set_bucket bs i p =
     (if unat i < length (bucket bs) then Inr (bs\<lparr>bucket := (bucket bs)[unat i := p]\<rparr>)
      else Inl Undefined_behaviour)"

text \<open>The do loop; the bound is the number of turns left, \<open>r\<close> the deleted bucket seen first.\<close>

fun find_loop ::
  "'ld tbl_env \<Rightarrow> buckets \<Rightarrow> addr \<Rightarrow> size_t \<Rightarrow> size_t \<Rightarrow> size_t \<Rightarrow> nat \<Rightarrow> size_t \<Rightarrow> size_t option \<Rightarrow>
     fault + size_t option"
where
  "find_loop env bs key l probe h 0 i r = Inl Diverges"
| "find_loop env bs key l probe h (Suc n) i r =
     andthen (bucket_at bs i) (\<lambda>k.
     andthen (if k = id_unused env then Inr True else cmpf env k key) (\<lambda>hit.
       if hit then Inr (Some i)
       else let r' = (if r = None \<and> k = id_deleted env then Some i else r);
                i' = (i + probe) AND l
            in if i' \<noteq> h then find_loop env bs key l probe h n i' r' else Inr r'))"

text \<open>The result is the index, or none for the return value 0; the hash may extend the dependency.\<close>

definition managed_obj_metadata_buckets_find ::
  "'ld tbl_env \<Rightarrow> 'ld hashtable \<Rightarrow> buckets \<Rightarrow> addr \<Rightarrow> bool \<Rightarrow> fault + size_t option \<times> 'ld hashtable"
where
  "managed_obj_metadata_buckets_find env tbl bs key add =
     (let l = MANAGED_OBJECT_METADATA_UNTAG_COUNT (b_length bs) - 1
      in if t_type tbl \<noteq> MANAGED_OBJECT_TYPE_METADATA_HASH_TABLE then Inl Assert_failed
         else andthen (hashf env key (if add then Some (t_ld tbl) else None)) (\<lambda>(h, ld).
              let probe = drop_bit 8 h OR 1
              in andthen (find_loop env bs key l probe (h AND l) (UNTAG (b_length bs)) (h AND l) None) (\<lambda>b.
                   Inr (b, case ld of None \<Rightarrow> tbl | Some ld' \<Rightarrow> tbl\<lparr>t_ld := ld'\<rparr>))))"

definition managed_obj_metadata_table_size :: "'ld hashtable \<Rightarrow> fault + size_t" where
  "managed_obj_metadata_table_size tbl =
     (if t_type tbl \<noteq> MANAGED_OBJECT_TYPE_METADATA_HASH_TABLE then Inl Assert_failed
      else let used = MANAGED_OBJECT_METADATA_UNTAG_COUNT (b_used (t_keys tbl));
               del = MANAGED_OBJECT_METADATA_UNTAG_COUNT (b_deleted (t_keys tbl))
           in if used \<ge> del then Inr (used - del) else Inl Assert_failed)"

section \<open>Rehashing\<close>

definition add_used :: "buckets \<Rightarrow> buckets" where
  "add_used bs = bs\<lparr>b_used := MANAGED_OBJECT_METADATA_TAG_COUNT (MANAGED_OBJECT_METADATA_UNTAG_COUNT (b_used bs) + 1)\<rparr>"

text \<open>
  The loop over the old keys; the state is the new keys, the new values, the table (for its
  dependency) and the bucket of the wanted key, if it went by.
\<close>

fun rehash_keys ::
  "'ld tbl_env \<Rightarrow> addr list \<Rightarrow> addr \<Rightarrow> addr list \<Rightarrow> nat \<Rightarrow>
     buckets \<times> buckets \<times> 'ld hashtable \<times> size_t option \<Rightarrow>
     fault + buckets \<times> buckets \<times> 'ld hashtable \<times> size_t option"
where
  "rehash_keys env vals key [] i s = Inr s"
| "rehash_keys env vals key (old_key # old_keys) i (nk, nv, tbl, res) =
     (if old_key = id_unused env \<or> old_key = id_deleted env
      then rehash_keys env vals key old_keys (Suc i) (nk, nv, tbl, res)
      else andthen (managed_obj_metadata_buckets_find env tbl nk old_key True) (\<lambda>(found, tbl1).
        case found of
          None \<Rightarrow> Inl Assert_failed
        | Some b \<Rightarrow>
            andthen (bucket_at nk b) (\<lambda>cur.
            if cur \<noteq> id_unused env then Inl Assert_failed
            else andthen (if i < length vals then Inr (vals ! i) else Inl Undefined_behaviour) (\<lambda>v.
                 andthen (set_bucket nk b old_key) (\<lambda>nk1.
                 andthen (set_bucket nv b v) (\<lambda>nv1.
                 andthen (if key \<noteq> 0 then cmpf env old_key key else Inr False) (\<lambda>hit.
                   rehash_keys env vals key old_keys (Suc i)
                     (add_used nk1, nv1, tbl1, if hit then Some b else res))))))))"

definition managed_obj_metadata_table_rehash ::
  "'ld tbl_env \<Rightarrow> 'ld hashtable \<Rightarrow> size_t \<Rightarrow> addr \<Rightarrow> meta_mem \<Rightarrow>
     fault + size_t option \<times> 'ld hashtable \<times> meta_mem"
where
  "managed_obj_metadata_table_rehash env tbl new_length key m =
     (if t_type tbl \<noteq> MANAGED_OBJECT_TYPE_METADATA_HASH_TABLE then Inl Assert_failed
      else andthen (managed_obj_metadata_make_buckets env new_length m) (\<lambda>(nk, m1).
           andthen (managed_obj_metadata_make_buckets env new_length m1) (\<lambda>(nv, m2).
           if length (bucket (t_keys tbl)) < UNTAG (b_length (t_keys tbl)) then Inl Undefined_behaviour
           else andthen (rehash_keys env (bucket (t_values tbl)) key
                  (take (UNTAG (b_length (t_keys tbl))) (bucket (t_keys tbl))) 0
                  (nk, nv, tbl\<lparr>t_ld := ld_reset env\<rparr>, None)) (\<lambda>(nk1, nv1, tbl1, res).
                andthen (managed_obj_metadata_table_size tbl1) (\<lambda>n.
                  if MANAGED_OBJECT_METADATA_UNTAG_COUNT (b_used nk1) = n
                  then Inr (res, tbl1\<lparr>t_keys := nk1, t_values := nv1\<rparr>, m2)
                  else Inl Assert_failed)))))"

section \<open>The operations of a table\<close>

definition managed_obj_metadata_table_find ::
  "'ld tbl_env \<Rightarrow> 'ld hashtable \<Rightarrow> addr \<Rightarrow> bool \<Rightarrow> meta_mem \<Rightarrow> fault + size_t option \<times> 'ld hashtable \<times> meta_mem"
where
  "managed_obj_metadata_table_find env tbl key add m =
     andthen (managed_obj_metadata_buckets_find env tbl (t_keys tbl) key add) (\<lambda>(b, tbl1).
       case b of
         None \<Rightarrow> Inr (None, tbl1, m)
       | Some i \<Rightarrow>
           andthen (bucket_at (t_keys tbl1) i) (\<lambda>k.
             if (k = id_unused env \<or> k = id_deleted env) \<and> ld_isstale env (t_ld tbl1) key
             then managed_obj_metadata_table_rehash env tbl1
                    (MANAGED_OBJECT_METADATA_UNTAG_COUNT (b_length (t_keys tbl1))) key m
             else Inr (Some i, tbl1, m)))"

definition managed_obj_metadata_table_ref ::
  "'ld tbl_env \<Rightarrow> 'ld hashtable \<Rightarrow> addr \<Rightarrow> meta_mem \<Rightarrow> fault + addr \<times> 'ld hashtable \<times> meta_mem"
where
  "managed_obj_metadata_table_ref env tbl key m =
     (if t_type tbl \<noteq> MANAGED_OBJECT_TYPE_METADATA_HASH_TABLE then Inl Assert_failed
      else andthen (managed_obj_metadata_table_find env tbl key False m) (\<lambda>(b, tbl1, m1).
        case b of
          None \<Rightarrow> Inr (0, tbl1, m1)
        | Some i \<Rightarrow>
            andthen (bucket_at (t_keys tbl1) i) (\<lambda>k.
              if k \<noteq> id_unused env \<and> k \<noteq> id_deleted env
              then andthen (bucket_at (t_values tbl1) i) (\<lambda>v. Inr (v, tbl1, m1))
              else Inr (0, tbl1, m1))))"

text \<open>The key and the counts of the bucket that was found, when a value is to be stored there.\<close>

definition claim_bucket :: "'ld tbl_env \<Rightarrow> buckets \<Rightarrow> size_t \<Rightarrow> addr \<Rightarrow> fault + buckets" where
  "claim_bucket env ks i key =
     andthen (bucket_at ks i) (\<lambda>k.
       if k = id_unused env then andthen (set_bucket ks i key) (\<lambda>ks1. Inr (add_used ks1))
       else if k = id_deleted env
       then andthen (set_bucket ks i key) (\<lambda>ks1.
              if \<not> b_deleted ks1 > MANAGED_OBJECT_METADATA_TAG_COUNT 0 then Inl Assert_failed
              else Inr (ks1\<lparr>b_deleted := MANAGED_OBJECT_METADATA_TAG_COUNT
                     (MANAGED_OBJECT_METADATA_UNTAG_COUNT (b_deleted ks1) - 1)\<rparr>))
       else Inr ks)"

definition managed_obj_metadata_table_try_set ::
  "'ld tbl_env \<Rightarrow> 'ld hashtable \<Rightarrow> addr \<Rightarrow> addr \<Rightarrow> meta_mem \<Rightarrow> fault + bool \<times> 'ld hashtable \<times> meta_mem"
where
  "managed_obj_metadata_table_try_set env tbl key val m =
     (if t_type tbl \<noteq> MANAGED_OBJECT_TYPE_METADATA_HASH_TABLE then Inl Assert_failed
      else andthen (managed_obj_metadata_table_find env tbl key True m) (\<lambda>(b, tbl1, m1).
        case b of
          None \<Rightarrow> Inr (False, tbl1, m1)
        | Some i \<Rightarrow>
            andthen (claim_bucket env (t_keys tbl1) i key) (\<lambda>ks.
            andthen (set_bucket (t_values tbl1) i val) (\<lambda>vs.
              Inr (True, tbl1\<lparr>t_keys := ks, t_values := vs\<rparr>, m1)))))"

definition managed_obj_metadata_table_full :: "'ld hashtable \<Rightarrow> fault + bool" where
  "managed_obj_metadata_table_full tbl =
     (if t_type tbl \<noteq> MANAGED_OBJECT_TYPE_METADATA_HASH_TABLE then Inl Assert_failed
      else Inr (b_used (t_keys tbl) \<ge> b_length (t_keys tbl) div 2))"

definition managed_obj_metadata_table_set ::
  "'ld tbl_env \<Rightarrow> 'ld hashtable \<Rightarrow> addr \<Rightarrow> addr \<Rightarrow> meta_mem \<Rightarrow> fault + 'ld hashtable \<times> meta_mem"
where
  "managed_obj_metadata_table_set env tbl key val m =
     andthen (managed_obj_metadata_table_full tbl) (\<lambda>full.
     andthen (if full then Inr (False, tbl, m) else managed_obj_metadata_table_try_set env tbl key val m)
       (\<lambda>(done, tbl1, m1).
          if done then Inr (tbl1, m1)
          else andthen (managed_obj_metadata_table_rehash env tbl1
                  (MANAGED_OBJECT_METADATA_UNTAG_COUNT (b_length (t_keys tbl1)) * 2) 0 m1) (\<lambda>(_, tbl2, m2).
               andthen (managed_obj_metadata_table_try_set env tbl2 key val m2) (\<lambda>(res, tbl3, m3).
                 if res then Inr (tbl3, m3) else Inl Assert_failed))))"

definition managed_obj_metadata_table_delete ::
  "'ld tbl_env \<Rightarrow> 'ld hashtable \<Rightarrow> addr \<Rightarrow> meta_mem \<Rightarrow> fault + 'ld hashtable \<times> meta_mem"
where
  "managed_obj_metadata_table_delete env tbl key m =
     (if t_type tbl \<noteq> MANAGED_OBJECT_TYPE_METADATA_HASH_TABLE then Inl Assert_failed
      else andthen (managed_obj_metadata_table_find env tbl key False m) (\<lambda>(b, tbl1, m1).
        case b of
          None \<Rightarrow> Inr (tbl1, m1)
        | Some i \<Rightarrow>
            andthen (bucket_at (t_keys tbl1) i) (\<lambda>k.
              if k \<noteq> id_unused env \<and> k \<noteq> id_deleted env
              then andthen (set_bucket (t_keys tbl1) i (id_deleted env)) (\<lambda>ks.
                   andthen (set_bucket (t_values tbl1) i 0) (\<lambda>vs.
                     Inr (tbl1\<lparr>t_keys := ks\<lparr>b_deleted := MANAGED_OBJECT_METADATA_TAG_COUNT
                              (MANAGED_OBJECT_METADATA_UNTAG_COUNT (b_deleted ks) + 1)\<rparr>,
                            t_values := vs\<rparr>, m1)))
              else Inr (tbl1, m1))))"

end
