(* ===== verification/MetaProbe.thy ===== *)
theory MetaProbe
  imports MetaTable
begin

text \<open>
  Double hashing in a table of \<open>2 ^ n\<close> buckets: the probe sequence of a hash value, that it
  visits every bucket once, and what the search loop finds along it.
\<close>

section \<open>The probe sequence\<close>

definition step_of :: "ulong \<Rightarrow> nat" where
  "step_of h = unat (drop_bit 8 h OR 1)"

definition hpos :: "nat \<Rightarrow> ulong \<Rightarrow> nat \<Rightarrow> nat" where
  "hpos n h j = (unat h + j * step_of h) mod 2 ^ n"

lemma hpos_less [simp]: "hpos n h j < 2 ^ n"
  by (simp add: hpos_def)

lemma odd_step: "odd (step_of h)"
proof -
  have "bit (drop_bit 8 h OR 1) 0" by (simp add: bit_simps)
  then have "bit (step_of h) 0" by (simp add: step_of_def bit_unsigned_iff)
  then show ?thesis by (simp add: bit_0)
qed

lemma hpos_inj_le:
  assumes "i \<le> j" and "j < 2 ^ n" and "hpos n h j = hpos n h i"
  shows "i = j"
proof -
  have "unat h + i * step_of h \<le> unat h + j * step_of h" using assms(1) by simp
  with assms(3) have "2 ^ n dvd (unat h + j * step_of h) - (unat h + i * step_of h)"
    unfolding hpos_def by (simp only: mod_eq_dvd_iff_nat)
  then have "2 ^ n dvd (j - i) * step_of h" by (simp add: diff_mult_distrib)
  moreover have "coprime (2 ^ n) (step_of h)" using odd_step [of h] by simp
  ultimately have "2 ^ n dvd j - i" by (simp add: coprime_dvd_mult_left_iff)
  with dvd_imp_le [of "2 ^ n" "j - i"] assms(1,2) show ?thesis by (cases "i = j") auto
qed

lemma hpos_inj: "i < 2 ^ n \<Longrightarrow> j < 2 ^ n \<Longrightarrow> hpos n h i = hpos n h j \<Longrightarrow> i = j"
  using hpos_inj_le [of i j n h] hpos_inj_le [of j i n h] by (cases "i \<le> j") auto

lemma hpos_surj:
  assumes "i < 2 ^ n"
  shows "\<exists>j < 2 ^ n. hpos n h j = i"
proof -
  have inj: "inj_on (hpos n h) {..<2 ^ n}" by (auto intro: inj_onI hpos_inj)
  have "hpos n h ` {..<2 ^ n} = {..<2 ^ n}"
    by (rule endo_inj_surj) (auto simp: inj)
  with assms show ?thesis by (metis (no_types, lifting) imageE lessThan_iff)
qed

lemma hpos_wrap: "hpos n h (Suc j) = hpos n h 0 \<Longrightarrow> j < 2 ^ n \<Longrightarrow> Suc j = 2 ^ n"
proof (rule ccontr)
  assume "hpos n h (Suc j) = hpos n h 0" and "j < 2 ^ n" and "Suc j \<noteq> 2 ^ n"
  then show False using hpos_inj [of "Suc j" n 0 h] by simp
qed

lemma hpos_cycle: "hpos n h (2 ^ n) = hpos n h 0"
  by (simp add: hpos_def)

text \<open>The words of the loop.\<close>

lemma mask_of: "k < 64 \<Longrightarrow> (word_of_nat (2 ^ k) :: 64 word) - 1 = 2 ^ k - 1"
  by simp

lemma hpos_first: "unat (h AND (2 ^ n - 1)) = hpos n h 0"
  by (simp only: unat_and_mask hpos_def) simp

lemma hpos_next:
  assumes "n < 64" and "unat i = hpos n h j"
  shows "unat ((i + (drop_bit 8 h OR 1)) AND (2 ^ n - 1)) = hpos n h (Suc j)"
proof -
  have "(hpos n h j + step_of h) mod 2 ^ n = (unat h + j * step_of h + step_of h) mod 2 ^ n"
    by (simp only: hpos_def mod_add_left_eq)
  also have "\<dots> = hpos n h (Suc j)" by (simp add: hpos_def ac_simps)
  finally show ?thesis unfolding unat_add_mask [OF assms(1)] assms(2) step_of_def .
qed

section \<open>The loop\<close>

text \<open>
  The search as a function of the positions it goes through: it ends at the first hit, and
  otherwise gives the first deleted position.
\<close>

fun search :: "(nat \<Rightarrow> bool) \<Rightarrow> (nat \<Rightarrow> bool) \<Rightarrow> nat list \<Rightarrow> nat option \<Rightarrow> nat option" where
  "search hit del [] r = r"
| "search hit del (p # ps) r =
     (if hit p then Some p else search hit del ps (if r = None \<and> del p then Some p else r))"

lemma search_hit:
  "\<forall>q \<in> set ps. \<not> hit q \<Longrightarrow> hit p \<Longrightarrow> search hit del (ps @ p # qs) r = Some p"
  by (induction ps arbitrary: r) auto

lemma search_miss:
  "\<forall>q \<in> set ps. \<not> hit q \<Longrightarrow> search hit del ps r = (case r of None \<Rightarrow> List.find del ps | Some p \<Rightarrow> Some p)"
  by (induction ps arbitrary: r) (auto split: option.split)

text \<open>The hit ends the search at the first position of the probe sequence that is one.\<close>

lemma search_positions:
  "(\<exists>j < m. hit (f j) \<and> (\<forall>i < j. \<not> hit (f i)) \<and> search hit del (map f [0..<m]) None = Some (f j)) \<or>
   ((\<forall>j < m. \<not> hit (f j)) \<and> search hit del (map f [0..<m]) None = List.find del (map f [0..<m]))"
proof (cases "\<exists>j < m. hit (f j)")
  case True
  then obtain j0 where j0: "j0 < m" "hit (f j0)" by blast
  then have "\<exists>j. hit (f j)" by blast
  then obtain j where j: "hit (f j)" "\<forall>i < j. \<not> hit (f i)"
    unfolding exists_least_iff [of "\<lambda>j. hit (f j)"] by blast
  with j0 have "j < m" by (meson leI le_less_trans not_less)
  then have "[0..<m] = [0..<j] @ j # [Suc j..<m]"
    using upt_add_eq_append [of 0 j "m - j"] upt_conv_Cons [of j m] by simp
  then have "map f [0..<m] = map f [0..<j] @ f j # map f [Suc j..<m]" by simp
  moreover have "\<forall>q \<in> set (map f [0..<j]). \<not> hit q" using j(2) by auto
  ultimately have "search hit del (map f [0..<m]) None = Some (f j)"
    using search_hit [of "map f [0..<j]" hit "f j"] j(1) by simp
  with j \<open>j < m\<close> show ?thesis by blast
next
  case False
  then have "\<forall>q \<in> set (map f [0..<m]). \<not> hit q" by auto
  from search_miss [OF this, of del None] False show ?thesis by simp
qed

text \<open>
  The loop does this search on the rest of the probe sequence.  A bucket that is a hit ends it,
  and comparing never faults on what the table has.
\<close>

lemma find_loop_search:
  assumes "n < 64" and "length (bucket bs) = 2 ^ n"
    and cmp: "\<And>i. i < 2 ^ n \<Longrightarrow> bucket bs ! i \<noteq> id_unused env \<Longrightarrow> cmpf env (bucket bs ! i) key = Inr (hit i)"
    and unused: "\<And>i. i < 2 ^ n \<Longrightarrow> bucket bs ! i = id_unused env \<Longrightarrow> hit i"
    and "j < 2 ^ n" and "unat i = hpos n h j" and "2 ^ n - j \<le> fuel"
  shows "\<exists>res. find_loop env bs key (2 ^ n - 1) (drop_bit 8 h OR 1) (h AND (2 ^ n - 1)) fuel i r = Inr res \<and>
    map_option unat res = search hit (\<lambda>p. bucket bs ! p = id_deleted env) (map (hpos n h) [j..<2 ^ n]) (map_option unat r)"
  using assms(5-7)
proof (induction fuel arbitrary: i j r)
  case (Suc fuel)
  let ?k = "bucket bs ! hpos n h j"
  let ?i' = "(i + (drop_bit 8 h OR 1)) AND (2 ^ n - 1)"
  let ?r' = "if r = None \<and> ?k = id_deleted env then Some i else r"
  have at: "bucket_at bs i = Inr ?k" using Suc.prems(2) assms(2) by (simp add: bucket_at_def)
  have hit: "(if ?k = id_unused env then Inr True else cmpf env ?k key) = Inr (hit (hpos n h j))"
    using cmp [of "hpos n h j"] unused [of "hpos n h j"] by simp
  have next_eq: "?i' = h AND (2 ^ n - 1) \<longleftrightarrow> Suc j = 2 ^ n"
  proof -
    have "?i' = h AND (2 ^ n - 1) \<longleftrightarrow> unat ?i' = unat (h AND (2 ^ n - 1))"
      by (rule word_unat_eq_iff)
    also have "\<dots> \<longleftrightarrow> hpos n h (Suc j) = hpos n h 0"
      using hpos_next [OF assms(1) Suc.prems(2)] hpos_first [of h n] by (simp only:)
    finally have "?i' = h AND (2 ^ n - 1) \<longleftrightarrow> hpos n h (Suc j) = hpos n h 0" .
    then show ?thesis using hpos_wrap [of n h j] hpos_cycle [of n h] Suc.prems(1) by metis
  qed
  have upt: "[j..<2 ^ n] = j # [Suc j..<2 ^ n]" using Suc.prems(1) by (rule upt_conv_Cons)
  show ?case
  proof (cases "hit (hpos n h j)")
    case True
    then have "find_loop env bs key (2 ^ n - 1) (drop_bit 8 h OR 1) (h AND (2 ^ n - 1)) (Suc fuel) i r = Inr (Some i)"
      using at hit by simp
    with True Suc.prems(2) show ?thesis unfolding upt by simp
  next
    case False
    have step: "find_loop env bs key (2 ^ n - 1) (drop_bit 8 h OR 1) (h AND (2 ^ n - 1)) (Suc fuel) i r =
      (if Suc j = 2 ^ n then Inr ?r'
       else find_loop env bs key (2 ^ n - 1) (drop_bit 8 h OR 1) (h AND (2 ^ n - 1)) fuel ?i' ?r')"
      using False at hit next_eq by (simp add: Let_def)
    have r': "map_option unat ?r' = (if map_option unat r = None \<and> ?k = id_deleted env
        then Some (hpos n h j) else map_option unat r)"
      using Suc.prems(2) by simp
    show ?thesis
    proof (cases "Suc j = 2 ^ n")
      case True
      then show ?thesis unfolding step upt using False r' by simp
    next
      case more: False
      with Suc.prems(1) have j': "Suc j < 2 ^ n" by simp
      have fuel: "2 ^ n - Suc j \<le> fuel" using Suc.prems(3) by simp
      from Suc.IH [OF j' hpos_next [OF assms(1) Suc.prems(2)] fuel, of ?r'] more False r'
      show ?thesis unfolding step upt by simp
    qed
  qed
qed simp

end
