(* ===== verification/MetaInv.thy ===== *)
theory MetaInv
  imports MetaProbe ObjScan
begin

text \<open>
  What makes the metadata hash table correct: the laws its hash, comparison and location
  dependency have to obey, the invariant of a table, the map it stands for, and what a search
  for a key finds.
\<close>

section \<open>Keys\<close>

text \<open>The keys of a table: which addresses are keys, their hash values, and when two are equal.\<close>

record keying =
  kvalid :: "addr \<Rightarrow> bool"
  khash :: "addr \<Rightarrow> ulong"
  ksame :: "addr \<Rightarrow> addr \<Rightarrow> bool"

text \<open>
  The laws.  Hashing a key adds it to the location dependency, which leaves stale what is stale;
  it may also make a dependency stale, as the MPS only keeps a summary of the addresses.  A
  dependency is current when no collection has moved objects since it was reset: no collection
  happens during an operation, so it stays current, and it is not stale.
\<close>

record 'ld dependency =
  is_current :: "'ld \<Rightarrow> bool"
  depends_on :: "'ld \<Rightarrow> addr \<Rightarrow> bool"

definition carries :: "'ld tbl_env \<Rightarrow> 'ld dependency \<Rightarrow> 'ld \<Rightarrow> 'ld \<Rightarrow> bool" where
  "carries env L ld ld' \<longleftrightarrow> (\<forall>y. ld_isstale env ld y \<longrightarrow> ld_isstale env ld' y) \<and>
     (\<forall>y. depends_on L ld y \<longrightarrow> depends_on L ld' y) \<and> (is_current L ld \<longrightarrow> is_current L ld')"

lemma carries_refl [simp]: "carries env L ld ld"
  by (simp add: carries_def)

locale table_keys =
  fixes env :: "'ld tbl_env" and K :: keying and L :: "'ld dependency"
  assumes hash_find: "kvalid K k \<Longrightarrow> hashf env k None = Inr (khash K k, None)"
    and hash_add: "kvalid K k \<Longrightarrow> \<exists>ld'. hashf env k (Some ld) = Inr (khash K k, Some ld') \<and>
      carries env L ld ld' \<and> depends_on L ld' k"
    and cmp_key: "kvalid K x \<Longrightarrow> kvalid K k \<Longrightarrow> cmpf env x k = Inr (ksame K x k)"
    and cmp_deleted: "kvalid K k \<Longrightarrow> cmpf env (id_deleted env) k = Inr False"
    and same_refl: "kvalid K x \<Longrightarrow> ksame K x x"
    and same_sym: "ksame K x y \<Longrightarrow> ksame K y x"
    and same_trans: "ksame K x y \<Longrightarrow> ksame K y z \<Longrightarrow> ksame K x z"
    and same_hash: "kvalid K x \<Longrightarrow> kvalid K y \<Longrightarrow> ksame K x y \<Longrightarrow> khash K x = khash K y"
    and markers: "id_unused env \<noteq> id_deleted env" "\<not> kvalid K (id_unused env)" "\<not> kvalid K (id_deleted env)"
    and not_null: "kvalid K k \<Longrightarrow> k \<noteq> 0"
    and reset_current: "is_current L (ld_reset env)"
    and current_fresh: "is_current L ld \<Longrightarrow> \<not> ld_isstale env ld y"

section \<open>The invariant\<close>

definition tag_of :: "nat \<Rightarrow> size_t" where
  "tag_of c = MANAGED_OBJECT_METADATA_TAG_COUNT (of_nat c)"

text \<open>The position is on the probe sequence of the hash, with no unused bucket before it.\<close>

definition chain :: "addr \<Rightarrow> nat \<Rightarrow> addr list \<Rightarrow> ulong \<Rightarrow> nat \<Rightarrow> bool" where
  "chain u n ks h i \<longleftrightarrow> (\<exists>j < 2 ^ n. hpos n h j = i \<and> (\<forall>m < j. ks ! hpos n h m \<noteq> u))"

definition keys_ok :: "'ld tbl_env \<Rightarrow> keying \<Rightarrow> nat \<Rightarrow> addr list \<Rightarrow> bool" where
  "keys_ok env K n ks \<longleftrightarrow> n < 60 \<and> length ks = 2 ^ n \<and>
     (\<forall>i < 2 ^ n. ks ! i = id_unused env \<or> ks ! i = id_deleted env \<or> kvalid K (ks ! i)) \<and>
     (\<forall>i < 2 ^ n. \<forall>j < 2 ^ n. kvalid K (ks ! i) \<and> kvalid K (ks ! j) \<and> ksame K (ks ! i) (ks ! j) \<longrightarrow> i = j)"

text \<open>
  Every key can be found from its hash, unless it may have moved since it was stored, in which
  case the dependency is stale for it.
\<close>

definition placed :: "'ld tbl_env \<Rightarrow> keying \<Rightarrow> nat \<Rightarrow> 'ld \<Rightarrow> addr list \<Rightarrow> bool" where
  "placed env K n ld ks \<longleftrightarrow> (\<forall>i < 2 ^ n. kvalid K (ks ! i) \<longrightarrow>
     chain (id_unused env) n ks (khash K (ks ! i)) i \<or>
     (\<forall>y. kvalid K y \<and> ksame K (ks ! i) y \<longrightarrow> ld_isstale env ld y))"

definition used_in :: "'ld tbl_env \<Rightarrow> addr list \<Rightarrow> nat" where
  "used_in env ks = length (filter (\<lambda>k. k \<noteq> id_unused env) ks)"

definition deleted_in :: "'ld tbl_env \<Rightarrow> addr list \<Rightarrow> nat" where
  "deleted_in env ks = length (filter (\<lambda>k. k = id_deleted env) ks)"

definition counts_ok :: "'ld tbl_env \<Rightarrow> nat \<Rightarrow> buckets \<Rightarrow> bool" where
  "counts_ok env n bs \<longleftrightarrow> b_length bs = tag_of (2 ^ n) \<and> b_used bs = tag_of (used_in env (bucket bs)) \<and>
     b_deleted bs = tag_of (deleted_in env (bucket bs))"

text \<open>The dependency covers every key, unless it is stale for it already.\<close>

definition watched :: "'ld tbl_env \<Rightarrow> keying \<Rightarrow> 'ld dependency \<Rightarrow> nat \<Rightarrow> 'ld \<Rightarrow> addr list \<Rightarrow> bool" where
  "watched env K L n ld ks \<longleftrightarrow> (\<forall>i < 2 ^ n. kvalid K (ks ! i) \<longrightarrow>
     depends_on L ld (ks ! i) \<or> (\<forall>y. kvalid K y \<and> ksame K (ks ! i) y \<longrightarrow> ld_isstale env ld y))"

definition table_ok :: "'ld tbl_env \<Rightarrow> keying \<Rightarrow> 'ld dependency \<Rightarrow> nat \<Rightarrow> 'ld hashtable \<Rightarrow> bool" where
  "table_ok env K L n tbl \<longleftrightarrow> t_type tbl = MANAGED_OBJECT_TYPE_METADATA_HASH_TABLE \<and>
     keys_ok env K n (bucket (t_keys tbl)) \<and> counts_ok env n (t_keys tbl) \<and>
     length (bucket (t_values tbl)) = 2 ^ n \<and> placed env K n (t_ld tbl) (bucket (t_keys tbl)) \<and>
     watched env K L n (t_ld tbl) (bucket (t_keys tbl))"

section \<open>The map of a table\<close>

definition key_slot :: "keying \<Rightarrow> addr list \<Rightarrow> addr \<Rightarrow> nat option" where
  "key_slot K ks x = List.find (\<lambda>i. kvalid K (ks ! i) \<and> ksame K (ks ! i) x) [0..<length ks]"

definition table_map :: "keying \<Rightarrow> 'ld hashtable \<Rightarrow> addr \<Rightarrow> addr option" where
  "table_map K tbl x = map_option (\<lambda>i. bucket (t_values tbl) ! i) (key_slot K (bucket (t_keys tbl)) x)"

lemma untag_tag_of [simp]: "c < 2 ^ 63 \<Longrightarrow> MANAGED_OBJECT_METADATA_UNTAG_COUNT (tag_of c) = of_nat c"
  unfolding tag_of_def by (rule untag_tag) (simp add: unat_of_nat)

lemma pow_bound: "n < 60 \<Longrightarrow> (2::nat) ^ n < 2 ^ 60"
  by (rule power_strict_increasing) simp_all

lemma unat_small: "c < 2 ^ 60 \<Longrightarrow> unat (of_nat c :: 64 word) = c"
  by (simp add: unat_of_nat)

lemma UNTAG_tag_of [simp]: "c < 2 ^ 60 \<Longrightarrow> UNTAG (tag_of c) = c"
  by (simp add: UNTAG_def unat_of_nat)

context table_keys
begin

lemma key_slot_iff:
  assumes "keys_ok env K n ks" and "kvalid K x"
  shows "key_slot K ks x = Some i \<longleftrightarrow> i < 2 ^ n \<and> kvalid K (ks ! i) \<and> ksame K (ks ! i) x"
proof -
  have len: "length ks = 2 ^ n"
    and uniq: "\<And>i j. i < 2 ^ n \<Longrightarrow> j < 2 ^ n \<Longrightarrow> kvalid K (ks ! i) \<Longrightarrow> kvalid K (ks ! j) \<Longrightarrow>
      ksame K (ks ! i) (ks ! j) \<Longrightarrow> i = j"
    using assms(1) by (auto simp: keys_ok_def)
  show ?thesis
  proof
    assume "key_slot K ks x = Some i"
    then show "i < 2 ^ n \<and> kvalid K (ks ! i) \<and> ksame K (ks ! i) x"
      by (auto simp: key_slot_def find_Some_iff len)
  next
    assume i: "i < 2 ^ n \<and> kvalid K (ks ! i) \<and> ksame K (ks ! i) x"
    then obtain j where j: "key_slot K ks x = Some j"
      unfolding key_slot_def by (cases "List.find (\<lambda>i. kvalid K (ks ! i) \<and> ksame K (ks ! i) x) [0..<length ks]")
        (auto simp: find_None_iff len)
    then have "j < 2 ^ n \<and> kvalid K (ks ! j) \<and> ksame K (ks ! j) x"
      by (auto simp: key_slot_def find_Some_iff len)
    with i uniq [of i j] same_trans [OF _ same_sym] have "i = j" by blast
    with j show "key_slot K ks x = Some i" by simp
  qed
qed

lemma key_slot_None:
  "keys_ok env K n ks \<Longrightarrow> kvalid K x \<Longrightarrow>
    key_slot K ks x = None \<longleftrightarrow> (\<forall>i < 2 ^ n. kvalid K (ks ! i) \<longrightarrow> \<not> ksame K (ks ! i) x)"
  using key_slot_iff [of n ks x] by (cases "key_slot K ks x") auto

section \<open>What a search finds\<close>

lemma buckets_find_search:
  assumes "keys_ok env K n (bucket bs)" and "b_length bs = tag_of (2 ^ n)" and "kvalid K key"
    and "t_type tbl = MANAGED_OBJECT_TYPE_METADATA_HASH_TABLE"
  shows "\<exists>res ld. managed_obj_metadata_buckets_find env tbl bs key add = Inr (res, tbl\<lparr>t_ld := ld\<rparr>) \<and>
    carries env L (t_ld tbl) ld \<and> (add \<longrightarrow> depends_on L ld key) \<and>
    map_option unat res = search (\<lambda>i. bucket bs ! i = id_unused env \<or> kvalid K (bucket bs ! i) \<and> ksame K (bucket bs ! i) key)
      (\<lambda>i. bucket bs ! i = id_deleted env) (map (hpos n (khash K key)) [0..<2 ^ n]) None"
proof -
  let ?ks = "bucket bs" and ?h = "khash K key"
  let ?hit = "\<lambda>i. ?ks ! i = id_unused env \<or> kvalid K (?ks ! i) \<and> ksame K (?ks ! i) key"
  have n: "n < 60" and len: "length ?ks = 2 ^ n"
    and ks: "\<And>i. i < 2 ^ n \<Longrightarrow> ?ks ! i = id_unused env \<or> ?ks ! i = id_deleted env \<or> kvalid K (?ks ! i)"
    using assms(1) by (auto simp: keys_ok_def)
  have small: "(2::nat) ^ n < 2 ^ 63" "(2::nat) ^ n < 2 ^ 60" using pow_bound [OF n] by simp_all
  have l: "MANAGED_OBJECT_METADATA_UNTAG_COUNT (b_length bs) - 1 = 2 ^ n - 1"
    using small by (simp add: assms(2))
  have fuel: "UNTAG (b_length bs) = 2 ^ n" using small by (simp add: assms(2))
  have cmp: "cmpf env (?ks ! i) key = Inr (?hit i)" if "i < 2 ^ n" "?ks ! i \<noteq> id_unused env" for i
    using ks [OF that(1)] that(2) cmp_key [OF _ assms(3)] cmp_deleted [OF assms(3)] markers(3) by auto
  have n64: "n < 64" using n by simp
  have first: "unat (?h AND (2 ^ n - 1)) = hpos n ?h 0" by (rule hpos_first)
  from find_loop_search [OF n64 len cmp _ _ first, where r = None and fuel = "2 ^ n"]
  obtain res where res: "find_loop env bs key (2 ^ n - 1) (drop_bit 8 ?h OR 1) (?h AND (2 ^ n - 1)) (2 ^ n)
      (?h AND (2 ^ n - 1)) None = Inr res"
    "map_option unat res = search ?hit (\<lambda>p. ?ks ! p = id_deleted env) (map (hpos n ?h) [0..<2 ^ n]) None"
    by auto
  show ?thesis
  proof (cases add)
    case True
    obtain ld where ld: "hashf env key (Some (t_ld tbl)) = Inr (?h, Some ld)"
      "carries env L (t_ld tbl) ld" "depends_on L ld key"
      using hash_add [OF assms(3), of "t_ld tbl"] by blast
    with True res assms(4) l fuel show ?thesis
      by (intro exI [of _ res] exI [of _ ld]) (simp add: managed_obj_metadata_buckets_find_def Let_def)
  next
    case False
    with hash_find [OF assms(3)] res assms(4) l fuel show ?thesis
      by (intro exI [of _ res] exI [of _ "t_ld tbl"]) (simp add: managed_obj_metadata_buckets_find_def Let_def)
  qed
qed

text \<open>
  The four results: the key's bucket; an unused bucket that is in place for the key, which is
  then not in the table or has lost its place; a deleted bucket, when the table has no unused
  bucket and not the key; nothing, when it is full of other keys.
\<close>

lemma buckets_find_cases:
  assumes "keys_ok env K n (bucket bs)" and "b_length bs = tag_of (2 ^ n)" and "kvalid K key"
    and "t_type tbl = MANAGED_OBJECT_TYPE_METADATA_HASH_TABLE"
  obtains res ld where
    "managed_obj_metadata_buckets_find env tbl bs key add = Inr (res, tbl\<lparr>t_ld := ld\<rparr>)"
    "carries env L (t_ld tbl) ld" "add \<longrightarrow> depends_on L ld key"
    "(\<exists>i < 2 ^ n. res = Some (of_nat i) \<and> key_slot K (bucket bs) key = Some i) \<or>
     (\<exists>i < 2 ^ n. res = Some (of_nat i) \<and> bucket bs ! i = id_unused env \<and>
        chain (id_unused env) n (bucket bs) (khash K key) i \<and>
        (\<forall>s. key_slot K (bucket bs) key = Some s \<longrightarrow> \<not> chain (id_unused env) n (bucket bs) (khash K key) s)) \<or>
     ((\<forall>i < 2 ^ n. bucket bs ! i \<noteq> id_unused env) \<and> key_slot K (bucket bs) key = None \<and>
      (res = None \<and> (\<forall>i < 2 ^ n. bucket bs ! i \<noteq> id_deleted env) \<or>
       (\<exists>i < 2 ^ n. res = Some (of_nat i) \<and> bucket bs ! i = id_deleted env)))"
proof -
  let ?ks = "bucket bs" and ?h = "khash K key" and ?u = "id_unused env"
  let ?hit = "\<lambda>i. ?ks ! i = ?u \<or> kvalid K (?ks ! i) \<and> ksame K (?ks ! i) key"
  let ?del = "\<lambda>i. ?ks ! i = id_deleted env"
  let ?f = "hpos n ?h"
  from buckets_find_search [OF assms] obtain res ld where
    find: "managed_obj_metadata_buckets_find env tbl bs key add = Inr (res, tbl\<lparr>t_ld := ld\<rparr>)"
      "carries env L (t_ld tbl) ld" "add \<longrightarrow> depends_on L ld key"
    and res: "map_option unat res = search ?hit ?del (map ?f [0..<2 ^ n]) None"
    by blast
  have word: "res = Some (of_nat i)" if "map_option unat res = Some i" for i
    using that by (auto simp: word_unat_eq_iff)
  note slot = key_slot_iff [OF assms(1,3)]
  from search_positions [of "2 ^ n" ?hit ?f ?del]
  consider (hit) j where "j < 2 ^ n" "?hit (?f j)" "\<forall>i < j. \<not> ?hit (?f i)" "map_option unat res = Some (?f j)"
    | (miss) "\<forall>j < 2 ^ n. \<not> ?hit (?f j)" "map_option unat res = List.find ?del (map ?f [0..<2 ^ n])"
    unfolding res [symmetric] by blast
  then show thesis
  proof cases
    case (hit j)
    have i: "?f j < 2 ^ n" "res = Some (of_nat (?f j))" using word [OF hit(4)] by simp_all
    show thesis
    proof (cases "?ks ! ?f j = ?u")
      case False
      with hit(2) i have "key_slot K ?ks key = Some (?f j)" by (simp add: slot)
      then show thesis using that [OF find] i by blast
    next
      case True
      have placed: "chain ?u n ?ks ?h (?f j)" unfolding chain_def using hit(1,3) by blast
      have "\<not> chain ?u n ?ks ?h s" if s: "key_slot K ?ks key = Some s" for s
      proof
        assume "chain ?u n ?ks ?h s"
        then obtain j0 where j0: "j0 < 2 ^ n" "?f j0 = s" "\<forall>m < j0. ?ks ! ?f m \<noteq> ?u"
          unfolding chain_def by blast
        have "kvalid K (?ks ! ?f j0)" "ksame K (?ks ! ?f j0) key" using s j0(2) by (simp_all add: slot)
        then have "\<not> j0 < j" and "j0 \<noteq> j" using hit(3) True markers(2) by auto
        then have "j < j0" by simp
        with j0(3) True show False by blast
      qed
      then show thesis using that [OF find] i True placed by blast
    qed
  next
    case miss
    have all: "\<not> ?hit i" if "i < 2 ^ n" for i
      using hpos_surj [OF that, of ?h] miss(1) by blast
    then have none: "\<forall>i < 2 ^ n. ?ks ! i \<noteq> ?u" "key_slot K ?ks key = None"
      using key_slot_None [OF assms(1,3)] by blast+
    have "res = None \<and> (\<forall>i < 2 ^ n. ?ks ! i \<noteq> id_deleted env) \<or>
       (\<exists>i < 2 ^ n. res = Some (of_nat i) \<and> ?ks ! i = id_deleted env)"
    proof (cases "List.find ?del (map ?f [0..<2 ^ n])")
      case None
      then have "\<forall>j < 2 ^ n. ?ks ! ?f j \<noteq> id_deleted env" by (auto simp: find_None_iff)
      then have "\<forall>i < 2 ^ n. ?ks ! i \<noteq> id_deleted env" using hpos_surj [of _ n ?h] by metis
      with None miss(2) show ?thesis by simp
    next
      case (Some i)
      then obtain j where "j < 2 ^ n" "i = ?f j" "?ks ! i = id_deleted env" by (auto simp: find_Some_iff)
      then have "i < 2 ^ n" by simp
      moreover have "res = Some (of_nat i)" using Some miss(2) by (intro word) simp
      ultimately show ?thesis using \<open>?ks ! i = id_deleted env\<close> by blast
    qed
    then show thesis using that [OF find] none by blast
  qed
qed

section \<open>Storing and deleting keys\<close>

lemma chain_update: "chain u n ks h s \<Longrightarrow> k \<noteq> u \<Longrightarrow> i < length ks \<Longrightarrow> chain u n (ks[i := k]) h s"
  unfolding chain_def by (auto simp: nth_list_update)

lemma valid_not_marker: "kvalid K k \<Longrightarrow> k \<noteq> id_unused env \<and> k \<noteq> id_deleted env"
  using markers by auto

lemma key_slot_same:
  assumes "keys_ok env K n ks" and "kvalid K x" and "kvalid K y" and "ksame K x y"
  shows "key_slot K ks x = key_slot K ks y"
proof -
  have "ksame K k x \<longleftrightarrow> ksame K k y" for k
    using assms(4) same_trans same_sym by blast
  then show ?thesis by (simp add: key_slot_def)
qed

lemma keys_ok_store:
  assumes ok: "keys_ok env K n ks" and i: "i < 2 ^ n" "\<not> kvalid K (ks ! i)" and key: "kvalid K key"
    and absent: "key_slot K ks key = None"
  shows "keys_ok env K n (ks[i := key])"
    and "kvalid K x \<Longrightarrow> key_slot K (ks[i := key]) x = (if ksame K key x then Some i else key_slot K ks x)"
proof -
  have none: "\<not> ksame K (ks ! j) key" if "j < 2 ^ n" "kvalid K (ks ! j)" for j
    using that absent key_slot_None [OF ok key] by blast
  have none': "\<not> ksame K key (ks ! j)" if "j < 2 ^ n" "kvalid K (ks ! j)" for j
    using none [OF that] same_sym by blast
  have len: "length ks = 2 ^ n" using ok by (simp add: keys_ok_def)
  show ok': "keys_ok env K n (ks[i := key])"
    using ok i key none none' unfolding keys_ok_def
    by (auto simp: nth_list_update)
  assume x: "kvalid K x"
  show "key_slot K (ks[i := key]) x = (if ksame K key x then Some i else key_slot K ks x)"
  proof (cases "ksame K key x")
    case True
    then show ?thesis using key_slot_iff [OF ok' x, of i] i(1) key len by simp
  next
    case False
    have "key_slot K (ks[i := key]) x = Some j \<longleftrightarrow> key_slot K ks x = Some j" for j
      using key_slot_iff [OF ok' x, of j] key_slot_iff [OF ok x, of j] False i len
      by (auto simp: nth_list_update)
    with False show ?thesis by (metis not_None_eq)
  qed
qed

lemma keys_ok_delete:
  assumes ok: "keys_ok env K n ks" and i: "i < 2 ^ n"
  shows "keys_ok env K n (ks[i := id_deleted env])"
    and "kvalid K x \<Longrightarrow> key_slot K (ks[i := id_deleted env]) x = (if key_slot K ks x = Some i then None else key_slot K ks x)"
proof -
  have len: "length ks = 2 ^ n" using ok by (simp add: keys_ok_def)
  show ok': "keys_ok env K n (ks[i := id_deleted env])"
    using ok i markers(3) unfolding keys_ok_def by (auto simp: nth_list_update)
  assume x: "kvalid K x"
  have "key_slot K (ks[i := id_deleted env]) x = Some j \<longleftrightarrow> key_slot K ks x = Some j \<and> j \<noteq> i" for j
    using key_slot_iff [OF ok' x, of j] key_slot_iff [OF ok x, of j] i len markers(3)
    by (auto simp: nth_list_update)
  then show "key_slot K (ks[i := id_deleted env]) x = (if key_slot K ks x = Some i then None else key_slot K ks x)"
    by (metis not_None_eq)
qed

lemma placed_store:
  assumes "placed env K n ld ks" and "length ks = 2 ^ n" and "i < 2 ^ n" and "k \<noteq> id_unused env"
    and "kvalid K k \<Longrightarrow> chain (id_unused env) n ks (khash K k) i"
    and "\<And>y. ld_isstale env ld y \<Longrightarrow> ld_isstale env ld' y"
  shows "placed env K n ld' (ks[i := k])"
  unfolding placed_def
proof (intro allI impI)
  fix s assume s: "s < 2 ^ n" "kvalid K (ks[i := k] ! s)"
  show "chain (id_unused env) n (ks[i := k]) (khash K (ks[i := k] ! s)) s \<or>
    (\<forall>y. kvalid K y \<and> ksame K (ks[i := k] ! s) y \<longrightarrow> ld_isstale env ld' y)"
  proof (cases "s = i")
    case True
    with s assms(2-5) show ?thesis by (simp add: chain_update)
  next
    case False
    with s(2) have "ks[i := k] ! s = ks ! s" "kvalid K (ks ! s)" by simp_all
    with s(1) assms(1,6) chain_update [of "id_unused env" n ks "khash K (ks ! s)" s k i] assms(2-4) show ?thesis
      unfolding placed_def by metis
  qed
qed

lemma watched_store:
  assumes "watched env K L n ld ks" and "length ks = 2 ^ n" and "kvalid K k \<Longrightarrow> depends_on L ld k"
  shows "watched env K L n ld (ks[i := k])"
  unfolding watched_def
proof (intro allI impI)
  fix s assume s: "s < 2 ^ n" "kvalid K (ks[i := k] ! s)"
  show "depends_on L ld (ks[i := k] ! s) \<or>
    (\<forall>y. kvalid K y \<and> ksame K (ks[i := k] ! s) y \<longrightarrow> ld_isstale env ld y)"
  proof (cases "s = i")
    case True
    with s assms(2,3) show ?thesis by simp
  next
    case False
    with s assms(1) show ?thesis by (simp add: watched_def)
  qed
qed

end

section \<open>Counting buckets\<close>

lemma length_filter_update:
  "i < length xs \<Longrightarrow> length (filter P (xs[i := y])) + (if P (xs ! i) then 1 else 0) =
    length (filter P xs) + (if P y then 1 else 0)"
proof (induction xs arbitrary: i)
  case (Cons x xs)
  then show ?case by (cases i) auto
qed simp

lemma used_in_le: "used_in env ks \<le> length ks" and deleted_in_le: "deleted_in env ks \<le> length ks"
  by (simp_all add: used_in_def deleted_in_def)

lemma used_in_full: "\<forall>i < length ks. ks ! i \<noteq> id_unused env \<Longrightarrow> used_in env ks = length ks"
proof -
  assume "\<forall>i < length ks. ks ! i \<noteq> id_unused env"
  then have "\<forall>k \<in> set ks. k \<noteq> id_unused env" by (auto simp: in_set_conv_nth)
  then show ?thesis by (simp add: used_in_def)
qed

lemma used_in_store:
  "i < length ks \<Longrightarrow> ks ! i = id_unused env \<Longrightarrow> k \<noteq> id_unused env \<Longrightarrow> used_in env (ks[i := k]) = Suc (used_in env ks)"
  "i < length ks \<Longrightarrow> ks ! i \<noteq> id_unused env \<Longrightarrow> k \<noteq> id_unused env \<Longrightarrow> used_in env (ks[i := k]) = used_in env ks"
  using length_filter_update [of i ks "\<lambda>k. k \<noteq> id_unused env" k] by (simp_all add: used_in_def)

lemma deleted_in_store:
  "i < length ks \<Longrightarrow> ks ! i \<noteq> id_deleted env \<Longrightarrow> deleted_in env (ks[i := id_deleted env]) = Suc (deleted_in env ks)"
  "i < length ks \<Longrightarrow> ks ! i \<noteq> id_deleted env \<Longrightarrow> k \<noteq> id_deleted env \<Longrightarrow> deleted_in env (ks[i := k]) = deleted_in env ks"
  "i < length ks \<Longrightarrow> ks ! i = id_deleted env \<Longrightarrow> k \<noteq> id_deleted env \<Longrightarrow> Suc (deleted_in env (ks[i := k])) = deleted_in env ks"
  using length_filter_update [of i ks "\<lambda>k. k = id_deleted env" "id_deleted env"]
    length_filter_update [of i ks "\<lambda>k. k = id_deleted env" k] by (simp_all add: deleted_in_def)

definition live_in :: "keying \<Rightarrow> addr list \<Rightarrow> nat" where
  "live_in K ks = length (filter (kvalid K) ks)"

end
