(* ===== verification/MetaRehash.thy ===== *)
theory MetaRehash
  imports MetaInv
begin

text \<open>
  Making bucket objects and rehashing: the new table has the same map, every key is in place in
  it, and none of the assertions of the code fails.
\<close>

section \<open>New bucket objects\<close>

definition out_of_memory :: "'ld tbl_env \<Rightarrow> fault \<Rightarrow> bool" where
  "out_of_memory env f \<longleftrightarrow> f \<in> {Fatal_error, Diverges} \<and> \<not> (\<forall>i. \<exists>a. reserve_commit (answers env i) = Inr a)"

definition fresh_buckets :: "'ld tbl_env \<Rightarrow> nat \<Rightarrow> buckets" where
  "fresh_buckets env n = \<lparr>b_length = tag_of (2 ^ n), b_used = tag_of 0, b_deleted = tag_of 0,
     bucket = replicate (2 ^ n) (id_unused env)\<rparr>"

lemma add_used_tag: "b_used bs = tag_of c \<Longrightarrow> c < 2 ^ 63 \<Longrightarrow> add_used bs = bs\<lparr>b_used := tag_of (Suc c)\<rparr>"
  by (simp add: add_used_def tag_of_def [of "Suc c"] add.commute)

lemma ask_outcome:
  "(\<exists>a m'. ask env sz al m = Inr (a, m')) \<or> (\<exists>f. ask env sz al m = Inl f \<and> out_of_memory env f)"
proof (cases "reserve_commit (answers env (asked m))")
  case (Inl f)
  then have "out_of_memory env f"
    unfolding out_of_memory_def using reserve_commit_faults [OF Inl] by (metis Inl_Inr_False)
  with Inl show ?thesis by (simp add: ask_def)
qed (simp add: ask_def)

lemma make_buckets_fits:
  assumes "n \<le> 60"
  shows "(\<exists>m'. managed_obj_metadata_make_buckets env (of_nat (2 ^ n)) m = Inr (fresh_buckets env n, m')) \<or>
    (\<exists>f. managed_obj_metadata_make_buckets env (of_nat (2 ^ n)) m = Inl f \<and> out_of_memory env f)"
proof -
  have n: "(2::nat) ^ n \<le> 2 ^ 60" using assms by (intro power_increasing) simp_all
  have len: "unat (of_nat (2 ^ n) :: size_t) = 2 ^ n" using n unfolding unat_of_nat by simp
  have fits: "\<not> 2 ^ 64 \<le> unat offsetof_bucket + unat (of_nat (2 ^ n) :: size_t) * 8 + 7"
    using n unfolding len by (simp add: offsetof_bucket_def)
  have tags: "MANAGED_OBJECT_METADATA_TAG_COUNT (of_nat (2 ^ n)) = tag_of (2 ^ n)"
    "MANAGED_OBJECT_METADATA_TAG_COUNT 0 = tag_of 0"
    by (simp_all add: tag_of_def)
  show ?thesis
    using ask_outcome [of env sizeof_buckets "MANAGED_OBJECT_ALIGN_OBJ (offsetof_bucket + of_nat (2 ^ n) * 8)" m]
    unfolding managed_obj_metadata_make_buckets_def if_not_P [OF fits]
    unfolding tags len fresh_buckets_def [symmetric]
    by auto
qed

lemma make_buckets_outcome:
  "n < 60 \<Longrightarrow> (\<exists>m'. managed_obj_metadata_make_buckets env (of_nat (2 ^ n)) m = Inr (fresh_buckets env n, m')) \<or>
    (\<exists>f. managed_obj_metadata_make_buckets env (of_nat (2 ^ n)) m = Inl f \<and> out_of_memory env f)"
  by (rule make_buckets_fits) simp

text \<open>From \<open>2 ^ 61\<close> buckets on their size in bytes wraps.\<close>

lemma make_buckets_wraps:
  assumes "60 < n" and "n \<le> 63"
  shows "managed_obj_metadata_make_buckets env (2 ^ n) m = Inl Undefined_behaviour"
proof -
  have n: "(2::nat) ^ 61 \<le> 2 ^ n" using assms(1) by (intro power_increasing) simp_all
  have len: "unat (2 ^ n :: size_t) = 2 ^ n" using assms(2) by simp
  have "2 ^ 64 \<le> unat offsetof_bucket + unat (2 ^ n :: size_t) * 8 + 7" using n unfolding len by simp
  then show ?thesis unfolding managed_obj_metadata_make_buckets_def by (simp only: if_True)
qed

section \<open>The rehash loop\<close>

definition slot_upto :: "keying \<Rightarrow> addr list \<Rightarrow> nat \<Rightarrow> addr \<Rightarrow> nat option" where
  "slot_upto K ks i x = List.find (\<lambda>j. kvalid K (ks ! j) \<and> ksame K (ks ! j) x) [0..<i]"

lemma slot_upto_0 [simp]: "slot_upto K ks 0 x = None"
  by (simp add: slot_upto_def)

lemma slot_upto_length: "slot_upto K ks (length ks) x = key_slot K ks x"
  by (simp add: slot_upto_def key_slot_def)

lemma find_append: "List.find P (xs @ ys) = (case List.find P xs of None \<Rightarrow> List.find P ys | Some x \<Rightarrow> Some x)"
  by (induction xs) auto

lemma slot_upto_Suc:
  "slot_upto K ks (Suc i) x =
    (case slot_upto K ks i x of Some j \<Rightarrow> Some j
     | None \<Rightarrow> if kvalid K (ks ! i) \<and> ksame K (ks ! i) x then Some i else None)"
  by (simp add: slot_upto_def find_append split: option.split)

text \<open>
  The new table when the first \<open>i\<close> old buckets are done: all its keys are in place, it has no
  deleted bucket, and it stands for the bindings of those buckets.
\<close>

definition partial ::
  "'ld tbl_env \<Rightarrow> keying \<Rightarrow> 'ld dependency \<Rightarrow> addr list \<Rightarrow> addr list \<Rightarrow> addr \<Rightarrow> nat \<Rightarrow> nat \<Rightarrow>
     buckets \<times> buckets \<times> 'ld \<times> size_t option \<Rightarrow> bool"
where
  "partial env K L ks vals key n i s \<longleftrightarrow>
     (case s of (nk, nv, ld, res) \<Rightarrow>
        keys_ok env K n (bucket nk) \<and> counts_ok env n nk \<and> length (bucket nv) = 2 ^ n \<and>
        deleted_in env (bucket nk) = 0 \<and> used_in env (bucket nk) = live_in K (take i ks) \<and>
        (\<forall>s < 2 ^ n. kvalid K (bucket nk ! s) \<longrightarrow> chain (id_unused env) n (bucket nk) (khash K (bucket nk ! s)) s) \<and>
        is_current L ld \<and> (\<forall>s < 2 ^ n. kvalid K (bucket nk ! s) \<longrightarrow> depends_on L ld (bucket nk ! s)) \<and>
        (\<forall>x. kvalid K x \<longrightarrow> map_option ((!) (bucket nv)) (key_slot K (bucket nk) x) =
           map_option ((!) vals) (slot_upto K ks i x)) \<and>
        res = (if key = 0 then None else map_option of_nat (key_slot K (bucket nk) key)))"

definition fully_placed :: "'a tbl_env \<Rightarrow> keying \<Rightarrow> nat \<Rightarrow> addr list \<Rightarrow> bool" where
  "fully_placed env K n ks \<longleftrightarrow> (\<forall>s < 2 ^ n. kvalid K (ks ! s) \<longrightarrow> chain (id_unused env) n ks (khash K (ks ! s)) s)"

context table_keys
begin

lemma live_in_le_used:
  assumes "keys_ok env K n ks"
  shows "used_in env ks = live_in K ks + deleted_in env ks"
proof -
  have "\<forall>k \<in> set ks. k = id_unused env \<or> k = id_deleted env \<or> kvalid K k"
    using assms by (auto simp: keys_ok_def in_set_conv_nth)
  then show ?thesis
  proof (induction ks)
    case (Cons k ks)
    then show ?case using markers by (auto simp: used_in_def live_in_def deleted_in_def)
  qed (simp add: used_in_def live_in_def deleted_in_def)
qed

lemma partial_start:
  assumes "n < 60"
  shows "partial env K L ks vals key n 0 (fresh_buckets env n, fresh_buckets env n, ld_reset env, None)"
proof -
  have nth: "replicate (2 ^ n) (id_unused env) ! i = id_unused env" if "i < 2 ^ n" for i
    using that by simp
  have "keys_ok env K n (replicate (2 ^ n) (id_unused env))"
    using assms markers(2) by (simp add: keys_ok_def nth)
  moreover have "key_slot K (replicate (2 ^ n) (id_unused env)) x = None" for x
    using markers(2) by (auto simp: key_slot_def find_None_iff)
  ultimately show ?thesis
    using markers(1,2) reset_current
    by (simp add: partial_def fresh_buckets_def counts_ok_def used_in_def deleted_in_def live_in_def nth)
qed

text \<open>One old key goes to an unused bucket that is in place for it.\<close>

lemma partial_step:
  assumes part: "partial env K L ks vals key n i (nk, nv, ld, res)" and ks: "keys_ok env K n0 ks"
    and i: "i < length ks" "kvalid K (ks ! i)" and vals: "length vals = length ks"
    and b: "b < 2 ^ n" "bucket nk ! b = id_unused env" "chain (id_unused env) n (bucket nk) (khash K (ks ! i)) b"
    and ld: "carries env L ld ld'" "depends_on L ld' (ks ! i)" and key: "key = 0 \<or> kvalid K key"
    and absent: "key_slot K (bucket nk) (ks ! i) = None"
  shows "partial env K L ks vals key n (Suc i)
    (add_used (nk\<lparr>bucket := (bucket nk)[b := ks ! i]\<rparr>), nv\<lparr>bucket := (bucket nv)[b := vals ! i]\<rparr>, ld',
     if key \<noteq> 0 \<and> ksame K (ks ! i) key then Some (of_nat b) else res)"
proof -
  let ?nk = "(bucket nk)[b := ks ! i]" and ?nv = "(bucket nv)[b := vals ! i]"
  have ok: "keys_ok env K n (bucket nk)" and nv: "length (bucket nv) = 2 ^ n"
    and counts: "counts_ok env n nk" and none: "deleted_in env (bucket nk) = 0"
    and used: "used_in env (bucket nk) = live_in K (take i ks)"
    and chains: "\<forall>s < 2 ^ n. kvalid K (bucket nk ! s) \<longrightarrow>
      chain (id_unused env) n (bucket nk) (khash K (bucket nk ! s)) s"
    and map: "\<forall>x. kvalid K x \<longrightarrow> map_option ((!) (bucket nv)) (key_slot K (bucket nk) x) =
      map_option ((!) vals) (slot_upto K ks i x)"
    and res: "res = (if key = 0 then None else map_option of_nat (key_slot K (bucket nk) key))"
    and stale: "is_current L ld"
    and dep: "\<forall>s < 2 ^ n. kvalid K (bucket nk ! s) \<longrightarrow> depends_on L ld (bucket nk ! s)"
    using part by (auto simp: partial_def)
  have len: "length (bucket nk) = 2 ^ n" and n: "n < 60" using ok by (simp_all add: keys_ok_def)
  have notvalid: "\<not> kvalid K (bucket nk ! b)" using b(2) markers(2) by simp
  have new: "ks ! i \<noteq> id_unused env" "ks ! i \<noteq> id_deleted env" using valid_not_marker [OF i(2)] by simp_all
  note ok' = keys_ok_store [OF ok b(1) notvalid i(2) absent]
  have used': "used_in env ?nk = Suc (used_in env (bucket nk))"
    using used_in_store(1) [of b "bucket nk" env "ks ! i"] b len new by simp
  have "used_in env (bucket nk) < 2 ^ 63"
    using used_in_le [of env "bucket nk"] pow_bound [OF n] len by simp
  then have add: "add_used (nk\<lparr>bucket := ?nk\<rparr>) = nk\<lparr>bucket := ?nk, b_used := tag_of (used_in env ?nk)\<rparr>"
    using counts used' by (subst add_used_tag [of _ "used_in env (bucket nk)"]) (simp_all add: counts_ok_def)
  have none': "deleted_in env ?nk = 0"
    using deleted_in_store(2) [of b "bucket nk" env "ks ! i"] b len new none markers(1) by simp
  have live: "live_in K (take (Suc i) ks) = Suc (live_in K (take i ks))"
    using i by (simp add: live_in_def take_Suc_conv_app_nth)
  have chains': "chain (id_unused env) n ?nk (khash K (?nk ! s)) s" if "s < 2 ^ n" "kvalid K (?nk ! s)" for s
  proof (cases "s = b")
    case True
    with b(1,3) len new show ?thesis by (simp add: chain_update)
  next
    case False
    with that chains len b(1) new show ?thesis by (simp add: chain_update)
  qed
  have dep': "depends_on L ld' (?nk ! s)" if "s < 2 ^ n" "kvalid K (?nk ! s)" for s
    using that dep ld by (cases "s = b") (auto simp: carries_def len)
  have map': "map_option ((!) ?nv) (key_slot K ?nk x) = map_option ((!) vals) (slot_upto K ks (Suc i) x)"
    if x: "kvalid K x" for x
  proof (cases "ksame K (ks ! i) x")
    case True
    have "key_slot K (bucket nk) x = None"
      using key_slot_same [OF ok i(2) x True] absent by simp
    with map x have "slot_upto K ks i x = None" by (metis option.map_disc_iff)
    with True x ok'(2) [OF x] i(2) b(1) nv show ?thesis by (simp add: slot_upto_Suc)
  next
    case False
    have "key_slot K (bucket nk) x \<noteq> Some b" using key_slot_iff [OF ok x, of b] notvalid by simp
    then have "map_option ((!) ?nv) (key_slot K (bucket nk) x) = map_option ((!) (bucket nv)) (key_slot K (bucket nk) x)"
      by (cases "key_slot K (bucket nk) x") auto
    with False map x ok'(2) [OF x] show ?thesis by (simp add: slot_upto_Suc split: option.split)
  qed
  have res': "(if key \<noteq> 0 \<and> ksame K (ks ! i) key then Some (of_nat b) else res) =
      (if key = 0 then None else map_option of_nat (key_slot K ?nk key))"
    using res ok'(2) [of key] key by auto
  show ?thesis
    using ok'(1) counts nv used used' none none' live chains' map' res' ld stale dep'
    by (simp add: partial_def add counts_ok_def carries_def)
qed

lemma partial_skip:
  assumes "partial env K L ks vals key n i (nk, nv, ld, res)" and "i < length ks" and "\<not> kvalid K (ks ! i)"
  shows "partial env K L ks vals key n (Suc i) (nk, nv, ld, res)"
proof -
  have "live_in K (take (Suc i) ks) = live_in K (take i ks)"
    using assms(2,3) by (simp add: live_in_def take_Suc_conv_app_nth)
  moreover have "slot_upto K ks (Suc i) x = slot_upto K ks i x" for x
    using assms(3) by (simp add: slot_upto_Suc split: option.split)
  ultimately show ?thesis using assms(1) by (simp add: partial_def)
qed

lemma live_in_take:
  "i < length ks \<Longrightarrow> kvalid K (ks ! i) \<Longrightarrow> live_in K (take i ks) < live_in K ks"
proof -
  assume i: "i < length ks" "kvalid K (ks ! i)"
  have "live_in K ks = live_in K (take i ks) + live_in K (drop i ks)"
    unfolding live_in_def by (metis append_take_drop_id filter_append length_append)
  moreover have "drop i ks = ks ! i # drop (Suc i) ks" using i(1) by (simp add: Cons_nth_drop_Suc)
  ultimately show ?thesis using i(2) by (simp add: live_in_def)
qed

text \<open>Where the next key goes.\<close>

lemma partial_find:
  assumes part: "partial env K L ks vals key n i (nk, nv, t_ld tbl, res)" and ks: "keys_ok env K n0 ks"
    and i: "i < length ks" "kvalid K (ks ! i)" and room: "live_in K ks \<le> 2 ^ n"
    and tbl: "t_type tbl = MANAGED_OBJECT_TYPE_METADATA_HASH_TABLE"
  shows "key_slot K (bucket nk) (ks ! i) = None \<and>
    (\<exists>b ld. managed_obj_metadata_buckets_find env tbl nk (ks ! i) True = Inr (Some (of_nat b), tbl\<lparr>t_ld := ld\<rparr>) \<and>
      carries env L (t_ld tbl) ld \<and> depends_on L ld (ks ! i) \<and> b < 2 ^ n \<and> bucket nk ! b = id_unused env \<and>
      chain (id_unused env) n (bucket nk) (khash K (ks ! i)) b)"
proof -
  have ok: "keys_ok env K n (bucket nk)" "b_length nk = tag_of (2 ^ n)"
    and used: "used_in env (bucket nk) = live_in K (take i ks)"
    and map: "map_option ((!) (bucket nv)) (key_slot K (bucket nk) (ks ! i)) =
      map_option ((!) vals) (slot_upto K ks i (ks ! i))"
    using part i(2) by (auto simp: partial_def counts_ok_def)
  have "slot_upto K ks i (ks ! i) = None"
  proof (cases "slot_upto K ks i (ks ! i)")
    case (Some j)
    then have j: "j < i" "kvalid K (ks ! j)" "ksame K (ks ! j) (ks ! i)"
      by (auto simp: slot_upto_def find_Some_iff)
    then have "j < 2 ^ n0" "i < 2 ^ n0" using ks i(1) by (auto simp: keys_ok_def)
    then have "j = i" using ks i(2) j(2,3) unfolding keys_ok_def by blast
    with j(1) show ?thesis by simp
  qed
  with map have absent: "key_slot K (bucket nk) (ks ! i) = None" by simp
  have "used_in env (bucket nk) < 2 ^ n" using used live_in_take [OF i] room by simp
  then have free: "\<not> (\<forall>i < 2 ^ n. bucket nk ! i \<noteq> id_unused env)"
    using used_in_full [of "bucket nk" env] ok(1) by (auto simp: keys_ok_def)
  show ?thesis
  proof (rule buckets_find_cases [OF ok i(2) tbl, where add = True], goal_cases)
    case (1 res ld)
    from 1(4) absent free obtain b where "b < 2 ^ n" "res = Some (of_nat b)" "bucket nk ! b = id_unused env"
      "chain (id_unused env) n (bucket nk) (khash K (ks ! i)) b"
      by (elim disjE exE conjE) simp_all
    with 1(1-3) absent show ?case by blast
  qed
qed

lemma rehash_keys_outcome:
  assumes "partial env K L ks vals key n i (nk, nv, t_ld tbl, res)" and "i \<le> length ks"
    and ks: "keys_ok env K n0 ks" and vals: "length vals = length ks" and key: "key = 0 \<or> kvalid K key"
    and room: "live_in K ks \<le> 2 ^ n" and tbl: "t_type tbl = MANAGED_OBJECT_TYPE_METADATA_HASH_TABLE"
  shows "\<exists>nk' nv' ld' res'. rehash_keys env vals key (drop i ks) i (nk, nv, tbl, res) =
      Inr (nk', nv', tbl\<lparr>t_ld := ld'\<rparr>, res') \<and> partial env K L ks vals key n (length ks) (nk', nv', ld', res')"
  using assms(1,2,7)
proof (induction "length ks - i" arbitrary: i nk nv tbl res)
  case 0
  then have "i = length ks" by simp
  with 0 show ?case by (intro exI [of _ nk] exI [of _ nv] exI [of _ "t_ld tbl"] exI [of _ res]) simp
next
  case (Suc d)
  then have i: "i < length ks" and d: "d = length ks - Suc i" by simp_all
  have drop: "drop i ks = ks ! i # drop (Suc i) ks" using i by (simp add: Cons_nth_drop_Suc)
  have i': "Suc i \<le> length ks" using i by simp
  show ?case
  proof (cases "kvalid K (ks ! i)")
    case False
    then have "ks ! i = id_unused env \<or> ks ! i = id_deleted env"
      using ks i by (auto simp: keys_ok_def)
    then have "rehash_keys env vals key (drop i ks) i (nk, nv, tbl, res) =
        rehash_keys env vals key (drop (Suc i) ks) (Suc i) (nk, nv, tbl, res)"
      unfolding drop by simp
    with Suc.hyps(1) [OF d partial_skip [OF Suc.prems(1) i False] i' Suc.prems(3)] show ?thesis by simp
  next
    case True
    from partial_find [OF Suc.prems(1) ks i True room Suc.prems(3)] obtain b ld where
      absent: "key_slot K (bucket nk) (ks ! i) = None"
      and find: "managed_obj_metadata_buckets_find env tbl nk (ks ! i) True = Inr (Some (of_nat b), tbl\<lparr>t_ld := ld\<rparr>)"
      and ld: "carries env L (t_ld tbl) ld" "depends_on L ld (ks ! i)"
      and b: "b < 2 ^ n" "bucket nk ! b = id_unused env" "chain (id_unused env) n (bucket nk) (khash K (ks ! i)) b"
      by blast
    let ?nk = "add_used (nk\<lparr>bucket := (bucket nk)[b := ks ! i]\<rparr>)" and ?nv = "nv\<lparr>bucket := (bucket nv)[b := vals ! i]\<rparr>"
    let ?tbl = "tbl\<lparr>t_ld := ld\<rparr>" and ?res = "if key \<noteq> 0 \<and> ksame K (ks ! i) key then Some (of_nat b) else res"
    have step: "partial env K L ks vals key n (Suc i) (?nk, ?nv, ld, ?res)"
      by (rule partial_step [OF Suc.prems(1) ks i True vals b ld key absent])
    have lens: "length (bucket nk) = 2 ^ n" "length (bucket nv) = 2 ^ n" "n < 60"
      using Suc.prems(1) by (auto simp: partial_def keys_ok_def)
    have "unat (of_nat b :: size_t) = b" using b(1) pow_bound [OF lens(3)] by (intro unat_small) simp
    moreover have "(if key \<noteq> 0 then cmpf env (ks ! i) key else Inr False) = Inr (key \<noteq> 0 \<and> ksame K (ks ! i) key)"
      using cmp_key [OF True] key by auto
    ultimately have "rehash_keys env vals key (drop i ks) i (nk, nv, tbl, res) =
        rehash_keys env vals key (drop (Suc i) ks) (Suc i) (?nk, ?nv, ?tbl, ?res)"
      unfolding drop using valid_not_marker [OF True] find b(1,2) lens i vals
      by (simp add: bucket_at_def set_bucket_def)
    moreover have "partial env K L ks vals key n (Suc i) (?nk, ?nv, t_ld ?tbl, ?res)" using step by simp
    moreover have "t_type ?tbl = MANAGED_OBJECT_TYPE_METADATA_HASH_TABLE" using Suc.prems(3) by simp
    ultimately show ?thesis using Suc.hyps(1) [OF d _ i', of ?nk ?nv ?tbl ?res] by simp
  qed
qed

section \<open>Rehashing\<close>

lemma table_size_ok:
  assumes "t_type tbl = MANAGED_OBJECT_TYPE_METADATA_HASH_TABLE" and "keys_ok env K n (bucket (t_keys tbl))"
    and "counts_ok env n (t_keys tbl)"
  shows "managed_obj_metadata_table_size tbl = Inr (of_nat (live_in K (bucket (t_keys tbl))))"
proof -
  let ?ks = "bucket (t_keys tbl)"
  have bound: "used_in env ?ks < 2 ^ 60" "deleted_in env ?ks < 2 ^ 60"
    using used_in_le [of env ?ks] deleted_in_le [of env ?ks] assms(2) pow_bound [of n] by (auto simp: keys_ok_def)
  note split = live_in_le_used [OF assms(2)]
  have "(of_nat (deleted_in env ?ks) :: size_t) \<le> of_nat (used_in env ?ks)"
    unfolding word_le_nat_alt unat_small [OF bound(1)] unat_small [OF bound(2)] using split by simp
  moreover have "(of_nat (used_in env ?ks) :: size_t) - of_nat (deleted_in env ?ks) = of_nat (live_in K ?ks)"
    unfolding split by simp
  ultimately show ?thesis
    using assms(1,3) bound by (simp add: managed_obj_metadata_table_size_def counts_ok_def)
qed

lemma table_rehash_outcome:
  assumes "table_ok env K L n tbl" and "n' < 60" and "live_in K (bucket (t_keys tbl)) \<le> 2 ^ n'"
    and "key = 0 \<or> kvalid K key"
  shows "(\<exists>f. managed_obj_metadata_table_rehash env tbl (of_nat (2 ^ n')) key m = Inl f \<and> out_of_memory env f) \<or>
    (\<exists>res tbl' m'. managed_obj_metadata_table_rehash env tbl (of_nat (2 ^ n')) key m = Inr (res, tbl', m') \<and>
      table_ok env K L n' tbl' \<and> fully_placed env K n' (bucket (t_keys tbl')) \<and>
      is_current L (t_ld tbl') \<and> deleted_in env (bucket (t_keys tbl')) = 0 \<and>
      live_in K (bucket (t_keys tbl')) = live_in K (bucket (t_keys tbl)) \<and>
      (\<forall>x. kvalid K x \<longrightarrow> table_map K tbl' x = table_map K tbl x) \<and>
      res = (if key = 0 then None else map_option of_nat (key_slot K (bucket (t_keys tbl')) key)))"
proof -
  let ?ks = "bucket (t_keys tbl)" and ?vals = "bucket (t_values tbl)"
  have type: "t_type tbl = MANAGED_OBJECT_TYPE_METADATA_HASH_TABLE" and ks: "keys_ok env K n ?ks"
    and counts: "counts_ok env n (t_keys tbl)" and vals: "length ?vals = 2 ^ n"
    using assms(1) by (simp_all add: table_ok_def)
  have len: "length ?ks = 2 ^ n" "n < 60" using ks by (simp_all add: keys_ok_def)
  have untag: "UNTAG (b_length (t_keys tbl)) = 2 ^ n"
    using counts pow_bound [OF len(2)] by (simp add: counts_ok_def)
  from make_buckets_outcome [OF assms(2), of env m] consider
    (oom) f where "managed_obj_metadata_make_buckets env (of_nat (2 ^ n')) m = Inl f" "out_of_memory env f"
    | (ok) m1 where "managed_obj_metadata_make_buckets env (of_nat (2 ^ n')) m = Inr (fresh_buckets env n', m1)"
    by blast
  then show ?thesis
  proof cases
    case oom
    then show ?thesis using type by (simp add: managed_obj_metadata_table_rehash_def)
  next
    case (ok m1)
    from make_buckets_outcome [OF assms(2), of env m1] consider
      (oom2) f where "managed_obj_metadata_make_buckets env (of_nat (2 ^ n')) m1 = Inl f" "out_of_memory env f"
      | (ok2) m2 where "managed_obj_metadata_make_buckets env (of_nat (2 ^ n')) m1 = Inr (fresh_buckets env n', m2)"
      by blast
    then show ?thesis
    proof cases
      case oom2
      then show ?thesis using type ok by (simp add: managed_obj_metadata_table_rehash_def)
    next
      case (ok2 m2)
      let ?tbl = "tbl\<lparr>t_ld := ld_reset env\<rparr>"
      have start: "partial env K L ?ks ?vals key n' 0 (fresh_buckets env n', fresh_buckets env n', t_ld ?tbl, None)"
        using partial_start [OF assms(2)] by simp
      have tblt: "t_type ?tbl = MANAGED_OBJECT_TYPE_METADATA_HASH_TABLE" using type by simp
      have vl: "length ?vals = length ?ks" using vals len by simp
      from rehash_keys_outcome [OF start _ ks vl assms(4,3) tblt] obtain nk nv ld res where
        loop: "rehash_keys env ?vals key ?ks 0 (fresh_buckets env n', fresh_buckets env n', ?tbl, None) =
          Inr (nk, nv, ?tbl\<lparr>t_ld := ld\<rparr>, res)"
        and part: "partial env K L ?ks ?vals key n' (2 ^ n) (nk, nv, ld, res)"
        unfolding len by auto
      let ?new = "tbl\<lparr>t_ld := ld, t_keys := nk, t_values := nv\<rparr>"
      have nk: "keys_ok env K n' (bucket nk)" "counts_ok env n' nk" "deleted_in env (bucket nk) = 0"
        "used_in env (bucket nk) = live_in K ?ks" "length (bucket nv) = 2 ^ n'"
        "fully_placed env K n' (bucket nk)" "is_current L ld"
        "\<forall>s < 2 ^ n'. kvalid K (bucket nk ! s) \<longrightarrow> depends_on L ld (bucket nk ! s)"
        "res = (if key = 0 then None else map_option of_nat (key_slot K (bucket nk) key))"
        using part len by (auto simp: partial_def fully_placed_def)
      have map: "table_map K ?new x = table_map K tbl x" if "kvalid K x" for x
        using part that slot_upto_length [of K ?ks x] len by (simp add: partial_def table_map_def)
      have "table_ok env K L n' ?new" using nk type by (simp add: table_ok_def placed_def watched_def fully_placed_def)
      moreover have "managed_obj_metadata_table_size (tbl\<lparr>t_ld := ld\<rparr>) = Inr (of_nat (live_in K ?ks))"
        using table_size_ok [of "tbl\<lparr>t_ld := ld\<rparr>" n] type ks counts by simp
      moreover have "MANAGED_OBJECT_METADATA_UNTAG_COUNT (b_used nk) = of_nat (live_in K ?ks)"
      proof -
        have "live_in K ?ks < 2 ^ 63"
          using nk(4) used_in_le [of env "bucket nk"] nk(1) pow_bound [OF assms(2)] by (simp add: keys_ok_def)
        then show ?thesis using nk(2,4) by (simp add: counts_ok_def)
      qed
      moreover have "live_in K (bucket nk) = live_in K ?ks"
        using live_in_le_used [OF nk(1)] nk(3,4) by simp
      ultimately have "managed_obj_metadata_table_rehash env tbl (of_nat (2 ^ n')) key m = Inr (res, ?new, m2)"
        using type ok ok2 loop untag len by (simp add: managed_obj_metadata_table_rehash_def)
      then show ?thesis
        using nk map \<open>table_ok env K L n' ?new\<close> \<open>live_in K (bucket nk) = live_in K ?ks\<close>
        by (intro disjI2 exI [of _ res] exI [of _ ?new] exI [of _ m2]) simp
    qed
  qed
qed

end

end
