(* ===== verification/MetaOps.thy ===== *)
theory MetaOps
  imports MetaRehash
begin

text \<open>
  The operations of the metadata hash table against the map it stands for.  In every result the
  table may have been rehashed on the way; the only other ending is that the MPS is out of
  memory.
\<close>

context table_keys
begin

lemma table_ok_ld:
  assumes "table_ok env K L n tbl" and "carries env L (t_ld tbl) ld"
  shows "table_ok env K L n (tbl\<lparr>t_ld := ld\<rparr>)"
  using assms unfolding table_ok_def placed_def watched_def carries_def by simp blast

lemma live_in_bound: "keys_ok env K n ks \<Longrightarrow> live_in K ks \<le> 2 ^ n"
  unfolding live_in_def keys_ok_def by (metis length_filter_le)

lemma bucket_at_small:
  "i < 2 ^ n \<Longrightarrow> n < 60 \<Longrightarrow> length (bucket bs) = 2 ^ n \<Longrightarrow> bucket_at bs (of_nat i) = Inr (bucket bs ! i)"
  using pow_bound [of n] by (simp add: bucket_at_def unat_small)

lemma set_bucket_small:
  "i < 2 ^ n \<Longrightarrow> n < 60 \<Longrightarrow> length (bucket bs) = 2 ^ n \<Longrightarrow>
    set_bucket bs (of_nat i) p = Inr (bs\<lparr>bucket := (bucket bs)[i := p]\<rparr>)"
  using pow_bound [of n] by (simp add: set_bucket_def unat_small)

section \<open>Find\<close>

text \<open>What a table has after an operation that changed no binding.\<close>

definition same_table :: "nat \<Rightarrow> 'ld hashtable \<Rightarrow> 'ld hashtable \<Rightarrow> bool" where
  "same_table n tbl tbl' \<longleftrightarrow> table_ok env K L n tbl' \<and>
     live_in K (bucket (t_keys tbl')) = live_in K (bucket (t_keys tbl)) \<and>
     (\<forall>x. kvalid K x \<longrightarrow> table_map K tbl' x = table_map K tbl x)"

definition found :: "nat \<Rightarrow> 'ld hashtable \<Rightarrow> addr \<Rightarrow> size_t option \<Rightarrow> 'ld hashtable \<Rightarrow> bool" where
  "found n tbl key res tbl' \<longleftrightarrow>
     (let ks = bucket (t_keys tbl') in
       (\<exists>i < 2 ^ n. res = Some (of_nat i) \<and> key_slot K ks key = Some i) \<or>
       (\<exists>i < 2 ^ n. res = Some (of_nat i) \<and> key_slot K ks key = None \<and> ks ! i = id_unused env \<and>
          chain (id_unused env) n ks (khash K key) i) \<or>
       (\<exists>i < 2 ^ n. res = Some (of_nat i) \<and> key_slot K ks key = None \<and> ks ! i = id_deleted env \<and>
          (\<forall>j < 2 ^ n. ks ! j \<noteq> id_unused env)) \<or>
       res = None \<and> key_slot K ks key = None \<and>
         (\<not> is_current L (t_ld tbl) \<or> (\<forall>j < 2 ^ n. bucket (t_keys tbl) ! j \<noteq> id_unused env)))"

lemma foundI:
  "i < 2 ^ n \<Longrightarrow> key_slot K (bucket (t_keys tbl')) key = Some i \<Longrightarrow> found n tbl key (Some (of_nat i)) tbl'"
  "i < 2 ^ n \<Longrightarrow> key_slot K (bucket (t_keys tbl')) key = None \<Longrightarrow> bucket (t_keys tbl') ! i = id_unused env \<Longrightarrow>
    chain (id_unused env) n (bucket (t_keys tbl')) (khash K key) i \<Longrightarrow> found n tbl key (Some (of_nat i)) tbl'"
  "i < 2 ^ n \<Longrightarrow> key_slot K (bucket (t_keys tbl')) key = None \<Longrightarrow> bucket (t_keys tbl') ! i = id_deleted env \<Longrightarrow>
    \<forall>j < 2 ^ n. bucket (t_keys tbl') ! j \<noteq> id_unused env \<Longrightarrow> found n tbl key (Some (of_nat i)) tbl'"
  unfolding found_def Let_def by blast+

lemma table_find_outcome:
  assumes ok: "table_ok env K L n tbl" and key: "kvalid K key"
  shows "(\<exists>f. managed_obj_metadata_table_find env tbl key add m = Inl f \<and> out_of_memory env f) \<or>
    (\<exists>res tbl' m'. managed_obj_metadata_table_find env tbl key add m = Inr (res, tbl', m') \<and>
      same_table n tbl tbl' \<and> found n tbl key res tbl' \<and>
      (add \<and> res \<noteq> None \<longrightarrow> key_slot K (bucket (t_keys tbl')) key = None \<longrightarrow> depends_on L (t_ld tbl') key))"
proof -
  let ?ks = "bucket (t_keys tbl)"
  have type: "t_type tbl = MANAGED_OBJECT_TYPE_METADATA_HASH_TABLE" and ks: "keys_ok env K n ?ks"
    and blen: "b_length (t_keys tbl) = tag_of (2 ^ n)" and n: "n < 60" and len: "length ?ks = 2 ^ n"
    using ok by (auto simp: table_ok_def counts_ok_def keys_ok_def)
  have untag: "MANAGED_OBJECT_METADATA_UNTAG_COUNT (b_length (t_keys tbl)) = of_nat (2 ^ n)"
    using blen pow_bound [OF n] by simp
  show ?thesis
  proof (rule buckets_find_cases [OF ks blen key type, where add = add], goal_cases)
    case (1 res ld)
    let ?tbl = "tbl\<lparr>t_ld := ld\<rparr>"
    have ok1: "table_ok env K L n ?tbl" using ok 1(2) by (rule table_ok_ld)
    have same1: "same_table n tbl ?tbl" using ok1 by (simp add: same_table_def table_map_def)
    have stale: "ld_isstale env (t_ld tbl) key \<Longrightarrow> ld_isstale env ld key"
      "ld_isstale env ld key \<Longrightarrow> \<not> is_current L (t_ld tbl)"
      using 1(2) current_fresh unfolding carries_def by blast+
    note at = bucket_at_small [OF _ n len]
    text \<open>A marker was found: rehash if the dependency is stale.\<close>
    have marker: ?case if i: "i < 2 ^ n" "res = Some (of_nat i)" "?ks ! i = id_unused env \<or> ?ks ! i = id_deleted env"
      and fresh: "\<not> ld_isstale env (t_ld tbl) key \<Longrightarrow> found n tbl key res ?tbl" for i
    proof (cases "ld_isstale env ld key")
      case True
      then have eq: "managed_obj_metadata_table_find env tbl key add m =
          managed_obj_metadata_table_rehash env ?tbl (of_nat (2 ^ n)) key m"
        using 1(1) i at [OF i(1)] untag by (simp add: managed_obj_metadata_table_find_def)
      have "live_in K (bucket (t_keys ?tbl)) \<le> 2 ^ n" using live_in_bound [OF ks] by simp
      from table_rehash_outcome [OF ok1 n this, of key m] key consider
        (oom) f where "managed_obj_metadata_table_rehash env ?tbl (of_nat (2 ^ n)) key m = Inl f" "out_of_memory env f"
        | (ok) r tbl' m' where "managed_obj_metadata_table_rehash env ?tbl (of_nat (2 ^ n)) key m = Inr (r, tbl', m')"
          "table_ok env K L n tbl'" "live_in K (bucket (t_keys tbl')) = live_in K (bucket (t_keys ?tbl))"
          "\<forall>x. kvalid K x \<longrightarrow> table_map K tbl' x = table_map K ?tbl x"
          "r = (if key = 0 then None else map_option of_nat (key_slot K (bucket (t_keys tbl')) key))"
        by blast
      then show ?thesis
      proof cases
        case oom
        then show ?thesis unfolding eq by blast
      next
        case (ok r tbl' m')
        have ks': "keys_ok env K n (bucket (t_keys tbl'))" using ok(2) by (simp add: table_ok_def)
        have "found n tbl key r tbl'"
        proof (cases "key_slot K (bucket (t_keys tbl')) key")
          case None
          with ok(5) stale(2) [OF True] show ?thesis by (simp add: found_def)
        next
          case (Some i)
          then have "i < 2 ^ n" using key_slot_iff [OF ks' key, of i] by simp
          with ok(5) not_null [OF key] Some show ?thesis using foundI(1) by simp
        qed
        moreover have "same_table n tbl tbl'" using ok(2-4) by (simp add: same_table_def table_map_def)
        moreover have "r \<noteq> None \<longrightarrow> key_slot K (bucket (t_keys tbl')) key \<noteq> None" using ok(5) by simp
        ultimately show ?thesis using ok(1) unfolding eq
          by (intro disjI2 exI [of _ r] exI [of _ tbl'] exI [of _ m']) auto
      qed
    next
      case False
      then have "managed_obj_metadata_table_find env tbl key add m = Inr (res, ?tbl, m)"
        using 1(1) i at [OF i(1)] by (simp add: managed_obj_metadata_table_find_def)
      moreover have "found n tbl key res ?tbl" by (rule fresh) (use False stale(1) in blast)
      ultimately show ?thesis using same1 1(3) by fastforce
    qed
    from 1(4) show ?case
    proof (elim disjE exE conjE)
      fix i assume i: "i < 2 ^ n" "res = Some (of_nat i)" "key_slot K ?ks key = Some i"
      then have "kvalid K (?ks ! i)" by (simp add: key_slot_iff [OF ks key])
      then have "managed_obj_metadata_table_find env tbl key add m = Inr (res, ?tbl, m)"
        using 1(1) i(2) at [OF i(1)] valid_not_marker [of "?ks ! i"] by (simp add: managed_obj_metadata_table_find_def)
      moreover have "found n tbl key res ?tbl" using i foundI(1) [of i n ?tbl key tbl] by simp
      ultimately show ?thesis using same1 1(3) by fastforce
    next
      fix i assume i: "i < 2 ^ n" "res = Some (of_nat i)" "?ks ! i = id_unused env"
        "chain (id_unused env) n ?ks (khash K key) i"
        "\<forall>s. key_slot K ?ks key = Some s \<longrightarrow> \<not> chain (id_unused env) n ?ks (khash K key) s"
      have "key_slot K ?ks key = None" if fresh: "\<not> ld_isstale env (t_ld tbl) key"
      proof (cases "key_slot K ?ks key")
        case (Some s)
        then have s: "s < 2 ^ n" "kvalid K (?ks ! s)" "ksame K (?ks ! s) key" by (simp_all add: key_slot_iff [OF ks key])
        have "chain (id_unused env) n ?ks (khash K (?ks ! s)) s"
          using ok s key fresh unfolding table_ok_def placed_def by blast
        with i(5) Some same_hash [OF s(2) key s(3)] show ?thesis by simp
      qed
      then show ?thesis using i foundI(2) [of i n ?tbl key tbl] by (intro marker [of i]) simp_all
    next
      fix i assume "\<forall>i < 2 ^ n. ?ks ! i \<noteq> id_unused env" "key_slot K ?ks key = None"
        "i < 2 ^ n" "res = Some (of_nat i)" "?ks ! i = id_deleted env"
      then show ?thesis using foundI(3) [of i n ?tbl key tbl] by (intro marker [of i]) simp_all
    next
      assume none: "\<forall>i < 2 ^ n. ?ks ! i \<noteq> id_unused env" "key_slot K ?ks key = None" "res = None"
      then have "managed_obj_metadata_table_find env tbl key add m = Inr (res, ?tbl, m)"
        using 1(1) by (simp add: managed_obj_metadata_table_find_def)
      moreover have "found n tbl key res ?tbl" using none by (auto simp: found_def)
      ultimately show ?thesis using same1 none(3) by blast
    qed
  qed
qed

section \<open>Ref\<close>

lemma same_tableD:
  assumes "same_table n tbl tbl'"
  shows "table_ok env K L n tbl'" and "kvalid K x \<Longrightarrow> table_map K tbl' x = table_map K tbl x"
    and "live_in K (bucket (t_keys tbl')) = live_in K (bucket (t_keys tbl))"
  using assms by (simp_all add: same_table_def)

lemma table_okD:
  assumes "table_ok env K L n tbl"
  shows "t_type tbl = MANAGED_OBJECT_TYPE_METADATA_HASH_TABLE" and "keys_ok env K n (bucket (t_keys tbl))"
    and "n < 60" and "length (bucket (t_keys tbl)) = 2 ^ n" and "length (bucket (t_values tbl)) = 2 ^ n"
    and "counts_ok env n (t_keys tbl)" and "placed env K n (t_ld tbl) (bucket (t_keys tbl))"
    and "watched env K L n (t_ld tbl) (bucket (t_keys tbl))"
  using assms by (simp_all add: table_ok_def keys_ok_def)

lemma table_ref_outcome:
  assumes ok: "table_ok env K L n tbl" and key: "kvalid K key"
  shows "(\<exists>f. managed_obj_metadata_table_ref env tbl key m = Inl f \<and> out_of_memory env f) \<or>
    (\<exists>tbl' m'. managed_obj_metadata_table_ref env tbl key m =
        Inr (case table_map K tbl key of None \<Rightarrow> 0 | Some v \<Rightarrow> v, tbl', m') \<and> same_table n tbl tbl')"
proof -
  note type = table_okD(1) [OF ok]
  from table_find_outcome [OF ok key, of False m] consider
    (oom) f where "managed_obj_metadata_table_find env tbl key False m = Inl f" "out_of_memory env f"
    | (ok) res tbl' m' where "managed_obj_metadata_table_find env tbl key False m = Inr (res, tbl', m')"
      "same_table n tbl tbl'" "found n tbl key res tbl'"
    by blast
  then show ?thesis
  proof cases
    case oom
    then show ?thesis using type by (simp add: managed_obj_metadata_table_ref_def)
  next
    case (ok res tbl' m')
    note ok' = same_tableD(1) [OF ok(2)]
    note d = table_okD [OF ok']
    note ats = bucket_at_small [OF _ d(3) d(4)] bucket_at_small [OF _ d(3) d(5)]
    have map: "table_map K tbl key = table_map K tbl' key" using same_tableD(2) [OF ok(2) key] by simp
    have none: "key_slot K (bucket (t_keys tbl')) key = None \<Longrightarrow> table_map K tbl key = None"
      unfolding map by (simp add: table_map_def)
    have "managed_obj_metadata_table_ref env tbl key m =
        Inr (case table_map K tbl key of None \<Rightarrow> 0 | Some v \<Rightarrow> v, tbl', m')"
      using ok(3) unfolding found_def Let_def
    proof (elim disjE exE conjE)
      fix i assume i: "i < 2 ^ n" "res = Some (of_nat i)" "key_slot K (bucket (t_keys tbl')) key = Some i"
      then have "kvalid K (bucket (t_keys tbl') ! i)" by (simp add: key_slot_iff [OF d(2) key])
      moreover have "table_map K tbl key = Some (bucket (t_values tbl') ! i)"
        unfolding map using i(3) by (simp add: table_map_def)
      ultimately show ?thesis
        using ok(1) i type ats valid_not_marker by (simp add: managed_obj_metadata_table_ref_def)
    qed (use ok(1) type ats none in \<open>simp_all add: managed_obj_metadata_table_ref_def\<close>)
    with ok(2) show ?thesis by blast
  qed
qed

section \<open>Storing a value\<close>

lemma tag_of_less: "c < 2 ^ 60 \<Longrightarrow> tag_of 0 < tag_of c \<longleftrightarrow> 0 < c"
proof -
  assume c: "c < 2 ^ 60"
  have "unat (tag_of d) = 2 * d + 1" if "d < 2 ^ 60" for d
    using that by (simp add: tag_of_def MANAGED_OBJECT_METADATA_TAG_COUNT_def push_bit_eq_mult unat_word_ariths unat_of_nat)
  from this [OF c] this [of 0] show ?thesis by (simp add: word_less_nat_alt)
qed

text \<open>The table after the value is stored at position \<open>i\<close>, where the key now is.\<close>

definition stored :: "nat \<Rightarrow> 'ld hashtable \<Rightarrow> addr \<Rightarrow> addr \<Rightarrow> 'ld hashtable \<Rightarrow> bool" where
  "stored n tbl key val tbl' \<longleftrightarrow> table_ok env K L n tbl' \<and>
     live_in K (bucket (t_keys tbl')) \<le> Suc (live_in K (bucket (t_keys tbl))) \<and>
     (\<forall>x. kvalid K x \<longrightarrow> table_map K tbl' x = (if ksame K key x then Some val else table_map K tbl x))"

lemma stored_present:
  assumes ok: "table_ok env K L n tbl" and key: "kvalid K key"
    and slot: "key_slot K (bucket (t_keys tbl)) key = Some i"
  shows "stored n tbl key val (tbl\<lparr>t_values := t_values tbl\<lparr>bucket := (bucket (t_values tbl))[i := val]\<rparr>\<rparr>)"
proof -
  note d = table_okD [OF ok]
  have i: "i < 2 ^ n" "kvalid K (bucket (t_keys tbl) ! i)" "ksame K (bucket (t_keys tbl) ! i) key"
    using slot by (simp_all add: key_slot_iff [OF d(2) key])
  have other: "key_slot K (bucket (t_keys tbl)) x \<noteq> Some i" if "kvalid K x" "\<not> ksame K key x" for x
    using that i(3) same_trans same_sym by (metis key_slot_iff [OF d(2)])
  have "map_option ((!) ((bucket (t_values tbl))[i := val])) (key_slot K (bucket (t_keys tbl)) x) =
      (if ksame K key x then Some val else map_option ((!) (bucket (t_values tbl))) (key_slot K (bucket (t_keys tbl)) x))"
    if x: "kvalid K x" for x
  proof (cases "ksame K key x")
    case True
    then show ?thesis using slot key_slot_same [OF d(2) key x True] i(1) d(5) by simp
  next
    case False
    then show ?thesis using other [OF x False] by (cases "key_slot K (bucket (t_keys tbl)) x") auto
  qed
  then show ?thesis using ok by (simp add: stored_def table_ok_def table_map_def)
qed

lemma stored_new:
  assumes ok: "table_ok env K L n tbl" and key: "kvalid K key"
    and slot: "key_slot K (bucket (t_keys tbl)) key = None"
    and i: "i < 2 ^ n" "\<not> kvalid K (bucket (t_keys tbl) ! i)"
    and place: "chain (id_unused env) n (bucket (t_keys tbl)) (khash K key) i"
    and dep: "depends_on L (t_ld tbl) key"
    and ks: "bucket ks = (bucket (t_keys tbl))[i := key]" "counts_ok env n ks"
  shows "stored n tbl key val (tbl\<lparr>t_keys := ks, t_values := t_values tbl\<lparr>bucket := (bucket (t_values tbl))[i := val]\<rparr>\<rparr>)"
proof -
  note d = table_okD [OF ok]
  note st = keys_ok_store [OF d(2) i key slot]
  have "map_option ((!) ((bucket (t_values tbl))[i := val])) (key_slot K (bucket ks) x) =
      (if ksame K key x then Some val else map_option ((!) (bucket (t_values tbl))) (key_slot K (bucket (t_keys tbl)) x))"
    if x: "kvalid K x" for x
  proof (cases "ksame K key x")
    case True
    then show ?thesis using st(2) [OF x] i(1) d(5) ks(1) by simp
  next
    case False
    have "key_slot K (bucket (t_keys tbl)) x \<noteq> Some i" using i(2) key_slot_iff [OF d(2) x, of i] by simp
    with False show ?thesis
      using st(2) [OF x] ks(1) by (cases "key_slot K (bucket (t_keys tbl)) x") auto
  qed
  moreover have "placed env K n (t_ld tbl) (bucket ks)"
    unfolding ks(1) by (rule placed_store [OF d(7,4) i(1)]) (use key valid_not_marker place in auto)
  moreover have "live_in K (bucket ks) = Suc (live_in K (bucket (t_keys tbl)))"
    using length_filter_update [of i "bucket (t_keys tbl)" "kvalid K" key] i key d(4)
    by (simp add: live_in_def ks(1))
  moreover have "watched env K L n (t_ld tbl) (bucket ks)"
    unfolding ks(1) by (rule watched_store [OF d(8,4) dep])
  ultimately show ?thesis using ok st(1) ks by (simp add: stored_def table_ok_def table_map_def)
qed

text \<open>Without unused buckets every position is in place.\<close>

lemma chain_full: "\<forall>j < 2 ^ n. ks ! j \<noteq> u \<Longrightarrow> i < 2 ^ n \<Longrightarrow> chain u n ks h i"
  using hpos_surj [of i n h] unfolding chain_def by (meson hpos_less)

lemma claim_new:
  assumes ok: "table_ok env K L n tbl" and key: "kvalid K key" and i: "i < 2 ^ n"
    and marker: "bucket (t_keys tbl) ! i = id_unused env \<or> bucket (t_keys tbl) ! i = id_deleted env"
  shows "\<exists>ks. claim_bucket env (t_keys tbl) (of_nat i) key = Inr ks \<and>
    bucket ks = (bucket (t_keys tbl))[i := key] \<and> counts_ok env n ks"
proof -
  note d = table_okD [OF ok]
  let ?ks = "bucket (t_keys tbl)"
  have at: "bucket_at (t_keys tbl) (of_nat i) = Inr (?ks ! i)"
    "set_bucket (t_keys tbl) (of_nat i) key = Inr ((t_keys tbl)\<lparr>bucket := ?ks[i := key]\<rparr>)"
    using bucket_at_small [OF i d(3,4)] set_bucket_small [OF i d(3,4)] by simp_all
  have il: "i < length ?ks" using i d(4) by simp
  have keym: "key \<noteq> id_unused env" "key \<noteq> id_deleted env" using valid_not_marker [OF key] by simp_all
  have bound: "used_in env ?ks < 2 ^ 63" "deleted_in env ?ks < 2 ^ 60"
    using used_in_le [of env ?ks] deleted_in_le [of env ?ks] d(4) pow_bound [OF d(3)] by simp_all
  show ?thesis
  proof (cases "?ks ! i = id_unused env")
    case True
    have "add_used ((t_keys tbl)\<lparr>bucket := ?ks[i := key]\<rparr>) =
        (t_keys tbl)\<lparr>bucket := ?ks[i := key], b_used := tag_of (Suc (used_in env ?ks))\<rparr>"
      using d(6) bound(1) by (subst add_used_tag [of _ "used_in env ?ks"]) (simp_all add: counts_ok_def)
    then show ?thesis
      using True at d(6) used_in_store(1) [OF il True keym(1)] deleted_in_store(2) [OF il _ keym(2)] markers(1)
      by (simp add: claim_bucket_def counts_ok_def)
  next
    case False
    with marker have del: "?ks ! i = id_deleted env" by simp
    have dec: "Suc (deleted_in env (?ks[i := key])) = deleted_in env ?ks"
      by (rule deleted_in_store(3) [OF il del keym(2)])
    then have pos: "0 < deleted_in env ?ks" by simp
    have "(of_nat (deleted_in env ?ks) :: size_t) - 1 = of_nat (deleted_in env (?ks[i := key]))"
      unfolding dec [symmetric] by simp
    then have "MANAGED_OBJECT_METADATA_TAG_COUNT (of_nat (deleted_in env ?ks) - 1) = tag_of (deleted_in env (?ks[i := key]))"
      by (simp add: tag_of_def)
    moreover have "MANAGED_OBJECT_METADATA_TAG_COUNT 0 < tag_of (deleted_in env ?ks)"
      using tag_of_less [OF bound(2)] pos by (simp add: tag_of_def)
    ultimately show ?thesis
      using False del at d(6) used_in_store(2) [OF il False keym(1)] bound(2)
      by (simp add: claim_bucket_def counts_ok_def)
  qed
qed

lemma try_set_outcome:
  assumes ok: "table_ok env K L n tbl" and key: "kvalid K key"
  shows "(\<exists>f. managed_obj_metadata_table_try_set env tbl key val m = Inl f \<and> out_of_memory env f) \<or>
    (\<exists>tbl' m'. managed_obj_metadata_table_try_set env tbl key val m = Inr (True, tbl', m') \<and> stored n tbl key val tbl') \<or>
    (\<exists>tbl' m'. managed_obj_metadata_table_try_set env tbl key val m = Inr (False, tbl', m') \<and> same_table n tbl tbl' \<and>
      (\<not> is_current L (t_ld tbl) \<or> (\<forall>j < 2 ^ n. bucket (t_keys tbl) ! j \<noteq> id_unused env)))"
proof -
  note type = table_okD(1) [OF ok]
  let ?r = "managed_obj_metadata_table_try_set env tbl key val m"
  from table_find_outcome [OF ok key, of True m] consider
    (oom) f where "managed_obj_metadata_table_find env tbl key True m = Inl f" "out_of_memory env f"
    | (ok) res tbl' m' where "managed_obj_metadata_table_find env tbl key True m = Inr (res, tbl', m')"
      "same_table n tbl tbl'" "found n tbl key res tbl'"
      "res \<noteq> None \<longrightarrow> key_slot K (bucket (t_keys tbl')) key = None \<longrightarrow> depends_on L (t_ld tbl') key"
    by (elim disjE exE conjE) simp_all
  then show ?thesis
  proof cases
    case oom
    then show ?thesis using type by (simp add: managed_obj_metadata_table_try_set_def)
  next
    case (ok res tbl' m')
    note ok' = same_tableD(1) [OF ok(2)]
    note d = table_okD [OF ok']
    let ?ks = "bucket (t_keys tbl')"
    have carry: "stored n tbl key val t" if "stored n tbl' key val t" for t
      using that same_tableD(2,3) [OF ok(2)] by (simp add: stored_def)
    have vset: "i < 2 ^ n \<Longrightarrow> set_bucket (t_values tbl') (of_nat i) val =
        Inr ((t_values tbl')\<lparr>bucket := (bucket (t_values tbl'))[i := val]\<rparr>)" for i
      by (rule set_bucket_small [OF _ d(3,5)])
    have new: "\<exists>t m'. ?r = Inr (True, t, m') \<and> stored n tbl key val t"
      if i: "i < 2 ^ n" "res = Some (of_nat i)" "key_slot K ?ks key = None"
        "?ks ! i = id_unused env \<or> ?ks ! i = id_deleted env" "chain (id_unused env) n ?ks (khash K key) i" for i
    proof -
      from claim_new [OF ok' key i(1,4)] obtain ks where ks: "claim_bucket env (t_keys tbl') (of_nat i) key = Inr ks"
        "bucket ks = ?ks[i := key]" "counts_ok env n ks" by blast
      have "\<not> kvalid K (?ks ! i)" using i(4) markers(2,3) by auto
      moreover have "depends_on L (t_ld tbl') key" using ok(4) i(2,3) by simp
      ultimately show ?thesis
        using ok(1) i(2) ks(1) vset [OF i(1)] type carry [OF stored_new [OF ok' key i(3,1) _ i(5) _ ks(2,3), of val]]
        by (simp add: managed_obj_metadata_table_try_set_def)
    qed
    from ok(3) show ?thesis unfolding found_def Let_def
    proof (elim disjE exE conjE)
      fix i assume i: "i < 2 ^ n" "res = Some (of_nat i)" "key_slot K ?ks key = Some i"
      then have "kvalid K (?ks ! i)" by (simp add: key_slot_iff [OF d(2) key])
      then have "claim_bucket env (t_keys tbl') (of_nat i) key = Inr (t_keys tbl')"
        using bucket_at_small [OF i(1) d(3,4)] valid_not_marker by (simp add: claim_bucket_def)
      then show ?thesis
        using ok(1) i(2) vset [OF i(1)] type carry [OF stored_present [OF ok' key i(3)]]
        by (simp add: managed_obj_metadata_table_try_set_def)
    next
      fix i assume "i < 2 ^ n" "res = Some (of_nat i)" "key_slot K ?ks key = None" "?ks ! i = id_unused env"
        "chain (id_unused env) n ?ks (khash K key) i"
      then show ?thesis using new [of i] by blast
    next
      fix i assume "i < 2 ^ n" "res = Some (of_nat i)" "key_slot K ?ks key = None" "?ks ! i = id_deleted env"
        "\<forall>j < 2 ^ n. ?ks ! j \<noteq> id_unused env"
      then show ?thesis using new [of i] chain_full by blast
    next
      assume "res = None" and full: "\<not> is_current L (t_ld tbl)"
      then show ?thesis using ok(1,2) type by (simp add: managed_obj_metadata_table_try_set_def)
    next
      assume "res = None" and full: "\<forall>j < 2 ^ n. bucket (t_keys tbl) ! j \<noteq> id_unused env"
      then show ?thesis using ok(1,2) type by (simp add: managed_obj_metadata_table_try_set_def)
    qed
  qed
qed

section \<open>Set\<close>

lemma unat_tag_of: "c < 2 ^ 60 \<Longrightarrow> unat (tag_of c) = 2 * c + 1"
  by (simp add: tag_of_def MANAGED_OBJECT_METADATA_TAG_COUNT_def push_bit_eq_mult unat_word_ariths unat_of_nat)

lemma table_full_eq:
  assumes "table_ok env K L n tbl"
  shows "managed_obj_metadata_table_full tbl = Inr (2 ^ n \<le> 2 * used_in env (bucket (t_keys tbl)) + 1)"
proof -
  note d = table_okD [OF assms]
  have bound: "used_in env (bucket (t_keys tbl)) < 2 ^ 60" "(2::nat) ^ n < 2 ^ 60"
    using used_in_le [of env "bucket (t_keys tbl)"] d(4) pow_bound [OF d(3)] by simp_all
  have "unat (b_length (t_keys tbl) div 2) = 2 ^ n"
    using d(6) unat_tag_of [OF bound(2)] by (simp add: counts_ok_def unat_div)
  moreover have "unat (b_used (t_keys tbl)) = 2 * used_in env (bucket (t_keys tbl)) + 1"
    using d(6) unat_tag_of [OF bound(1)] by (simp add: counts_ok_def)
  ultimately show ?thesis
    using d(1) by (simp add: managed_obj_metadata_table_full_def word_le_nat_alt)
qed

text \<open>Doubling the table makes room.\<close>

lemma grow_and_set:
  assumes ok: "table_ok env K L n tbl" and key: "kvalid K key" and n: "Suc n < 60"
  shows "(\<exists>f. andthen (managed_obj_metadata_table_rehash env tbl
        (MANAGED_OBJECT_METADATA_UNTAG_COUNT (b_length (t_keys tbl)) * 2) 0 m) (\<lambda>(_, tbl2, m2).
      andthen (managed_obj_metadata_table_try_set env tbl2 key val m2) (\<lambda>(res, tbl3, m3).
        if res then Inr (tbl3, m3) else Inl Assert_failed)) = Inl f \<and> out_of_memory env f) \<or>
    (\<exists>tbl' m'. andthen (managed_obj_metadata_table_rehash env tbl
        (MANAGED_OBJECT_METADATA_UNTAG_COUNT (b_length (t_keys tbl)) * 2) 0 m) (\<lambda>(_, tbl2, m2).
      andthen (managed_obj_metadata_table_try_set env tbl2 key val m2) (\<lambda>(res, tbl3, m3).
        if res then Inr (tbl3, m3) else Inl Assert_failed)) = Inr (tbl', m') \<and> stored (Suc n) tbl key val tbl')"
proof -
  note d = table_okD [OF ok]
  have "(of_nat (2 ^ n) :: size_t) * 2 = of_nat (2 ^ Suc n)" by simp
  then have size: "MANAGED_OBJECT_METADATA_UNTAG_COUNT (b_length (t_keys tbl)) * 2 = of_nat (2 ^ Suc n)"
    using d(6) pow_bound [OF d(3)] unfolding counts_ok_def by simp
  have room: "live_in K (bucket (t_keys tbl)) \<le> 2 ^ Suc n" using live_in_bound [OF d(2)] by simp
  from table_rehash_outcome [OF ok n room, of 0 m] consider
    (oom) f where "managed_obj_metadata_table_rehash env tbl (of_nat (2 ^ Suc n)) 0 m = Inl f" "out_of_memory env f"
    | (ok) r tbl2 m2 where "managed_obj_metadata_table_rehash env tbl (of_nat (2 ^ Suc n)) 0 m = Inr (r, tbl2, m2)"
      "table_ok env K L (Suc n) tbl2" "is_current L (t_ld tbl2)" "deleted_in env (bucket (t_keys tbl2)) = 0"
      "live_in K (bucket (t_keys tbl2)) = live_in K (bucket (t_keys tbl))"
      "\<forall>x. kvalid K x \<longrightarrow> table_map K tbl2 x = table_map K tbl x"
    by blast
  then show ?thesis
  proof cases
    case oom
    then show ?thesis unfolding size by simp
  next
    case (ok r tbl2 m2)
    note d2 = table_okD [OF ok(2)]
    have "used_in env (bucket (t_keys tbl2)) \<le> 2 ^ n"
      using live_in_le_used [OF d2(2)] ok(4,5) live_in_bound [OF d(2)] by simp
    also have "(2::nat) ^ n < 2 ^ Suc n" by (rule power_strict_increasing) simp_all
    finally have "used_in env (bucket (t_keys tbl2)) < 2 ^ Suc n" .
    then have free: "\<not> (\<forall>j < 2 ^ Suc n. bucket (t_keys tbl2) ! j \<noteq> id_unused env)"
      using used_in_full [of "bucket (t_keys tbl2)" env] d2(4) by auto
    have carry: "stored (Suc n) tbl key val t" if "stored (Suc n) tbl2 key val t" for t
      using that ok(5,6) by (simp add: stored_def)
    from try_set_outcome [OF ok(2) key, of val m2] free ok(3) consider
      (oom2) f where "managed_obj_metadata_table_try_set env tbl2 key val m2 = Inl f" "out_of_memory env f"
      | (ok2) t m' where "managed_obj_metadata_table_try_set env tbl2 key val m2 = Inr (True, t, m')"
        "stored (Suc n) tbl2 key val t"
      by blast
    then show ?thesis
    proof cases
      case oom2
      then show ?thesis unfolding size ok(1) by simp
    next
      case (ok2 t m')
      then show ?thesis unfolding size ok(1) using carry by simp
    qed
  qed
qed

lemma table_set_outcome:
  assumes ok: "table_ok env K L n tbl" and key: "kvalid K key" and n: "Suc n < 60"
  shows "(\<exists>f. managed_obj_metadata_table_set env tbl key val m = Inl f \<and> out_of_memory env f) \<or>
    (\<exists>n' tbl' m'. managed_obj_metadata_table_set env tbl key val m = Inr (tbl', m') \<and> stored n' tbl key val tbl' \<and>
      (n' = n \<and> \<not> 2 ^ n \<le> 2 * used_in env (bucket (t_keys tbl)) + 1 \<or>
       n' = Suc n \<and> (2 ^ n \<le> 2 * used_in env (bucket (t_keys tbl)) + 1 \<or> \<not> is_current L (t_ld tbl))))"
proof (cases "2 ^ n \<le> 2 * used_in env (bucket (t_keys tbl)) + 1")
  case True
  then show ?thesis
    using grow_and_set [OF ok key n, of m val] table_full_eq [OF ok]
    unfolding managed_obj_metadata_table_set_def by auto
next
  case False
  have eq: "managed_obj_metadata_table_set env tbl key val m =
    andthen (managed_obj_metadata_table_try_set env tbl key val m) (\<lambda>(done, tbl1, m1).
          if done then Inr (tbl1, m1)
          else andthen (managed_obj_metadata_table_rehash env tbl1
                  (MANAGED_OBJECT_METADATA_UNTAG_COUNT (b_length (t_keys tbl1)) * 2) 0 m1) (\<lambda>(_, tbl2, m2).
               andthen (managed_obj_metadata_table_try_set env tbl2 key val m2) (\<lambda>(res, tbl3, m3).
                 if res then Inr (tbl3, m3) else Inl Assert_failed)))"
    using False table_full_eq [OF ok] by (simp add: managed_obj_metadata_table_set_def)
  have "used_in env (bucket (t_keys tbl)) < 2 ^ n" using False by simp
  then have free: "\<not> (\<forall>j < 2 ^ n. bucket (t_keys tbl) ! j \<noteq> id_unused env)"
    using used_in_full [of "bucket (t_keys tbl)" env] table_okD(4) [OF ok] by auto
  from try_set_outcome [OF ok key, of val m] consider
    (oom) f where "managed_obj_metadata_table_try_set env tbl key val m = Inl f" "out_of_memory env f"
    | (ready) t m' where "managed_obj_metadata_table_try_set env tbl key val m = Inr (True, t, m')" "stored n tbl key val t"
    | (retry) t m' where "managed_obj_metadata_table_try_set env tbl key val m = Inr (False, t, m')" "same_table n tbl t"
        "\<not> is_current L (t_ld tbl)"
    using free by blast
  then show ?thesis
  proof cases
    case oom
    then show ?thesis unfolding eq by simp
  next
    case (ready t m')
    then have "managed_obj_metadata_table_set env tbl key val m = Inr (t, m')" unfolding eq by simp
    with ready(2) False show ?thesis by blast
  next
    case (retry t m')
    have carry: "stored (Suc n) tbl key val t'" if "stored (Suc n) t key val t'" for t'
      using that same_tableD(2,3) [OF retry(2)] by (simp add: stored_def)
    have eq': "managed_obj_metadata_table_set env tbl key val m = andthen (managed_obj_metadata_table_rehash env t
                  (MANAGED_OBJECT_METADATA_UNTAG_COUNT (b_length (t_keys t)) * 2) 0 m') (\<lambda>(_, tbl2, m2).
               andthen (managed_obj_metadata_table_try_set env tbl2 key val m2) (\<lambda>(res, tbl3, m3).
                 if res then Inr (tbl3, m3) else Inl Assert_failed))"
      unfolding eq retry(1) by simp
    show ?thesis
      using grow_and_set [OF same_tableD(1) [OF retry(2)] key n, of m' val] carry retry(3) unfolding eq' by blast
  qed
qed

section \<open>Delete\<close>

lemma delete_slot:
  assumes ok: "table_ok env K L n tbl" and key: "kvalid K key"
    and slot: "key_slot K (bucket (t_keys tbl)) key = Some i"
    and tbl': "tbl' = tbl\<lparr>t_keys := (t_keys tbl)\<lparr>bucket := (bucket (t_keys tbl))[i := id_deleted env],
          b_deleted := MANAGED_OBJECT_METADATA_TAG_COUNT (MANAGED_OBJECT_METADATA_UNTAG_COUNT (b_deleted (t_keys tbl)) + 1)\<rparr>,
        t_values := (t_values tbl)\<lparr>bucket := (bucket (t_values tbl))[i := 0]\<rparr>\<rparr>"
  shows "table_ok env K L n tbl'" and "kvalid K x \<Longrightarrow> table_map K tbl' x = (if ksame K key x then None else table_map K tbl x)"
proof -
  note d = table_okD [OF ok]
  let ?ks = "bucket (t_keys tbl)"
  have i: "i < 2 ^ n" "kvalid K (?ks ! i)" "ksame K (?ks ! i) key"
    using slot by (simp_all add: key_slot_iff [OF d(2) key])
  note del = keys_ok_delete [OF d(2) i(1)]
  have notm: "?ks ! i \<noteq> id_unused env" "?ks ! i \<noteq> id_deleted env" using valid_not_marker [OF i(2)] by simp_all
  have il: "i < length ?ks" using i(1) d(4) by simp
  have "deleted_in env ?ks < 2 ^ 63" using deleted_in_le [of env ?ks] d(4) pow_bound [OF d(3)] by simp
  then have cnt: "MANAGED_OBJECT_METADATA_TAG_COUNT (MANAGED_OBJECT_METADATA_UNTAG_COUNT (b_deleted (t_keys tbl)) + 1) =
      tag_of (deleted_in env (?ks[i := id_deleted env]))"
    using d(6) deleted_in_store(1) [OF il notm(2)] by (simp add: counts_ok_def tag_of_def [of "Suc _"] add.commute)
  have "counts_ok env n (t_keys tbl')"
    using d(6) used_in_store(2) [OF il notm(1), of "id_deleted env"] markers(1)
    unfolding tbl' cnt by (simp add: counts_ok_def)
  moreover have "placed env K n (t_ld tbl) (?ks[i := id_deleted env])"
    by (rule placed_store [OF d(7,4) i(1)]) (use markers in auto)
  moreover have "watched env K L n (t_ld tbl) (?ks[i := id_deleted env])"
    by (rule watched_store [OF d(8,4)]) (use markers in auto)
  ultimately show "table_ok env K L n tbl'" using d del(1) by (simp add: table_ok_def tbl')
  assume x: "kvalid K x"
  have same: "key_slot K ?ks x = Some i \<longleftrightarrow> ksame K key x"
    using x i same_trans same_sym by (metis key_slot_iff [OF d(2)])
  show "table_map K tbl' x = (if ksame K key x then None else table_map K tbl x)"
    using del(2) [OF x] same unfolding tbl' table_map_def by (cases "key_slot K ?ks x") auto
qed

lemma table_delete_outcome:
  assumes ok: "table_ok env K L n tbl" and key: "kvalid K key"
  shows "(\<exists>f. managed_obj_metadata_table_delete env tbl key m = Inl f \<and> out_of_memory env f) \<or>
    (\<exists>tbl' m'. managed_obj_metadata_table_delete env tbl key m = Inr (tbl', m') \<and> table_ok env K L n tbl' \<and>
      (\<forall>x. kvalid K x \<longrightarrow> table_map K tbl' x = (if ksame K key x then None else table_map K tbl x)))"
proof -
  note type = table_okD(1) [OF ok]
  from table_find_outcome [OF ok key, of False m] consider
    (oom) f where "managed_obj_metadata_table_find env tbl key False m = Inl f" "out_of_memory env f"
    | (ok) res tbl' m' where "managed_obj_metadata_table_find env tbl key False m = Inr (res, tbl', m')"
      "same_table n tbl tbl'" "found n tbl key res tbl'"
    by blast
  then show ?thesis
  proof cases
    case oom
    then show ?thesis using type by (simp add: managed_obj_metadata_table_delete_def)
  next
    case (ok res t m')
    note ok' = same_tableD(1) [OF ok(2)]
    note d = table_okD [OF ok']
    let ?ks = "bucket (t_keys t)"
    have absent: "table_map K t x = (if ksame K key x then None else table_map K t x)"
      if "key_slot K ?ks key = None" "kvalid K x" for x
      using key_slot_same [OF d(2) key that(2)] that(1) by (simp add: table_map_def)
    have unchanged: ?thesis
      if r: "managed_obj_metadata_table_delete env tbl key m = Inr (t, m')" "key_slot K ?ks key = None"
    proof -
      have "table_map K t x = (if ksame K key x then None else table_map K tbl x)" if x: "kvalid K x" for x
        using absent [OF r(2) x] unfolding same_tableD(2) [OF ok(2) x] .
      with r(1) ok' show ?thesis by blast
    qed
    from ok(3) show ?thesis unfolding found_def Let_def
    proof (elim disjE exE conjE)
      fix i assume i: "i < 2 ^ n" "res = Some (of_nat i)" "key_slot K ?ks key = Some i"
      then have "kvalid K (?ks ! i)" by (simp add: key_slot_iff [OF d(2) key])
      then show ?thesis
        using ok(1) i type valid_not_marker bucket_at_small [OF i(1) d(3,4)] set_bucket_small [OF i(1) d(3,4)]
          set_bucket_small [OF i(1) d(3,5)] delete_slot [OF ok' key i(3) refl] same_tableD(2) [OF ok(2)]
        by (simp add: managed_obj_metadata_table_delete_def)
    next
      fix i assume i: "i < 2 ^ n" "res = Some (of_nat i)" "key_slot K ?ks key = None" "?ks ! i = id_unused env"
      then show ?thesis
        using ok(1) type bucket_at_small [OF i(1) d(3,4)]
        by (intro unchanged) (simp_all add: managed_obj_metadata_table_delete_def)
    next
      fix i assume i: "i < 2 ^ n" "res = Some (of_nat i)" "key_slot K ?ks key = None" "?ks ! i = id_deleted env"
      then show ?thesis
        using ok(1) type bucket_at_small [OF i(1) d(3,4)]
        by (intro unchanged) (simp_all add: managed_obj_metadata_table_delete_def)
    next
      assume "res = None" "key_slot K ?ks key = None" "\<not> is_current L (t_ld tbl)"
      then show ?thesis using ok(1) type
        by (intro unchanged) (simp_all add: managed_obj_metadata_table_delete_def)
    next
      assume "res = None" "key_slot K ?ks key = None" "\<forall>j < 2 ^ n. bucket (t_keys tbl) ! j \<noteq> id_unused env"
      then show ?thesis using ok(1) type
        by (intro unchanged) (simp_all add: managed_obj_metadata_table_delete_def)
    qed
  qed
qed

end

end
