(* ===== verification/MetaStrings.thy ===== *)
theory MetaStrings
  imports MetaOps KvTable
begin

text \<open>
  The two kinds of keys of the metadata hash table, addresses and strings, with their hash and
  comparison functions, the symbol table (interning), and the laws of the table's contract for
  both kinds.
\<close>

section \<open>Addresses as keys\<close>

text \<open>The union of the hash function reads the eight bytes of the address, lowest first.\<close>

definition addr_bytes :: "addr \<Rightarrow> byte list" where
  "addr_bytes p = map (\<lambda>i. ucast (drop_bit (8 * i) p)) [0..<8]"

definition managed_obj_metadata_eq_hash ::
  "('ld \<Rightarrow> addr \<Rightarrow> 'ld) \<Rightarrow> addr \<Rightarrow> 'ld option \<Rightarrow> fault + ulong \<times> 'ld option"
where
  "managed_obj_metadata_eq_hash ld_add obj ld =
     andthen (managed_obj_metadata_hash (addr_bytes obj) 8) (\<lambda>h.
       Inr (h, map_option (\<lambda>l. ld_add l obj) ld))"

definition managed_obj_metadata_eqp :: "addr \<Rightarrow> addr \<Rightarrow> fault + bool" where
  "managed_obj_metadata_eqp obj1 obj2 = Inr (obj1 = obj2)"

section \<open>Strings as keys\<close>

record mstring =
  s_length :: size_t
  s_chars :: "byte list"

text \<open>The string objects; at the other addresses there are objects of other types.\<close>

type_synonym strings = "addr \<Rightarrow> mstring option"

definition managed_obj_metadata_string_hash :: "strings \<Rightarrow> addr \<Rightarrow> 'ld option \<Rightarrow> fault + ulong \<times> 'ld option" where
  "managed_obj_metadata_string_hash strs obj ld =
     (if obj = 0 then Inl Undefined_behaviour
      else case strs obj of
             None \<Rightarrow> Inl Fatal_error
           | Some s \<Rightarrow> andthen (managed_obj_metadata_hash (s_chars s) (unat (s_length s))) (\<lambda>h. Inr (h, ld)))"

definition managed_obj_metadata_string_equalp :: "strings \<Rightarrow> addr \<Rightarrow> addr \<Rightarrow> fault + bool" where
  "managed_obj_metadata_string_equalp strs obj1 obj2 =
     (if obj1 = obj2 then Inr True
      else if obj1 = 0 then Inl Undefined_behaviour
      else case strs obj1 of
             None \<Rightarrow> Inr False
           | Some s1 \<Rightarrow>
               if obj2 = 0 then Inl Undefined_behaviour
               else (case strs obj2 of
                       None \<Rightarrow> Inr False
                     | Some s2 \<Rightarrow>
                         if s_length s1 = s_length s2
                         then andthen (c_strcmp (s_chars s1) (s_chars s2)) (\<lambda>c. Inr (c = 0))
                         else Inr False))"

text \<open>Making a string copies \<open>length + 1\<close> bytes, or fills them with zeros.\<close>

definition managed_obj_metadata_make_string ::
  "'ld tbl_env \<Rightarrow> size_t \<Rightarrow> byte list option \<Rightarrow> strings \<Rightarrow> meta_mem \<Rightarrow> fault + addr \<times> strings \<times> meta_mem"
where
  "managed_obj_metadata_make_string env len str strs m =
     (if 2 ^ 64 \<le> unat offsetof_string + unat len + 1 + 7 then Inl Undefined_behaviour
      else andthen (case str of
             None \<Rightarrow> Inr (replicate (unat len + 1) 0)
           | Some bytes \<Rightarrow> if unat len < length bytes then Inr (take (unat len + 1) bytes)
                           else Inl Undefined_behaviour) (\<lambda>chars.
           andthen (ask env sizeof_string (MANAGED_OBJECT_ALIGN_OBJ (offsetof_string + len + 1)) m) (\<lambda>(a, m1).
             Inr (a, strs(a \<mapsto> \<lparr>s_length = len, s_chars = chars\<rparr>), m1))))"

section \<open>Interning\<close>

definition managed_obj_metadata_intern_string ::
  "strings \<Rightarrow> 'ld tbl_env \<Rightarrow> 'ld hashtable \<Rightarrow> addr \<Rightarrow> meta_mem \<Rightarrow> fault + addr \<times> 'ld hashtable \<times> meta_mem"
where
  "managed_obj_metadata_intern_string strs env tbl name m =
     (if strs name = None then Inl Assert_failed
      else andthen (managed_obj_metadata_table_ref env tbl name m) (\<lambda>(symbol, tbl1, m1).
             if symbol = 0
             then andthen (managed_obj_metadata_table_set env tbl1 name name m1) (\<lambda>(tbl2, m2).
                    Inr (name, tbl2, m2))
             else Inr (symbol, tbl1, m1)))"

text \<open>The environment depends on the strings there are, and there is one more.\<close>

definition managed_obj_metadata_intern ::
  "(strings \<Rightarrow> 'ld tbl_env) \<Rightarrow> strings \<Rightarrow> 'ld hashtable \<Rightarrow> byte list \<Rightarrow> meta_mem \<Rightarrow>
     fault + addr \<times> strings \<times> 'ld hashtable \<times> meta_mem"
where
  "managed_obj_metadata_intern envf strs tbl str m =
     (if 0 \<notin> set str then Inl Undefined_behaviour
      else andthen (managed_obj_metadata_make_string (envf strs) (of_nat (length (c_string str))) (Some str) strs m)
        (\<lambda>(name, strs1, m1).
           andthen (managed_obj_metadata_intern_string strs1 (envf strs1) tbl name m1) (\<lambda>(symbol, tbl1, m2).
             Inr (symbol, strs1, tbl1, m2))))"

section \<open>The environments\<close>

definition eq_env ::
  "('ld \<Rightarrow> addr \<Rightarrow> 'ld) \<Rightarrow> 'ld \<Rightarrow> ('ld \<Rightarrow> addr \<Rightarrow> bool) \<Rightarrow> addr \<Rightarrow> addr \<Rightarrow> (nat \<Rightarrow> (addr option \<times> bool) list) \<Rightarrow> 'ld tbl_env"
where
  "eq_env ld_add reset isstale u d ans = \<lparr>id_unused = u, id_deleted = d,
     hashf = managed_obj_metadata_eq_hash ld_add, cmpf = managed_obj_metadata_eqp,
     ld_reset = reset, ld_isstale = isstale, answers = ans\<rparr>"

definition string_env ::
  "strings \<Rightarrow> 'ld \<Rightarrow> ('ld \<Rightarrow> addr \<Rightarrow> bool) \<Rightarrow> addr \<Rightarrow> addr \<Rightarrow> (nat \<Rightarrow> (addr option \<times> bool) list) \<Rightarrow> 'ld tbl_env"
where
  "string_env strs reset isstale u d ans = \<lparr>id_unused = u, id_deleted = d,
     hashf = managed_obj_metadata_string_hash strs, cmpf = managed_obj_metadata_string_equalp strs,
     ld_reset = reset, ld_isstale = isstale, answers = ans\<rparr>"

definition eq_keys :: "addr \<Rightarrow> addr \<Rightarrow> keying" where
  "eq_keys u d = \<lparr>kvalid = (\<lambda>k. k \<noteq> 0 \<and> k \<noteq> u \<and> k \<noteq> d), khash = (\<lambda>k. mh_ref 0 (addr_bytes k)), ksame = (=)\<rparr>"

text \<open>A string that \<open>strlen\<close> agrees with: as many bytes as its length says, then the NUL.\<close>

definition wf_string :: "mstring \<Rightarrow> bool" where
  "wf_string s \<longleftrightarrow> length (s_chars s) = unat (s_length s) + 1 \<and> length (c_string (s_chars s)) = unat (s_length s)"

definition string_keys :: "strings \<Rightarrow> keying" where
  "string_keys strs = \<lparr>kvalid = (\<lambda>k. k \<noteq> 0 \<and> (case strs k of None \<Rightarrow> False | Some s \<Rightarrow> wf_string s)),
     khash = (\<lambda>k. case strs k of None \<Rightarrow> 0 | Some s \<Rightarrow> mh_ref 0 (c_string (s_chars s))),
     ksame = (\<lambda>x y. strs x = strs y)\<rparr>"

text \<open>The hash without its property, for use inside the development.\<close>

lemma hash_value: "len \<le> length s \<Longrightarrow> managed_obj_metadata_hash s len = Inr (mh_ref 0 (take len s))"
proof -
  assume len: "len \<le> length s"
  obtain h' where h':
    "mh_run (drop (4 - len mod 4) mh_cases) s (0, 0) = Inr (len mod 4, h')"
    "mh_ref 0 (take len s) = mh_ref h' (take (len - len mod 4) (drop (len mod 4) s))"
    using mh_run_suffix [of "len mod 4" 0 len s 0] len by auto
  moreover have "mh_loop s len (len mod 4, h') = Inr (mh_ref h' (take (len - len mod 4) (drop (len mod 4) s)))"
    using len by (intro mh_loop_ref) (auto simp: mod_eq_0_iff_dvd)
  ultimately show ?thesis by (simp add: managed_obj_metadata_hash_def)
qed

lemma c_string_take: "take (length (c_string s)) s = c_string s"
  unfolding c_string_def by (metis takeWhile_eq_take)

lemma c_string_terminated: "length (c_string s) < length s \<Longrightarrow> 0 \<in> set s"
  unfolding c_string_def by (metis (mono_tags, lifting) nat_neq_iff takeWhile_eq_all_conv)

lemma wf_string_eq:
  assumes "wf_string s" and "wf_string t"
  shows "s_length s = s_length t \<and> c_strcmp (s_chars s) (s_chars t) = Inr 0 \<longleftrightarrow> s = t"
proof -
  have split: "s_chars x = c_string (s_chars x) @ [0]" if x: "wf_string x" for x
  proof -
    let ?c = "c_string (s_chars x)"
    have len: "length (s_chars x) = Suc (length ?c)" using x by (simp add: wf_string_def)
    then have "s_chars x ! length ?c = 0"
      using nth_length_takeWhile [of "\<lambda>c. c \<noteq> 0" "s_chars x"] by (simp add: c_string_def)
    then show ?thesis using c_string_take [of "s_chars x"] len
      by (metis lessI take_Suc_conv_app_nth take_all_iff order_refl)
  qed
  have nul: "0 \<in> set (s_chars s)" "0 \<in> set (s_chars t)"
    using split [OF assms(1)] split [OF assms(2)] by (metis in_set_conv_decomp)+
  from c_strcmp_terminated [OF nul] obtain r where
    r: "c_strcmp (s_chars s) (s_chars t) = Inr r" "r = 0 \<longleftrightarrow> c_string (s_chars s) = c_string (s_chars t)"
    by blast
  have "s = t" if "c_string (s_chars s) = c_string (s_chars t)"
  proof (rule mstring.equality)
    show "s_length s = s_length t" using assms that by (simp add: wf_string_def word_unat_eq_iff)
    show "s_chars s = s_chars t" using split [OF assms(1)] split [OF assms(2)] that by metis
  qed simp
  with r show ?thesis by auto
qed

section \<open>Both kinds of keys keep the contract\<close>

text \<open>
  For addresses, what the MPS promises of location dependencies: adding an address leaves stale
  what is stale, and records the address; a dependency that was reset after the last collection
  stays current and is not stale.
\<close>

locale eq_table =
  fixes ld_add :: "'ld \<Rightarrow> addr \<Rightarrow> 'ld" and reset :: 'ld and isstale :: "'ld \<Rightarrow> addr \<Rightarrow> bool"
    and L :: "'ld dependency" and u d :: addr and ans :: "nat \<Rightarrow> (addr option \<times> bool) list"
  assumes ids: "u \<noteq> d"
    and add_stale: "isstale l y \<Longrightarrow> isstale (ld_add l x) y"
    and add_depends: "depends_on L (ld_add l x) x" "depends_on L l y \<Longrightarrow> depends_on L (ld_add l x) y"
    and add_current: "is_current L l \<Longrightarrow> is_current L (ld_add l x)"
    and reset_current: "is_current L reset"
    and current_fresh: "is_current L l \<Longrightarrow> \<not> isstale l y"

sublocale eq_table \<subseteq> ek: table_keys "eq_env ld_add reset isstale u d ans" "eq_keys u d" L
  by unfold_locales
    (use ids add_stale add_depends add_current reset_current current_fresh in
      \<open>auto simp: eq_env_def eq_keys_def managed_obj_metadata_eq_hash_def managed_obj_metadata_eqp_def
        hash_value addr_bytes_def carries_def\<close>)

context eq_table
begin

lemma table_keys: "table_keys (eq_env ld_add reset isstale u d ans) (eq_keys u d) L"
  by (rule ek.table_keys_axioms)

end

text \<open>
  The hash of a string does not depend on its address, and no address is ever added to the
  dependency, so that it is stale for none; the markers are objects of another type.
\<close>

definition string_dep :: "'ld dependency" where
  "string_dep = \<lparr>is_current = (\<lambda>_. True), depends_on = (\<lambda>_ _. True)\<rparr>"

locale string_table =
  fixes strs :: strings and reset :: 'ld and isstale :: "'ld \<Rightarrow> addr \<Rightarrow> bool"
    and u d :: addr and ans :: "nat \<Rightarrow> (addr option \<times> bool) list"
  assumes ids: "u \<noteq> d" "d \<noteq> 0" "strs u = None" "strs d = None"
    and never_stale: "\<not> isstale l y"

lemma string_equalp_wf:
  assumes "x \<noteq> 0" and "y \<noteq> 0" and "strs x = Some s" and "strs y = Some t" and "wf_string s" and "wf_string t"
  shows "managed_obj_metadata_string_equalp strs x y = Inr (strs x = strs y)"
proof (cases "x = y")
  case True
  then show ?thesis by (simp add: managed_obj_metadata_string_equalp_def)
next
  case False
  show ?thesis
  proof (cases "s_length s = s_length t")
    case True
    have "0 \<in> set (s_chars s)" "0 \<in> set (s_chars t)"
      using assms(5,6) by (auto simp: wf_string_def intro!: c_string_terminated)
    from c_strcmp_terminated [OF this] obtain r where "c_strcmp (s_chars s) (s_chars t) = Inr r" by blast
    with False True wf_string_eq [OF assms(5,6)] assms(1-4) show ?thesis
      by (auto simp: managed_obj_metadata_string_equalp_def)
  next
    case False
    with \<open>x \<noteq> y\<close> assms show ?thesis by (auto simp: managed_obj_metadata_string_equalp_def)
  qed
qed

lemma string_hash_wf:
  "x \<noteq> 0 \<Longrightarrow> strs x = Some s \<Longrightarrow> wf_string s \<Longrightarrow>
    managed_obj_metadata_string_hash strs x ld = Inr (mh_ref 0 (c_string (s_chars s)), ld)"
  using c_string_take [of "s_chars s"]
  by (simp add: managed_obj_metadata_string_hash_def wf_string_def hash_value)

lemma string_valid:
  assumes "kvalid (string_keys strs) k"
  obtains s where "k \<noteq> 0" and "strs k = Some s" and "wf_string s"
  using assms by (auto simp: string_keys_def split: option.splits)

sublocale string_table \<subseteq> sk: table_keys "string_env strs reset isstale u d ans" "string_keys strs" string_dep
proof (unfold_locales, goal_cases)
  case (1 k)
  then show ?case by (rule string_valid) (simp add: string_env_def string_keys_def string_hash_wf)
next
  case (2 k ld)
  then show ?case by (rule string_valid) (simp add: string_env_def string_keys_def string_hash_wf string_dep_def)
next
  case (3 x k)
  from 3(1) obtain s where "x \<noteq> 0" "strs x = Some s" "wf_string s" by (rule string_valid)
  moreover from 3(2) obtain t where "k \<noteq> 0" "strs k = Some t" "wf_string t" by (rule string_valid)
  ultimately have "managed_obj_metadata_string_equalp strs x k = Inr (strs x = strs k)"
    by (intro string_equalp_wf)
  then show ?case by (simp add: string_env_def string_keys_def)
next
  case (4 k)
  then obtain s where "strs k = Some s" by (rule string_valid)
  then have "k \<noteq> d" using ids(4) by auto
  then show ?case using ids(2,4) by (simp add: string_env_def managed_obj_metadata_string_equalp_def)
qed (use ids never_stale in \<open>auto simp: string_env_def string_keys_def string_dep_def split: option.splits\<close>)

context string_table
begin

lemma table_keys: "table_keys (string_env strs reset isstale u d ans) (string_keys strs) string_dep"
  by (rule sk.table_keys_axioms)

end

end
