(* ===== verification/ObjBooks.thy ===== *)
theory ObjBooks
  imports MetaStrings
begin

text \<open>
  The books of a whole program, its hash tables and strings included: the counters of allocated and
  freed object bytes differ by the objects whose finalization message is still to come and by all
  metadata objects ever made, which no message ever counts as freed.
\<close>

section \<open>What the metadata operations count\<close>

text \<open>
  The operations of the metadata subsystem that can allocate, by what they do to the state of the
  client.  The argument is the type of the location dependencies.
\<close>

inductive metadata_step :: "'ld itself \<Rightarrow> obj_state \<Rightarrow> obj_state \<Rightarrow> bool" for T :: "'ld itself" where
  make_string: "managed_obj_metadata_make_string (env :: 'ld tbl_env) len str strs m = Inr (a, strs', m') \<Longrightarrow>
    metadata_step T (mstate m) (mstate m')"
| make_buckets: "managed_obj_metadata_make_buckets (env :: 'ld tbl_env) len m = Inr (bs, m') \<Longrightarrow>
    metadata_step T (mstate m) (mstate m')"
| make_table: "managed_obj_metadata_make_table (env :: 'ld tbl_env) ldsize len m = Inr (tbl, m') \<Longrightarrow>
    metadata_step T (mstate m) (mstate m')"
| table_ref: "managed_obj_metadata_table_ref (env :: 'ld tbl_env) tbl key m = Inr (v, tbl', m') \<Longrightarrow>
    metadata_step T (mstate m) (mstate m')"
| table_set: "managed_obj_metadata_table_set (env :: 'ld tbl_env) tbl key v m = Inr (tbl', m') \<Longrightarrow>
    metadata_step T (mstate m) (mstate m')"
| table_delete: "managed_obj_metadata_table_delete (env :: 'ld tbl_env) tbl key m = Inr (tbl', m') \<Longrightarrow>
    metadata_step T (mstate m) (mstate m')"
| table_rehash: "managed_obj_metadata_table_rehash (env :: 'ld tbl_env) tbl n key m = Inr (b, tbl', m') \<Longrightarrow>
    metadata_step T (mstate m) (mstate m')"
| intern: "managed_obj_metadata_intern (envf :: strings \<Rightarrow> 'ld tbl_env) strs tbl name m = Inr (a, strs', tbl', m') \<Longrightarrow>
    metadata_step T (mstate m) (mstate m')"

text \<open>Objects that are counted one after the other: their sizes, aligned sizes and addresses.\<close>

type_synonym count = "size_t \<times> size_t \<times> addr"

definition count_objects :: "count list \<Rightarrow> obj_state \<Rightarrow> obj_state" where
  "count_objects cs st = fold (\<lambda>(sz, aligned, a). count_object sz aligned a) cs st"

definition metadata_size :: "size_t \<Rightarrow> bool" where
  "metadata_size sz \<longleftrightarrow> sz = sizeof_string \<or> sz = sizeof_buckets \<or> (\<exists>ld. sz = sizeof_hashtable ld)"

definition counts :: "obj_state \<Rightarrow> obj_state \<Rightarrow> bool" where
  "counts st st' \<longleftrightarrow> (\<exists>cs. st' = count_objects cs st \<and> (\<forall>c \<in> set cs. metadata_size (fst c)))"

lemma counts_refl [simp]: "counts st st"
  unfolding counts_def by (rule exI [of _ "[]"]) (simp add: count_objects_def)

lemma counts_trans: "counts st st' \<Longrightarrow> counts st' st'' \<Longrightarrow> counts st st''"
proof -
  assume "counts st st'" "counts st' st''"
  then obtain cs ds where "st' = count_objects cs st" "st'' = count_objects ds st'"
    "\<forall>c \<in> set (cs @ ds). metadata_size (fst c)" unfolding counts_def by auto
  then show ?thesis unfolding counts_def by (intro exI [of _ "cs @ ds"]) (simp add: count_objects_def)
qed

lemma counts_one: "metadata_size sz \<Longrightarrow> counts st (count_object sz aligned a st)"
  unfolding counts_def by (rule exI [of _ "[(sz, aligned, a)]"]) (simp add: count_objects_def)

lemma counts_ask: "ask env sz aligned m = Inr (a, m') \<Longrightarrow> metadata_size sz \<Longrightarrow> counts (mstate m) (mstate m')"
  by (auto simp: ask_def ebind intro: counts_one)

lemma counts_make_buckets:
  "managed_obj_metadata_make_buckets env len m = Inr (bs, m') \<Longrightarrow> counts (mstate m) (mstate m')"
  by (auto simp: managed_obj_metadata_make_buckets_def ebind metadata_size_def split: if_splits dest: counts_ask)

lemma counts_make_table:
  assumes "managed_obj_metadata_make_table env ldsize len m = Inr (tbl, m')"
  shows "counts (mstate m) (mstate m')"
proof -
  from assms obtain a l ks m1 vs m2 where
    b: "managed_obj_metadata_make_buckets env l (m\<lparr>asked := Suc (asked m)\<rparr>) = Inr (ks, m1)"
      "managed_obj_metadata_make_buckets env l m1 = Inr (vs, m2)"
    and m': "mstate m' = count_object (sizeof_hashtable ldsize) (MANAGED_OBJECT_ALIGN_OBJ (sizeof_hashtable ldsize)) a (mstate m2)"
    by (auto simp: managed_obj_metadata_make_table_def ebind)
  from counts_make_buckets [OF b(1)] have "counts (mstate m) (mstate m1)" by simp
  also note counts_make_buckets [OF b(2)]
  finally (counts_trans) have "counts (mstate m) (mstate m2)" .
  moreover have "counts (mstate m2) (mstate m')" unfolding m' by (rule counts_one) (auto simp: metadata_size_def)
  ultimately show ?thesis by (rule counts_trans)
qed

lemma counts_rehash:
  assumes "managed_obj_metadata_table_rehash env tbl n key m = Inr (b, tbl', m')"
  shows "counts (mstate m) (mstate m')"
proof -
  from assms obtain nk m1 nv where "managed_obj_metadata_make_buckets env n m = Inr (nk, m1)"
    "managed_obj_metadata_make_buckets env n m1 = Inr (nv, m')"
    by (auto simp: managed_obj_metadata_table_rehash_def ebind split: if_splits)
  then show ?thesis by (blast intro: counts_trans counts_make_buckets)
qed

lemma counts_find:
  "managed_obj_metadata_table_find env tbl key add m = Inr (b, tbl', m') \<Longrightarrow> counts (mstate m) (mstate m')"
  by (auto simp: managed_obj_metadata_table_find_def ebind split: option.splits if_splits dest: counts_rehash)

lemma counts_ref:
  "managed_obj_metadata_table_ref env tbl key m = Inr (v, tbl', m') \<Longrightarrow> counts (mstate m) (mstate m')"
  by (auto simp: managed_obj_metadata_table_ref_def ebind split: option.splits if_splits dest: counts_find)

lemma counts_try_set:
  "managed_obj_metadata_table_try_set env tbl key v m = Inr (d, tbl', m') \<Longrightarrow> counts (mstate m) (mstate m')"
  by (auto simp: managed_obj_metadata_table_try_set_def ebind split: option.splits if_splits dest: counts_find)

lemma counts_delete:
  "managed_obj_metadata_table_delete env tbl key m = Inr (tbl', m') \<Longrightarrow> counts (mstate m) (mstate m')"
  by (auto simp: managed_obj_metadata_table_delete_def ebind split: option.splits if_splits dest: counts_find)

lemma counts_set:
  assumes "managed_obj_metadata_table_set env tbl key v m = Inr (tbl', m')"
  shows "counts (mstate m) (mstate m')"
proof -
  from assms obtain full d tbl1 m1 where 1:
      "(if full then Inr (False, tbl, m) else managed_obj_metadata_table_try_set env tbl key v m) = Inr (d, tbl1, m1)"
    and 2: "(if d then Inr (tbl1, m1) else andthen (managed_obj_metadata_table_rehash env tbl1
                  (MANAGED_OBJECT_METADATA_UNTAG_COUNT (b_length (t_keys tbl1)) * 2) 0 m1) (\<lambda>(_, tbl2, m2).
               andthen (managed_obj_metadata_table_try_set env tbl2 key v m2) (\<lambda>(res, tbl3, m3).
                 if res then Inr (tbl3, m3) else Inl Assert_failed))) = Inr (tbl', m')"
    by (fastforce simp: managed_obj_metadata_table_set_def ebind)
  have "counts (mstate m) (mstate m1)" using 1 by (cases full) (auto dest: counts_try_set)
  moreover have "counts (mstate m1) (mstate m')"
    using 2 by (cases d) (auto simp: ebind split: if_splits intro: counts_trans dest!: counts_rehash counts_try_set)
  ultimately show ?thesis by (rule counts_trans)
qed

lemma counts_make_string:
  "managed_obj_metadata_make_string env len str strs m = Inr (a, strs', m') \<Longrightarrow> counts (mstate m) (mstate m')"
  by (auto simp: managed_obj_metadata_make_string_def ebind metadata_size_def split: if_splits option.splits dest: counts_ask)

lemma counts_intern:
  "managed_obj_metadata_intern envf strs tbl name m = Inr (a, strs', tbl', m') \<Longrightarrow> counts (mstate m) (mstate m')"
  by (auto simp: managed_obj_metadata_intern_def managed_obj_metadata_intern_string_def ebind split: if_splits
      intro: counts_trans dest!: counts_make_string counts_ref counts_set)

text \<open>Every operation counts the objects that it makes, and changes nothing else.\<close>

lemma metadata_step_counts: "metadata_step T st st' \<Longrightarrow> counts st st'"
  by (induction rule: metadata_step.induct)
    (auto dest: counts_make_string counts_make_buckets counts_make_table counts_ref counts_set counts_delete counts_rehash counts_intern)

section \<open>The books of a program\<close>

text \<open>
  The states of a program that uses the object interface: it makes objects, writes their words,
  pins and unpins them, takes client memory, uses strings and hash tables, and takes messages; and a
  collection moves objects.  The MPS reserves memory where no registered object is, and has at most
  one message for a registration.  The list has the sizes of the metadata objects made so far.
\<close>

definition is_metadata :: "managed_obj_type_t \<Rightarrow> bool" where
  "is_metadata t \<longleftrightarrow> t \<in> {MANAGED_OBJECT_TYPE_METADATA_STRING, MANAGED_OBJECT_TYPE_METADATA_HASH_TABLE,
     MANAGED_OBJECT_TYPE_METADATA_HASH_TABLE_BUCKET}"

text \<open>The objects \<open>cs\<close> are new in the heap, where no registered object is.\<close>

definition new_metadata :: "count list \<Rightarrow> obj_state \<Rightarrow> obj_heap \<Rightarrow> obj_heap \<Rightarrow> bool" where
  "new_metadata cs st h h' \<longleftrightarrow> distinct (map (snd \<circ> snd) cs) \<and>
     (\<forall>(sz, aligned, a) \<in> set cs. metadata_size sz \<and> a \<notin> set (registered st) \<and>
        (\<exists>obj. h' a = Some obj \<and> is_metadata (otype obj))) \<and>
     (\<forall>b. b \<notin> snd ` snd ` set cs \<longrightarrow> h' b = h b)"

text \<open>A collection gives the objects new addresses; their types and lengths stay.\<close>

definition moved_heap :: "(addr \<Rightarrow> addr) \<Rightarrow> obj_heap \<Rightarrow> obj_heap \<Rightarrow> bool" where
  "moved_heap f h h' \<longleftrightarrow> inj f \<and>
     (\<forall>b. map_option (\<lambda>obj. (otype obj, length (owords obj))) (h' (f b)) = map_option (\<lambda>obj. (otype obj, length (owords obj))) (h b))"

inductive acct :: "'ld itself \<Rightarrow> obj_state \<Rightarrow> obj_heap \<Rightarrow> (size_t \<times> size_t) list \<Rightarrow> bool" for T :: "'ld itself" where
  start: "acct T new_state Map.empty []"
| make: "acct T st h made \<Longrightarrow>
    managed_obj_make_scanned_with_finalizer st h attempts p sc fin = Inr (a, st', h') \<Longrightarrow>
    a \<notin> set (registered st) \<Longrightarrow> acct T st' h' made"
| make_empty: "acct T st h made \<Longrightarrow> managed_obj_make_empty st h attempts = Inr (a, st', h') \<Longrightarrow>
    a \<notin> set (registered st) \<Longrightarrow> acct T st' h' made"
| metadata: "acct T st h made \<Longrightarrow> metadata_step T st st' \<Longrightarrow> st' = count_objects cs st \<Longrightarrow> new_metadata cs st h h' \<Longrightarrow>
    acct T st' h' (made @ map (\<lambda>(sz, aligned, a). (sz, aligned)) cs)"
| move: "acct T st h made \<Longrightarrow> moved_heap f h h' \<Longrightarrow> acct T (st\<lparr>registered := map f (registered st)\<rparr>) h' made"
| store: "acct T st h made \<Longrightarrow> h a = Some obj \<Longrightarrow> set_word obj n w = Inr obj' \<Longrightarrow> acct T st (h(a \<mapsto> obj')) made"
| pin: "acct T st h made \<Longrightarrow> h a = Some obj \<Longrightarrow> managed_obj_pin st obj = (st', obj') \<Longrightarrow> acct T st' (h(a \<mapsto> obj')) made"
| unpin: "acct T st h made \<Longrightarrow> h a = Some obj \<Longrightarrow> managed_obj_unpin st obj = (st', obj') \<Longrightarrow> acct T st' (h(a \<mapsto> obj')) made"
| malloc: "acct T st h made \<Longrightarrow> managed_obj_malloc st s p = (q, st') \<Longrightarrow> acct T st' h made"
| release: "acct T st h made \<Longrightarrow> acct T (managed_obj_free st p s) h made"
| chat: "acct T st h made \<Longrightarrow> tame cb \<Longrightarrow> distinct (finalized ms) \<Longrightarrow> set (finalized ms) \<subseteq> set (registered st) \<Longrightarrow>
    managed_obj_mps_chat cb ms (st, h, []) = Inr (st', h', calls) \<Longrightarrow> acct T st' h' made"

definition in_balance :: "obj_state \<Rightarrow> obj_heap \<Rightarrow> (size_t \<times> size_t) list \<Rightarrow> bool" where
  "in_balance st h made \<longleftrightarrow> distinct (registered st) \<and> (\<forall>a \<in> set (registered st). fin_ready h a) \<and>
     allocated_obj_bytes st = freed_obj_bytes st + sum_list (map (bytes_of h) (registered st)) + sum_list (map fst made) \<and>
     allocated_aligned_obj_bytes st =
       freed_aligned_obj_bytes st + sum_list (map (aligned_of h) (registered st)) + sum_list (map snd made)"

text \<open>Changes of the heap that do not matter for the balance.\<close>

definition same_kind :: "obj_heap \<Rightarrow> obj_heap \<Rightarrow> addr \<Rightarrow> addr \<Rightarrow> bool" where
  "same_kind h h' b b' \<longleftrightarrow> fin_ready h' b' = fin_ready h b \<and> bytes_of h' b' = bytes_of h b \<and> aligned_of h' b' = aligned_of h b"

lemma same_kind_at: "h' b = h b \<Longrightarrow> same_kind h h' b b"
  by (simp add: same_kind_def fin_ready_def bytes_of_def aligned_of_def)

lemma same_kind_shape:
  assumes "map_option (\<lambda>obj. (otype obj, length (owords obj))) (h' b') = map_option (\<lambda>obj. (otype obj, length (owords obj))) (h b)"
  shows "same_kind h h' b b'"
  using assms by (cases "h b"; cases "h' b'") (simp_all add: same_kind_def fin_ready_def bytes_of_def aligned_of_def)

lemma in_balance_map:
  assumes "in_balance st h made" and "inj_on f (set (registered st))" and "registered st' = map f (registered st)"
    and "allocated_obj_bytes st' = allocated_obj_bytes st" "allocated_aligned_obj_bytes st' = allocated_aligned_obj_bytes st"
      "freed_obj_bytes st' = freed_obj_bytes st" "freed_aligned_obj_bytes st' = freed_aligned_obj_bytes st"
    and "\<And>b. b \<in> set (registered st) \<Longrightarrow> same_kind h h' b (f b)"
  shows "in_balance st' h' made"
proof -
  have "map (\<lambda>b. bytes_of h' (f b)) (registered st) = map (bytes_of h) (registered st)"
    "map (\<lambda>b. aligned_of h' (f b)) (registered st) = map (aligned_of h) (registered st)"
    using assms(8) by (simp_all add: same_kind_def)
  note sums = this [THEN arg_cong [where f = sum_list]]
  have "fin_ready h' (f b)" if "b \<in> set (registered st)" for b
    using assms(1) assms(8) [OF that] that by (simp add: same_kind_def in_balance_def)
  then show ?thesis using assms(1-7) sums by (auto simp: in_balance_def distinct_map comp_def simp del: map_eq_conv)
qed

lemma in_balance_cong:
  assumes "in_balance st h made" and "books st' = books st" and "\<And>b. b \<in> set (registered st) \<Longrightarrow> same_kind h h' b b"
  shows "in_balance st' h' made"
  by (rule in_balance_map [OF assms(1), where f = id]) (use assms(2,3) in \<open>simp_all add: books_def\<close>)

lemma in_balance_update:
  assumes "in_balance st h made" and "h a = Some obj" and "otype obj' = otype obj"
    and "length (owords obj') = length (owords obj)" and "books st' = books st"
  shows "in_balance st' (h(a \<mapsto> obj')) made"
  by (rule in_balance_cong [OF assms(1,5)], rule same_kind_shape) (use assms(2-4) in simp)

lemma in_balance_new:
  assumes "in_balance st h made" and "a \<notin> set (registered st)" and "fin_ready h' a"
    and "\<And>b. b \<noteq> a \<Longrightarrow> h' b = h b"
    and "n = bytes_of h' a" and "m = aligned_of h' a"
  shows "in_balance (count_object n m a st) h' made"
proof -
  have "in_balance st h' made"
    by (rule in_balance_cong [OF assms(1) refl], rule same_kind_at, rule assms(4)) (use assms(2) in blast)
  then show ?thesis using assms(2,3,5,6) by (simp add: in_balance_def count_object_def)
qed

lemma count_objects_fields:
  "allocated_obj_bytes (count_objects cs st) = allocated_obj_bytes st + sum_list (map fst cs)"
  "allocated_aligned_obj_bytes (count_objects cs st) = allocated_aligned_obj_bytes st + sum_list (map (fst \<circ> snd) cs)"
  "freed_obj_bytes (count_objects cs st) = freed_obj_bytes st"
  "freed_aligned_obj_bytes (count_objects cs st) = freed_aligned_obj_bytes st"
  "registered (count_objects cs st) = registered st @ map (snd \<circ> snd) cs"
  by (induction cs arbitrary: st) (auto simp: count_objects_def count_object_def add.assoc)

lemma metadata_bytes: "h a = Some obj \<Longrightarrow> is_metadata (otype obj) \<Longrightarrow> fin_ready h a \<and> bytes_of h a = 0 \<and> aligned_of h a = 0"
  by (auto simp: is_metadata_def fin_ready_def bytes_of_def aligned_of_def)

lemma in_balance_metadata:
  assumes bal: "in_balance st h made" and new: "new_metadata cs st h h'"
  shows "in_balance (count_objects cs st) h' (made @ map (\<lambda>(sz, aligned, a). (sz, aligned)) cs)"
proof -
  have fresh: "a \<notin> set (registered st)" "fin_ready h' a \<and> bytes_of h' a = 0 \<and> aligned_of h' a = 0"
    if "(sz, al, a) \<in> set cs" for sz al a
    using new that metadata_bytes [of h' a] by (fastforce simp: new_metadata_def)+
  have "same_kind h h' b b" if "b \<in> set (registered st)" for b
  proof (rule same_kind_at)
    have "b \<notin> snd ` snd ` set cs" using fresh(1) that by fastforce
    then show "h' b = h b" using new by (simp add: new_metadata_def)
  qed
  then have bal': "in_balance st h' made" by (rule in_balance_cong [OF bal refl])
  have zero: "map (bytes_of h' \<circ> (snd \<circ> snd)) cs = map (\<lambda>c. 0) cs" "map (aligned_of h' \<circ> (snd \<circ> snd)) cs = map (\<lambda>c. 0) cs"
    using fresh(2) by (auto simp: list_eq_iff_nth_eq) (metis nth_mem prod.collapse)+
  have sums: "map (fst \<circ> (\<lambda>(sz, aligned, a). (sz, aligned))) cs = map fst cs"
    "map (snd \<circ> (\<lambda>(sz, aligned, a). (sz, aligned))) cs = map (fst \<circ> snd) cs" by auto
  have "fin_ready h' a" if "a \<in> set (map (snd \<circ> snd) cs)" for a using that fresh(2) by auto
  moreover have "set (registered st) \<inter> set (map (snd \<circ> snd) cs) = {}" using fresh(1) by auto
  moreover have "distinct (map (snd \<circ> snd) cs)" using new by (simp add: new_metadata_def)
  moreover have "sum_list (map (\<lambda>c. 0) cs) = (0 :: size_t)" by simp
  ultimately show ?thesis
    using bal' unfolding in_balance_def count_objects_fields map_append sum_list_append map_map zero sums
    by (auto simp: algebra_simps)
qed

lemma acct_in_balance: "acct T st h made \<Longrightarrow> in_balance st h made"
proof (induction rule: acct.induct)
  case start
  then show ?case by (simp add: in_balance_def new_state_def)
next
  case (make st h made attempts p sc fin a st' h')
  then have h': "h' = h(a \<mapsto> \<lparr>otype = MANAGED_OBJECT_TYPE_SCANNED_POINTER, opinned = False, owords = [p, sc, fin]\<rparr>)"
    and st': "st' = count_object sizeof_scanned_pointer (MANAGED_OBJECT_ALIGN_OBJ sizeof_scanned_pointer) a st"
    by (auto simp: managed_obj_make_scanned_with_finalizer_def ebind)
  show ?case
    unfolding st' by (rule in_balance_new [OF make.IH make.hyps(3)])
      (simp_all add: h' fin_ready_def bytes_of_def aligned_of_def)
next
  case (make_empty st h made attempts a st' h')
  then have h': "h' = h(a \<mapsto> \<lparr>otype = MANAGED_OBJECT_TYPE_EMPTY, opinned = False, owords = [0, 0]\<rparr>)"
    and st': "st' = count_object sizeof_empty (MANAGED_OBJECT_ALIGN_OBJ sizeof_empty) a st"
    by (auto simp: managed_obj_make_empty_def ebind)
  show ?case
    unfolding st' by (rule in_balance_new [OF make_empty.IH make_empty.hyps(3)])
      (simp_all add: h' fin_ready_def bytes_of_def aligned_of_def)
next
  case (metadata st h made st' cs h')
  show ?case unfolding metadata.hyps(3) by (rule in_balance_metadata [OF metadata.IH metadata.hyps(4)])
next
  case (move st h made f h')
  then have "inj f" "\<And>b. same_kind h h' b (f b)" by (auto simp: moved_heap_def intro: same_kind_shape)
  then show ?case by (intro in_balance_map [OF move.IH, where f = f]) (auto intro: inj_on_subset)
next
  case (store st h made a obj n w obj')
  have "otype obj' = otype obj" "length (owords obj') = length (owords obj)"
    using store.hyps(3) by (auto simp: set_word_def split: if_splits)
  then show ?case by (rule in_balance_update [OF store.IH store.hyps(2)]) simp
next
  case (pin st h made a obj st' obj')
  then show ?case
    by (intro in_balance_update [OF pin.IH pin.hyps(2)]) (auto simp: managed_obj_pin_def books_def)
next
  case (unpin st h made a obj st' obj')
  then show ?case
    by (intro in_balance_update [OF unpin.IH unpin.hyps(2)]) (auto simp: managed_obj_unpin_def books_def)
next
  case (malloc st h made s p q st')
  then show ?case
    by (intro in_balance_cong [OF malloc.IH] same_kind_at) (auto simp: managed_obj_malloc_def books_def split: if_splits)
next
  case (release st h made p s)
  then show ?case
    by (intro in_balance_cong [OF release.IH] same_kind_at) (auto simp: managed_obj_free_def books_def)
next
  case (chat st h made cb ms st' h' calls)
  have ready: "\<forall>a \<in> set (finalized ms). fin_ready h a"
    using chat.IH chat.hyps(4) by (auto simp: in_balance_def)
  from chat_outcome [OF chat.hyps(2) ready, of st "[]"] chat.hyps(5)
  have h': "h' = cleared (set (finalized ms)) h" and st': "books st' = (allocated_obj_bytes st,
      allocated_aligned_obj_bytes st, freed_obj_bytes st + sum_list (map (bytes_of h) (finalized ms)),
      freed_aligned_obj_bytes st + sum_list (map (aligned_of h) (finalized ms)),
      fold remove1 (finalized ms) (registered st))"
    by auto
  have "distinct (registered st)" using chat.IH by (simp add: in_balance_def)
  note left = fold_remove1 [OF chat.hyps(3) this chat.hyps(4)]
  show ?case
    using chat.IH st' left [of "bytes_of h"] left [of "aligned_of h"]
    by (simp add: in_balance_def books_def h' add.assoc)
qed

lemma acct_made: "acct T st h made \<Longrightarrow> \<forall>x \<in> set made. metadata_size (fst x)"
  by (induction rule: acct.induct) (auto simp: new_metadata_def)

text \<open>
  C31: The books.  In every state of a program that uses objects, strings and hash tables, with
  collections that move objects and callbacks that leave heap and counters alone, the object bytes
  allocated are those freed plus the sizes of the objects of the client that are still registered for finalization, plus the
  sizes of all metadata objects (strings, tables, buckets) that were ever made, which are never
  counted as freed, modulo \<open>2 ^ 64\<close>; the same holds of the aligned sizes.  So once every message
  was taken the counters are equal if there never was a metadata object.
\<close>

theorem books_balance:
  assumes "acct T st h made"
  shows "allocated_obj_bytes st = freed_obj_bytes st + sum_list (map (bytes_of h) (registered st)) + sum_list (map fst made) \<and>
    allocated_aligned_obj_bytes st =
      freed_aligned_obj_bytes st + sum_list (map (aligned_of h) (registered st)) + sum_list (map snd made) \<and>
    (\<forall>x \<in> set made. metadata_size (fst x)) \<and>
    (registered st = [] \<longrightarrow> allocated_obj_bytes st = freed_obj_bytes st + sum_list (map fst made) \<and>
      allocated_aligned_obj_bytes st = freed_aligned_obj_bytes st + sum_list (map snd made))"
  using acct_in_balance [OF assms] acct_made [OF assms] by (simp add: in_balance_def)

text \<open>An empty object and the string of no characters.\<close>

definition one_made :: "obj_state \<times> obj_heap" where
  "one_made = (count_object sizeof_empty (MANAGED_OBJECT_ALIGN_OBJ sizeof_empty) 96 new_state,
     [96 \<mapsto> \<lparr>otype = MANAGED_OBJECT_TYPE_EMPTY, opinned = False, owords = [0, 0]\<rparr>])"

lemma one_made_acct: "acct T (fst one_made) (snd one_made) []"
  by (rule acct.make_empty [OF acct.start, where attempts = "[(Some 64, False), (Some 96, True)]" and a = 96])
    (simp_all add: one_made_def managed_obj_make_empty_def new_state_def)

definition string_made :: "obj_state \<times> obj_heap" where
  "string_made = (count_object sizeof_string 24 160 (fst one_made),
     (snd one_made)(160 \<mapsto> \<lparr>otype = MANAGED_OBJECT_TYPE_METADATA_STRING, opinned = False, owords = [0, 0]\<rparr>))"

lemma string_made_acct: "acct T (fst string_made) (snd string_made) [(24, 24)]"
proof -
  let ?env = "\<lparr>id_unused = 1, id_deleted = 2, hashf = \<lambda>a l. Inr (0, l), cmpf = \<lambda>a b. Inr (a = b), ld_reset = undefined,
    ld_isstale = \<lambda>l a. False, answers = \<lambda>n. [(Some 160, True)]\<rparr>"
  have al: "MANAGED_OBJECT_ALIGN_OBJ (offsetof_string + 0 + 1) = 24"
    by (simp add: MANAGED_OBJECT_ALIGN_OBJ_def align_word_eq sizeof_defs)
  have "metadata_step T (mstate \<lparr>asked = 0, mstate = fst one_made\<rparr>) (mstate \<lparr>asked = Suc 0, mstate = fst string_made\<rparr>)"
    by (rule metadata_step.make_string [where env = ?env and len = 0 and str = "Some [0]" and strs = Map.empty and a = 160
          and strs' = "[160 \<mapsto> \<lparr>s_length = 0, s_chars = [0]\<rparr>]"])
      (use al in \<open>simp add: managed_obj_metadata_make_string_def ask_def string_made_def offsetof_string_def\<close>)
  then have "acct T (fst string_made) (snd string_made) ([] @ map (\<lambda>(sz, aligned, a). (sz, aligned)) [(sizeof_string, 24, 160 :: addr)])"
    by (intro acct.metadata [OF one_made_acct])
      (simp_all add: count_objects_def new_metadata_def string_made_def one_made_def count_object_def new_state_def
        metadata_size_def is_metadata_def)
  then show ?thesis by (simp add: sizeof_string_def)
qed

theorem books_balance_witness:
  "acct TYPE(unit) (fst string_made) (snd string_made) [(24, 24)] \<and> allocated_obj_bytes (fst string_made) = 0 + 8 + 24 \<and>
   allocated_aligned_obj_bytes (fst string_made) = 0 + 24 + 24"
  using books_balance [OF string_made_acct [of "TYPE(unit)"]] string_made_acct [of "TYPE(unit)"]
  by (simp add: string_made_def one_made_def count_object_def new_state_def bytes_of_def aligned_of_def sizeof_empty_def
      sizeof_string_def MANAGED_OBJECT_ALIGN_OBJ_def align_word_id)

end
