(* ===== verification/Lifecycle.thy ===== *)
theory Lifecycle
  imports ObjChat
begin

text \<open>
  The life cycle of a \<open>ManagedObjState\<close> (\<open>managed_obj_init\<close>,
  \<open>managed_obj_init_with_user_memory\<close> and \<open>managed_obj_deinit\<close>, with the three metadata macros
  they expand): the MPS resources each state holds, the global metadata state behind all of
  them, and the order in which everything is created and destroyed.
\<close>

section \<open>State\<close>

datatype state_id = Global | User nat

datatype resource =
    Arena | User_root | Fmt | Chain | Pool | Ap | Thread | Stack_root | Buckets_pool | Strong_ap | Weak_ap

datatype event = Create state_id resource | Destroy state_id resource

record world =
  init_flag :: nat              \<comment> \<open>\<open>managed_obj_global_metadata_init\<close>\<close>
  ids_unused :: addr
  ids_deleted :: addr
  held :: "state_id \<Rightarrow> resource set"  \<comment> \<open>the handles in the state that are not null\<close>
  states :: "state_id \<Rightarrow> obj_state"
  mem :: obj_heap
  events :: "event list"        \<comment> \<open>ghost: what the MPS was asked to do\<close>

text \<open>
  What the world outside answers: the result code of each creation, whether the stack base is
  found, the answers to the two allocations of the marker objects, and the messages and
  callbacks of the last collection.
\<close>

record outside =
  answer :: "state_id \<Rightarrow> resource \<Rightarrow> int"
  stack_base_found :: bool
  unused_attempts :: "(addr option \<times> bool) list"
  deleted_attempts :: "(addr option \<times> bool) list"
  messages :: "state_id \<Rightarrow> mps_message list"
  callbacks_of :: "unit callbacks"

definition created :: "state_id \<Rightarrow> resource \<Rightarrow> world \<Rightarrow> world" where
  "created s r w = w\<lparr>held := (held w)(s := insert r (held w s)), events := events w @ [Create s r]\<rparr>"

definition destroyed :: "state_id \<Rightarrow> resource \<Rightarrow> world \<Rightarrow> world" where
  "destroyed s r w = w\<lparr>held := (held w)(s := held w s - {r}), events := events w @ [Destroy s r]\<rparr>"

section \<open>Initialization\<close>

definition create :: "outside \<Rightarrow> state_id \<Rightarrow> resource \<Rightarrow> world \<Rightarrow> fault + world" where
  "create env s r w = (if answer env s r \<noteq> 0 then Inl Fatal_error else Inr (created s r w))"

fun create_all :: "outside \<Rightarrow> state_id \<Rightarrow> resource list \<Rightarrow> world \<Rightarrow> fault + world" where
  "create_all env s [] w = Inr w"
| "create_all env s (r # rs) w = andthen (create env s r w) (\<lambda>w1. create_all env s rs w1)"

text \<open>\<open>memset(state, 0, sizeof(ManagedObjState))\<close>\<close>

definition zero_state :: "state_id \<Rightarrow> world \<Rightarrow> world" where
  "zero_state s w = w\<lparr>held := (held w)(s := {}), states := (states w)(s := new_state)\<rparr>"

text \<open>The macro that runs first; the flag says that the function returns at once.\<close>

definition source_preinit :: "state_id \<Rightarrow> world \<Rightarrow> bool \<times> world" where
  "source_preinit s w =
     (if s = Global
      then if init_flag w = 2 then (True, w)
           else if init_flag w = 1 then (False, w\<lparr>init_flag := 2\<rparr>)
           else (False, w)
      else (False, w))"

definition make_marker :: "(addr option \<times> bool) list \<Rightarrow> world \<Rightarrow> fault + addr \<times> world" where
  "make_marker attempts w =
     andthen (managed_obj_make_empty (states w Global) (mem w) attempts) (\<lambda>(a, st, h).
       Inr (a, w\<lparr>states := (states w)(Global := st), mem := h\<rparr>))"

text \<open>
  The macro that runs last; \<open>init_global\<close> is the nested call that initializes the global
  metadata state.
\<close>

definition source_init :: "(world \<Rightarrow> fault + world) \<Rightarrow> outside \<Rightarrow> state_id \<Rightarrow> world \<Rightarrow> fault + world" where
  "source_init init_global env s w =
     andthen
       (if init_flag w = 0
        then andthen (init_global (w\<lparr>init_flag := 1\<rparr>)) (\<lambda>w1.
             andthen (make_marker (unused_attempts env) w1) (\<lambda>(a, w2).
             andthen (make_marker (deleted_attempts env) (w2\<lparr>ids_unused := a\<rparr>)) (\<lambda>(b, w3).
               Inr (w3\<lparr>ids_deleted := b\<rparr>))))
        else Inr w)
       (\<lambda>w1. create_all env s [Buckets_pool, Strong_ap, Weak_ap] w1)"

text \<open>
  The memory given to \<open>managed_obj_init_with_user_memory\<close>: none, the two marker ids, the
  client's, a null pointer with a length, or a pointer with the length 0.  The last passes the test of
  the code, and the root would be an empty area, which the contract of the MPS excludes.
\<close>

datatype user_memory = No_memory | Ids_memory | Client_memory | Null_with_length | Empty_memory

definition user_root :: "outside \<Rightarrow> state_id \<Rightarrow> user_memory \<Rightarrow> world \<Rightarrow> fault + world" where
  "user_root env s um w =
     (case um of
        No_memory \<Rightarrow> Inr w
      | Ids_memory \<Rightarrow> create env s User_root (w\<lparr>ids_unused := 0, ids_deleted := 0\<rparr>)
      | Client_memory \<Rightarrow> create env s User_root w
      | Null_with_length \<Rightarrow> Inl Undefined_behaviour
      | Empty_memory \<Rightarrow> Inl Undefined_behaviour)"

text \<open>The first argument bounds the depth of nested calls.\<close>

fun managed_obj_init_with_user_memory ::
  "nat \<Rightarrow> outside \<Rightarrow> user_memory \<Rightarrow> state_id option \<Rightarrow> world \<Rightarrow> fault + world"
where
  "managed_obj_init_with_user_memory depth env um None w = Inl Fatal_error"
| "managed_obj_init_with_user_memory 0 env um (Some s) w = Inl Diverges"
| "managed_obj_init_with_user_memory (Suc depth) env um (Some s) w =
     (case source_preinit s w of (done, w1) \<Rightarrow>
        if done then Inr w1
        else andthen (create env s Arena (zero_state s w1)) (\<lambda>w2.
             andthen (user_root env s um w2) (\<lambda>w3.
             andthen (create_all env s [Fmt, Chain, Pool, Ap] w3) (\<lambda>w4.
               source_init (managed_obj_init_with_user_memory depth env Ids_memory (Some Global)) env s w4))))"

text \<open>A failure to create the stack root is printed, and nothing else.\<close>

definition create_stack_root :: "outside \<Rightarrow> state_id \<Rightarrow> world \<Rightarrow> world" where
  "create_stack_root env s w = (if answer env s Stack_root \<noteq> 0 then w else created s Stack_root w)"

definition managed_obj_init :: "outside \<Rightarrow> state_id option \<Rightarrow> world \<Rightarrow> fault + world" where
  "managed_obj_init env state w =
     (case state of
        None \<Rightarrow> Inl Fatal_error
      | Some s \<Rightarrow>
          (case source_preinit s w of (done, w1) \<Rightarrow>
             if done then Inr w1
             else andthen (create_all env s [Arena, Fmt, Chain, Pool, Ap, Thread] (zero_state s w1)) (\<lambda>w2.
                  if \<not> stack_base_found env then Inl Fatal_error
                  else source_init (managed_obj_init_with_user_memory 2 env Ids_memory (Some Global)) env s
                         (create_stack_root env s w2))))"

section \<open>Deinitialization\<close>

definition destroy :: "state_id \<Rightarrow> resource \<Rightarrow> world \<Rightarrow> fault + world" where
  "destroy s r w = (if r \<in> held w s then Inr (destroyed s r w) else Inl Undefined_behaviour)"

fun destroy_all :: "state_id \<Rightarrow> resource list \<Rightarrow> world \<Rightarrow> fault + world" where
  "destroy_all s [] w = Inr w"
| "destroy_all s (r # rs) w = andthen (destroy s r w) (\<lambda>w1. destroy_all s rs w1)"

text \<open>All roots of the arena, then all its threads; the MPS has rings of them.\<close>

definition destroy_if :: "state_id \<Rightarrow> resource \<Rightarrow> world \<Rightarrow> world" where
  "destroy_if s r w = (if r \<in> held w s then destroyed s r w else w)"

definition destroy_roots :: "state_id \<Rightarrow> world \<Rightarrow> world" where
  "destroy_roots s w = destroy_if s Thread (destroy_if s Stack_root (destroy_if s User_root w))"

definition managed_obj_collect :: "outside \<Rightarrow> state_id \<Rightarrow> world \<Rightarrow> fault + world" where
  "managed_obj_collect env s w =
     andthen (managed_obj_mps_chat (callbacks_of env) (messages env s) (states w s, mem w, []))
       (\<lambda>(st, h, calls). Inr (w\<lparr>states := (states w)(s := st), mem := h\<rparr>))"

definition source_deinit :: "(world \<Rightarrow> fault + world) \<Rightarrow> state_id \<Rightarrow> world \<Rightarrow> fault + world" where
  "source_deinit deinit_global s w =
     andthen
       (if init_flag w = 2
        then deinit_global (w\<lparr>init_flag := 0, ids_unused := 0, ids_deleted := 0\<rparr>)
        else Inr w)
       (\<lambda>w1. destroy_all s [Weak_ap, Strong_ap, Buckets_pool] w1)"

fun managed_obj_deinit :: "nat \<Rightarrow> outside \<Rightarrow> state_id \<Rightarrow> world \<Rightarrow> fault + world" where
  "managed_obj_deinit 0 env s w = Inl Diverges"
| "managed_obj_deinit (Suc depth) env s w =
     (if Arena \<notin> held w s then Inl Undefined_behaviour
      else andthen (managed_obj_collect env s (destroy_roots s w)) (\<lambda>w1.
           andthen (source_deinit (managed_obj_deinit depth env Global) s w1) (\<lambda>w2.
           andthen (destroy_all s [Ap, Pool, Fmt, Chain, Arena] w2) (\<lambda>w3.
             Inr (zero_state s w3)))))"

section \<open>The protocol of the MPS\<close>

text \<open>What has to be alive for a resource to be created, and cannot be destroyed before it.\<close>

fun needs :: "resource \<Rightarrow> resource set" where
  "needs Arena = {}"
| "needs Pool = {Arena, Fmt}"
| "needs Buckets_pool = {Arena, Fmt}"
| "needs Ap = {Pool}"
| "needs Strong_ap = {Buckets_pool}"
| "needs Weak_ap = {Buckets_pool}"
| "needs Stack_root = {Arena, Thread}"
| "needs _ = {Arena}"

fun protocol :: "(state_id \<times> resource) set \<Rightarrow> event list \<Rightarrow> (state_id \<times> resource) set option" where
  "protocol L [] = Some L"
| "protocol L (Create s r # es) =
     (if (s, r) \<notin> L \<and> (\<forall>q \<in> needs r. (s, q) \<in> L) then protocol (insert (s, r) L) es else None)"
| "protocol L (Destroy s r # es) =
     (if (s, r) \<in> L \<and> \<not> (\<exists>(s', q) \<in> L. s' = s \<and> r \<in> needs q) then protocol (L - {(s, r)}) es else None)"

definition live :: "world \<Rightarrow> (state_id \<times> resource) set" where
  "live w = {(s, r). r \<in> held w s}"

definition in_protocol :: "world \<Rightarrow> bool" where
  "in_protocol w \<longleftrightarrow> protocol {} (events w) = Some (live w)"

lemma protocol_append:
  "protocol L (es @ fs) = (case protocol L es of None \<Rightarrow> None | Some L' \<Rightarrow> protocol L' fs)"
  by (induction L es rule: protocol.induct) auto

lemma created_protocol:
  "in_protocol w \<Longrightarrow> r \<notin> held w s \<Longrightarrow> needs r \<subseteq> held w s \<Longrightarrow> in_protocol (created s r w)"
  by (auto simp: in_protocol_def protocol_append created_def live_def split: if_splits)

lemma destroyed_protocol:
  "in_protocol w \<Longrightarrow> r \<in> held w s \<Longrightarrow> \<forall>q \<in> held w s. r \<notin> needs q \<Longrightarrow> in_protocol (destroyed s r w)"
  by (auto simp: in_protocol_def protocol_append destroyed_def live_def split: if_splits)

text \<open>Everything but the resources.\<close>

definition rest :: "world \<Rightarrow> nat \<times> addr \<times> addr \<times> (state_id \<Rightarrow> obj_state) \<times> obj_heap" where
  "rest w = (init_flag w, ids_unused w, ids_deleted w, states w, mem w)"

lemma rest_created [simp]: "rest (created s r w) = rest w" "rest (destroyed s r w) = rest w"
  by (simp_all add: rest_def created_def destroyed_def)

lemma held_created [simp]:
  "held (created s r w) = (held w)(s := insert r (held w s))"
  "held (destroyed s r w) = (held w)(s := held w s - {r})"
  by (simp_all add: created_def destroyed_def)

lemma in_protocol_cong: "events w' = events w \<Longrightarrow> held w' = held w \<Longrightarrow> in_protocol w' = in_protocol w"
  by (simp add: in_protocol_def live_def)

section \<open>Sequences of creations and destructions\<close>

lemma create_all_eq:
  "create_all env s rs w =
    (if \<forall>r \<in> set rs. answer env s r = 0 then Inr (fold (created s) rs w) else Inl Fatal_error)"
  by (induction rs arbitrary: w) (auto simp: create_def)

lemma fold_created_rest [simp]: "rest (fold (created s) rs w) = rest w"
  by (induction rs arbitrary: w) auto

lemma fold_created_held: "held (fold (created s) rs w) = (held w)(s := set rs \<union> held w s)"
  by (induction rs arbitrary: w) (auto simp: fun_eq_iff)

fun can_create :: "resource set \<Rightarrow> resource list \<Rightarrow> bool" where
  "can_create H [] = True"
| "can_create H (r # rs) = (r \<notin> H \<and> needs r \<subseteq> H \<and> can_create (insert r H) rs)"

lemma fold_created_protocol:
  "in_protocol w \<Longrightarrow> can_create (held w s) rs \<Longrightarrow> in_protocol (fold (created s) rs w)"
proof (induction rs arbitrary: w)
  case (Cons r rs)
  then have "in_protocol (created s r w)" "can_create (held (created s r w) s) rs"
    by (simp_all add: created_protocol)
  with Cons.IH show ?case by simp
qed simp

fun can_destroy :: "resource set \<Rightarrow> resource list \<Rightarrow> bool" where
  "can_destroy H [] = True"
| "can_destroy H (r # rs) = (r \<in> H \<and> (\<forall>q \<in> H. r \<notin> needs q) \<and> can_destroy (H - {r}) rs)"

lemma destroy_all_ok:
  "in_protocol w \<Longrightarrow> can_destroy (held w s) rs \<Longrightarrow>
    \<exists>w'. destroy_all s rs w = Inr w' \<and> in_protocol w' \<and> rest w' = rest w \<and>
      held w' = (held w)(s := held w s - set rs)"
proof (induction rs arbitrary: w)
  case (Cons r rs)
  then have "in_protocol (destroyed s r w)" "can_destroy (held (destroyed s r w) s) rs"
    by (simp_all add: destroyed_protocol)
  from Cons.IH [OF this] Cons.prems(2) show ?case
    by (auto simp: destroy_def fun_eq_iff)
qed auto

definition base :: "resource set" where
  "base = {Arena, Fmt, Chain, Pool, Ap}"

definition full :: "resource set" where
  "full = base \<union> {Buckets_pool, Strong_ap, Weak_ap}"

text \<open>The resources of an initialized state.\<close>

definition whole :: "resource set \<Rightarrow> bool" where
  "whole H \<longleftrightarrow> full \<subseteq> H \<and> (Stack_root \<in> H \<longrightarrow> Thread \<in> H)"

lemma whole_minus: "whole H \<Longrightarrow> H - {User_root, Stack_root, Thread} = full"
proof -
  have "r \<in> full \<longleftrightarrow> r \<notin> {User_root, Stack_root, Thread}" for r
    by (cases r) (simp_all add: full_def base_def)
  then show "whole H \<Longrightarrow> H - {User_root, Stack_root, Thread} = full"
    unfolding whole_def by blast
qed

lemma destroy_if_protocol:
  "in_protocol w \<Longrightarrow> \<forall>q \<in> held w s. r \<notin> needs q \<Longrightarrow>
    in_protocol (destroy_if s r w) \<and> rest (destroy_if s r w) = rest w \<and>
    held (destroy_if s r w) = (held w)(s := held w s - {r})"
  by (auto simp: destroy_if_def destroyed_protocol fun_eq_iff)

lemma needs_root: "User_root \<notin> needs q" "Stack_root \<notin> needs q" "Thread \<in> needs q \<longleftrightarrow> q = Stack_root"
  by (cases q; simp)+

lemma destroy_roots_ok:
  assumes "in_protocol w" and "whole (held w s)"
  shows "in_protocol (destroy_roots s w) \<and> rest (destroy_roots s w) = rest w \<and>
    held (destroy_roots s w) = (held w)(s := full)"
proof -
  let ?w1 = "destroy_if s User_root w" and ?w2 = "destroy_if s Stack_root (destroy_if s User_root w)"
  have 1: "in_protocol ?w1 \<and> rest ?w1 = rest w \<and> held ?w1 = (held w)(s := held w s - {User_root})"
    by (rule destroy_if_protocol) (simp_all add: assms(1) needs_root)
  have "in_protocol ?w2 \<and> rest ?w2 = rest ?w1 \<and> held ?w2 = (held ?w1)(s := held ?w1 s - {Stack_root})"
    by (rule destroy_if_protocol) (simp_all add: 1 needs_root)
  with 1 have 2: "in_protocol ?w2 \<and> rest ?w2 = rest w \<and> held ?w2 = (held w)(s := held w s - {User_root} - {Stack_root})"
    by simp
  have "in_protocol (destroy_if s Thread ?w2) \<and> rest (destroy_if s Thread ?w2) = rest ?w2 \<and>
    held (destroy_if s Thread ?w2) = (held ?w2)(s := held ?w2 s - {Thread})"
    by (rule destroy_if_protocol) (simp_all add: 2 needs_root)
  moreover have "held w s - {User_root} - {Stack_root} - {Thread} = full"
    using whole_minus [OF assms(2)] by blast
  ultimately show ?thesis using 2 by (simp add: destroy_roots_def)
qed

section \<open>Initialization and deinitialization of one state\<close>

text \<open>
  The global flag is 0 or 2 between calls, with the global state complete exactly in the second
  case; every other state is complete or holds nothing.
\<close>

definition global_ok :: "world \<Rightarrow> bool" where
  "global_ok w \<longleftrightarrow> (init_flag w = 2 \<and> whole (held w Global)) \<or>
     (init_flag w = 0 \<and> held w Global = {} \<and> ids_unused w = 0 \<and> ids_deleted w = 0)"

definition lifecycle_inv :: "world \<Rightarrow> bool" where
  "lifecycle_inv w \<longleftrightarrow> in_protocol w \<and> global_ok w \<and> (\<forall>n. held w (User n) = {} \<or> whole (held w (User n)))"

definition quiet_messages :: "outside \<Rightarrow> world \<Rightarrow> bool" where
  "quiet_messages env w \<longleftrightarrow> tame (callbacks_of env) \<and> (\<forall>s. \<forall>a \<in> set (finalized (messages env s)). fin_ready (mem w) a)"

lemma collect_ok:
  assumes "quiet_messages env w"
  shows "\<exists>w'. managed_obj_collect env s w = Inr w' \<and> quiet_messages env w' \<and> held w' = held w \<and>
    events w' = events w \<and> init_flag w' = init_flag w \<and> ids_unused w' = ids_unused w \<and> ids_deleted w' = ids_deleted w"
proof -
  have "tame (callbacks_of env)" "\<forall>a \<in> set (finalized (messages env s)). fin_ready (mem w) a"
    using assms by (simp_all add: quiet_messages_def)
  from chat_outcome [OF this, of "states w s" "[]"] obtain st' where
    "managed_obj_mps_chat (callbacks_of env) (messages env s) (states w s, mem w, []) =
      Inr (st', cleared (set (finalized (messages env s))) (mem w),
        map (call_of (mem w)) (filter (due (mem w)) (firsts (finalized (messages env s)))))"
    by auto
  then show ?thesis using assms by (simp add: managed_obj_collect_def quiet_messages_def)
qed

lemma can_destroy_meta: "can_destroy full [Weak_ap, Strong_ap, Buckets_pool]"
  by (auto simp: full_def base_def)

lemma can_destroy_base: "can_destroy base [Ap, Pool, Fmt, Chain, Arena]"
  by (auto simp: base_def)

lemma full_minus: "full - {Weak_ap, Strong_ap, Buckets_pool} = base" "base - {Ap, Pool, Fmt, Chain, Arena} = {}"
  by (auto simp: full_def base_def)

lemma quiet_cong: "mem w' = mem w \<Longrightarrow> quiet_messages env w' = quiet_messages env w"
  by (simp add: quiet_messages_def)

text \<open>The end of a deinitialization, when the global state is not to be torn down.\<close>

lemma deinit_tail:
  assumes "in_protocol w" and "held w s = full"
  shows "\<exists>w'. andthen (destroy_all s [Weak_ap, Strong_ap, Buckets_pool] w) (\<lambda>w2.
      andthen (destroy_all s [Ap, Pool, Fmt, Chain, Arena] w2) (\<lambda>w3. Inr (zero_state s w3))) = Inr w' \<and>
    in_protocol w' \<and> held w' = (held w)(s := {}) \<and> init_flag w' = init_flag w \<and>
    ids_unused w' = ids_unused w \<and> ids_deleted w' = ids_deleted w \<and> mem w' = mem w"
proof -
  from destroy_all_ok [OF assms(1), of s "[Weak_ap, Strong_ap, Buckets_pool]"] assms(2) can_destroy_meta
  obtain w2 where w2: "destroy_all s [Weak_ap, Strong_ap, Buckets_pool] w = Inr w2" "in_protocol w2"
    "rest w2 = rest w" "held w2 = (held w)(s := base)"
    by (auto simp: full_minus)
  from destroy_all_ok [OF w2(2), of s "[Ap, Pool, Fmt, Chain, Arena]"] w2(4) can_destroy_base
  obtain w3 where w3: "destroy_all s [Ap, Pool, Fmt, Chain, Arena] w2 = Inr w3" "in_protocol w3"
    "rest w3 = rest w2" "held w3 = (held w)(s := {})"
    by (auto simp: full_minus)
  have "in_protocol (zero_state s w3)"
    using w3(2,4) by (subst in_protocol_cong [of _ w3]) (auto simp: zero_state_def)
  then show ?thesis using w2(1,3) w3(1,3,4) by (auto simp: zero_state_def rest_def)
qed

text \<open>Deinitializing a state while the flag is not 2.\<close>

lemma deinit_leaf:
  assumes "in_protocol w" and "whole (held w s)" and "init_flag w \<noteq> 2" and "quiet_messages env w"
  shows "\<exists>w'. managed_obj_deinit (Suc d) env s w = Inr w' \<and> in_protocol w' \<and> held w' = (held w)(s := {}) \<and>
    init_flag w' = init_flag w \<and> ids_unused w' = ids_unused w \<and> ids_deleted w' = ids_deleted w"
proof -
  note roots = destroy_roots_ok [OF assms(1,2)]
  have "quiet_messages env (destroy_roots s w)"
    using roots assms(4) by (subst quiet_cong [of _ w]) (auto simp: rest_def)
  from collect_ok [OF this, of s] obtain w1 where w1: "managed_obj_collect env s (destroy_roots s w) = Inr w1"
    "held w1 = (held w)(s := full)" "events w1 = events (destroy_roots s w)" "init_flag w1 = init_flag w"
    "ids_unused w1 = ids_unused w" "ids_deleted w1 = ids_deleted w"
    using roots by (auto simp: rest_def)
  have "in_protocol w1" using roots w1(2,3) by (subst in_protocol_cong [of _ "destroy_roots s w"]) simp_all
  from deinit_tail [OF this, of s] w1 assms(2,3) show ?thesis
    by (auto simp: source_deinit_def whole_def full_def base_def)
qed

text \<open>Deinitializing a state of a program, global state included.\<close>

lemma deinit_outcome:
  assumes "lifecycle_inv w" and "held w (User n) \<noteq> {}" and "quiet_messages env w"
  shows "\<exists>w'. managed_obj_deinit (Suc (Suc d)) env (User n) w = Inr w' \<and> in_protocol w' \<and>
    held w' = (held w)(User n := {}, Global := {}) \<and> init_flag w' = 0 \<and> ids_unused w' = 0 \<and> ids_deleted w' = 0"
proof (cases "init_flag w = 2")
  case False
  with assms have "in_protocol w" "whole (held w (User n))" by (auto simp: lifecycle_inv_def)
  from deinit_leaf [OF this False assms(3), of "Suc d"] False assms(1) show ?thesis
    by (auto simp: lifecycle_inv_def global_ok_def fun_eq_iff simp del: managed_obj_deinit.simps)
next
  case True
  have inv: "in_protocol w" "whole (held w (User n))" "whole (held w Global)"
    using assms True by (auto simp: lifecycle_inv_def global_ok_def)
  note roots = destroy_roots_ok [OF inv(1,2)]
  have "quiet_messages env (destroy_roots (User n) w)"
    using roots assms(3) by (subst quiet_cong [of _ w]) (auto simp: rest_def)
  from collect_ok [OF this, of "User n"] obtain w1 where
    w1: "managed_obj_collect env (User n) (destroy_roots (User n) w) = Inr w1"
    "held w1 = (held w)(User n := full)" "events w1 = events (destroy_roots (User n) w)" "init_flag w1 = 2"
    "quiet_messages env w1"
    using roots True by (auto simp: rest_def)
  let ?w2 = "w1\<lparr>init_flag := 0, ids_unused := 0, ids_deleted := 0\<rparr>"
  have "in_protocol ?w2"
    using roots w1(2,3) by (subst in_protocol_cong [of _ "destroy_roots (User n) w"]) simp_all
  moreover have "whole (held ?w2 Global)" using w1(2) inv(3) by simp
  moreover have "quiet_messages env ?w2" using w1(5) by (simp add: quiet_messages_def)
  ultimately obtain w3 where w3: "managed_obj_deinit (Suc d) env Global ?w2 = Inr w3" "in_protocol w3"
    "held w3 = (held w)(User n := full, Global := {})" "init_flag w3 = 0" "ids_unused w3 = 0" "ids_deleted w3 = 0"
    using deinit_leaf [of ?w2 Global env d] w1(2) by auto
  have full: "held w3 (User n) = full" using w3(3) by simp
  have "Arena \<in> held w (User n)" using inv(2) by (auto simp: whole_def full_def base_def)
  then show ?thesis
    using deinit_tail [OF w3(2) full] w1(1,4) w3(1,3-6) by (auto simp: source_deinit_def fun_eq_iff)
qed

definition all_created :: "outside \<Rightarrow> state_id \<Rightarrow> resource set \<Rightarrow> bool" where
  "all_created env s R \<longleftrightarrow> (\<forall>r \<in> R. answer env s r = 0)"

text \<open>The nested call that initializes the global state.\<close>

lemma init_global_outcome:
  assumes "in_protocol w" and "init_flag w = 1" and "held w Global = {}"
  shows "if all_created env Global (insert User_root full)
    then \<exists>w'. managed_obj_init_with_user_memory (Suc d) env Ids_memory (Some Global) w = Inr w' \<and>
      in_protocol w' \<and> held w' = (held w)(Global := insert User_root full) \<and> init_flag w' = 2
    else managed_obj_init_with_user_memory (Suc d) env Ids_memory (Some Global) w = Inl Fatal_error"
proof -
  define w1 where "w1 = created Global Arena (zero_state Global (w\<lparr>init_flag := 2\<rparr>))"
  define w2 where "w2 = created Global User_root (w1\<lparr>ids_unused := 0, ids_deleted := 0\<rparr>)"
  have "in_protocol (zero_state Global (w\<lparr>init_flag := 2\<rparr>))"
    using assms(1,3) by (subst in_protocol_cong [of _ w]) (auto simp: zero_state_def fun_upd_idem)
  then have p1: "in_protocol w1" unfolding w1_def
    by (rule created_protocol) (simp_all add: zero_state_def)
  have h1: "held w1 = (held w)(Global := {Arena})" by (simp add: w1_def zero_state_def)
  have "in_protocol (w1\<lparr>ids_unused := 0, ids_deleted := 0\<rparr>)" using p1
    by (subst in_protocol_cong [of _ w1]) simp_all
  then have p2: "in_protocol w2" unfolding w2_def
    by (rule created_protocol) (simp_all add: h1)
  have h2: "held w2 = (held w)(Global := {Arena, User_root})" by (simp add: w2_def h1 insert_commute)
  have f2: "init_flag w2 = 2" by (simp add: w2_def w1_def created_def zero_state_def)
  let ?rs = "[Fmt, Chain, Pool, Ap, Buckets_pool, Strong_ap, Weak_ap]"
  have "can_create (held w2 Global) ?rs" by (simp add: h2)
  then have p3: "in_protocol (fold (created Global) ?rs w2)" by (rule fold_created_protocol [OF p2])
  have "init_flag (fold (created Global) [Fmt, Chain, Pool, Ap] w2) = 2"
    using fold_created_rest [of Global "[Fmt, Chain, Pool, Ap]" w2] f2 by (simp only: rest_def) simp
  moreover have "init_flag (fold (created Global) ?rs w2) = 2"
    using fold_created_rest [of Global ?rs w2] f2 by (simp only: rest_def) simp
  moreover have "held (fold (created Global) ?rs w2) = (held w)(Global := insert User_root full)"
    by (simp only: fold_created_held) (simp add: h2 full_def base_def insert_commute)
  ultimately show ?thesis
    using p3 assms(2)
    by (auto simp: all_created_def full_def base_def source_preinit_def create_def user_root_def
        create_all_eq source_init_def w1_def [symmetric] w2_def [symmetric])
qed

text \<open>Making a marker object changes the global state's counters and the heap.\<close>

lemma make_marker_cases:
  "(case reserve_commit attempts of
      Inl f \<Rightarrow> make_marker attempts w = Inl f
    | Inr a \<Rightarrow> \<exists>st h. make_marker attempts w = Inr (a, w\<lparr>states := (states w)(Global := st), mem := h\<rparr>))"
  by (cases "reserve_commit attempts") (auto simp: make_marker_def managed_obj_make_empty_def)

text \<open>The last part of an initialization, global state included.\<close>

definition meta :: "resource list" where
  "meta = [Buckets_pool, Strong_ap, Weak_ap]"

lemma meta_up:
  assumes "in_protocol w" and "base \<subseteq> held w s" and "set meta \<inter> held w s = {}"
  shows "if all_created env s (set meta)
    then \<exists>w'. create_all env s meta w = Inr w' \<and> in_protocol w' \<and> rest w' = rest w \<and>
      held w' = (held w)(s := set meta \<union> held w s)
    else create_all env s meta w = Inl Fatal_error"
proof -
  have "can_create (held w s) meta" using assms(2,3) by (auto simp: meta_def base_def)
  with assms(1) have "in_protocol (fold (created s) meta w)" by (rule fold_created_protocol)
  then show ?thesis by (simp add: create_all_eq all_created_def fold_created_held)
qed

definition markers_made :: "outside \<Rightarrow> world \<Rightarrow> bool" where
  "markers_made env w' \<longleftrightarrow> reserve_commit (unused_attempts env) = Inr (ids_unused w') \<and>
     reserve_commit (deleted_attempts env) = Inr (ids_deleted w')"

lemma markers_outcome:
  assumes "in_protocol w"
  shows "(\<exists>w'. andthen (make_marker (unused_attempts env) w) (\<lambda>(a, w2).
       andthen (make_marker (deleted_attempts env) (w2\<lparr>ids_unused := a\<rparr>)) (\<lambda>(b, w3).
         Inr (w3\<lparr>ids_deleted := b\<rparr>))) = Inr w' \<and>
       in_protocol w' \<and> held w' = held w \<and> init_flag w' = init_flag w \<and> markers_made env w') \<or>
    (\<exists>f \<in> {Fatal_error, Diverges}. andthen (make_marker (unused_attempts env) w) (\<lambda>(a, w2).
       andthen (make_marker (deleted_attempts env) (w2\<lparr>ids_unused := a\<rparr>)) (\<lambda>(b, w3).
         Inr (w3\<lparr>ids_deleted := b\<rparr>))) = Inl f \<and>
       (reserve_commit (unused_attempts env) = Inl f \<or> reserve_commit (deleted_attempts env) = Inl f))"
proof (cases "reserve_commit (unused_attempts env)")
  case (Inl f)
  then show ?thesis using make_marker_cases [of "unused_attempts env" w] reserve_commit_faults [OF Inl] by auto
next
  case (Inr a)
  with make_marker_cases [of "unused_attempts env" w] obtain st h where
    1: "make_marker (unused_attempts env) w = Inr (a, w\<lparr>states := (states w)(Global := st), mem := h\<rparr>)" by auto
  let ?w2 = "w\<lparr>states := (states w)(Global := st), mem := h, ids_unused := a\<rparr>"
  show ?thesis
  proof (cases "reserve_commit (deleted_attempts env)")
    case (Inl f)
    then show ?thesis
      using 1 make_marker_cases [of "deleted_attempts env" ?w2] reserve_commit_faults [OF Inl] by auto
  next
    case b: (Inr b)
    with make_marker_cases [of "deleted_attempts env" ?w2] obtain st' h' where
      2: "make_marker (deleted_attempts env) ?w2 = Inr (b, ?w2\<lparr>states := (states ?w2)(Global := st'), mem := h'\<rparr>)"
      by auto
    have "in_protocol (?w2\<lparr>states := (states ?w2)(Global := st'), mem := h', ids_deleted := b\<rparr>)"
      using assms by (subst in_protocol_cong [of _ w]) simp_all
    then show ?thesis using 1 2 Inr b by (simp add: markers_made_def)
  qed
qed

text \<open>The answers that let the global state be initialized.\<close>

definition global_granted :: "outside \<Rightarrow> bool" where
  "global_granted env \<longleftrightarrow> all_created env Global (insert User_root full) \<and>
     (\<exists>a b. reserve_commit (unused_attempts env) = Inr a \<and> reserve_commit (deleted_attempts env) = Inr b)"

lemma source_init_outcome:
  assumes "in_protocol w" and "global_ok w" and "base \<subseteq> held w (User n)" and "set meta \<inter> held w (User n) = {}"
  shows "(\<exists>w'. source_init (managed_obj_init_with_user_memory (Suc d) env Ids_memory (Some Global)) env (User n) w = Inr w' \<and>
      in_protocol w' \<and> global_ok w' \<and> init_flag w' = 2 \<and> held w' (User n) = set meta \<union> held w (User n) \<and>
      (\<forall>m. m \<noteq> n \<longrightarrow> held w' (User m) = held w (User m)) \<and>
      (if init_flag w = 2 then rest w' = rest w else markers_made env w')) \<or>
    (\<exists>f \<in> {Fatal_error, Diverges}.
      source_init (managed_obj_init_with_user_memory (Suc d) env Ids_memory (Some Global)) env (User n) w = Inl f \<and>
      \<not> (all_created env (User n) (set meta) \<and> global_granted env))"
proof (cases "init_flag w = 2")
  case True
  then show ?thesis
    using meta_up [OF assms(1,3,4), of env] assms(2)
    by (auto simp: source_init_def meta_def [symmetric] global_ok_def rest_def split: if_splits)
next
  case False
  with assms(2) have flag: "init_flag w = 0" "held w Global = {}" by (auto simp: global_ok_def)
  let ?init = "managed_obj_init_with_user_memory (Suc d) env Ids_memory (Some Global) (w\<lparr>init_flag := 1\<rparr>)"
  have "in_protocol (w\<lparr>init_flag := 1\<rparr>)" using assms(1) by (subst in_protocol_cong [of _ w]) simp_all
  note init = init_global_outcome [OF this, of env d]
  show ?thesis
  proof (cases "all_created env Global (insert User_root full)")
    case False
    with init flag have "?init = Inl Fatal_error" by (simp del: managed_obj_init_with_user_memory.simps)
    with flag False show ?thesis
      by (simp add: source_init_def global_granted_def del: managed_obj_init_with_user_memory.simps)
  next
    case True
    with init flag obtain w1 where w1: "?init = Inr w1" "in_protocol w1"
      "held w1 = (held w)(Global := insert User_root full)" "init_flag w1 = 2"
      by (auto simp del: managed_obj_init_with_user_memory.simps)
    let ?markers = "andthen (make_marker (unused_attempts env) w1) (\<lambda>(a, w2).
       andthen (make_marker (deleted_attempts env) (w2\<lparr>ids_unused := a\<rparr>)) (\<lambda>(b, w3).
         Inr (w3\<lparr>ids_deleted := b\<rparr>)))"
    have eq: "source_init (managed_obj_init_with_user_memory (Suc d) env Ids_memory (Some Global)) env (User n) w =
      andthen ?markers (\<lambda>w4. create_all env (User n) meta w4)"
      using flag w1(1) by (simp add: source_init_def meta_def del: managed_obj_init_with_user_memory.simps create_all.simps)
    from markers_outcome [OF w1(2), of env]
    consider w4 where "?markers = Inr w4" "in_protocol w4" "held w4 = held w1" "init_flag w4 = init_flag w1"
        "markers_made env w4"
      | f where "f \<in> {Fatal_error, Diverges}" "?markers = Inl f"
        "reserve_commit (unused_attempts env) = Inl f \<or> reserve_commit (deleted_attempts env) = Inl f"
      by blast
    then show ?thesis
    proof cases
      case (1 w4)
      have user: "base \<subseteq> held w4 (User n)" "set meta \<inter> held w4 (User n) = {}"
        using w1(3) 1(3) assms(3,4) by auto
      have "whole (insert User_root full)" by (auto simp: whole_def full_def base_def)
      with meta_up [OF 1(2) user, of env] show ?thesis
        using w1(3,4) 1 flag unfolding eq
        by (auto simp: global_ok_def rest_def markers_made_def split: if_splits)
    next
      case (2 f)
      then show ?thesis unfolding eq by (auto simp: global_granted_def)
    qed
  qed
qed

text \<open>From the base resources on, both functions go on in the same way.\<close>

lemma init_finish:
  assumes "lifecycle_inv w" and "in_protocol w2" and "rest w2 = rest (zero_state (User n) w)"
    and "held w2 = (held w)(User n := H)" and "base \<subseteq> H" and "set meta \<inter> H = {}"
    and "Stack_root \<in> H \<longrightarrow> Thread \<in> H"
  shows "(\<exists>w'. source_init (managed_obj_init_with_user_memory (Suc d) env Ids_memory (Some Global)) env (User n) w2 = Inr w' \<and>
      lifecycle_inv w' \<and> init_flag w' = 2 \<and> held w' (User n) = set meta \<union> H \<and>
      (\<forall>m. m \<noteq> n \<longrightarrow> held w' (User m) = held w (User m)) \<and>
      (if init_flag w = 2 then ids_unused w' = ids_unused w \<and> ids_deleted w' = ids_deleted w
       else markers_made env w')) \<or>
    (\<exists>f \<in> {Fatal_error, Diverges}.
      source_init (managed_obj_init_with_user_memory (Suc d) env Ids_memory (Some Global)) env (User n) w2 = Inl f \<and>
      \<not> (all_created env (User n) (set meta) \<and> global_granted env))"
proof -
  have flags: "init_flag w2 = init_flag w" "ids_unused w2 = ids_unused w" "ids_deleted w2 = ids_deleted w"
    using assms(3) by (simp_all add: rest_def zero_state_def)
  then have "global_ok w2" using assms(1,4) by (simp add: lifecycle_inv_def global_ok_def)
  have user: "base \<subseteq> held w2 (User n)" "set meta \<inter> held w2 (User n) = {}" using assms(4-6) by simp_all
  have "whole (set meta \<union> H)" using assms(5,7) by (auto simp: whole_def full_def meta_def)
  let ?r = "source_init (managed_obj_init_with_user_memory (Suc d) env Ids_memory (Some Global)) env (User n) w2"
  note out = source_init_outcome [OF assms(2) \<open>global_ok w2\<close> user, of d env]
  consider (ok) w' where "?r = Inr w'" "in_protocol w'" "global_ok w'" "init_flag w' = 2"
      "held w' (User n) = set meta \<union> held w2 (User n)"
      "\<forall>m. m \<noteq> n \<longrightarrow> held w' (User m) = held w2 (User m)"
      "if init_flag w2 = 2 then rest w' = rest w2 else markers_made env w'"
    | (fault) f where "f \<in> {Fatal_error, Diverges}" "?r = Inl f"
      "\<not> (all_created env (User n) (set meta) \<and> global_granted env)"
    using out by blast
  then show ?thesis
  proof cases
    case ok
    have "held w' (User m) = {} \<or> whole (held w' (User m))" for m
      using ok(5,6) assms(1,4) \<open>whole (set meta \<union> H)\<close>
      by (cases "m = n") (simp_all add: lifecycle_inv_def)
    then have "lifecycle_inv w'" using ok(2,3) by (simp add: lifecycle_inv_def)
    moreover have "if init_flag w = 2 then ids_unused w' = ids_unused w \<and> ids_deleted w' = ids_deleted w
       else markers_made env w'"
      using ok(7) flags by (simp add: rest_def split: if_splits)
    ultimately show ?thesis using ok(1,4-6) assms(4) by (intro disjI1 exI [of _ w']) simp
  qed blast
qed

lemma zero_state_protocol:
  "in_protocol w \<Longrightarrow> held w s = {} \<Longrightarrow> in_protocol (zero_state s w) \<and> held (zero_state s w) = held w"
  by (subst in_protocol_cong [of _ w]) (auto simp: zero_state_def fun_upd_idem)

lemma init_outcome:
  assumes "lifecycle_inv w" and "held w (User n) = {}"
  shows "(\<exists>w'. managed_obj_init env (Some (User n)) w = Inr w' \<and> lifecycle_inv w' \<and> init_flag w' = 2 \<and>
      held w' (User n) = full \<union> (if answer env (User n) Stack_root = 0 then {Thread, Stack_root} else {Thread}) \<and>
      (\<forall>m. m \<noteq> n \<longrightarrow> held w' (User m) = held w (User m)) \<and>
      (if init_flag w = 2 then ids_unused w' = ids_unused w \<and> ids_deleted w' = ids_deleted w
       else markers_made env w')) \<or>
    (\<exists>f \<in> {Fatal_error, Diverges}. managed_obj_init env (Some (User n)) w = Inl f \<and>
      \<not> (all_created env (User n) (insert Thread full) \<and> stack_base_found env \<and> global_granted env))"
proof (cases "all_created env (User n) (insert Thread base) \<and> stack_base_found env")
  case False
  then have "managed_obj_init env (Some (User n)) w = Inl Fatal_error"
    by (auto simp: managed_obj_init_def source_preinit_def create_all_eq all_created_def base_def
        simp del: managed_obj_init_with_user_memory.simps)
  moreover have "\<not> (all_created env (User n) (insert Thread full) \<and> stack_base_found env)"
    using False by (auto simp: all_created_def full_def)
  ultimately show ?thesis by blast
next
  case True
  let ?rs = "[Arena, Fmt, Chain, Pool, Ap, Thread]"
  let ?H = "base \<union> (if answer env (User n) Stack_root = 0 then {Thread, Stack_root} else {Thread})"
  let ?w1 = "fold (created (User n)) ?rs (zero_state (User n) w)"
  have z: "in_protocol (zero_state (User n) w)" "held (zero_state (User n) w) = held w"
    using zero_state_protocol assms by (auto simp: lifecycle_inv_def)
  have "can_create (held (zero_state (User n) w) (User n)) ?rs" by (simp add: z(2) assms(2))
  then have w1: "in_protocol ?w1" by (rule fold_created_protocol [OF z(1)])
  have h1: "held ?w1 = (held w)(User n := insert Thread base)"
    by (simp only: fold_created_held z(2) assms(2)) (simp add: base_def insert_commute)
  have w2: "in_protocol (create_stack_root env (User n) ?w1)"
    unfolding create_stack_root_def
    using w1 created_protocol [OF w1, of Stack_root "User n"] h1 by (simp add: base_def del: fold.simps)
  have h2: "held (create_stack_root env (User n) ?w1) = (held w)(User n := ?H)"
    using h1 by (simp add: create_stack_root_def insert_commute del: fold.simps)
  have r2: "rest (create_stack_root env (User n) ?w1) = rest (zero_state (User n) w)"
    using fold_created_rest [of "User n" ?rs] by (simp add: create_stack_root_def del: fold.simps)
  have eq: "managed_obj_init env (Some (User n)) w =
    source_init (managed_obj_init_with_user_memory 2 env Ids_memory (Some Global)) env (User n)
      (create_stack_root env (User n) ?w1)"
    using True
    by (simp add: managed_obj_init_def source_preinit_def create_all_eq all_created_def base_def
        del: managed_obj_init_with_user_memory.simps fold.simps)
  have H: "base \<subseteq> ?H" "set meta \<inter> ?H = {}" "Stack_root \<in> ?H \<longrightarrow> Thread \<in> ?H"
    "set meta \<union> ?H = full \<union> (if answer env (User n) Stack_root = 0 then {Thread, Stack_root} else {Thread})"
    by (auto simp: base_def meta_def full_def)
  have "all_created env (User n) (insert Thread full) \<Longrightarrow> all_created env (User n) (set meta)"
    by (auto simp: all_created_def full_def meta_def)
  then show ?thesis
    using init_finish [OF assms(1) w2 r2 h2 H(1-3), of 1 env] unfolding eq H(4) numeral_2_eq_2 One_nat_def
    by blast
qed

lemma init_with_user_memory_outcome:
  assumes "lifecycle_inv w" and "held w (User n) = {}" and "um \<in> {No_memory, Client_memory}"
  shows "(\<exists>w'. managed_obj_init_with_user_memory (Suc (Suc d)) env um (Some (User n)) w = Inr w' \<and>
      lifecycle_inv w' \<and> init_flag w' = 2 \<and>
      held w' (User n) = full \<union> (if um = Client_memory then {User_root} else {}) \<and>
      (\<forall>m. m \<noteq> n \<longrightarrow> held w' (User m) = held w (User m))) \<or>
    (\<exists>f \<in> {Fatal_error, Diverges}.
      managed_obj_init_with_user_memory (Suc (Suc d)) env um (Some (User n)) w = Inl f)"
proof -
  let ?s = "User n"
  let ?us = "if um = Client_memory then [User_root] else []"
  let ?w1 = "fold (created ?s) ([Arena] @ ?us @ [Fmt, Chain, Pool, Ap]) (zero_state ?s w)"
  let ?src = "source_init (managed_obj_init_with_user_memory (Suc d) env Ids_memory (Some Global)) env ?s"
  have eq: "managed_obj_init_with_user_memory (Suc (Suc d)) env um (Some ?s) w =
      (if all_created env ?s (set ([Arena] @ ?us @ [Fmt, Chain, Pool, Ap])) then ?src ?w1 else Inl Fatal_error)"
    using assms(3)
    by (subst managed_obj_init_with_user_memory.simps)
      (auto simp: source_preinit_def create_def user_root_def create_all_eq all_created_def
        simp del: managed_obj_init_with_user_memory.simps)
  have z: "in_protocol (zero_state ?s w)" "held (zero_state ?s w) = held w"
    using zero_state_protocol assms by (auto simp: lifecycle_inv_def)
  have "can_create (held (zero_state ?s w) ?s) ([Arena] @ ?us @ [Fmt, Chain, Pool, Ap])"
    by (simp add: z(2) assms(2))
  then have w1: "in_protocol ?w1" by (rule fold_created_protocol [OF z(1)])
  let ?H = "base \<union> (if um = Client_memory then {User_root} else {})"
  have h1: "held ?w1 = (held w)(?s := ?H)"
    by (simp only: fold_created_held z(2) assms(2)) (auto simp add: base_def)
  have H: "base \<subseteq> ?H" "set meta \<inter> ?H = {}" "Stack_root \<in> ?H \<longrightarrow> Thread \<in> ?H"
    "set meta \<union> ?H = full \<union> (if um = Client_memory then {User_root} else {})"
    by (auto simp: base_def meta_def full_def)
  show ?thesis
    using init_finish [OF assms(1) w1 fold_created_rest h1 H(1-3), of d env] unfolding eq H(4)
    by (cases "all_created env ?s (set ([Arena] @ ?us @ [Fmt, Chain, Pool, Ap]))")
      (simp_all only: if_True if_False, blast, blast)
qed

section \<open>All life cycles\<close>

definition start_world :: world where
  "start_world = \<lparr>init_flag = 0, ids_unused = 0, ids_deleted = 0, held = (\<lambda>_. {}),
     states = (\<lambda>_. new_state), mem = Map.empty, events = []\<rparr>"

text \<open>
  A program initializes states that hold nothing, uses them and the heap in any way, and
  deinitializes them, in any order.
\<close>

inductive lifecycle :: "world \<Rightarrow> bool" where
  start: "lifecycle start_world"
| init: "lifecycle w \<Longrightarrow> held w (User n) = {} \<Longrightarrow> managed_obj_init env (Some (User n)) w = Inr w' \<Longrightarrow>
    lifecycle w'"
| init_with_user_memory: "lifecycle w \<Longrightarrow> held w (User n) = {} \<Longrightarrow> um \<in> {No_memory, Client_memory} \<Longrightarrow>
    managed_obj_init_with_user_memory 2 env um (Some (User n)) w = Inr w' \<Longrightarrow> lifecycle w'"
| client_use: "lifecycle w \<Longrightarrow> lifecycle (w\<lparr>states := sts, mem := h\<rparr>)"
| deinit: "lifecycle w \<Longrightarrow> held w (User n) \<noteq> {} \<Longrightarrow> quiet_messages env w \<Longrightarrow>
    managed_obj_deinit 2 env (User n) w = Inr w' \<Longrightarrow> lifecycle w'"

lemma lifecycle_inv_deinit:
  assumes "lifecycle_inv w" and "held w (User n) \<noteq> {}" and "quiet_messages env w"
    and "managed_obj_deinit 2 env (User n) w = Inr w'"
  shows "lifecycle_inv w'"
  using deinit_outcome [OF assms(1-3), of 0] assms(1,4)
  by (auto simp: lifecycle_inv_def global_ok_def numeral_2_eq_2 simp del: managed_obj_deinit.simps)

lemma lifecycle_inv: "lifecycle w \<Longrightarrow> lifecycle_inv w"
proof (induction rule: lifecycle.induct)
  case start
  then show ?case by (simp add: lifecycle_inv_def start_world_def in_protocol_def live_def global_ok_def)
next
  case (init w n env w')
  then show ?case using init_outcome [OF init.IH init.hyps(2), of env] by auto
next
  case (init_with_user_memory w n um env w')
  then show ?case
    using init_with_user_memory_outcome [OF init_with_user_memory.IH init_with_user_memory.hyps(2,3), of 0 env]
    by (auto simp: numeral_2_eq_2 simp del: managed_obj_init_with_user_memory.simps)
next
  case (client_use w h sts)
  then show ?case
    by (simp add: lifecycle_inv_def global_ok_def in_protocol_cong [of "w\<lparr>states := sts, mem := h\<rparr>" w])
next
  case (deinit w n env w')
  then show ?case using lifecycle_inv_deinit by blast
qed

text \<open>
  C32: The MPS protocol is kept.  However states are initialized, used and deinitialized, no
  resource is created twice or before those it needs, and none is destroyed twice or while
  another needs it: running the protocol over everything the MPS was asked to do succeeds, and
  leaves exactly the resources whose handles the states hold.  The global metadata state is
  complete when the flag is 2, and otherwise the flag is 0, nothing of it is left, and the two
  marker ids are null.
\<close>

theorem lifecycle_keeps_protocol:
  assumes "lifecycle w"
  shows "protocol {} (events w) = Some {(s, r). r \<in> held w s} \<and>
    (init_flag w = 2 \<and> full \<subseteq> held w Global \<or>
     init_flag w = 0 \<and> held w Global = {} \<and> ids_unused w = 0 \<and> ids_deleted w = 0)"
  using lifecycle_inv [OF assms]
  by (auto simp: lifecycle_inv_def in_protocol_def live_def global_ok_def whole_def)

text \<open>
  C33: Initialization.  Initializing a state that holds nothing either succeeds with all its
  resources, other states untouched, and the marker ids those of the two objects made for them,
  or unchanged if the global state was there already; or the process dies.  It succeeds if the
  MPS grants every resource: a stack root that is refused does not matter, the state then just
  has none.
\<close>

theorem managed_obj_init_correct:
  assumes "lifecycle w" and "held w (User n) = {}"
  shows "(\<exists>w'. managed_obj_init env (Some (User n)) w = Inr w' \<and> init_flag w' = 2 \<and>
      held w' (User n) = full \<union> (if answer env (User n) Stack_root = 0 then {Thread, Stack_root} else {Thread}) \<and>
      (\<forall>m. m \<noteq> n \<longrightarrow> held w' (User m) = held w (User m)) \<and>
      (if init_flag w = 2 then ids_unused w' = ids_unused w \<and> ids_deleted w' = ids_deleted w
       else reserve_commit (unused_attempts env) = Inr (ids_unused w') \<and>
         reserve_commit (deleted_attempts env) = Inr (ids_deleted w'))) \<or>
    (\<exists>f \<in> {Fatal_error, Diverges}. managed_obj_init env (Some (User n)) w = Inl f \<and>
      \<not> (all_created env (User n) (insert Thread full) \<and> stack_base_found env \<and> global_granted env))"
  using init_outcome [OF lifecycle_inv [OF assms(1)] assms(2), of env] unfolding markers_made_def by blast

text \<open>
  C34: Deinitialization.  If the messages that are waiting can be taken (\<open>quiet_messages\<close>: each is for
  an object that is there with the words of its type, and the finalization callbacks leave the heap
  and the object counters alone), deinitializing a state never faults, destroys all that it holds and
  leaves the handles of the other states alone.  But it also tears down the global metadata
  state and clears the marker ids, whoever else still uses them: any other state is left without
  the markers that its hash tables are made of.
\<close>

theorem deinit_correct:
  assumes "lifecycle w" and "held w (User n) \<noteq> {}" and "quiet_messages env w"
  shows "\<exists>w'. managed_obj_deinit 2 env (User n) w = Inr w' \<and> held w' (User n) = {} \<and>
    (\<forall>m. m \<noteq> n \<longrightarrow> held w' (User m) = held w (User m)) \<and>
    held w' Global = {} \<and> init_flag w' = 0 \<and> ids_unused w' = 0 \<and> ids_deleted w' = 0"
  using deinit_outcome [OF lifecycle_inv [OF assms(1)] assms(2,3), of 0]
  by (auto simp: numeral_2_eq_2 simp del: managed_obj_deinit.simps)

section \<open>A program\<close>

text \<open>An outside that grants everything but the stack root, and two states.\<close>

definition granting :: outside where
  "granting = \<lparr>answer = (\<lambda>s r. if r = Stack_root then 1 else 0), stack_base_found = True,
     unused_attempts = [(Some 64, True)], deleted_attempts = [(Some 96, False), (Some 128, True)],
     messages = (\<lambda>_. [Gc_start]), callbacks_of = quiet\<rparr>"

lemma granting_granted:
  "all_created granting (User n) (insert Thread full)" "stack_base_found granting" "global_granted granting"
  by (auto simp: granting_def all_created_def full_def base_def global_granted_def)

lemma granting_quiet: "quiet_messages granting w"
  by (simp add: quiet_messages_def granting_def tame_quiet)

lemma granting_init:
  assumes "lifecycle w" and "held w (User n) = {}"
  shows "\<exists>w'. managed_obj_init granting (Some (User n)) w = Inr w' \<and> lifecycle w' \<and>
    held w' (User n) = insert Thread full \<and> (\<forall>m. m \<noteq> n \<longrightarrow> held w' (User m) = held w (User m)) \<and> init_flag w' = 2"
  using init_outcome [OF lifecycle_inv [OF assms(1)] assms(2), of granting] granting_granted(1) [of n] granting_granted(2,3)
    lifecycle.init [OF assms, of granting]
  by (auto simp: granting_def)

lemma two_states:
  "\<exists>w. lifecycle w \<and> held w (User 0) = insert Thread full \<and> held w (User 1) = insert Thread full \<and> init_flag w = 2"
proof -
  have "held start_world (User 0) = {}" by (simp add: start_world_def)
  from granting_init [OF lifecycle.start this] obtain w where w: "lifecycle w"
    "held w (User 0) = insert Thread full" "held w (User 1) = {}"
    by (auto simp: start_world_def)
  from granting_init [OF w(1,3)] w(2) show ?thesis by (metis zero_neq_one)
qed

theorem lifecycle_keeps_protocol_witness:
  "\<exists>w. lifecycle w \<and> init_flag w = 2 \<and> full \<subseteq> held w Global \<and>
     protocol {} (events w) = Some {(s, r). r \<in> held w s}"
proof -
  obtain w where "lifecycle w" "init_flag w = 2" using two_states by blast
  then show ?thesis using lifecycle_keeps_protocol [of w] by auto
qed

theorem managed_obj_init_correct_witness:
  "\<exists>w. managed_obj_init granting (Some (User 0)) start_world = Inr w \<and> init_flag w = 2 \<and>
     held w (User 0) = insert Thread full \<and> ids_unused w = 64 \<and> ids_deleted w = 128"
proof -
  have "held start_world (User 0) = {}" by (simp add: start_world_def)
  from managed_obj_init_correct [OF lifecycle.start this, of granting] granting_granted(1) [of 0] granting_granted(2,3) show ?thesis
    by (auto simp: granting_def start_world_def)
qed

theorem deinit_correct_witness:
  "\<exists>w w'. lifecycle w \<and> held w (User 1) = insert Thread full \<and> init_flag w = 2 \<and>
     managed_obj_deinit 2 granting (User 0) w = Inr w' \<and> held w' (User 1) = insert Thread full \<and>
     ids_unused w' = 0 \<and> ids_deleted w' = 0 \<and> held w' Global = {}"
proof -
  obtain w where w: "lifecycle w" "held w (User 0) = insert Thread full" "held w (User 1) = insert Thread full"
    "init_flag w = 2"
    using two_states by blast
  from w(2) have "held w (User 0) \<noteq> {}" by simp
  from deinit_correct [OF w(1) this granting_quiet] w show ?thesis by (metis zero_neq_one)
qed

end
