(* ===== verification/MetaCorrect.thy ===== *)
theory MetaCorrect
  imports MetaStrings
begin

text \<open>
  What the metadata hash table guarantees, for any kind of keys that keeps the contract, and that
  entries are still found after a collection has moved the keys.
\<close>

section \<open>A sample of the outside\<close>

text \<open>
  Location dependencies by epochs: a dependency holds the epoch of its reset and the addresses
  that were added, and is stale for everything once a collection has moved objects.
\<close>

type_synonym epoch_dep = "nat \<times> addr list"

definition epoch_add :: "epoch_dep \<Rightarrow> addr \<Rightarrow> epoch_dep" where
  "epoch_add l x = (fst l, x # snd l)"

definition epoch_stale :: "nat \<Rightarrow> epoch_dep \<Rightarrow> addr \<Rightarrow> bool" where
  "epoch_stale now l y = (fst l < now)"

definition epoch_dep :: "nat \<Rightarrow> epoch_dep dependency" where
  "epoch_dep now = \<lparr>is_current = (\<lambda>l. now \<le> fst l), depends_on = (\<lambda>l y. y \<in> set (snd l))\<rparr>"

definition sample_env :: "nat \<Rightarrow> epoch_dep tbl_env" where
  "sample_env now = eq_env epoch_add (now, []) (epoch_stale now) 4096 4128 (\<lambda>_. [(Some 8192, True)])"

abbreviation "sample_keys \<equiv> eq_keys 4096 4128"

interpretation epoch: eq_table epoch_add "(now, [])" "epoch_stale now" "epoch_dep now" 4096 4128
    "\<lambda>_. [(Some 8192, True)]" for now
  by unfold_locales (auto simp: epoch_add_def epoch_stale_def epoch_dep_def)

lemma sample_table_keys: "table_keys (sample_env now) sample_keys (epoch_dep now)"
  unfolding sample_env_def by (rule epoch.ek.table_keys_axioms)

lemma sample_memory: "\<not> out_of_memory (sample_env now) f"
  by (simp add: out_of_memory_def sample_env_def eq_env_def)

definition sample_strings :: strings where
  "sample_strings = Map.empty(12288 \<mapsto> \<lparr>s_length = 1, s_chars = [97, 0]\<rparr>, 12320 \<mapsto> \<lparr>s_length = 1, s_chars = [97, 0]\<rparr>)"

interpretation letters: string_table sample_strings "()" "\<lambda>_ _. False" 4096 4128 "\<lambda>_. [(Some 8192, True)]"
  by unfold_locales (auto simp: sample_strings_def)

section \<open>Making a table\<close>

definition empty_table :: "'ld tbl_env \<Rightarrow> nat \<Rightarrow> 'ld hashtable" where
  "empty_table env n = \<lparr>t_type = MANAGED_OBJECT_TYPE_METADATA_HASH_TABLE, t_keys = fresh_buckets env n,
     t_values = fresh_buckets env n, t_ld = ld_reset env\<rparr>"

context table_keys
begin

lemma unused_table_ok: "n < 60 \<Longrightarrow> table_ok env K L n (empty_table env n)"
  using partial_start [of n "[]" "[]" 0]
  by (auto simp: partial_def table_ok_def empty_table_def fresh_buckets_def placed_def watched_def)

end

text \<open>The doubling loop ends at the least power of two that is large enough, if there is one.\<close>

lemma round_up_power:
  assumes "fuel + k = 64" and "k \<le> 63" and "unat len \<le> 2 ^ 63"
  shows "\<exists>j \<le> 63. k \<le> j \<and> round_up fuel (2 ^ k) len = Inr (2 ^ j) \<and> unat len \<le> 2 ^ j \<and>
    (j = k \<or> 2 ^ (j - 1) < unat len)"
  using assms
proof (induction fuel arbitrary: k)
  case (Suc fuel)
  have val: "unat (2 ^ k :: size_t) = 2 ^ k" using Suc.prems(2) by simp
  show ?case
  proof (cases "unat len \<le> 2 ^ k")
    case True
    then have "round_up (Suc fuel) (2 ^ k) len = Inr (2 ^ k)" by (simp add: word_less_nat_alt val)
    with True Suc.prems(2) show ?thesis by blast
  next
    case False
    then have step: "round_up (Suc fuel) (2 ^ k) len = round_up fuel (2 ^ Suc k) len"
      by (simp add: word_less_nat_alt val mult.commute)
    have "k \<noteq> 63" using False Suc.prems(3) by auto
    with Suc.prems have "fuel + Suc k = 64" "Suc k \<le> 63" by simp_all
    from Suc.IH [OF this Suc.prems(3)] obtain j where j: "j \<le> 63" "Suc k \<le> j"
      "round_up fuel (2 ^ Suc k) len = Inr (2 ^ j)" "unat len \<le> 2 ^ j" "j = Suc k \<or> 2 ^ (j - 1) < unat len"
      by blast
    have "2 ^ (j - 1) < unat len" using j(5) False by auto
    with j step show ?thesis by (intro exI [of _ j]) simp
  qed
qed simp

lemma round_up_zero: "0 < len \<Longrightarrow> round_up fuel 0 len = Inl Diverges"
  by (induction fuel) simp_all

lemma round_up_diverges:
  assumes "2 ^ 63 < unat len"
  shows "round_up fuel (2 ^ k) len = Inl Diverges"
proof (induction fuel arbitrary: k)
  have less: "(2 ^ k :: size_t) < len" for k
  proof (cases "k < 64")
    case True
    then have "(2::nat) ^ k \<le> 2 ^ 63" by (intro power_increasing) simp_all
    with True assms show ?thesis by (simp add: word_less_nat_alt)
  next
    case False
    then have "(2 ^ k :: size_t) = 0" by simp
    moreover have "0 < len" using assms by (simp add: word_less_nat_alt)
    ultimately show ?thesis by (rule ssubst)
  qed
  {
    case 0
    show ?case using less by simp
  next
    case (Suc fuel)
    show ?case using Suc [of "Suc k"] less [of k] by (simp add: mult.commute)
  }
qed


context table_keys
begin

lemma make_table_rounds:
  assumes "unat len \<le> 2 ^ 63" and "reserve_commit (answers env (asked m)) = Inr a"
  shows "\<exists>n \<le> 63. unat len \<le> 2 ^ n \<and> (n = 0 \<or> 2 ^ (n - 1) < unat len) \<and>
    managed_obj_metadata_make_table env ldsize len m =
      andthen (managed_obj_metadata_make_buckets env (2 ^ n) (m\<lparr>asked := Suc (asked m)\<rparr>)) (\<lambda>(ks, m1).
      andthen (managed_obj_metadata_make_buckets env (2 ^ n) m1) (\<lambda>(vs, m2).
        Inr (\<lparr>t_type = MANAGED_OBJECT_TYPE_METADATA_HASH_TABLE, t_keys = ks, t_values = vs, t_ld = ld_reset env\<rparr>,
             m2\<lparr>mstate := count_object (sizeof_hashtable ldsize)
                   (MANAGED_OBJECT_ALIGN_OBJ (sizeof_hashtable ldsize)) a (mstate m2)\<rparr>)))"
proof -
  from round_up_power [of 64 0, OF _ _ assms(1)] obtain n where
    n: "n \<le> 63" "round_up 64 1 len = Inr (2 ^ n)" "unat len \<le> 2 ^ n" "n = 0 \<or> 2 ^ (n - 1) < unat len"
    by auto
  then show ?thesis using assms(2) by (intro exI [of _ n]) (simp add: managed_obj_metadata_make_table_def)
qed

lemma no_memory_for_table:
  assumes "reserve_commit (answers env (asked m)) = Inl f"
  shows "managed_obj_metadata_make_table env ldsize len m = Inl f \<and> out_of_memory env f"
proof -
  from assms have "out_of_memory env f"
    unfolding out_of_memory_def using reserve_commit_faults [OF assms] by (metis Inl_Inr_False)
  with assms show ?thesis by (simp add: managed_obj_metadata_make_table_def)
qed

lemma make_table_outcome:
  assumes "unat len \<le> 2 ^ 60"
  shows "(\<exists>f. managed_obj_metadata_make_table env ldsize len m = Inl f \<and> out_of_memory env f) \<or>
    (\<exists>n m'. managed_obj_metadata_make_table env ldsize len m = Inr (empty_table env n, m') \<and> n \<le> 60 \<and>
      unat len \<le> 2 ^ n \<and> (n = 0 \<or> 2 ^ (n - 1) < unat len))"
proof (cases "reserve_commit (answers env (asked m))")
  case (Inl f)
  from no_memory_for_table [OF this] show ?thesis by blast
next
  case (Inr a)
  from assms have "unat len \<le> 2 ^ 63" by simp
  from make_table_rounds [OF this Inr, of ldsize] obtain n where n: "unat len \<le> 2 ^ n" "n = 0 \<or> 2 ^ (n - 1) < unat len"
    and t: "managed_obj_metadata_make_table env ldsize len m =
      andthen (managed_obj_metadata_make_buckets env (2 ^ n) (m\<lparr>asked := Suc (asked m)\<rparr>)) (\<lambda>(ks, m1).
      andthen (managed_obj_metadata_make_buckets env (2 ^ n) m1) (\<lambda>(vs, m2).
        Inr (\<lparr>t_type = MANAGED_OBJECT_TYPE_METADATA_HASH_TABLE, t_keys = ks, t_values = vs, t_ld = ld_reset env\<rparr>,
             m2\<lparr>mstate := count_object (sizeof_hashtable ldsize)
                   (MANAGED_OBJECT_ALIGN_OBJ (sizeof_hashtable ldsize)) a (mstate m2)\<rparr>)))" by blast
  have n60: "n \<le> 60"
  proof (rule ccontr)
    assume "\<not> n \<le> 60"
    then have "(2::nat) ^ 60 \<le> 2 ^ (n - 1)" by (intro power_increasing) simp_all
    with n(2) assms \<open>\<not> n \<le> 60\<close> show False by simp
  qed
  have size: "(2 ^ n :: size_t) = of_nat (2 ^ n)" by simp
  let ?m = "m\<lparr>asked := Suc (asked m)\<rparr>"
  from make_buckets_fits [OF n60, of env ?m] show ?thesis
  proof (elim disjE exE conjE)
    fix f assume "managed_obj_metadata_make_buckets env (of_nat (2 ^ n)) ?m = Inl f" "out_of_memory env f"
    then show ?thesis unfolding t size by simp
  next
    fix m1 assume one: "managed_obj_metadata_make_buckets env (of_nat (2 ^ n)) ?m = Inr (fresh_buckets env n, m1)"
    from make_buckets_fits [OF n60, of env m1] show ?thesis
    proof (elim disjE exE conjE)
      fix f assume "managed_obj_metadata_make_buckets env (of_nat (2 ^ n)) m1 = Inl f" "out_of_memory env f"
      then show ?thesis unfolding t size using one by simp
    next
      fix m2 assume two: "managed_obj_metadata_make_buckets env (of_nat (2 ^ n)) m1 = Inr (fresh_buckets env n, m2)"
      have "\<exists>m'. managed_obj_metadata_make_table env ldsize len m = Inr (empty_table env n, m')"
        unfolding t size using one two by (simp add: empty_table_def)
      with n n60 show ?thesis by blast
    qed
  qed
qed

lemma make_table_too_large:
  assumes "2 ^ 60 < unat len"
  shows "(\<exists>f. managed_obj_metadata_make_table env ldsize len m = Inl f \<and> out_of_memory env f) \<or>
    managed_obj_metadata_make_table env ldsize len m = Inl (if unat len \<le> 2 ^ 63 then Undefined_behaviour else Diverges)"
proof (cases "reserve_commit (answers env (asked m))")
  case (Inl f)
  from no_memory_for_table [OF this] show ?thesis by blast
next
  case (Inr a)
  show ?thesis
  proof (cases "unat len \<le> 2 ^ 63")
    case True
    from make_table_rounds [OF True Inr, of ldsize] obtain n where n: "n \<le> 63" "unat len \<le> 2 ^ n"
      and t: "managed_obj_metadata_make_table env ldsize len m =
        andthen (managed_obj_metadata_make_buckets env (2 ^ n) (m\<lparr>asked := Suc (asked m)\<rparr>)) (\<lambda>(ks, m1).
        andthen (managed_obj_metadata_make_buckets env (2 ^ n) m1) (\<lambda>(vs, m2).
          Inr (\<lparr>t_type = MANAGED_OBJECT_TYPE_METADATA_HASH_TABLE, t_keys = ks, t_values = vs, t_ld = ld_reset env\<rparr>,
               m2\<lparr>mstate := count_object (sizeof_hashtable ldsize)
                     (MANAGED_OBJECT_ALIGN_OBJ (sizeof_hashtable ldsize)) a (mstate m2)\<rparr>)))" by blast
    have "60 < n"
    proof (rule ccontr)
      assume "\<not> 60 < n"
      then have "(2::nat) ^ n \<le> 2 ^ 60" by (intro power_increasing) simp_all
      with n(2) assms show False by simp
    qed
    from make_buckets_wraps [OF this n(1), of env "m\<lparr>asked := Suc (asked m)\<rparr>"] True show ?thesis unfolding t by simp
  next
    case False
    then have "round_up 64 (2 ^ 0) len = Inl Diverges" by (intro round_up_diverges) simp
    with Inr False show ?thesis by (simp add: managed_obj_metadata_make_table_def)
  qed
qed

lemma fresh_table_map: "table_map K (empty_table env n) x = None"
  using markers(2) by (auto simp: table_map_def key_slot_def empty_table_def fresh_buckets_def find_None_iff)

lemma empty_table_size: "managed_obj_metadata_table_size (empty_table env n) = Inr 0"
  by (simp add: managed_obj_metadata_table_size_def empty_table_def fresh_buckets_def)

end

text \<open>
  C37: Making a table for a number of entries, of any size.  Up to \<open>2 ^ 60\<close> entries, if there is
  memory, the table has the least power of two of buckets that is not smaller, all unused, and stands
  for the empty map; it satisfies the invariant up to \<open>2 ^ 59\<close> (the invariant bounds the tables that
  can still grow).  Beyond \<open>2 ^ 60\<close> the size of the bucket object in bytes wraps, and the code writes
  past the memory that it reserved; beyond \<open>2 ^ 63\<close> the doubling loop wraps to zero and never ends,
  whatever the bound on its turns.
\<close>

theorem make_table_correct:
  assumes "table_keys env K L"
  shows "(\<exists>f. managed_obj_metadata_make_table env ldsize len m = Inl f \<and> out_of_memory env f) \<or>
    (if unat len \<le> 2 ^ 60
     then \<exists>n tbl m'. managed_obj_metadata_make_table env ldsize len m = Inr (tbl, m') \<and>
        unat len \<le> 2 ^ n \<and> (n = 0 \<or> 2 ^ (n - 1) < unat len) \<and>
        (if unat len \<le> 2 ^ 59 then table_ok env K L n tbl else n = 60) \<and>
        bucket (t_keys tbl) = replicate (2 ^ n) (id_unused env) \<and> bucket (t_values tbl) = replicate (2 ^ n) (id_unused env) \<and>
        (\<forall>x. table_map K tbl x = None) \<and> managed_obj_metadata_table_size tbl = Inr 0
     else managed_obj_metadata_make_table env ldsize len m =
        Inl (if unat len \<le> 2 ^ 63 then Undefined_behaviour else Diverges) \<and>
        (unat len \<le> 2 ^ 63 \<or> round_up fuel 1 len = Inl Diverges))"
proof (cases "unat len \<le> 2 ^ 60")
  case True
  from table_keys.make_table_outcome [OF assms True, of ldsize m]
  consider (none) f where "managed_obj_metadata_make_table env ldsize len m = Inl f" "out_of_memory env f"
    | (made) n m' where "managed_obj_metadata_make_table env ldsize len m = Inr (empty_table env n, m')" "n \<le> 60"
        "unat len \<le> 2 ^ n" "n = 0 \<or> 2 ^ (n - 1) < unat len" by blast
  then show ?thesis
  proof cases
    case none
    then show ?thesis by blast
  next
    case made
    note t = made(1,2) and n = made(3,4)
    have small: "n < 60" if "unat len \<le> 2 ^ 59"
    proof (rule ccontr)
      assume "\<not> n < 60"
      then have "(2::nat) ^ 59 \<le> 2 ^ (n - 1)" by (intro power_increasing) simp_all
      with n(2) that \<open>\<not> n < 60\<close> show False by simp
    qed
    have large: "n = 60" if "\<not> unat len \<le> 2 ^ 59"
    proof (rule ccontr)
      assume "n \<noteq> 60"
      then have "(2::nat) ^ n \<le> 2 ^ 59" using t(2) by (intro power_increasing) simp_all
      with n(1) that show False by simp
    qed
    have "if unat len \<le> 2 ^ 59 then table_ok env K L n (empty_table env n) else n = 60"
      using table_keys.unused_table_ok [OF assms small] large by presburger
    moreover have "bucket (t_keys (empty_table env n)) = replicate (2 ^ n) (id_unused env)"
      "bucket (t_values (empty_table env n)) = replicate (2 ^ n) (id_unused env)"
      by (simp_all add: empty_table_def fresh_buckets_def)
    ultimately show ?thesis
      using t n True table_keys.fresh_table_map [OF assms] table_keys.empty_table_size [OF assms] by (simp only: if_True) blast
  qed
next
  case False
  have "unat len \<le> 2 ^ 63 \<or> round_up fuel 1 len = Inl Diverges"
    using round_up_diverges [of len fuel 0] by (cases "unat len \<le> 2 ^ 63") simp_all
  with table_keys.make_table_too_large [OF assms, of len ldsize m] False show ?thesis by (simp only: if_False) simp
qed

lemma make_table_correct_witness:
  "\<forall>m. \<exists>n tbl m'. managed_obj_metadata_make_table (sample_env 0) 16 5 m = Inr (tbl, m') \<and>
      table_ok (sample_env 0) sample_keys (epoch_dep 0) n tbl \<and> n = 3 \<and> table_map sample_keys tbl 12288 = None"
proof (intro allI, goal_cases)
  case (1 m)
  have pow: "n = 3" if "5 \<le> (2::nat) ^ n" "n = 0 \<or> 2 ^ (n - 1) < (5::nat)" for n
  proof -
    have "\<not> n \<le> 2" using that(1) power_increasing [of n 2 "2::nat"] by auto
    moreover have "\<not> 4 \<le> n"
    proof
      assume n: "4 \<le> n"
      then have "(2::nat) ^ 3 \<le> 2 ^ (n - 1)" by (intro power_increasing) simp_all
      with that(2) n show False by simp
    qed
    ultimately show ?thesis by simp
  qed
  have five: "unat (5 :: size_t) = 5" by simp
  from make_table_correct [OF sample_table_keys [of 0], where len = 5 and ldsize = 16 and m = m and fuel = 0] sample_memory [of 0] obtain n tbl m' where
    "managed_obj_metadata_make_table (sample_env 0) 16 5 m = Inr (tbl, m')"
    "table_ok (sample_env 0) sample_keys (epoch_dep 0) n tbl"
    and n: "5 \<le> (2::nat) ^ n" "n = 0 \<or> 2 ^ (n - 1) < (5::nat)"
    and "\<forall>x. table_map sample_keys tbl x = None"
    unfolding five by auto
  with pow [OF n] show ?case by blast
qed

section \<open>The operations\<close>

lemma sample_valid: "kvalid sample_keys 12288"
  by (simp add: eq_keys_def)

lemma sample_bound:
  "\<exists>tbl m'. managed_obj_metadata_table_set (sample_env 0) (empty_table (sample_env 0) 2) 12288 7 m = Inr (tbl, m') \<and>
    table_ok (sample_env 0) sample_keys (epoch_dep 0) 2 tbl \<and> table_map sample_keys tbl 12288 = Some 7"
proof -
  note tk = sample_table_keys [of 0]
  have same: "ksame sample_keys 12288 12288" by (simp add: eq_keys_def)
  have "used_in (sample_env 0) (bucket (t_keys (empty_table (sample_env 0) 2))) = 0"
    by (simp add: used_in_def empty_table_def fresh_buckets_def)
  moreover have "is_current (epoch_dep 0) (t_ld (empty_table (sample_env 0) 2))"
    by (simp add: empty_table_def sample_env_def eq_env_def epoch_dep_def)
  ultimately show ?thesis
    using table_keys.table_set_outcome [OF tk table_keys.unused_table_ok [OF tk] sample_valid, of 2 7 m] sample_memory [of 0]
      sample_valid same
    unfolding table_keys.stored_def [OF tk] by fastforce
qed

text \<open>
  C6: Setting a key binds it and leaves every other key alone; equal keys count as one.  The
  table doubles exactly when it is half full, counting the deleted buckets, as long as no
  collection has happened since its dependency was reset.  The only other ending is that the MPS
  gives no memory.
\<close>

theorem table_set_correct:
  assumes "table_keys env K L" and "table_ok env K L n tbl" and "kvalid K key" and "Suc n < 60"
  shows "(\<exists>f. managed_obj_metadata_table_set env tbl key val m = Inl f \<and> out_of_memory env f) \<or>
    (\<exists>n' tbl' m'. managed_obj_metadata_table_set env tbl key val m = Inr (tbl', m') \<and> table_ok env K L n' tbl' \<and>
      (\<forall>x. kvalid K x \<longrightarrow> table_map K tbl' x = (if ksame K key x then Some val else table_map K tbl x)) \<and>
      (n' = n \<or> n' = Suc n) \<and>
      (is_current L (t_ld tbl) \<longrightarrow> (n' = Suc n \<longleftrightarrow> 2 ^ n \<le> 2 * used_in env (bucket (t_keys tbl)) + 1)))"
  using table_keys.table_set_outcome [OF assms, of val m] unfolding table_keys.stored_def [OF assms(1)] by force

lemma table_set_correct_witness:
  "\<forall>m. \<exists>tbl' m'. managed_obj_metadata_table_set (sample_env 0) (empty_table (sample_env 0) 2) 12288 7 m = Inr (tbl', m') \<and>
    table_map sample_keys tbl' 12288 = Some 7 \<and> table_map sample_keys tbl' 12320 = None"
proof (intro allI, goal_cases)
  case (1 m)
  note tk = sample_table_keys [of 0]
  have valid: "kvalid sample_keys 12288" "kvalid sample_keys 12320" "\<not> ksame sample_keys 12288 12320"
    "ksame sample_keys 12288 12288"
    by (simp_all add: eq_keys_def)
  from table_set_correct [OF tk table_keys.unused_table_ok [OF tk] valid(1), of 2 7 m] sample_memory [of 0]
    table_keys.fresh_table_map [OF tk, of 2 12320] valid
  show ?case by fastforce
qed

text \<open>
  Looking a key up gives the value it is bound to, or null; the table may be rehashed on the
  way, which changes no binding.
\<close>

theorem table_ref_correct:
  assumes "table_keys env K L" and "table_ok env K L n tbl" and "kvalid K key"
  shows "(\<exists>f. managed_obj_metadata_table_ref env tbl key m = Inl f \<and> out_of_memory env f) \<or>
    (\<exists>tbl' m'. managed_obj_metadata_table_ref env tbl key m =
        Inr (case table_map K tbl key of None \<Rightarrow> 0 | Some v \<Rightarrow> v, tbl', m') \<and> table_ok env K L n tbl' \<and>
      (\<forall>x. kvalid K x \<longrightarrow> table_map K tbl' x = table_map K tbl x))"
  using table_keys.table_ref_outcome [OF assms, of m] unfolding table_keys.same_table_def [OF assms(1)] by blast

lemma table_ref_correct_witness:
  "\<forall>m. \<exists>tbl m0 tbl' m'. managed_obj_metadata_table_set (sample_env 0) (empty_table (sample_env 0) 2) 12288 7 m = Inr (tbl, m0) \<and>
    managed_obj_metadata_table_ref (sample_env 0) tbl 12288 m0 = Inr (7, tbl', m')"
proof (intro allI, goal_cases)
  case (1 m)
  from sample_bound [of m] obtain tbl m0 where t:
    "managed_obj_metadata_table_set (sample_env 0) (empty_table (sample_env 0) 2) 12288 7 m = Inr (tbl, m0)"
    "table_ok (sample_env 0) sample_keys (epoch_dep 0) 2 tbl" "table_map sample_keys tbl 12288 = Some 7" by blast
  from table_ref_correct [OF sample_table_keys t(2) sample_valid, of m0] sample_memory [of 0] t show ?case by auto
qed

text \<open>
  C13: Deleting a key removes its binding, and with it those of no other key; deleting a key that
  is not there changes no binding.
\<close>

theorem table_delete_correct:
  assumes "table_keys env K L" and "table_ok env K L n tbl" and "kvalid K key"
  shows "(\<exists>f. managed_obj_metadata_table_delete env tbl key m = Inl f \<and> out_of_memory env f) \<or>
    (\<exists>tbl' m'. managed_obj_metadata_table_delete env tbl key m = Inr (tbl', m') \<and> table_ok env K L n tbl' \<and>
      (\<forall>x. kvalid K x \<longrightarrow> table_map K tbl' x = (if ksame K key x then None else table_map K tbl x)))"
  using table_keys.table_delete_outcome [OF assms, of m] .

lemma table_delete_correct_witness:
  "\<forall>m. \<exists>tbl tbl' m'. table_map sample_keys tbl 12288 = Some 7 \<and>
    managed_obj_metadata_table_delete (sample_env 0) tbl 12288 m = Inr (tbl', m') \<and> table_map sample_keys tbl' 12288 = None"
proof (intro allI, goal_cases)
  case (1 m)
  from sample_bound [of m] obtain tbl where t:
    "table_ok (sample_env 0) sample_keys (epoch_dep 0) 2 tbl" "table_map sample_keys tbl 12288 = Some 7" by blast
  have same: "ksame sample_keys 12288 12288" by (simp add: eq_keys_def)
  from table_delete_correct [OF sample_table_keys t(1) sample_valid, of m] sample_memory [of 0] t(2) same sample_valid
  show ?case by fastforce
qed

text \<open>
  C14: A rehash to any number of buckets that holds the live keys keeps every binding, removes the
  deleted buckets, leaves a dependency that is current and a table in which every key is on its
  probe sequence, and gives the new bucket of the key it was asked for.
\<close>

theorem table_rehash_correct:
  assumes "table_keys env K L" and "table_ok env K L n tbl" and "n' < 60"
    and "live_in K (bucket (t_keys tbl)) \<le> 2 ^ n'" and "key = 0 \<or> kvalid K key"
  shows "(\<exists>f. managed_obj_metadata_table_rehash env tbl (of_nat (2 ^ n')) key m = Inl f \<and> out_of_memory env f) \<or>
    (\<exists>res tbl' m'. managed_obj_metadata_table_rehash env tbl (of_nat (2 ^ n')) key m = Inr (res, tbl', m') \<and>
      table_ok env K L n' tbl' \<and> fully_placed env K n' (bucket (t_keys tbl')) \<and>
      is_current L (t_ld tbl') \<and> deleted_in env (bucket (t_keys tbl')) = 0 \<and>
      (\<forall>x. kvalid K x \<longrightarrow> table_map K tbl' x = table_map K tbl x) \<and>
      res = (if key = 0 then None else map_option of_nat (key_slot K (bucket (t_keys tbl')) key)))"
  using table_keys.table_rehash_outcome [OF assms, of m] by blast

lemma table_rehash_correct_witness:
  "\<forall>m. \<exists>tbl res tbl' m'. table_map sample_keys tbl 12288 = Some 7 \<and>
    managed_obj_metadata_table_rehash (sample_env 0) tbl (of_nat (2 ^ 3)) 12288 m = Inr (res, tbl', m') \<and>
    table_map sample_keys tbl' 12288 = Some 7 \<and> res \<noteq> None"
proof (intro allI, goal_cases)
  case (1 m)
  note tk = sample_table_keys [of 0]
  from sample_bound [of m] obtain tbl where t:
    "table_ok (sample_env 0) sample_keys (epoch_dep 0) 2 tbl" "table_map sample_keys tbl 12288 = Some 7" by blast
  have "live_in sample_keys (bucket (t_keys tbl)) \<le> 2 ^ 3"
    using table_keys.live_in_bound [OF tk table_keys.table_okD(2) [OF tk t(1)]] by simp
  from table_rehash_correct [OF tk t(1) _ this, of 12288 m] sample_memory [of 0] sample_valid obtain res tbl' m' where
    r: "managed_obj_metadata_table_rehash (sample_env 0) tbl (of_nat (2 ^ 3)) 12288 m = Inr (res, tbl', m')"
    "\<forall>x. kvalid sample_keys x \<longrightarrow> table_map sample_keys tbl' x = table_map sample_keys tbl x"
    "res = map_option of_nat (key_slot sample_keys (bucket (t_keys tbl')) 12288)"
    by auto
  have "table_map sample_keys tbl' 12288 = Some 7" using r(2) sample_valid t(2) by simp
  with r t(2) show ?case by (auto simp: table_map_def)
qed

end
