(* ===== verification/MetaMove.thy ===== *)
theory MetaMove
  imports MetaCorrect
begin

text \<open>
  What a collection that moves objects does to a table keyed by addresses: the references of the
  table change, the hash values of the moved keys no longer fit their buckets, and the location
  dependency is stale for every key that moved.
\<close>

section \<open>Moving the objects of a table\<close>

text \<open>The collector replaces every reference; \<open>f\<close> gives the new address of each object.\<close>

definition move_buckets :: "(addr \<Rightarrow> addr) \<Rightarrow> buckets \<Rightarrow> buckets" where
  "move_buckets f bs = bs\<lparr>bucket := map f (bucket bs)\<rparr>"

definition move_table :: "(addr \<Rightarrow> addr) \<Rightarrow> 'ld hashtable \<Rightarrow> 'ld hashtable" where
  "move_table f tbl = tbl\<lparr>t_keys := move_buckets f (t_keys tbl), t_values := move_buckets f (t_values tbl)\<rparr>"

lemma move_table_sel [simp]:
  "t_type (move_table f tbl) = t_type tbl" "t_ld (move_table f tbl) = t_ld tbl"
  "bucket (t_keys (move_table f tbl)) = map f (bucket (t_keys tbl))"
  "bucket (t_values (move_table f tbl)) = map f (bucket (t_values tbl))"
  "b_length (t_keys (move_table f tbl)) = b_length (t_keys tbl)"
  "b_used (t_keys (move_table f tbl)) = b_used (t_keys tbl)"
  "b_deleted (t_keys (move_table f tbl)) = b_deleted (t_keys tbl)"
  by (simp_all add: move_table_def move_buckets_def)

lemma filter_map_inj: "inj f \<Longrightarrow> length (filter (\<lambda>k. k = f x) (map f ks)) = length (filter (\<lambda>k. k = x) ks)"
  "inj f \<Longrightarrow> length (filter (\<lambda>k. k \<noteq> f x) (map f ks)) = length (filter (\<lambda>k. k \<noteq> x) ks)"
  by (induction ks) (auto dest: injD)

lemma eq_keys_moved:
  "inj f \<Longrightarrow> f 0 = 0 \<Longrightarrow> kvalid (eq_keys (f u) (f d)) (f k) \<longleftrightarrow> kvalid (eq_keys u d) k"
  by (simp add: eq_keys_def) (metis injD)

lemma key_slot_moved:
  assumes "inj f" and "f 0 = 0"
  shows "key_slot (eq_keys (f u) (f d)) (map f ks) (f k) = key_slot (eq_keys u d) ks k"
proof -
  have "List.find (\<lambda>i. kvalid (eq_keys (f u) (f d)) (map f ks ! i) \<and> map f ks ! i = f k) [0..<length ks] =
      List.find (\<lambda>i. kvalid (eq_keys u d) (ks ! i) \<and> ks ! i = k) [0..<length ks]"
    by (rule find_cong) (use assms in \<open>auto simp: eq_keys_moved dest: injD\<close>)
  then show ?thesis by (simp add: key_slot_def eq_keys_def)
qed

lemma table_map_moved:
  assumes "inj f" and "f 0 = 0" and "length (bucket (t_values tbl)) = length (bucket (t_keys tbl))"
  shows "table_map (eq_keys (f u) (f d)) (move_table f tbl) (f k) = map_option f (table_map (eq_keys u d) tbl k)"
proof (cases "key_slot (eq_keys u d) (bucket (t_keys tbl)) k")
  case (Some i)
  then have "i < length (bucket (t_values tbl))"
    using assms(3) by (auto simp: key_slot_def find_Some_iff)
  with Some show ?thesis by (simp add: table_map_def key_slot_moved [OF assms(1,2)])
qed (simp add: table_map_def key_slot_moved [OF assms(1,2)])

lemma chain_moved:
  assumes "inj f" and "length ks = 2 ^ n" and "chain u n ks h i"
  shows "chain (f u) n (map f ks) h i"
proof -
  from assms(3) obtain j where j: "j < 2 ^ n" "hpos n h j = i" "\<forall>m < j. ks ! hpos n h m \<noteq> u"
    unfolding chain_def by blast
  have "map f ks ! hpos n h m \<noteq> f u" if "m < j" for m
    using j(3) that assms(2) injD [OF assms(1)] by auto
  with j(1,2) show ?thesis unfolding chain_def by blast
qed

text \<open>What the MPS promises about a dependency and a collection.\<close>

definition collected ::
  "(addr \<Rightarrow> addr) \<Rightarrow> 'ld dependency \<Rightarrow> 'ld dependency \<Rightarrow> ('ld \<Rightarrow> addr \<Rightarrow> bool) \<Rightarrow> ('ld \<Rightarrow> addr \<Rightarrow> bool) \<Rightarrow> 'ld \<Rightarrow> bool"
where
  "collected f L L' isstale isstale' ld \<longleftrightarrow>
     (\<forall>k. depends_on L ld k \<and> f k \<noteq> k \<longrightarrow> isstale' ld (f k)) \<and>
     (\<forall>k. isstale ld k \<longrightarrow> isstale' ld (f k)) \<and>
     (\<forall>k. depends_on L ld k \<and> f k = k \<longrightarrow> depends_on L' ld k)"

lemma keys_ok_moved:
  assumes "inj f" and "f 0 = 0" and "keys_ok (eq_env ld_add reset isstale u d ans) (eq_keys u d) n ks"
  shows "keys_ok (eq_env ld_add reset' isstale' (f u) (f d) ans') (eq_keys (f u) (f d)) n (map f ks)"
proof -
  have ks: "n < 60" "length ks = 2 ^ n" "\<forall>i < 2 ^ n. ks ! i = u \<or> ks ! i = d \<or> kvalid (eq_keys u d) (ks ! i)"
    "\<forall>i < 2 ^ n. \<forall>j < 2 ^ n. kvalid (eq_keys u d) (ks ! i) \<and> kvalid (eq_keys u d) (ks ! j) \<and> ks ! i = ks ! j \<longrightarrow> i = j"
    using assms(3) by (auto simp: keys_ok_def eq_env_def eq_keys_def)
  have nth: "map f ks ! i = f (ks ! i)" if "i < 2 ^ n" for i using that ks(2) by simp
  have "map f ks ! i = f u \<or> map f ks ! i = f d \<or> kvalid (eq_keys (f u) (f d)) (map f ks ! i)" if "i < 2 ^ n" for i
    using ks(3) that unfolding nth [OF that] eq_keys_moved [OF assms(1,2)] by blast
  moreover have "i = j" if "i < 2 ^ n" "j < 2 ^ n" "kvalid (eq_keys (f u) (f d)) (map f ks ! i)" "map f ks ! i = map f ks ! j" for i j
  proof -
    have "ks ! i = ks ! j" using that(4) injD [OF assms(1)] by (simp add: nth [OF that(1)] nth [OF that(2)])
    moreover have "kvalid (eq_keys u d) (ks ! i)" using that(3) eq_keys_moved [OF assms(1,2)] by (simp add: nth [OF that(1)])
    ultimately show ?thesis using ks(4) that(1,2) by simp
  qed
  ultimately show ?thesis using ks(1,2) by (auto simp: keys_ok_def eq_env_def eq_keys_def)
qed

lemma table_ok_moved:
  assumes f: "inj f" "f 0 = 0"
    and ok: "table_ok (eq_env ld_add reset isstale u d ans) (eq_keys u d) L n tbl"
    and gc: "collected f L L' isstale isstale' (t_ld tbl)"
  shows "table_ok (eq_env ld_add reset' isstale' (f u) (f d) ans') (eq_keys (f u) (f d)) L' n (move_table f tbl)"
proof -
  let ?ks = "bucket (t_keys tbl)" and ?ld = "t_ld tbl"
  have ks: "keys_ok (eq_env ld_add reset isstale u d ans) (eq_keys u d) n ?ks" and len: "length ?ks = 2 ^ n"
    using ok by (simp_all add: table_ok_def keys_ok_def)
  have counts: "counts_ok (eq_env ld_add reset' isstale' (f u) (f d) ans') n (t_keys (move_table f tbl))"
    using ok filter_map_inj [OF f(1)] by (simp add: table_ok_def counts_ok_def used_in_def deleted_in_def eq_env_def)
  have key: "f (?ks ! i) = ?ks ! i \<and> chain (f u) n (map f ?ks) (khash (eq_keys (f u) (f d)) (f (?ks ! i))) i \<and>
      depends_on L' ?ld (f (?ks ! i)) \<or> isstale' ?ld (f (?ks ! i))"
    if i: "i < 2 ^ n" "kvalid (eq_keys u d) (?ks ! i)" for i
  proof -
    have "chain u n ?ks (khash (eq_keys u d) (?ks ! i)) i \<or> isstale ?ld (?ks ! i)"
      and "depends_on L ?ld (?ks ! i) \<or> isstale ?ld (?ks ! i)"
      using ok i by (simp_all add: table_ok_def placed_def watched_def eq_env_def eq_keys_def)
    then consider "isstale ?ld (?ks ! i)"
      | "chain u n ?ks (khash (eq_keys u d) (?ks ! i)) i" "depends_on L ?ld (?ks ! i)" by blast
    then show ?thesis
    proof cases
      case 1
      with gc show ?thesis by (simp add: collected_def)
    next
      case 2
      then show ?thesis
        using gc chain_moved [OF f(1) len 2(1)] by (cases "f (?ks ! i) = ?ks ! i") (auto simp: collected_def eq_keys_def)
    qed
  qed
  have same: "ksame (eq_keys (f u) (f d)) x y \<longleftrightarrow> x = y" for x y by (simp add: eq_keys_def)
  have "placed (eq_env ld_add reset' isstale' (f u) (f d) ans') (eq_keys (f u) (f d)) n ?ld (map f ?ks)"
    unfolding placed_def same using key eq_keys_moved [OF f] by (auto simp: eq_env_def len)
  moreover have "watched (eq_env ld_add reset' isstale' (f u) (f d) ans') (eq_keys (f u) (f d)) L' n ?ld (map f ?ks)"
    unfolding watched_def same using key eq_keys_moved [OF f] by (auto simp: eq_env_def len)
  ultimately show ?thesis
    using ok counts keys_ok_moved [OF f ks] by (simp add: table_ok_def)
qed

text \<open>
  C7: After a collection has moved any objects, among them keys and the markers, the table still
  keeps its invariant, and looking up a key at its new address finds the value it had, at its new
  address: a key whose hash changed makes the dependency stale, and the table is rehashed.
\<close>

theorem moved_keys_still_found:
  assumes "eq_table ld_add reset' isstale' L' (f u) (f d)"
    and "inj f" and "f 0 = 0"
    and "table_ok (eq_env ld_add reset isstale u d ans) (eq_keys u d) L n tbl"
    and "collected f L L' isstale isstale' (t_ld tbl)"
    and "kvalid (eq_keys u d) k"
  shows "(\<exists>e. managed_obj_metadata_table_ref (eq_env ld_add reset' isstale' (f u) (f d) ans') (move_table f tbl) (f k) m = Inl e \<and>
      out_of_memory (eq_env ld_add reset' isstale' (f u) (f d) ans') e) \<or>
    (\<exists>tbl' m'. managed_obj_metadata_table_ref (eq_env ld_add reset' isstale' (f u) (f d) ans') (move_table f tbl) (f k) m =
        Inr (case table_map (eq_keys u d) tbl k of None \<Rightarrow> 0 | Some v \<Rightarrow> f v, tbl', m') \<and>
      table_ok (eq_env ld_add reset' isstale' (f u) (f d) ans') (eq_keys (f u) (f d)) L' n tbl')"
proof -
  have tk: "table_keys (eq_env ld_add reset' isstale' (f u) (f d) ans') (eq_keys (f u) (f d)) L'"
    using assms(1) by (rule eq_table.table_keys)
  have "kvalid (eq_keys (f u) (f d)) (f k)" using assms(6) eq_keys_moved [OF assms(2,3)] by blast
  note outcome = table_keys.table_ref_outcome [OF tk table_ok_moved [OF assms(2-5)] this, of m]
  have "length (bucket (t_values tbl)) = length (bucket (t_keys tbl))"
    using assms(4) by (simp add: table_ok_def keys_ok_def)
  from table_map_moved [OF assms(2,3) this] outcome show ?thesis
    unfolding table_keys.same_table_def [OF tk] by (cases "table_map (eq_keys u d) tbl k") auto
qed

text \<open>A table of one bucket, whose key a collection moves to another address.\<close>

definition moving_table :: "epoch_dep hashtable" where
  "moving_table = \<lparr>t_type = MANAGED_OBJECT_TYPE_METADATA_HASH_TABLE,
     t_keys = \<lparr>b_length = tag_of (2 ^ 0), b_used = tag_of 1, b_deleted = tag_of 0, bucket = [12288]\<rparr>,
     t_values = \<lparr>b_length = tag_of (2 ^ 0), b_used = tag_of 0, b_deleted = tag_of 0, bucket = [7]\<rparr>,
     t_ld = (0, [12288])\<rparr>"

definition swap_key :: "addr \<Rightarrow> addr" where
  "swap_key x = (if x = 12288 then 20480 else if x = 20480 then 12288 else x)"

lemma moving_table_ok: "table_ok (sample_env 0) sample_keys (epoch_dep 0) 0 moving_table"
proof -
  have "chain 4096 0 [12288] h 0" for h by (auto simp: chain_def hpos_def)
  then show ?thesis
    by (simp add: table_ok_def moving_table_def keys_ok_def counts_ok_def placed_def watched_def used_in_def
      deleted_in_def sample_env_def eq_env_def eq_keys_def epoch_dep_def)
qed

lemma moved_keys_still_found_witness:
  "\<forall>m. \<exists>tbl' m'. managed_obj_metadata_table_ref (sample_env 1) (move_table swap_key moving_table) 20480 m = Inr (7, tbl', m')"
proof (intro allI, goal_cases)
  case (1 m)
  have swap: "swap_key 0 = 0" "swap_key 4096 = 4096" "swap_key 4128 = 4128" "swap_key 12288 = 20480" "swap_key 7 = 7"
    by (simp_all add: swap_key_def)
  have inj: "inj swap_key" by (rule injI) (auto simp: swap_key_def split: if_splits)
  have gc: "collected swap_key (epoch_dep 0) (epoch_dep 1) (epoch_stale 0) (epoch_stale 1) (t_ld moving_table)"
    by (simp add: collected_def epoch_stale_def epoch_dep_def moving_table_def)
  have val: "table_map sample_keys moving_table 12288 = Some 7"
    by (simp add: table_map_def key_slot_def moving_table_def eq_keys_def)
  have eq: "eq_table epoch_add (1, []) (epoch_stale 1) (epoch_dep 1) (swap_key 4096) (swap_key 4128)"
    unfolding swap by (rule epoch.eq_table_axioms)
  from moved_keys_still_found [OF eq inj swap(1) moving_table_ok [unfolded sample_env_def] gc sample_valid,
      of "\<lambda>_. [(Some 8192, True)]" m] sample_memory [of 1]
  show ?case unfolding swap val sample_env_def [symmetric] by (auto simp: swap)
qed

end
