(* ===== verification/MetaWeak.thy ===== *)
theory MetaWeak
  imports MetaMove
begin

text \<open>
  A weak table across a collection: the scanner of the object format works on the words of the
  two bucket objects, the operations of the table on their lists; here the two views meet.
\<close>

section \<open>The table in the heap\<close>

text \<open>The table whose keys are in the bucket object at \<open>a\<close>, and whose values are in its dependent at \<open>d\<close>.\<close>

definition table_in :: "heap \<Rightarrow> addr \<Rightarrow> addr \<Rightarrow> 'ld hashtable \<Rightarrow> bool" where
  "table_in h a d tbl \<longleftrightarrow> a \<noteq> d \<and> d \<noteq> 0 \<and>
     bkt h a d (b_length (t_keys tbl)) (b_used (t_keys tbl)) (b_deleted (t_keys tbl)) (bucket (t_keys tbl)) \<and>
     bkt h d a (b_length (t_values tbl)) (b_used (t_values tbl)) (b_deleted (t_values tbl)) (bucket (t_values tbl))"

text \<open>
  A collection: which objects live, and where every one of them goes.  A word that the MPS is not
  interested in stays; the markers and null are never cleared.  The dependent lives, as the table
  refers to it, and stays where it is: it is in the AWL pool, which does not move its objects.  It
  may be condemned like everything else.
\<close>

definition collecting :: "'s mps_fix \<Rightarrow> (addr \<Rightarrow> bool) \<Rightarrow> (addr \<Rightarrow> bool) \<Rightarrow> (addr \<Rightarrow> addr) \<Rightarrow> addr \<Rightarrow> addr \<Rightarrow> addr \<Rightarrow> bool" where
  "collecting fx w lives f u del d \<longleftrightarrow>
     fixes_by fx w (\<lambda>p. if lives p then f p else 0) \<and> inj f \<and> f 0 = 0 \<and>
     (\<forall>p. \<not> w p \<longrightarrow> lives p \<and> f p = p) \<and> \<not> w 0 \<and> lives u \<and> lives del \<and> lives d \<and> f d = d"

definition clear_dead :: "(addr \<Rightarrow> bool) \<Rightarrow> addr \<Rightarrow> addr list \<Rightarrow> addr list" where
  "clear_dead lives del ks = map (\<lambda>p. if lives p then p else del) ks"

lemma dead_lives:
  assumes "inj f" and "f 0 = 0" and "\<forall>p. \<not> w p \<longrightarrow> lives p \<and> f p = p" and "\<not> w 0"
  shows "dead w (\<lambda>p. if lives p then f p else 0) p \<longleftrightarrow> \<not> lives p"
    and "moved w (\<lambda>p. if lives p then f p else 0) (f del) p = f (if lives p then p else del)"
  using assms injD [OF assms(1), of p 0] by (auto simp: dead_def moved_def)

lemma count_up_tag: "k + c < 2 ^ 63 \<Longrightarrow> count_up c (tag_of k) = tag_of (k + c)"
proof (induction c arbitrary: k)
  case (Suc c)
  have "MANAGED_OBJECT_METADATA_TAG_COUNT (MANAGED_OBJECT_METADATA_UNTAG_COUNT (tag_of k) + 1) = tag_of (Suc k)"
    using Suc.prems by (simp add: tag_of_def [of "Suc k"] add.commute)
  then show ?case using Suc.IH [of "Suc k"] Suc.prems by (simp add: count_up.simps)
qed (simp add: count_up.simps)

section \<open>Clearing dead keys\<close>

lemma clear_dead_deleted:
  "lives del \<Longrightarrow> length (filter (\<lambda>k. k = del) (clear_dead lives del ks)) =
      length (filter (\<lambda>k. k = del) ks) + length (filter (\<lambda>p. \<not> lives p) ks)"
  "del \<noteq> u \<Longrightarrow> lives u \<Longrightarrow> length (filter (\<lambda>k. k \<noteq> u) (clear_dead lives del ks)) = length (filter (\<lambda>k. k \<noteq> u) ks)"
  by (induction ks) (auto simp: clear_dead_def)

lemma key_slot_clear_dead:
  assumes "lives k" and "kvalid (eq_keys u del) k"
  shows "key_slot (eq_keys u del) (clear_dead lives del ks) k = key_slot (eq_keys u del) ks k"
  unfolding key_slot_def
  by (rule find_cong) (use assms in \<open>auto simp: clear_dead_def eq_keys_def\<close>)

lemma chain_clear_dead:
  assumes "chain u n ks h i" and "length ks = 2 ^ n" and "del \<noteq> u"
  shows "chain u n (clear_dead lives del ks) h i"
proof -
  from assms(1) obtain j where j: "j < 2 ^ n" "hpos n h j = i" "\<forall>m < j. ks ! hpos n h m \<noteq> u" unfolding chain_def by blast
  have "clear_dead lives del ks ! hpos n h m \<noteq> u" if "m < j" for m
    using j(3) that assms(2,3) by (simp add: clear_dead_def)
  with j(1,2) show ?thesis unfolding chain_def by blast
qed

lemma table_ok_clear_dead:
  assumes ok: "table_ok (eq_env ld_add reset isstale u del ans) (eq_keys u del) L n tbl" and ids: "u \<noteq> del"
    and lives: "lives u" "lives del"
    and tbl': "tbl' = tbl\<lparr>t_keys := (t_keys tbl)\<lparr>b_deleted := count_up (length (filter (\<lambda>p. \<not> lives p) (bucket (t_keys tbl)))) (b_deleted (t_keys tbl)),
        bucket := clear_dead lives del (bucket (t_keys tbl))\<rparr>, t_values := vs\<rparr>"
    and vs: "length (bucket vs) = 2 ^ n"
  shows "table_ok (eq_env ld_add reset isstale u del ans) (eq_keys u del) L n tbl'"
proof -
  let ?ks = "bucket (t_keys tbl)" and ?K = "eq_keys u del" and ?e = "eq_env ld_add reset isstale u del ans"
  have n: "n < 60" and len: "length ?ks = 2 ^ n" using ok by (simp_all add: table_ok_def keys_ok_def)
  have nth: "clear_dead lives del ?ks ! i = (if lives (?ks ! i) then ?ks ! i else del)" if "i < 2 ^ n" for i
    using that len by (simp add: clear_dead_def)
  have valid: "lives (?ks ! i) \<and> kvalid ?K (?ks ! i)" if "i < 2 ^ n" "kvalid ?K (clear_dead lives del ?ks ! i)" for i
    using that(2) unfolding nth [OF that(1)] by (auto simp: eq_keys_def split: if_splits)
  have keys: "keys_ok ?e ?K n (clear_dead lives del ?ks)"
  proof -
    have "clear_dead lives del ?ks ! i = u \<or> clear_dead lives del ?ks ! i = del \<or> kvalid ?K (clear_dead lives del ?ks ! i)"
      if "i < 2 ^ n" for i
      using ok that unfolding nth [OF that] by (auto simp: table_ok_def keys_ok_def eq_env_def)
    moreover have "i = j" if "i < 2 ^ n" "j < 2 ^ n" "kvalid ?K (clear_dead lives del ?ks ! i)"
      "kvalid ?K (clear_dead lives del ?ks ! j)" "ksame ?K (clear_dead lives del ?ks ! i) (clear_dead lives del ?ks ! j)" for i j
      using ok valid [OF that(1,3)] valid [OF that(2,4)] that by (simp add: nth table_ok_def keys_ok_def)
    ultimately show ?thesis using n len by (simp add: keys_ok_def eq_env_def clear_dead_def)
  qed
  have del: "deleted_in ?e (clear_dead lives del ?ks) = deleted_in ?e ?ks + length (filter (\<lambda>p. \<not> lives p) ?ks)"
    using clear_dead_deleted(1) [where lives = lives, OF lives(2)] by (simp add: deleted_in_def eq_env_def)
  have "deleted_in ?e (clear_dead lives del ?ks) \<le> 2 ^ n"
    using deleted_in_le [of ?e "clear_dead lives del ?ks"] len by (simp add: clear_dead_def)
  then have "deleted_in ?e ?ks + length (filter (\<lambda>p. \<not> lives p) ?ks) < 2 ^ 63" using del pow_bound [OF n] by simp
  then have counts: "counts_ok ?e n (t_keys tbl')"
    using ok del clear_dead_deleted(2) [where lives = lives, OF ids [symmetric] lives(1)]
    by (simp add: tbl' table_ok_def counts_ok_def count_up_tag used_in_def eq_env_def)
  have placed: "placed ?e ?K n (t_ld tbl) (clear_dead lives del ?ks)"
    unfolding placed_def
  proof (intro allI impI)
    fix i assume i: "i < 2 ^ n" "kvalid ?K (clear_dead lives del ?ks ! i)"
    note v = valid [OF i]
    have same: "clear_dead lives del ?ks ! i = ?ks ! i" using nth [OF i(1)] v by simp
    have "chain u n ?ks (khash ?K (?ks ! i)) i \<or> (\<forall>y. kvalid ?K y \<and> ksame ?K (?ks ! i) y \<longrightarrow> ld_isstale ?e (t_ld tbl) y)"
      using ok i(1) v by (simp add: table_ok_def placed_def eq_env_def)
    then show "chain (id_unused ?e) n (clear_dead lives del ?ks) (khash ?K (clear_dead lives del ?ks ! i)) i \<or>
        (\<forall>y. kvalid ?K y \<and> ksame ?K (clear_dead lives del ?ks ! i) y \<longrightarrow> ld_isstale ?e (t_ld tbl) y)"
      unfolding same using chain_clear_dead [OF _ len ids [symmetric], of _ i lives] by (auto simp: eq_env_def)
  qed
  have "watched ?e ?K L n (t_ld tbl) (clear_dead lives del ?ks)"
    unfolding watched_def
  proof (intro allI impI)
    fix i assume i: "i < 2 ^ n" "kvalid ?K (clear_dead lives del ?ks ! i)"
    note v = valid [OF i]
    have same: "clear_dead lives del ?ks ! i = ?ks ! i" using nth [OF i(1)] v by simp
    show "depends_on L (t_ld tbl) (clear_dead lives del ?ks ! i) \<or>
        (\<forall>y. kvalid ?K y \<and> ksame ?K (clear_dead lives del ?ks ! i) y \<longrightarrow> ld_isstale ?e (t_ld tbl) y)"
      unfolding same using ok i(1) v by (simp add: table_ok_def watched_def)
  qed
  then show ?thesis using ok keys counts placed vs by (simp add: table_ok_def tbl')
qed

section \<open>The scan\<close>

lemma bkt_unique:
  "bkt h a d len u dw ks \<Longrightarrow> bkt h a d' len' u' dw' ks' \<Longrightarrow> len' = len \<and> u' = u \<and> dw' = dw \<and> ks' = ks"
  by (auto simp: bkt_def split: option.splits)

text \<open>The table after the scan of its keys, as the words of the two objects have it.\<close>

definition scanned_table :: "(addr \<Rightarrow> bool) \<Rightarrow> (addr \<Rightarrow> addr) \<Rightarrow> addr \<Rightarrow> 'ld hashtable \<Rightarrow> 'ld hashtable" where
  "scanned_table lives f del tbl =
     (let ks = bucket (t_keys tbl); c = length (filter (\<lambda>p. \<not> lives p) ks)
      in tbl\<lparr>t_keys := (t_keys tbl)\<lparr>b_deleted := count_up c (b_deleted (t_keys tbl)), bucket := map f (clear_dead lives del ks)\<rparr>,
           t_values := (t_values tbl)\<lparr>b_deleted := count_up c (b_deleted (t_values tbl)),
             bucket := map2 (\<lambda>p v. if \<not> lives p then f del else v) ks (bucket (t_values tbl))\<rparr>\<rparr>)"

lemma scan_table:
  assumes fx: "collecting fx w lives f u del d" and h: "table_in h a d tbl"
    and ok: "table_ok (eq_env ld_add reset isstale u del ans) (eq_keys u del) L n tbl"
    and vlen: "b_length (t_values tbl) = b_length (t_keys tbl)"
  shows "\<exists>h'. scan_buckets fx (f del) a s h = Inr (0, s, h') \<and> table_in h' a d (scanned_table lives f del tbl) \<and>
    (\<forall>x. x \<noteq> a \<longrightarrow> x \<noteq> d \<longrightarrow> h' x = h x)"
proof -
  let ?g = "\<lambda>p. if lives p then f p else 0" and ?ks = "bucket (t_keys tbl)"
  have c: "fixes_by fx w ?g" "inj f" "f 0 = 0" "\<forall>p. \<not> w p \<longrightarrow> lives p \<and> f p = p" "\<not> w 0" "lives d \<and> f d = d"
    using fx by (simp_all add: collecting_def)
  have dead: "dead w ?g = (\<lambda>p. \<not> lives p)" and moved: "moved w ?g (f del) = (\<lambda>p. f (if lives p then p else del))"
    using dead_lives [OF c(2-5)] by auto
  have len: "length (bucket (t_values tbl)) = length ?ks" and n: "n < 60" "length ?ks = 2 ^ n"
    and bl: "b_length (t_keys tbl) = tag_of (2 ^ n)"
    using ok by (simp_all add: table_ok_def keys_ok_def counts_ok_def)
  have "unat (MANAGED_OBJECT_METADATA_UNTAG_COUNT (b_length (t_keys tbl))) = length ?ks"
    using bl n pow_bound [OF n(1)] UNTAG_tag_of [of "2 ^ n"] by (simp add: UNTAG_def)
  note fuel = this
  have ad: "a \<noteq> d" "d \<noteq> 0"
    and kb: "bkt h a d (b_length (t_keys tbl)) (b_used (t_keys tbl)) (b_deleted (t_keys tbl)) ?ks"
    and vb: "bkt h d a (b_length (t_keys tbl)) (b_used (t_values tbl)) (b_deleted (t_values tbl)) (bucket (t_values tbl))"
    using h vlen by (simp_all add: table_in_def)
  have "w d \<longrightarrow> (if lives d then f d else 0) = d" using c(6) by simp
  from scan_outcome [OF c(1) ad this kb vb len fuel, of "f del" s] show ?thesis
    using ad vlen unfolding table_in_def dead moved by (simp add: scanned_table_def Let_def clear_dead_def comp_def)
qed

lemma table_map_scanned:
  assumes "inj f" and "f 0 = 0" and "lives k" and "kvalid (eq_keys u del) k"
    and "length (bucket (t_values tbl)) = length (bucket (t_keys tbl))"
  shows "table_map (eq_keys (f u) (f del)) (scanned_table lives f del tbl) (f k) = table_map (eq_keys u del) tbl k"
proof (cases "key_slot (eq_keys u del) (bucket (t_keys tbl)) k")
  case (Some i)
  then have i: "i < length (bucket (t_keys tbl))" "bucket (t_keys tbl) ! i = k"
    by (auto simp: key_slot_def find_Some_iff eq_keys_def)
  with Some assms(3,5) show ?thesis
    by (simp add: table_map_def scanned_table_def Let_def key_slot_moved [OF assms(1,2)] key_slot_clear_dead [where lives = lives, OF assms(3,4)])
next
  case None
  then show ?thesis
    by (simp add: table_map_def scanned_table_def Let_def key_slot_moved [OF assms(1,2)] key_slot_clear_dead [where lives = lives, OF assms(3,4)])
qed

lemma table_ok_values:
  "table_ok env K L n tbl \<Longrightarrow> length (bucket vs) = 2 ^ n \<Longrightarrow> table_ok env K L n (tbl\<lparr>t_values := vs\<rparr>)"
  by (simp add: table_ok_def)

lemma table_ok_scanned:
  assumes f: "inj f" "f 0 = 0" and ids: "u \<noteq> del" "lives u" "lives del"
    and ok: "table_ok (eq_env ld_add reset isstale u del ans) (eq_keys u del) L n tbl"
    and gc: "collected f L L' isstale isstale' (t_ld tbl)"
  shows "table_ok (eq_env ld_add reset' isstale' (f u) (f del) ans') (eq_keys (f u) (f del)) L' n (scanned_table lives f del tbl)"
proof -
  let ?ks = "bucket (t_keys tbl)" and ?s = "scanned_table lives f del tbl"
  let ?c = "length (filter (\<lambda>p. \<not> lives p) ?ks)"
  define tbl1 where "tbl1 = tbl\<lparr>t_keys := (t_keys tbl)\<lparr>b_deleted := count_up ?c (b_deleted (t_keys tbl)), bucket := clear_dead lives del ?ks\<rparr>,
      t_values := t_values tbl\<rparr>"
  have "length (bucket (t_values tbl)) = 2 ^ n" using ok by (simp add: table_ok_def)
  then have ok1: "table_ok (eq_env ld_add reset isstale u del ans) (eq_keys u del) L n tbl1"
    by (rule table_ok_clear_dead [OF ok ids tbl1_def])
  have "t_ld tbl1 = t_ld tbl" by (simp add: tbl1_def)
  with gc have "collected f L L' isstale isstale' (t_ld tbl1)" by simp
  note moved = table_ok_moved [OF f ok1 this, of reset' ans']
  have "length (bucket (t_values ?s)) = 2 ^ n"
    using ok by (simp add: table_ok_def keys_ok_def scanned_table_def Let_def)
  with moved have "table_ok (eq_env ld_add reset' isstale' (f u) (f del) ans') (eq_keys (f u) (f del)) L' n
      ((move_table f tbl1)\<lparr>t_values := t_values ?s\<rparr>)"
    by (rule table_ok_values)
  moreover have "(move_table f tbl1)\<lparr>t_values := t_values ?s\<rparr> = ?s"
    by (simp add: scanned_table_def Let_def tbl1_def move_table_def move_buckets_def)
  ultimately show ?thesis by simp
qed

text \<open>
  C8: A weak table across a collection, in which the two bucket objects live and stay where they
  are (the table refers to both, and their pool does not move its objects).  When the scanner has
  fixed the keys of a table keyed by addresses, with dead keys cleared and live ones moved, the words of its two bucket objects are a
  table that keeps the invariant, its counts included; looking up a key that lives, at its new
  address, finds the value it had, and no other object was touched.
\<close>

theorem weak_scan_keeps_table:
  assumes "eq_table ld_add reset' isstale' L' (f u) (f del)" and "u \<noteq> del"
    and "table_ok (eq_env ld_add reset isstale u del ans) (eq_keys u del) L n tbl"
    and "table_in h a d tbl" and "b_length (t_values tbl) = b_length (t_keys tbl)"
    and "collecting fx w lives f u del d" and "collected f L L' isstale isstale' (t_ld tbl)"
    and "lives k" and "kvalid (eq_keys u del) k"
  shows "\<exists>h' tbl'. scan_buckets fx (f del) a s h = Inr (0, s, h') \<and> table_in h' a d tbl' \<and> t_ld tbl' = t_ld tbl \<and>
    table_ok (eq_env ld_add reset' isstale' (f u) (f del) ans') (eq_keys (f u) (f del)) L' n tbl' \<and>
    (\<forall>x. x \<noteq> a \<longrightarrow> x \<noteq> d \<longrightarrow> h' x = h x) \<and>
    ((\<exists>e. managed_obj_metadata_table_ref (eq_env ld_add reset' isstale' (f u) (f del) ans') tbl' (f k) m = Inl e \<and>
        out_of_memory (eq_env ld_add reset' isstale' (f u) (f del) ans') e) \<or>
     (\<exists>tbl2 m'. managed_obj_metadata_table_ref (eq_env ld_add reset' isstale' (f u) (f del) ans') tbl' (f k) m =
        Inr (case table_map (eq_keys u del) tbl k of None \<Rightarrow> 0 | Some v \<Rightarrow> v, tbl2, m')))"
proof -
  have f: "inj f" "f 0 = 0" and ids: "lives u" "lives del" using assms(6) by (simp_all add: collecting_def)
  let ?t = "scanned_table lives f del tbl"
  note ok = table_ok_scanned [OF f assms(2) ids assms(3,7), of reset' ans']
  have tk: "table_keys (eq_env ld_add reset' isstale' (f u) (f del) ans') (eq_keys (f u) (f del)) L'"
    using assms(1) by (rule eq_table.table_keys)
  have valid: "kvalid (eq_keys (f u) (f del)) (f k)" using assms(9) eq_keys_moved [OF f] by blast
  have "length (bucket (t_values tbl)) = length (bucket (t_keys tbl))" using assms(3) by (simp add: table_ok_def keys_ok_def)
  note map = table_map_scanned [where lives = lives and f = f, OF f assms(8,9) this]
  have ld: "t_ld ?t = t_ld tbl" by (simp add: scanned_table_def Let_def)
  from scan_table [OF assms(6,4,3,5), of s] obtain h' where
    h': "scan_buckets fx (f del) a s h = Inr (0, s, h')" "table_in h' a d ?t" "\<forall>x. x \<noteq> a \<longrightarrow> x \<noteq> d \<longrightarrow> h' x = h x"
    by blast
  from table_keys.table_ref_outcome [OF tk ok valid, of m] show ?thesis
    unfolding map using h' ld ok by (intro exI [of _ h'] exI [of _ ?t]) blast
qed

text \<open>
  A table of two keys: one lives and is moved, the other is dead.  The bucket objects are condemned
  with them.
\<close>

definition weak_table :: "epoch_dep hashtable" where
  "weak_table = \<lparr>t_type = MANAGED_OBJECT_TYPE_METADATA_HASH_TABLE,
     t_keys = \<lparr>b_length = tag_of (2 ^ 1), b_used = tag_of 2, b_deleted = tag_of 0, bucket = [12288, 16384]\<rparr>,
     t_values = \<lparr>b_length = tag_of (2 ^ 1), b_used = tag_of 0, b_deleted = tag_of 0, bucket = [7, 9]\<rparr>,
     t_ld = (0, [])\<rparr>"

definition weak_table_heap :: heap where
  "weak_table_heap =
     [64 \<mapsto> \<lparr>otype = MANAGED_OBJECT_TYPE_METADATA_HASH_TABLE_BUCKET, opinned = False,
            owords = [128, tag_of (2 ^ 1), tag_of 2, tag_of 0, 12288, 16384]\<rparr>,
      128 \<mapsto> \<lparr>otype = MANAGED_OBJECT_TYPE_METADATA_HASH_TABLE_BUCKET, opinned = False,
            owords = [64, tag_of (2 ^ 1), tag_of 0, tag_of 0, 7, 9]\<rparr>]"

definition collect_fix :: "unit mps_fix" where
  "collect_fix = \<lparr>fix1 = \<lambda>s p. (p = 64 \<or> p = 128 \<or> p \<ge> 12288, s), fix2 = \<lambda>s p. (0, s, if p \<noteq> 16384 then swap_key p else 0),
     call_scanner = \<lambda>f s p. (0, s)\<rparr>"

lemma weak_table_ok: "table_ok (sample_env 1) sample_keys (epoch_dep 1) 1 weak_table"
proof -
  have two_keys: "tag_of (Suc (Suc 0)) = tag_of 2" by (simp only: numeral_2_eq_2)
  have two: "i < 2 ^ 1 \<longleftrightarrow> i = 0 \<or> i = 1" for i :: nat by auto
  show ?thesis
    unfolding table_ok_def keys_ok_def placed_def watched_def two
    by (auto simp: weak_table_def counts_ok_def used_in_def deleted_in_def sample_env_def eq_env_def eq_keys_def
      epoch_stale_def two_keys)
qed

lemma weak_scan_keeps_table_witness:
  "\<forall>m. \<exists>h' tbl' tbl2 m'. scan_buckets collect_fix 4128 64 () weak_table_heap = Inr (0, (), h') \<and> table_in h' 64 128 tbl' \<and>
    managed_obj_metadata_table_ref (sample_env 2) tbl' 20480 m = Inr (7, tbl2, m')"
proof (intro allI, goal_cases)
  case (1 m)
  have swap: "swap_key 4096 = 4096" "swap_key 4128 = 4128" "swap_key 12288 = 20480" "swap_key 0 = 0"
    by (simp_all add: swap_key_def)
  have inj: "inj swap_key" by (rule injI) (auto simp: swap_key_def split: if_splits)
  have heap: "table_in weak_table_heap 64 128 weak_table"
    by (simp add: table_in_def bkt_def weak_table_heap_def weak_table_def)
  have fx: "collecting collect_fix (\<lambda>p. p = 64 \<or> p = 128 \<or> p \<ge> 12288) (\<lambda>p. p \<noteq> 16384) swap_key 4096 4128 128"
    using inj swap(4) by (auto simp: collecting_def fixes_by_def collect_fix_def swap_key_def)
  have gc: "collected swap_key (epoch_dep 1) (epoch_dep 2) (epoch_stale 1) (epoch_stale 2) (t_ld weak_table)"
    by (simp add: collected_def epoch_stale_def epoch_dep_def weak_table_def)
  have val: "table_map sample_keys weak_table 12288 = Some 7"
    by (simp add: table_map_def key_slot_def weak_table_def eq_keys_def)
  have len: "b_length (t_values weak_table) = b_length (t_keys weak_table)" by (simp add: weak_table_def)
  have eq: "eq_table epoch_add (2, []) (epoch_stale 2) (epoch_dep 2) (swap_key 4096) (swap_key 4128)"
    unfolding swap by (rule epoch.eq_table_axioms)
  have ids: "(4096 :: addr) \<noteq> 4128" by simp
  from weak_scan_keeps_table [OF eq ids weak_table_ok [unfolded sample_env_def] heap len fx gc _ sample_valid,
      of "()" "\<lambda>_. [(Some 8192, True)]" m] sample_memory [of 2]
  show ?case unfolding swap val sample_env_def [symmetric] by auto
qed

end
