(* ===== verification/MetaIntern.thy ===== *)
theory MetaIntern
  imports MetaMove
begin

text \<open>
  Interning: a table that maps each string to one string object with its contents, the symbol.
  Equal strings give the same symbol, however many string objects there are.
\<close>

section \<open>What a symbol table stands for\<close>

text \<open>The symbol of the strings with the contents \<open>c\<close>.\<close>

definition symbol_of :: "strings \<Rightarrow> 'ld hashtable \<Rightarrow> byte list \<Rightarrow> addr option" where
  "symbol_of strs tbl c = map_option (\<lambda>i. bucket (t_values tbl) ! i)
     (List.find (\<lambda>i. case strs (bucket (t_keys tbl) ! i) of
           None \<Rightarrow> False
         | Some s \<Rightarrow> bucket (t_keys tbl) ! i \<noteq> 0 \<and> wf_string s \<and> c_string (s_chars s) = c)
       [0..<length (bucket (t_keys tbl))])"

definition symbols_ok :: "strings \<Rightarrow> 'ld hashtable \<Rightarrow> bool" where
  "symbols_ok strs tbl \<longleftrightarrow> (\<forall>x v. kvalid (string_keys strs) x \<and> table_map (string_keys strs) tbl x = Some v \<longrightarrow>
     kvalid (string_keys strs) v \<and> strs v = strs x)"

lemma wf_string_inj:
  assumes "wf_string s" and "wf_string t" and "c_string (s_chars s) = c_string (s_chars t)"
  shows "s = t"
proof -
  have nul: "0 \<in> set (s_chars s)" "0 \<in> set (s_chars t)"
    using assms(1,2) by (auto simp: wf_string_def intro!: c_string_terminated)
  have "s_length s = s_length t" using assms by (simp add: wf_string_def word_unat_eq_iff)
  with c_strcmp_terminated [OF nul] assms(3) wf_string_eq [OF assms(1,2)] show ?thesis by auto
qed

lemma symbol_of_map:
  assumes "kvalid (string_keys strs) x" and "strs x = Some s"
  shows "symbol_of strs tbl (c_string (s_chars s)) = table_map (string_keys strs) tbl x"
proof -
  have wf: "wf_string s" using assms by (simp add: string_keys_def)
  have "(case strs k of None \<Rightarrow> False | Some t \<Rightarrow> k \<noteq> 0 \<and> wf_string t \<and> c_string (s_chars t) = c_string (s_chars s)) \<longleftrightarrow>
      kvalid (string_keys strs) k \<and> ksame (string_keys strs) k x" for k
    using wf_string_inj [OF _ wf] assms(2) wf by (auto simp: string_keys_def split: option.splits)
  then show ?thesis by (simp add: symbol_of_def table_map_def key_slot_def)
qed

lemma symbol_of_key:
  assumes "symbol_of strs tbl c = Some v"
  shows "\<exists>x s. kvalid (string_keys strs) x \<and> strs x = Some s \<and> c_string (s_chars s) = c"
  using assms by (auto simp: symbol_of_def find_Some_iff string_keys_def split: option.splits)

section \<open>A new string\<close>

lemma make_string_outcome:
  assumes "0 \<in> set str" and "length (c_string str) < 2 ^ 63"
  shows "(\<exists>f. managed_obj_metadata_make_string env (of_nat (length (c_string str))) (Some str) strs m = Inl f \<and>
      out_of_memory env f) \<or>
    (\<exists>a s m'. managed_obj_metadata_make_string env (of_nat (length (c_string str))) (Some str) strs m =
        Inr (a, strs(a \<mapsto> s), m') \<and> wf_string s \<and> c_string (s_chars s) = c_string str \<and>
      (\<exists>i. reserve_commit (answers env i) = Inr a))"
proof -
  let ?n = "length (c_string str)" and ?len = "of_nat (length (c_string str)) :: size_t"
  have len: "unat ?len = ?n" using assms(2) by (simp add: unat_of_nat)
  have more: "?n < length str"
  proof -
    have "c_string str \<noteq> str" using assms(1) by (auto simp: c_string_def takeWhile_eq_all_conv)
    then show ?thesis using c_string_take [of str] by (metis leI take_all)
  qed
  have zero: "str ! ?n = 0"
    using nth_length_takeWhile [of "\<lambda>c. c \<noteq> 0" str] more by (simp add: c_string_def)
  have chars: "take (?n + 1) str = c_string str @ [0]"
    using more zero c_string_take [of str] by (simp add: take_Suc_conv_app_nth)
  have cs: "c_string (c_string str @ [0]) = c_string str"
    unfolding c_string_def by (subst takeWhile_append2) (auto dest: set_takeWhileD)
  let ?s = "\<lparr>s_length = ?len, s_chars = c_string str @ [0]\<rparr>"
  have wf: "wf_string ?s" using len cs by (simp add: wf_string_def)
  let ?al = "MANAGED_OBJECT_ALIGN_OBJ (offsetof_string + ?len + 1)"
  have fits: "\<not> 2 ^ 64 \<le> unat offsetof_string + unat ?len + 1 + 7"
    using assms(2) unfolding len by (simp add: offsetof_string_def)
  have eq: "managed_obj_metadata_make_string env ?len (Some str) strs m =
      andthen (ask env sizeof_string ?al m) (\<lambda>(a, m1). Inr (a, strs(a \<mapsto> ?s), m1))"
    unfolding managed_obj_metadata_make_string_def if_not_P [OF fits] using more chars len by simp
  from ask_outcome [of env sizeof_string ?al m] show ?thesis
  proof (elim disjE exE conjE)
    fix a m' assume a: "ask env sizeof_string ?al m = Inr (a, m')"
    then have "reserve_commit (answers env (asked m)) = Inr a"
      by (cases "reserve_commit (answers env (asked m))") (auto simp: ask_def)
    with a wf cs show ?thesis unfolding eq by (intro disjI2 exI [of _ a] exI [of _ ?s] exI [of _ m']) auto
  next
    fix f assume "ask env sizeof_string ?al m = Inl f" "out_of_memory env f"
    then show ?thesis unfolding eq by simp
  qed
qed

context string_table
begin

text \<open>One more string object changes nothing for the table.\<close>

lemma new_string_laws:
  "a \<noteq> u \<Longrightarrow> a \<noteq> d \<Longrightarrow> string_table (strs(a \<mapsto> s)) isstale u d"
  using ids never_stale by unfold_locales auto

lemma table_keys_known:
  assumes "table_ok (string_env strs reset isstale u d ans) (string_keys strs) string_dep n tbl"
    and "i < 2 ^ n" and "strs a = None" and "a \<noteq> u" and "a \<noteq> d"
  shows "bucket (t_keys tbl) ! i \<noteq> a"
proof -
  have "bucket (t_keys tbl) ! i = u \<or> bucket (t_keys tbl) ! i = d \<or> kvalid (string_keys strs) (bucket (t_keys tbl) ! i)"
    using assms(1,2) by (auto simp: table_ok_def keys_ok_def string_env_def)
  then show ?thesis using assms(3-5) by (auto elim: string_valid)
qed

lemma key_in_place:
  assumes "table_ok (string_env strs reset isstale u d ans) (string_keys strs) string_dep n tbl"
    and "i < 2 ^ n" and "kvalid (string_keys strs) (bucket (t_keys tbl) ! i)"
  shows "chain u n (bucket (t_keys tbl)) (khash (string_keys strs) (bucket (t_keys tbl) ! i)) i"
  using assms sk.same_refl [OF assms(3)] never_stale unfolding table_ok_def placed_def
  by (auto simp: string_env_def)

lemma new_string_table:
  assumes ok: "table_ok (string_env strs reset isstale u d ans) (string_keys strs) string_dep n tbl"
    and a: "strs a = None" "a \<noteq> u" "a \<noteq> d"
  shows "table_ok (string_env (strs(a \<mapsto> s)) reset isstale u d ans) (string_keys (strs(a \<mapsto> s))) string_dep n tbl"
proof -
  let ?ks = "bucket (t_keys tbl)" and ?strs = "strs(a \<mapsto> s)"
  have len: "length ?ks = 2 ^ n" using ok by (simp add: table_ok_def keys_ok_def)
  have known: "?ks ! i \<noteq> a" if "i < 2 ^ n" for i using table_keys_known [OF ok that a] .
  have valid: "kvalid (string_keys ?strs) (?ks ! i) \<longleftrightarrow> kvalid (string_keys strs) (?ks ! i)"
    and hash: "khash (string_keys ?strs) (?ks ! i) = khash (string_keys strs) (?ks ! i)" if "i < 2 ^ n" for i
    using known [OF that] by (simp_all add: string_keys_def)
  have same: "ksame (string_keys ?strs) (?ks ! i) (?ks ! j) \<longleftrightarrow> ksame (string_keys strs) (?ks ! i) (?ks ! j)"
    if "i < 2 ^ n" "j < 2 ^ n" for i j
    using known [OF that(1)] known [OF that(2)] by (simp add: string_keys_def)
  have "keys_ok (string_env ?strs reset isstale u d ans) (string_keys ?strs) n ?ks"
    using ok valid same unfolding table_ok_def keys_ok_def by (simp add: string_env_def)
  moreover have "placed (string_env ?strs reset isstale u d ans) (string_keys ?strs) n (t_ld tbl) ?ks"
    unfolding placed_def using key_in_place [OF ok] valid hash by (simp add: string_env_def)
  moreover have "watched (string_env ?strs reset isstale u d ans) (string_keys ?strs) string_dep n (t_ld tbl) ?ks"
    by (simp add: watched_def string_dep_def)
  moreover have "counts_ok (string_env ?strs reset isstale u d ans) n (t_keys tbl)"
    using ok by (simp add: table_ok_def counts_ok_def used_in_def deleted_in_def string_env_def)
  ultimately show ?thesis using ok by (simp add: table_ok_def)
qed

lemma new_string_symbols:
  assumes ok: "table_ok (string_env strs reset isstale u d ans) (string_keys strs) string_dep n tbl"
    and a: "strs a = None" "a \<noteq> u" "a \<noteq> d"
  shows "symbol_of (strs(a \<mapsto> s)) tbl c = symbol_of strs tbl c"
proof -
  have len: "length (bucket (t_keys tbl)) = 2 ^ n" using ok by (simp add: table_ok_def keys_ok_def)
  show ?thesis unfolding symbol_of_def
    by (rule arg_cong [where f = "map_option _"], rule find_cong) (use table_keys_known [OF ok _ a] len in auto)
qed

section \<open>Interning a string object\<close>

lemma intern_string_outcome:
  assumes ok: "table_ok (string_env strs reset isstale u d ans) (string_keys strs) string_dep n tbl"
    and syms: "symbols_ok strs tbl" and name: "kvalid (string_keys strs) name" and n: "Suc n < 60"
  shows "(\<exists>f. managed_obj_metadata_intern_string strs (string_env strs reset isstale u d ans) tbl name m = Inl f \<and>
      out_of_memory (string_env strs reset isstale u d ans) f) \<or>
    (\<exists>symb n' tbl' m'. managed_obj_metadata_intern_string strs (string_env strs reset isstale u d ans) tbl name m = Inr (symb, tbl', m') \<and>
      table_ok (string_env strs reset isstale u d ans) (string_keys strs) string_dep n' tbl' \<and> (n' = n \<or> n' = Suc n) \<and>
      symb = (case table_map (string_keys strs) tbl name of None \<Rightarrow> name | Some v \<Rightarrow> v) \<and> symbols_ok strs tbl' \<and>
      (\<forall>x. kvalid (string_keys strs) x \<longrightarrow>
        table_map (string_keys strs) tbl' x = (if strs x = strs name then Some symb else table_map (string_keys strs) tbl x)))"
  (is "?oom \<or> ?good")
proof -
  let ?e = "string_env strs reset isstale u d ans" and ?K = "string_keys strs"
  have same: "ksame ?K x y \<longleftrightarrow> strs x = strs y" for x y by (simp add: string_keys_def)
  obtain s where type: "strs name = Some s" using name by (rule string_valid)
  from sk.table_ref_outcome [OF ok name, of m] consider
    (oom) f where "managed_obj_metadata_table_ref ?e tbl name m = Inl f" "out_of_memory ?e f"
    | (ref) t m1 where "managed_obj_metadata_table_ref ?e tbl name m =
        Inr (case table_map ?K tbl name of None \<Rightarrow> 0 | Some v \<Rightarrow> v, t, m1)" "sk.same_table n tbl t"
    by blast
  then show ?thesis
  proof cases
    case oom
    then show ?thesis using type by (simp add: managed_obj_metadata_intern_string_def)
  next
    case (ref t m1)
    note st = sk.same_tableD [OF ref(2)]
    have syms_t: "symbols_ok strs t" using syms st(2) by (auto simp: symbols_ok_def)
    show ?thesis
    proof (cases "table_map ?K tbl name")
      case (Some v)
      with syms name have v: "kvalid ?K v" by (auto simp: symbols_ok_def)
      then have "managed_obj_metadata_intern_string strs ?e tbl name m = Inr (v, t, m1)"
        using ref(1) Some type sk.not_null by (simp add: managed_obj_metadata_intern_string_def)
      moreover have "table_map ?K t x = (if strs x = strs name then Some v else table_map ?K tbl x)" if x: "kvalid ?K x" for x
      proof (cases "strs x = strs name")
        case True
        then show ?thesis
          using sk.key_slot_same [OF sk.table_okD(2) [OF ok] x name] Some st(2) [OF x] by (simp add: table_map_def same)
      qed (use st(2) [OF x] in simp)
      ultimately show ?thesis using st(1) syms_t Some by auto
    next
      case None
      have eq: "managed_obj_metadata_intern_string strs ?e tbl name m =
          andthen (managed_obj_metadata_table_set ?e t name name m1) (\<lambda>(tbl2, m2). Inr (name, tbl2, m2))"
        using ref(1) None type by (simp add: managed_obj_metadata_intern_string_def)
      from sk.table_set_outcome [OF st(1) name n, of name m1] show ?thesis
      proof (elim disjE exE conjE)
        fix f assume "managed_obj_metadata_table_set ?e t name name m1 = Inl f" "out_of_memory ?e f"
        then show ?thesis unfolding eq by simp
      next
        have fin: ?thesis if "managed_obj_metadata_table_set ?e t name name m1 = Inr (t2, m2)" "sk.stored n' t name name t2"
          "n' = n \<or> n' = Suc n" for n' t2 m2
        proof -
          have map: "table_map ?K t2 x = (if strs x = strs name then Some name else table_map ?K tbl x)" if "kvalid ?K x" for x
            using \<open>sk.stored n' t name name t2\<close> that st(2) [OF that] by (auto simp: sk.stored_def same)
          then have "symbols_ok strs t2" using syms name by (auto simp: symbols_ok_def split: if_splits)
          with that map None show ?thesis unfolding eq by (auto simp: sk.stored_def)
        qed
        fix n' t2 m2
        assume r: "managed_obj_metadata_table_set ?e t name name m1 = Inr (t2, m2)" "sk.stored n' t name name t2"
        {
          assume "n' = n"
          with fin r show ?thesis by blast
        next
          assume "n' = Suc n"
          with fin r show ?thesis by blast
        next
          assume "n' = Suc n"
          with fin r show ?thesis by blast
        }
      qed
    qed
  qed
qed

lemma symbols_ok_new_string:
  assumes ok: "table_ok (string_env strs reset isstale u d ans) (string_keys strs) string_dep n tbl"
    and syms: "symbols_ok strs tbl" and a: "strs a = None" "a \<noteq> u" "a \<noteq> d"
  shows "symbols_ok (strs(a \<mapsto> s)) tbl"
  unfolding symbols_ok_def
proof (intro allI impI, elim conjE)
  let ?strs = "strs(a \<mapsto> s)"
  fix x v assume x: "kvalid (string_keys ?strs) x" and v: "table_map (string_keys ?strs) tbl x = Some v"
  from x obtain t where t: "?strs x = Some t" "wf_string t" by (rule string_valid)
  have "symbol_of strs tbl (c_string (s_chars t)) = Some v"
    using symbol_of_map [OF x t(1), of tbl] v new_string_symbols [OF ok a, of s] by (simp only:)
  moreover from symbol_of_key [OF this] obtain y t' where
    y: "kvalid (string_keys strs) y" "strs y = Some t'" "c_string (s_chars t') = c_string (s_chars t)" by blast
  ultimately have "table_map (string_keys strs) tbl y = Some v" using symbol_of_map [OF y(1,2)] by metis
  with syms y(1) have sv: "kvalid (string_keys strs) v" "strs v = strs y" by (auto simp: symbols_ok_def)
  have "wf_string t'" using y(1,2) by (simp add: string_keys_def)
  then have "t' = t" using t(2) y(3) by (rule wf_string_inj)
  moreover have "v \<noteq> a" using sv(2) y(2) a(1) by auto
  ultimately show "kvalid (string_keys ?strs) v \<and> ?strs v = ?strs x"
    using sv y(2) t(1) by (simp add: string_keys_def)
qed

end

lemma symbol_of_set:
  assumes "kvalid (string_keys strs) name" and "strs name = Some s"
    and "\<forall>x. kvalid (string_keys strs) x \<longrightarrow>
      table_map (string_keys strs) tbl' x = (if strs x = strs name then Some symb else table_map (string_keys strs) tbl x)"
  shows "symbol_of strs tbl' c = (if c = c_string (s_chars s) then Some symb else symbol_of strs tbl c)"
proof (cases "\<exists>x t. kvalid (string_keys strs) x \<and> strs x = Some t \<and> c_string (s_chars t) = c")
  case True
  then obtain x t where x: "kvalid (string_keys strs) x" "strs x = Some t" "c_string (s_chars t) = c" by blast
  have "wf_string t" "wf_string s" using x(1,2) assms(1,2) by (simp_all add: string_keys_def)
  from wf_string_inj [OF this] x(3) have "strs x = strs name \<longleftrightarrow> c = c_string (s_chars s)"
    using x(2) assms(2) by auto
  with symbol_of_map [OF x(1,2), of tbl'] symbol_of_map [OF x(1,2), of tbl] assms(3) x(1,3) show ?thesis by simp
next
  case False
  have "symbol_of strs tbl c = None"
    using False symbol_of_key [of strs tbl c] by (cases "symbol_of strs tbl c") blast+
  moreover have "symbol_of strs tbl' c = None"
    using False symbol_of_key [of strs tbl' c] by (cases "symbol_of strs tbl' c") blast+
  moreover have "c \<noteq> c_string (s_chars s)" using False assms(1,2) by blast
  ultimately show ?thesis by simp
qed

section \<open>Interning a C string\<close>

lemma out_of_memory_strings:
  "out_of_memory (string_env ss reset isstale u d ans) f \<longleftrightarrow> out_of_memory (string_env strs reset isstale u d ans) f"
  by (simp add: out_of_memory_def string_env_def)

context string_table
begin

text \<open>The new string object is entered, unless there is a symbol for its contents.\<close>

lemma intern_new_string:
  assumes ok: "table_ok (string_env strs reset isstale u d ans) (string_keys strs) string_dep n tbl"
    and syms: "symbols_ok strs tbl" and a: "strs a = None" "a \<noteq> u" "a \<noteq> d" "a \<noteq> 0" and s: "wf_string s"
    and n: "Suc n < 60" and strs': "strs' = strs(a \<mapsto> s)"
  shows "(\<exists>f. managed_obj_metadata_intern_string strs' (string_env strs' reset isstale u d ans) tbl a m = Inl f \<and>
      out_of_memory (string_env strs reset isstale u d ans) f) \<or>
    (\<exists>symb n' tbl' m'.
      managed_obj_metadata_intern_string strs' (string_env strs' reset isstale u d ans) tbl a m = Inr (symb, tbl', m') \<and>
      table_ok (string_env strs' reset isstale u d ans) (string_keys strs') string_dep n' tbl' \<and> symbols_ok strs' tbl' \<and>
      (\<forall>c. symbol_of strs' tbl' c = (if c = c_string (s_chars s) then Some symb else symbol_of strs tbl c)) \<and>
      (case symbol_of strs tbl (c_string (s_chars s)) of None \<Rightarrow> strs symb = None | Some v \<Rightarrow> symb = v))"
proof -
  have valid: "kvalid (string_keys strs') a" using a(4) s by (simp add: string_keys_def strs')
  have here: "strs' a = Some s" by (simp add: strs')
  have same: "symbol_of strs' tbl c = symbol_of strs tbl c" for c
    unfolding strs' by (rule new_string_symbols [OF ok a(1-3)])
  have map: "table_map (string_keys strs') tbl a = symbol_of strs tbl (c_string (s_chars s))"
    using symbol_of_map [OF valid here, of tbl] same by simp
  from string_table.intern_string_outcome [OF new_string_laws [OF a(2,3), of s] new_string_table [OF ok a(1-3), of s]
      symbols_ok_new_string [OF ok syms a(1-3), of s], folded strs', OF valid n, of m]
  consider f where "managed_obj_metadata_intern_string strs' (string_env strs' reset isstale u d ans) tbl a m = Inl f"
      "out_of_memory (string_env strs' reset isstale u d ans) f"
    | symb n' tbl' m' where
      "managed_obj_metadata_intern_string strs' (string_env strs' reset isstale u d ans) tbl a m = Inr (symb, tbl', m')"
      "table_ok (string_env strs' reset isstale u d ans) (string_keys strs') string_dep n' tbl'" "symbols_ok strs' tbl'"
      "symb = (case table_map (string_keys strs') tbl a of None \<Rightarrow> a | Some v \<Rightarrow> v)"
      "\<forall>x. kvalid (string_keys strs') x \<longrightarrow> table_map (string_keys strs') tbl' x =
        (if strs' x = strs' a then Some symb else table_map (string_keys strs') tbl x)"
    by blast
  then show ?thesis
  proof cases
    case 1
    from 1(2) have "out_of_memory (string_env strs reset isstale u d ans) f" by (rule out_of_memory_strings [THEN iffD1])
    with 1(1) show ?thesis by blast
  next
    case 2
    have "symbol_of strs' tbl' c = (if c = c_string (s_chars s) then Some symb else symbol_of strs tbl c)" for c
      using symbol_of_set [OF valid here 2(5)] same by simp
    moreover have "case symbol_of strs tbl (c_string (s_chars s)) of None \<Rightarrow> strs symb = None | Some v \<Rightarrow> symb = v"
      using 2(4) a(1) unfolding map by (simp split: option.split)
    ultimately show ?thesis using 2(1-3) by blast
  qed
qed

end

text \<open>
  C12: Interning a C string gives the symbol with its contents: the one the table already has, or
  the new string object, which is then the symbol of these contents and of no others.  The
  symbols of all other contents stay, and so do all strings; so equal strings always give the
  same symbol.
\<close>

theorem intern_correct:
  assumes "string_table strs isstale u d"
    and "table_ok (string_env strs reset isstale u d ans) (string_keys strs) string_dep n tbl" and "symbols_ok strs tbl"
    and "0 \<in> set str" and "length (c_string str) < 2 ^ 63" and "Suc n < 60"
    and "\<forall>i a. reserve_commit (ans i) = Inr a \<longrightarrow> strs a = None \<and> a \<noteq> 0 \<and> a \<noteq> u \<and> a \<noteq> d"
  shows "(\<exists>f. managed_obj_metadata_intern (\<lambda>ss. string_env ss reset isstale u d ans) strs tbl str m = Inl f \<and>
      out_of_memory (string_env strs reset isstale u d ans) f) \<or>
    (\<exists>symb strs' n' tbl' m'.
      managed_obj_metadata_intern (\<lambda>ss. string_env ss reset isstale u d ans) strs tbl str m = Inr (symb, strs', tbl', m') \<and>
      table_ok (string_env strs' reset isstale u d ans) (string_keys strs') string_dep n' tbl' \<and>
      symbols_ok strs' tbl' \<and> strs \<subseteq>\<^sub>m strs' \<and>
      (\<forall>c. symbol_of strs' tbl' c = (if c = c_string str then Some symb else symbol_of strs tbl c)) \<and>
      (case symbol_of strs tbl (c_string str) of None \<Rightarrow> strs symb = None | Some v \<Rightarrow> symb = v))"
proof -
  let ?env = "\<lambda>ss. string_env ss reset isstale u d ans"
  from make_string_outcome [OF assms(4,5), of "?env strs" strs m] consider
    f where "managed_obj_metadata_make_string (?env strs) (of_nat (length (c_string str))) (Some str) strs m = Inl f"
      "out_of_memory (?env strs) f"
    | a s m1 i where "managed_obj_metadata_make_string (?env strs) (of_nat (length (c_string str))) (Some str) strs m =
        Inr (a, strs(a \<mapsto> s), m1)" "wf_string s" "c_string (s_chars s) = c_string str" "reserve_commit (answers (?env strs) i) = Inr a"
    by blast
  then show ?thesis
  proof cases
    case 1
    then show ?thesis using assms(4) by (simp add: managed_obj_metadata_intern_def)
  next
    case 2
    have a: "strs a = None" "a \<noteq> u" "a \<noteq> d" "a \<noteq> 0" using assms(7) 2(4) by (auto simp: string_env_def)
    have le: "strs \<subseteq>\<^sub>m strs(a \<mapsto> s)" using a(1) by (auto simp: map_le_def)
    have intern: "managed_obj_metadata_intern ?env strs tbl str m =
        andthen (managed_obj_metadata_intern_string (strs(a \<mapsto> s)) (?env (strs(a \<mapsto> s))) tbl a m1)
          (\<lambda>(symbol, tbl1, m2). Inr (symbol, strs(a \<mapsto> s), tbl1, m2))"
      using assms(4) 2(1) by (simp add: managed_obj_metadata_intern_def)
    from string_table.intern_new_string [OF assms(1-3) a 2(2) assms(6) refl, of m1] show ?thesis
      unfolding intern 2(3) using le by fastforce
  qed
qed

lemma intern_correct_witness:
  "\<forall>m. \<exists>symb strs' tbl' m'.
    managed_obj_metadata_intern (\<lambda>ss. string_env ss () (\<lambda>_ _. False) 4096 4128 (\<lambda>_. [(Some 8192, True)])) sample_strings
      (empty_table (string_env sample_strings () (\<lambda>_ _. False) 4096 4128 (\<lambda>_. [(Some 8192, True)])) 2) [98, 0] m =
      Inr (symb, strs', tbl', m') \<and>
    symbol_of strs' tbl' [98] = Some symb \<and> sample_strings symb = None"
proof (intro allI, goal_cases)
  case (1 m)
  let ?env = "string_env sample_strings () (\<lambda>_ _. False) 4096 4128 (\<lambda>_. [(Some 8192, True)])"
  note tk = letters.table_keys
  have ok: "table_ok ?env (string_keys sample_strings) string_dep 2 (empty_table ?env 2)"
    by (rule table_keys.unused_table_ok [OF tk]) simp
  have none: "table_map (string_keys sample_strings) (empty_table ?env 2) x = None" for x
    by (rule table_keys.fresh_table_map [OF tk])
  have syms: "symbols_ok sample_strings (empty_table ?env 2)" using none by (auto simp: symbols_ok_def)
  have c: "c_string [98, 0 :: byte] = [98]" by (simp add: c_string_def)
  have "symbol_of sample_strings (empty_table ?env 2) [98] = None"
  proof (cases "symbol_of sample_strings (empty_table ?env 2) [98]")
    case (Some v)
    then obtain x t where "kvalid (string_keys sample_strings) x" "sample_strings x = Some t" "c_string (s_chars t) = [98]"
      using symbol_of_key by blast
    with symbol_of_map [of sample_strings x t "empty_table ?env 2"] none Some show ?thesis by simp
  qed
  moreover have "\<not> out_of_memory ?env f" for f by (simp add: out_of_memory_def string_env_def)
  moreover have "\<forall>i a. reserve_commit [(Some 8192, True)] = Inr a \<longrightarrow>
      sample_strings a = None \<and> a \<noteq> 0 \<and> a \<noteq> 4096 \<and> a \<noteq> 4128"
    by (auto simp: sample_strings_def)
  moreover have "0 \<in> set [98, 0 :: byte]" "length [98 :: byte] < 2 ^ 63" by simp_all
  ultimately show ?case
    using intern_correct [OF letters.string_table_axioms ok syms, of "[98, 0]" m] unfolding c by fastforce
qed

section \<open>Equal strings and their hashes\<close>

text \<open>
  Strings without a NUL inside are equal exactly when their contents are, and equal strings
  have the same hash.  With a NUL inside, the comparison stops there but the hash does not: two
  strings can be equal and have different hashes.
\<close>

theorem equal_strings_equal_hash:
  assumes "x \<noteq> 0" and "y \<noteq> 0" and "strs x = Some s" and "strs y = Some t" and "wf_string s" and "wf_string t"
  shows "managed_obj_metadata_string_equalp strs x y = Inr (c_string (s_chars s) = c_string (s_chars t)) \<and>
    (c_string (s_chars s) = c_string (s_chars t) \<longrightarrow>
      managed_obj_metadata_string_hash strs x ld = managed_obj_metadata_string_hash strs y ld) \<and>
    (\<exists>strs x y. managed_obj_metadata_string_equalp strs x y = Inr True \<and>
      managed_obj_metadata_string_hash strs x ld \<noteq> managed_obj_metadata_string_hash strs y ld)"
proof (intro conjI impI)
  have "strs x = strs y \<longleftrightarrow> c_string (s_chars s) = c_string (s_chars t)"
    using assms wf_string_inj [of s t] by auto
  then show "managed_obj_metadata_string_equalp strs x y = Inr (c_string (s_chars s) = c_string (s_chars t))"
    using assms string_equalp_wf [of x y strs s t] by simp
  show "managed_obj_metadata_string_hash strs x ld = managed_obj_metadata_string_hash strs y ld"
    if "c_string (s_chars s) = c_string (s_chars t)"
    using assms that string_hash_wf [of x strs s ld] string_hash_wf [of y strs t ld] by simp
  let ?strs = "Map.empty(12288 \<mapsto> \<lparr>s_length = 2, s_chars = [0, 97, 0]\<rparr>, 12320 \<mapsto> \<lparr>s_length = 2, s_chars = [0, 98, 0]\<rparr>) :: strings"
  have different: "mh_ref 0 [0, 97] \<noteq> mh_ref 0 [0, 98]" by code_simp
  have "managed_obj_metadata_string_equalp ?strs 12288 12320 = Inr True"
    by (simp add: managed_obj_metadata_string_equalp_def)
  moreover have "managed_obj_metadata_string_hash ?strs 12288 ld \<noteq> managed_obj_metadata_string_hash ?strs 12320 ld"
    using different by (simp add: managed_obj_metadata_string_hash_def hash_value)
  ultimately show "\<exists>strs x y. managed_obj_metadata_string_equalp strs x y = Inr True \<and>
      managed_obj_metadata_string_hash strs x ld \<noteq> managed_obj_metadata_string_hash strs y ld"
    by blast
qed

lemma equal_strings_equal_hash_witness:
  "managed_obj_metadata_string_equalp sample_strings 12288 12320 = Inr True \<and>
    managed_obj_metadata_string_hash sample_strings 12288 (None :: unit option) = managed_obj_metadata_string_hash sample_strings 12320 None"
  using equal_strings_equal_hash [of 12288 12320 sample_strings "\<lparr>s_length = 1, s_chars = [97, 0]\<rparr>"
      "\<lparr>s_length = 1, s_chars = [97, 0]\<rparr>" "None :: unit option"]
  by (simp add: sample_strings_def wf_string_def c_string_def)

end
