(* ===== verification/IndexedStore.thy ===== *)
theory IndexedStore
  imports Prelude
begin

text \<open>
  The contract of a store that chooses the index of each value itself, as the page list and the
  memory of an object do: the new index stood for nothing, it stands for the value afterwards, and
  what other indices stand for stays.  What follows for a whole sequence of values is proved here once.
\<close>

primrec store_all :: "('v \<Rightarrow> 's \<Rightarrow> fault + 'i \<times> 's) \<Rightarrow> 'v list \<Rightarrow> 's \<Rightarrow> fault + 'i list \<times> 's" where
  "store_all store [] s = Inr ([], s)"
| "store_all store (v # vs) s =
     andthen (store v s) (\<lambda>(i, s1). andthen (store_all store vs s1) (\<lambda>(is, s2). Inr (i # is, s2)))"

text \<open>\<open>room n s\<close>: there is room for \<open>n\<close> more values.\<close>

locale indexed_store =
  fixes inv :: "'s \<Rightarrow> bool" and room :: "nat \<Rightarrow> 's \<Rightarrow> bool"
    and store :: "'v \<Rightarrow> 's \<Rightarrow> fault + 'i \<times> 's" and load :: "'s \<Rightarrow> 'i \<Rightarrow> 'v option"
  assumes store_law: "inv s \<Longrightarrow> room (Suc n) s \<Longrightarrow> \<exists>i s'. store v s = Inr (i, s') \<and> inv s' \<and> room n s' \<and>
    load s i = None \<and> load s' i = Some v \<and> (\<forall>j x. load s j = Some x \<longrightarrow> load s' j = Some x)"
begin

lemma store_all_loads:
  "inv s \<Longrightarrow> room (length vs) s \<Longrightarrow> \<exists>is s'. store_all store vs s = Inr (is, s') \<and> inv s' \<and>
    map (load s') is = map Some vs \<and> distinct is \<and> (\<forall>i \<in> set is. load s i = None) \<and>
    (\<forall>j x. load s j = Some x \<longrightarrow> load s' j = Some x)"
proof (induction vs arbitrary: s)
  case Nil
  then show ?case by simp
next
  case (Cons v vs)
  then have "room (Suc (length vs)) s" by simp
  from store_law [OF Cons.prems(1) this, of v] obtain i s1 where 1: "store v s = Inr (i, s1)" "inv s1" "room (length vs) s1"
    "load s i = None" "load s1 i = Some v" "\<forall>j x. load s j = Some x \<longrightarrow> load s1 j = Some x" by blast
  from Cons.IH [OF 1(2,3)] obtain js s2 where 2: "store_all store vs s1 = Inr (js, s2)" "inv s2"
    "map (load s2) js = map Some vs" "distinct js" "\<forall>j \<in> set js. load s1 j = None"
    "\<forall>j x. load s1 j = Some x \<longrightarrow> load s2 j = Some x" by blast
  have "i \<notin> set js" using 1(5) 2(5) by auto
  moreover have "\<forall>j \<in> set js. load s j = None" using 1(6) 2(5) by (metis not_Some_eq)
  ultimately show ?case using 1 2 by (intro exI [of _ "i # js"] exI [of _ s2]) simp
qed

end

end
