(* ===== verification/PageList.thy ===== *)
theory PageList
  imports Prelude IndexedStore
begin

text \<open>
  The page list (\<open>include/managed_object_pagelist.h\<close>): values in pages of a fixed number of
  slots; storing a value gives its index, over all pages, and the index is used to give the slot
  free again.  Pages that become empty are removed.

  The header is a template: what its code asks of the type of the values is in \<open>traits\<close>.  The
  answers to allocations are an argument; a failed allocation throws and nobody catches it.
\<close>

section \<open>Pages\<close>

text \<open>
  The value of a slot is an object that is constructed with the array, assigned, and destroyed
  when the slot is given free.
\<close>

datatype 'a content = Unwritten | Value 'a | Destroyed

record 'a slot =
  s_value :: "'a content"
  s_set :: bool

record 'a page =
  p_sets :: "'a slot list option"
  p_max :: size_t
  p_used :: size_t
  p_empty :: bool
  p_full :: bool

record traits =
  trivially_copyable :: bool
  trivially_destructible :: bool
  sizeof_slot :: nat
  offset_of_flag :: nat

definition new_slots :: "(size_t \<Rightarrow> bool) \<Rightarrow> size_t \<Rightarrow> fault + 'a slot list" where
  "new_slots mem n =
     (if mem n then Inr (replicate (unat n) \<lparr>s_value = Unwritten, s_set = False\<rparr>) else Inl Fatal_error)"

text \<open>Deleting an array destroys every value in it, a second time those that are destroyed.\<close>

definition delete_slots :: "traits \<Rightarrow> 'a slot list \<Rightarrow> fault + unit" where
  "delete_slots tr cs =
     (if \<not> trivially_destructible tr \<and> (\<exists>c \<in> set cs. s_value c = Destroyed) then Inl Undefined_behaviour else Inr ())"

text \<open>
  What \<open>memcpy\<close> of a number of bytes copies: a slot whose flag is among them is copied, as the
  value comes before the flag; one that is cut in its value has no value any more.
\<close>

definition copy_slots :: "traits \<Rightarrow> nat \<Rightarrow> 'a slot list \<Rightarrow> 'a slot list \<Rightarrow> 'a slot list" where
  "copy_slots tr bytes old new = map (\<lambda>i.
     if i * sizeof_slot tr + offset_of_flag tr < bytes then old ! i
     else if i * sizeof_slot tr < bytes then (new ! i)\<lparr>s_value := Unwritten\<rparr>
     else new ! i) [0..<length new]"

text \<open>Moving the first slots, one by one.\<close>

definition move_slots :: "nat \<Rightarrow> 'a slot list \<Rightarrow> 'a slot list \<Rightarrow> fault + 'a slot list" where
  "move_slots n old new =
     (if \<exists>c \<in> set (take n old). s_value c = Destroyed then Inl Undefined_behaviour
      else Inr (take n old @ drop n new))"

text \<open>The counters after the array was replaced by a shorter, or by a longer one.\<close>

definition shrunk :: "size_t \<Rightarrow> 'a page \<Rightarrow> 'a page" where
  "shrunk s p = (if p_used p \<ge> s then p\<lparr>p_max := s, p_used := s, p_full := True\<rparr> else p\<lparr>p_max := s\<rparr>)"

definition grown :: "size_t \<Rightarrow> 'a page \<Rightarrow> 'a page" where
  "grown s p = p\<lparr>p_max := s, p_full := False\<rparr>"

definition page_resize :: "traits \<Rightarrow> (size_t \<Rightarrow> bool) \<Rightarrow> size_t \<Rightarrow> 'a page \<Rightarrow> fault + 'a page" where
  "page_resize tr mem s p =
     (if s = 0
      then andthen (case p_sets p of None \<Rightarrow> Inr () | Some cs \<Rightarrow> delete_slots tr cs) (\<lambda>_.
             Inr \<lparr>p_sets = None, p_max = s, p_used = 0, p_empty = True, p_full = False\<rparr>)
      else case p_sets p of
             None \<Rightarrow> andthen (new_slots mem s) (\<lambda>cs.
               Inr \<lparr>p_sets = Some cs, p_max = s, p_used = 0, p_empty = True, p_full = False\<rparr>)
           | Some cs \<Rightarrow> andthen (new_slots mem s) (\<lambda>n.
               andthen (if trivially_copyable tr
                        then Inr (copy_slots tr (unat (if s < p_max p then s else p_max p)) cs n)
                        else move_slots (unat (if s < p_max p then s else p_max p)) cs n) (\<lambda>n1.
               andthen (delete_slots tr cs) (\<lambda>_.
                 let p1 = (if s < p_max p then shrunk s p else grown s p)
                 in Inr (p1\<lparr>p_empty := (p_used p1 = 0), p_sets := Some n1\<rparr>)))))"

text \<open>The constructor, and the destructor.\<close>

definition page_new :: "traits \<Rightarrow> (size_t \<Rightarrow> bool) \<Rightarrow> size_t \<Rightarrow> fault + 'a page" where
  "page_new tr mem sz =
     (let p = \<lparr>p_sets = None, p_max = sz, p_used = 0, p_empty = False, p_full = False\<rparr>
      in if sz \<noteq> 0 then page_resize tr mem sz p else Inr p)"

definition page_delete :: "traits \<Rightarrow> 'a page \<Rightarrow> fault + unit" where
  "page_delete tr p = andthen (page_resize tr (\<lambda>_. True) 0 p) (\<lambda>_. Inr ())"

section \<open>Storing and giving free\<close>

text \<open>Assigning to an object that is destroyed is only defined if its bytes are all there is to it.\<close>

definition store_value :: "traits \<Rightarrow> 'a \<Rightarrow> 'a page \<Rightarrow> 'a slot list \<Rightarrow> nat \<Rightarrow> fault + size_t \<times> 'a page" where
  "store_value tr v p cs i =
     (if s_value (cs ! i) = Destroyed \<and> \<not> trivially_copyable tr then Inl Undefined_behaviour
      else Inr (of_nat i, p\<lparr>p_sets := Some (cs[i := \<lparr>s_value = Value v, s_set = True\<rparr>]), p_used := p_used p + 1,
             p_empty := False, p_full := (if p_used p + 1 = p_max p then True else p_full p)\<rparr>))"

fun page_set_at :: "traits \<Rightarrow> 'a \<Rightarrow> 'a page \<Rightarrow> nat list \<Rightarrow> fault + size_t \<times> 'a page" where
  "page_set_at tr v p [] = Inr (- 1, p)"
| "page_set_at tr v p (i # is) =
     (case p_sets p of
        None \<Rightarrow> Inl Undefined_behaviour
      | Some cs \<Rightarrow>
          if length cs \<le> i then Inl Undefined_behaviour
          else if \<not> s_set (cs ! i) then store_value tr v p cs i
          else page_set_at tr v p is)"

definition page_set :: "traits \<Rightarrow> 'a \<Rightarrow> 'a page \<Rightarrow> fault + size_t \<times> 'a page" where
  "page_set tr v p = page_set_at tr v p [0..<unat (p_max p)]"

definition page_unset :: "size_t \<Rightarrow> 'a page \<Rightarrow> fault + 'a page" where
  "page_unset index p =
     (case p_sets p of
        None \<Rightarrow> Inl Undefined_behaviour
      | Some cs \<Rightarrow>
          if length cs \<le> unat index then Inl Undefined_behaviour
          else if s_set (cs ! unat index)
          then Inr (p\<lparr>p_sets := Some (cs[unat index := \<lparr>s_value = Destroyed, s_set = False\<rparr>]),
                 p_used := p_used p - 1, p_empty := (p_used p - 1 = 0), p_full := False\<rparr>)
          else Inr p)"

section \<open>The list of pages\<close>

record 'a page_list =
  page_list :: "'a page list"
  page_size :: size_t

definition get_chunk :: "'a page_list \<Rightarrow> size_t \<Rightarrow> fault + size_t" where
  "get_chunk pl index = (if page_size pl = 0 then Inl Undefined_behaviour else Inr (index div page_size pl))"

definition get_chunk_subindex :: "'a page_list \<Rightarrow> size_t \<Rightarrow> fault + size_t" where
  "get_chunk_subindex pl index = (if page_size pl = 0 then Inl Undefined_behaviour else Inr (index mod page_size pl))"

text \<open>The loop over the pages; a new page is added when all are full.\<close>

fun list_set_from ::
  "traits \<Rightarrow> (size_t \<Rightarrow> bool) \<Rightarrow> 'a \<Rightarrow> size_t \<Rightarrow> size_t \<Rightarrow> 'a page list \<Rightarrow> fault + size_t \<times> 'a page list"
where
  "list_set_from tr mem v psize offset [] =
     andthen (page_new tr mem psize) (\<lambda>page.
     andthen (page_set tr v page) (\<lambda>(i, page1). Inr (i + offset, [page1])))"
| "list_set_from tr mem v psize offset (page # pages) =
     (if p_full page
      then andthen (list_set_from tr mem v psize (offset + psize) pages) (\<lambda>(i, pages1). Inr (i, page # pages1))
      else andthen (page_set tr v page) (\<lambda>(i, page1). Inr (i + offset, page1 # pages)))"

definition list_set :: "traits \<Rightarrow> (size_t \<Rightarrow> bool) \<Rightarrow> 'a \<Rightarrow> 'a page_list \<Rightarrow> fault + size_t \<times> 'a page_list" where
  "list_set tr mem v pl =
     andthen (list_set_from tr mem v (page_size pl) 0 (page_list pl)) (\<lambda>(i, pages).
       Inr (i, pl\<lparr>page_list := pages\<rparr>))"

definition list_unset :: "traits \<Rightarrow> size_t \<Rightarrow> 'a page_list \<Rightarrow> fault + 'a page_list" where
  "list_unset tr index pl =
     andthen (get_chunk pl index) (\<lambda>chunk.
     if length (page_list pl) \<le> unat chunk then Inl Undefined_behaviour
     else andthen (get_chunk_subindex pl index) (\<lambda>sub.
          andthen (page_unset sub (page_list pl ! unat chunk)) (\<lambda>page.
          if p_empty page
          then andthen (page_delete tr page) (\<lambda>_.
                 Inr (pl\<lparr>page_list := take (unat chunk) (page_list pl) @ drop (Suc (unat chunk)) (page_list pl)\<rparr>))
          else Inr (pl\<lparr>page_list := (page_list pl)[unat chunk := page]\<rparr>))))"

fun delete_pages :: "traits \<Rightarrow> 'a page list \<Rightarrow> fault + unit" where
  "delete_pages tr [] = Inr ()"
| "delete_pages tr (page # pages) = andthen (page_delete tr page) (\<lambda>_. delete_pages tr pages)"

section \<open>What a page holds\<close>

definition count_set :: "'a slot list \<Rightarrow> nat" where
  "count_set cs = length (filter s_set cs)"

definition page_ok :: "size_t \<Rightarrow> 'a page \<Rightarrow> bool" where
  "page_ok sz p \<longleftrightarrow> (case p_sets p of
       None \<Rightarrow> False
     | Some cs \<Rightarrow> length cs = unat sz \<and> p_max p = sz \<and> unat (p_used p) = count_set cs \<and>
         p_empty p = (count_set cs = 0) \<and> p_full p = (count_set cs = unat sz) \<and>
         (\<forall>c \<in> set cs. s_set c \<longrightarrow> (\<exists>v. s_value c = Value v)))"

definition slot_held :: "'a slot \<Rightarrow> 'a option" where
  "slot_held c = (if s_set c then (case s_value c of Value v \<Rightarrow> Some v | _ \<Rightarrow> None) else None)"

definition page_held :: "'a page \<Rightarrow> nat \<Rightarrow> 'a option" where
  "page_held p i = (case p_sets p of
       None \<Rightarrow> None
     | Some cs \<Rightarrow> if i < length cs then slot_held (cs ! i) else None)"

definition list_ok :: "'a page_list \<Rightarrow> bool" where
  "list_ok pl \<longleftrightarrow> page_size pl \<noteq> 0 \<and> (\<forall>p \<in> set (page_list pl). page_ok (page_size pl) p \<and> \<not> p_empty p)"

text \<open>The value that the index stands for.\<close>

definition held :: "'a page_list \<Rightarrow> nat \<Rightarrow> 'a option" where
  "held pl i =
     (if i div unat (page_size pl) < length (page_list pl)
      then page_held (page_list pl ! (i div unat (page_size pl))) (i mod unat (page_size pl)) else None)"

lemma page_okE:
  assumes "page_ok sz p"
  obtains cs where "p_sets p = Some cs" and "length cs = unat sz" and "p_max p = sz"
    and "unat (p_used p) = count_set cs" and "p_empty p = (count_set cs = 0)" and "p_full p = (count_set cs = unat sz)"
    and "\<forall>c \<in> set cs. s_set c \<longrightarrow> (\<exists>v. s_value c = Value v)"
  using assms by (auto simp: page_ok_def split: option.splits)

lemma count_set_update:
  "i < length cs \<Longrightarrow> count_set (cs[i := c]) + (if s_set (cs ! i) then 1 else 0) = count_set cs + (if s_set c then 1 else 0)"
  unfolding count_set_def
proof (induction cs arbitrary: i)
  case (Cons a cs)
  then show ?case by (cases i) auto
qed simp

lemma count_set_le: "count_set cs \<le> length cs"
  by (simp add: count_set_def)

lemma count_set_full: "count_set cs = length cs \<longleftrightarrow> (\<forall>i < length cs. s_set (cs ! i))"
  unfolding count_set_def by (metis filter_id_conv in_set_conv_nth length_filter_less nat_neq_iff)

lemma count_set_zero: "count_set cs = 0 \<longleftrightarrow> (\<forall>i < length cs. \<not> s_set (cs ! i))"
  by (simp add: count_set_def filter_empty_conv all_set_conv_all_nth)

lemma slot_held_None:
  "page_ok sz p \<Longrightarrow> p_sets p = Some cs \<Longrightarrow> i < length cs \<Longrightarrow> slot_held (cs ! i) = None \<longleftrightarrow> \<not> s_set (cs ! i)"
  by (fastforce simp: page_ok_def slot_held_def)

lemma page_new_ok:
  assumes "sz \<noteq> 0" and "mem sz"
  shows "\<exists>p. page_new tr mem sz = Inr p \<and> page_ok sz p \<and> \<not> p_full p \<and> (\<forall>i. page_held p i = None)"
  using assms by (auto simp: page_new_def page_resize_def new_slots_def page_ok_def count_set_def page_held_def slot_held_def
    unat_eq_0)

lemma page_set_at_first:
  assumes "p_sets p = Some cs" and "k \<le> i" and "i < length cs" and "\<not> s_set (cs ! i)" and "\<forall>j < i. s_set (cs ! j)"
  shows "page_set_at tr v p [k..<length cs] = store_value tr v p cs i"
  using assms(2)
proof (induction "i - k" arbitrary: k)
  case 0
  then have "[k..<length cs] = i # [Suc i..<length cs]" using assms(3) by (simp add: upt_conv_Cons)
  with assms(1,3,4) show ?case by simp
next
  case (Suc d)
  then have "k < i" by simp
  then have "[k..<length cs] = k # [Suc k..<length cs]" using assms(3) by (simp add: upt_conv_Cons)
  moreover have "page_set_at tr v p [Suc k..<length cs] = store_value tr v p cs i"
    using Suc \<open>k < i\<close> by (intro Suc.hyps(1)) simp_all
  ultimately show ?case using assms(1,3,5) \<open>k < i\<close> by simp
qed

lemma page_set_store:
  assumes "page_ok sz p" and "\<not> p_full p"
  shows "\<exists>cs i. p_sets p = Some cs \<and> i < length cs \<and> \<not> s_set (cs ! i) \<and> (\<forall>j < i. s_set (cs ! j)) \<and>
    page_set tr v p = store_value tr v p cs i"
proof -
  from assms(1) obtain cs where cs: "p_sets p = Some cs" "length cs = unat sz" "p_max p = sz" "p_full p = (count_set cs = unat sz)"
    by (rule page_okE)
  have "\<not> (\<forall>i < length cs. s_set (cs ! i))" using assms(2) cs count_set_full [of cs] by simp
  then have "\<exists>i. i < length cs \<and> \<not> s_set (cs ! i)" by blast
  then obtain i where i: "i < length cs" "\<not> s_set (cs ! i)" "\<forall>j < i. \<not> (j < length cs \<and> \<not> s_set (cs ! j))"
    using exists_least_iff [of "\<lambda>i. i < length cs \<and> \<not> s_set (cs ! i)"] by blast
  have "\<forall>j < i. s_set (cs ! j)" using i(1,3) by (meson less_trans)
  moreover from this have "page_set tr v p = store_value tr v p cs i"
    unfolding page_set_def using page_set_at_first [OF cs(1) _ i(1,2), of 0] cs(2,3) by simp
  ultimately show ?thesis using cs(1) i(1,2) by blast
qed

text \<open>A page whose slots can all be assigned: no slot was given free, or that does not matter for the type.\<close>

definition writable :: "traits \<Rightarrow> 'a page \<Rightarrow> bool" where
  "writable tr p \<longleftrightarrow> trivially_copyable tr \<or> (case p_sets p of None \<Rightarrow> True | Some cs \<Rightarrow> \<forall>c \<in> set cs. s_value c \<noteq> Destroyed)"

lemma writable_new: "page_new tr mem sz = Inr p \<Longrightarrow> writable tr' p"
  by (cases "sz = 0") (auto simp: page_new_def page_resize_def new_slots_def writable_def Let_def ebind split: if_splits)

lemma page_set_correct:
  assumes "page_ok sz p" and "\<not> p_full p" and "writable tr p"
  shows "\<exists>i p'. page_set tr v p = Inr (of_nat i, p') \<and> i < unat sz \<and> page_ok sz p' \<and> \<not> p_empty p' \<and> writable tr p' \<and>
    page_held p i = None \<and> (\<forall>j < i. page_held p j \<noteq> None) \<and>
    (\<forall>j. page_held p' j = (if j = i then Some v else page_held p j))"
proof -
  from page_set_store [OF assms(1,2), of tr v] obtain cs i where i: "p_sets p = Some cs" "i < length cs" "\<not> s_set (cs ! i)"
    "\<forall>j < i. s_set (cs ! j)" "page_set tr v p = store_value tr v p cs i" by blast
  from assms(1) i(1) have p: "length cs = unat sz" "p_max p = sz" "unat (p_used p) = count_set cs"
    "p_full p = (count_set cs = unat sz)" "\<forall>c \<in> set cs. s_set c \<longrightarrow> (\<exists>v. s_value c = Value v)"
    by (auto elim: page_okE)
  let ?cs = "cs[i := \<lparr>s_value = Value v, s_set = True\<rparr>]"
  have cnt: "count_set ?cs = Suc (count_set cs)" using count_set_update [OF i(2), of "\<lparr>s_value = Value v, s_set = True\<rparr>"] i(3) by simp
  then have "Suc (unat (p_used p)) \<le> unat sz" using count_set_le [of ?cs] p(1,3) by simp
  moreover have "unat sz < 2 ^ 64" by (rule unat_less_64)
  ultimately have used: "unat (p_used p + 1) = Suc (unat (p_used p))" by (simp add: unat_word_ariths)
  have full: "p_used p + 1 = sz \<longleftrightarrow> count_set ?cs = unat sz" using used cnt p(3) by (simp add: word_unat_eq_iff)
  let ?p = "p\<lparr>p_sets := Some ?cs, p_used := p_used p + 1, p_empty := False, p_full := (if p_used p + 1 = p_max p then True else p_full p)\<rparr>"
  have "s_value (cs ! i) \<noteq> Destroyed \<or> trivially_copyable tr"
    using assms(3) i(1) nth_mem [OF i(2)] by (auto simp: writable_def)
  then have "page_set tr v p = Inr (of_nat i, ?p)" using i(5) by (simp add: store_value_def)
  moreover have "writable tr ?p"
    using assms(3) i(1) set_update_subset_insert [of cs i "\<lparr>s_value = Value v, s_set = True\<rparr>"] by (auto simp: writable_def)
  moreover have "page_ok sz ?p"
    using used full cnt p assms(2) set_update_subset_insert [of cs i "\<lparr>s_value = Value v, s_set = True\<rparr>"]
    by (auto simp: page_ok_def)
  moreover have "page_held ?p j = (if j = i then Some v else page_held p j)" for j
    using i(1,2) by (auto simp: page_held_def slot_held_def)
  moreover have "page_held p j \<noteq> None" if "j < i" for j
    using that i(1,2,4) slot_held_None [OF assms(1) i(1), of j] by (simp add: page_held_def)
  moreover have "page_held p i = None" using i(1,3) by (simp add: page_held_def slot_held_def)
  ultimately show ?thesis using i(2) p(1) by (intro exI [of _ i] exI [of _ ?p]) simp
qed

lemma page_unset_correct:
  assumes "page_ok sz p" and "i < unat sz" and "page_held p i \<noteq> None"
  shows "\<exists>p'. page_unset (of_nat i) p = Inr p' \<and> page_ok sz p' \<and>
    (\<forall>j. page_held p' j = (if j = i then None else page_held p j)) \<and>
    (p_empty p' \<longleftrightarrow> (\<forall>j. j \<noteq> i \<longrightarrow> page_held p j = None)) \<and>
    (\<exists>cs. p_sets p' = Some cs \<and> i < length cs \<and> s_value (cs ! i) = Destroyed)"
proof -
  from assms(1) obtain cs where cs: "p_sets p = Some cs" "length cs = unat sz" "p_max p = sz" "unat (p_used p) = count_set cs"
    "\<forall>c \<in> set cs. s_set c \<longrightarrow> (\<exists>v. s_value c = Value v)"
    by (rule page_okE) blast
  have i: "i < length cs" "s_set (cs ! i)" using assms(2,3) cs(1,2) by (auto simp: page_held_def slot_held_def split: if_splits)
  have idx: "unat (of_nat i :: size_t) = i"
    using assms(2) unat_less_64 [of sz] by (simp add: unat_of_nat)
  let ?c = "\<lparr>s_value = Destroyed, s_set = False\<rparr> :: 'a slot"
  let ?cs = "cs[i := ?c]"
  have cnt: "Suc (count_set ?cs) = count_set cs" using count_set_update [OF i(1), of ?c] i(2) by simp
  have used: "unat (p_used p - 1) = count_set ?cs"
    using cs(4) cnt by (simp add: unat_minus_one unat_eq_0 [symmetric])
  have zero: "p_used p - 1 = 0 \<longleftrightarrow> count_set ?cs = 0" using used by (metis unat_eq_zero)
  let ?p = "p\<lparr>p_sets := Some ?cs, p_used := p_used p - 1, p_empty := (p_used p - 1 = 0), p_full := False\<rparr>"
  have "page_unset (of_nat i) p = Inr ?p" using i cs(1) idx by (simp add: page_unset_def)
  moreover have "count_set ?cs \<noteq> unat sz" using cnt count_set_le [of cs] cs(2) by simp
  then have "page_ok sz ?p"
    using used zero cs set_update_subset_insert [of cs i ?c] unfolding page_ok_def by auto
  moreover have held: "page_held ?p j = (if j = i then None else page_held p j)" for j
    using i(1) cs(1) by (auto simp: page_held_def slot_held_def)
  moreover have "count_set ?cs = 0 \<longleftrightarrow> (\<forall>j. j \<noteq> i \<longrightarrow> page_held p j = None)"
  proof -
    have "count_set ?cs = 0 \<longleftrightarrow> (\<forall>j < length cs. j \<noteq> i \<longrightarrow> \<not> s_set (cs ! j))"
      using i(1) by (auto simp: count_set_zero nth_list_update)
    also have "\<dots> \<longleftrightarrow> (\<forall>j. j \<noteq> i \<longrightarrow> page_held p j = None)"
      using slot_held_None [OF assms(1) cs(1)] by (auto simp: page_held_def cs(1))
    finally show ?thesis .
  qed
  then have "p_empty ?p \<longleftrightarrow> (\<forall>j. j \<noteq> i \<longrightarrow> page_held p j = None)" using zero by simp
  ultimately show ?thesis using i(1) by (intro exI [of _ ?p]) simp
qed

lemma page_unset_free:
  assumes "page_ok sz p" and "i < unat sz" and "page_held p i = None"
  shows "page_unset (of_nat i) p = Inr p"
proof -
  from assms(1) obtain cs where cs: "p_sets p = Some cs" "length cs = unat sz" by (rule page_okE) blast
  have idx: "unat (of_nat i :: size_t) = i"
    using assms(2) unat_less_64 [of sz] by (simp add: unat_of_nat)
  show ?thesis using assms cs idx slot_held_None [OF assms(1) cs(1), of i] by (simp add: page_unset_def page_held_def)
qed

section \<open>Storing in the list\<close>

definition held_in :: "nat \<Rightarrow> 'a page list \<Rightarrow> nat \<Rightarrow> 'a option" where
  "held_in sz pages i = (if i div sz < length pages then page_held (pages ! (i div sz)) (i mod sz) else None)"

lemma held_in_Nil [simp]: "held_in sz [] i = None"
  by (simp add: held_in_def)

lemma held_eq: "held pl i = held_in (unat (page_size pl)) (page_list pl) i"
  by (simp add: held_def held_in_def)

lemma held_in_Cons:
  assumes "0 < sz" and "\<And>i. sz \<le> i \<Longrightarrow> page_held p i = None"
  shows "held_in sz (p # pages) i = (if i < sz then page_held p i else held_in sz pages (i - sz))"
proof (cases "i < sz")
  case False
  then obtain k where k: "i = sz + k" using nat_le_iff_add by (metis not_le)
  then have "i div sz = Suc (k div sz)" "i mod sz = k mod sz" using assms(1) by simp_all
  with k show ?thesis by (simp add: held_in_def)
qed (simp add: held_in_def)

lemma page_held_out: "page_ok sz p \<Longrightarrow> unat sz \<le> i \<Longrightarrow> page_held p i = None"
  by (auto simp: page_ok_def page_held_def split: option.splits)

lemma held_in_page:
  "0 < unat sz \<Longrightarrow> page_ok sz p \<Longrightarrow>
    held_in (unat sz) (p # pages) i = (if i < unat sz then page_held p i else held_in (unat sz) pages (i - unat sz))"
  by (rule held_in_Cons) (auto intro: page_held_out)

lemma page_full_held: "page_ok sz p \<Longrightarrow> p_full p \<Longrightarrow> i < unat sz \<Longrightarrow> page_held p i \<noteq> None"
proof -
  assume p: "page_ok sz p" "p_full p" "i < unat sz"
  from p(1) obtain cs where cs: "p_sets p = Some cs" "length cs = unat sz" "p_full p = (count_set cs = unat sz)"
    by (rule page_okE) blast
  with p slot_held_None [OF p(1) cs(1), of i] count_set_full [of cs] show ?thesis by (simp add: page_held_def)
qed

lemma list_set_from_correct:
  assumes "sz \<noteq> 0" and "mem sz"
    and "\<forall>p \<in> set pages. page_ok sz p \<and> \<not> p_empty p \<and> writable tr p"
  shows "\<exists>i pages'. list_set_from tr mem v sz offset pages = Inr (of_nat i + offset, pages') \<and>
    i < Suc (length pages) * unat sz \<and> (\<forall>p \<in> set pages'. page_ok sz p \<and> \<not> p_empty p \<and> writable tr p) \<and>
    held_in (unat sz) pages i = None \<and> (\<forall>j < i. held_in (unat sz) pages j \<noteq> None) \<and>
    (\<forall>j. held_in (unat sz) pages' j = (if j = i then Some v else held_in (unat sz) pages j))"
  using assms(3)
proof (induction pages arbitrary: offset)
  case Nil
  have pos: "0 < unat sz" using assms(1) by (simp add: unat_gt_0)
  from page_new_ok [of sz mem tr] assms(1,2) obtain p :: "'a page" where
    p: "page_new tr mem sz = Inr p" "page_ok sz p" "\<not> p_full p" "\<forall>i. page_held p i = None" by blast
  from page_set_correct [OF p(2,3) writable_new [OF p(1), of tr], of v] obtain i p' where
    i: "page_set tr v p = Inr (of_nat i, p')" "i < unat sz" "page_ok sz p'" "\<not> p_empty p' \<and> writable tr p'" "\<forall>j < i. page_held p j \<noteq> None"
      "\<forall>j. page_held p' j = (if j = i then Some v else page_held p j)" by blast
  have zero: "i = 0" using i(5) p(4) by (metis gr0I)
  have "held_in (unat sz) [p'] j = (if j = i then Some v else held_in (unat sz) [] j)" for j
  proof -
    have "held_in (unat sz) [p'] j = (if j < unat sz then page_held p' j else held_in (unat sz) [] (j - unat sz))"
      by (rule held_in_page [OF pos i(3)])
    then show ?thesis using i(2,6) p(4) by simp
  qed
  then show ?case using p(1) i zero by (intro exI [of _ 0] exI [of _ "[p']"]) (simp add: held_in_def)
next
  case (Cons p pages)
  have pos: "0 < unat sz" using assms(1) by (simp add: unat_gt_0)
  have p: "page_ok sz p" "\<not> p_empty p" "writable tr p" using Cons.prems by simp_all
  note split = held_in_page [OF pos p(1)]
  show ?case
  proof (cases "p_full p")
    case True
    from Cons.IH [of "offset + sz"] Cons.prems obtain i pages' where
      i: "list_set_from tr mem v sz (offset + sz) pages = Inr (of_nat i + (offset + sz), pages')"
        "i < Suc (length pages) * unat sz" "\<forall>p \<in> set pages'. page_ok sz p \<and> \<not> p_empty p \<and> writable tr p"
        "held_in (unat sz) pages i = None" "\<forall>j < i. held_in (unat sz) pages j \<noteq> None"
        "\<forall>j. held_in (unat sz) pages' j = (if j = i then Some v else held_in (unat sz) pages j)"
      by auto
    let ?i = "i + unat sz"
    have "list_set_from tr mem v sz offset (p # pages) = Inr (of_nat ?i + offset, p # pages')"
      using i(1) True by (simp add: add.assoc add.commute add.left_commute)
    moreover have "held_in (unat sz) (p # pages) j \<noteq> None" if "j < ?i" for j
      unfolding split using that page_full_held [OF p(1) True] i(5) by auto
    moreover have "held_in (unat sz) (p # pages') j = (if j = ?i then Some v else held_in (unat sz) (p # pages) j)" for j
      unfolding split using i(6) by auto
    ultimately show ?thesis using i(2-4) p by (intro exI [of _ ?i] exI [of _ "p # pages'"]) (simp add: split)
  next
    case False
    from page_set_correct [OF p(1) False p(3), of v] obtain i p' where
      i: "page_set tr v p = Inr (of_nat i, p')" "i < unat sz" "page_ok sz p'" "\<not> p_empty p' \<and> writable tr p'" "page_held p i = None"
        "\<forall>j < i. page_held p j \<noteq> None" "\<forall>j. page_held p' j = (if j = i then Some v else page_held p j)" by blast
    have "held_in (unat sz) (p' # pages) j = (if j = i then Some v else held_in (unat sz) (p # pages) j)" for j
      unfolding split held_in_page [OF pos i(3)] using i(2,7) by auto
    then show ?thesis
      using i(1-6) False Cons.prems by (intro exI [of _ i] exI [of _ "p' # pages"]) (simp add: split)
  qed
qed

definition storable :: "traits \<Rightarrow> 'a page_list \<Rightarrow> bool" where
  "storable tr pl \<longleftrightarrow> (\<forall>p \<in> set (page_list pl). writable tr p)"

text \<open>
  Storing a value takes the first free index, over all pages, adding a page when all are
  full; the index stands for the value afterwards, and every other index for what it stood for.
\<close>

theorem page_list_set_correct:
  assumes "list_ok pl" and "mem (page_size pl)" and "storable tr pl"
    and "Suc (length (page_list pl)) * unat (page_size pl) < 2 ^ 64"
  shows "\<exists>i pl'. list_set tr mem v pl = Inr (i, pl') \<and> list_ok pl' \<and> storable tr pl' \<and> page_size pl' = page_size pl \<and>
    held pl (unat i) = None \<and> (\<forall>j < unat i. held pl j \<noteq> None) \<and>
    (\<forall>j. held pl' j = (if j = unat i then Some v else held pl j))"
proof -
  have sz: "page_size pl \<noteq> 0" and pages: "\<forall>p \<in> set (page_list pl). page_ok (page_size pl) p \<and> \<not> p_empty p \<and> writable tr p"
    using assms(1,3) by (simp_all add: list_ok_def storable_def)
  from list_set_from_correct [where mem = mem, OF sz assms(2) pages, of v 0] obtain i pages' where
    i: "list_set_from tr mem v (page_size pl) 0 (page_list pl) = Inr (of_nat i, pages')"
      "i < Suc (length (page_list pl)) * unat (page_size pl)"
      "\<forall>p \<in> set pages'. page_ok (page_size pl) p \<and> \<not> p_empty p \<and> writable tr p"
      "held_in (unat (page_size pl)) (page_list pl) i = None"
      "\<forall>j < i. held_in (unat (page_size pl)) (page_list pl) j \<noteq> None"
      "\<forall>j. held_in (unat (page_size pl)) pages' j = (if j = i then Some v else held_in (unat (page_size pl)) (page_list pl) j)"
    by auto
  have "unat (of_nat i :: size_t) = i" using i(2) assms(4) by (simp add: unat_of_nat)
  with i sz show ?thesis
    by (intro exI [of _ "of_nat i"] exI [of _ "pl\<lparr>page_list := pages'\<rparr>"]) (simp add: list_set_def list_ok_def storable_def held_eq)
qed

section \<open>The list as an indexed store\<close>

lemma list_set_from_length:
  "list_set_from tr mem v sz offset pages = Inr (i, pages') \<Longrightarrow> length pages' \<le> Suc (length pages)"
  by (induction tr mem v sz offset pages arbitrary: i pages' rule: list_set_from.induct) (auto simp: ebind split: if_splits)

text \<open>Each value adds one page at most; all indices have to fit in a \<open>size_t\<close>.\<close>

definition page_room :: "nat \<Rightarrow> 'a page_list \<Rightarrow> bool" where
  "page_room n pl \<longleftrightarrow> (length (page_list pl) + n) * unat (page_size pl) < 2 ^ 64"

lemma list_set_law:
  assumes "list_ok pl" and "mem (page_size pl)" and "storable tr pl" and "page_room (Suc n) pl"
  shows "\<exists>i pl'. list_set tr mem v pl = Inr (i, pl') \<and> (list_ok pl' \<and> mem (page_size pl') \<and> storable tr pl') \<and>
    page_room n pl' \<and> held pl (unat i) = None \<and> held pl' (unat i) = Some v \<and>
    (\<forall>j x. held pl (unat j) = Some x \<longrightarrow> held pl' (unat (j :: size_t)) = Some x)"
proof -
  have "Suc (length (page_list pl)) * unat (page_size pl) \<le> (length (page_list pl) + Suc n) * unat (page_size pl)"
    by (rule mult_le_mono1) simp
  then have "Suc (length (page_list pl)) * unat (page_size pl) < 2 ^ 64"
    using assms(4) unfolding page_room_def by (rule le_less_trans)
  from page_list_set_correct [where mem = mem, OF assms(1-3) this] obtain i pl' where s: "list_set tr mem v pl = Inr (i, pl')" "list_ok pl'" "storable tr pl'"
    "page_size pl' = page_size pl" "held pl (unat i) = None"
    "\<forall>j. held pl' j = (if j = unat i then Some v else held pl j)" by blast
  have "length (page_list pl') \<le> Suc (length (page_list pl))"
    using s(1) list_set_from_length [of tr mem v "page_size pl" 0 "page_list pl"] by (auto simp: list_set_def ebind)
  then have "(length (page_list pl') + n) * unat (page_size pl) \<le> (length (page_list pl) + Suc n) * unat (page_size pl)"
    by (intro mult_le_mono1) simp
  then have "(length (page_list pl') + n) * unat (page_size pl) < 2 ^ 64"
    using assms(4) unfolding page_room_def by (rule le_less_trans)
  then have "page_room n pl'" by (simp only: page_room_def s(4))
  with s assms(2) show ?thesis by auto
qed

interpretation page_store: indexed_store "\<lambda>pl. list_ok pl \<and> mem (page_size pl) \<and> storable tr pl" page_room
    "list_set tr mem" "\<lambda>pl i. held pl (unat i)" for tr mem
  by unfold_locales (elim conjE, rule list_set_law)

text \<open>
  C39: Storing values one after the other in the page list, when there is memory for the pages and
  the indices fit in a \<open>size_t\<close>, gives them different indices that were free before; afterwards each
  index stands for its value, and every index that was in use for the value it had.  The list has to
  be \<open>storable\<close>: for a type that is not trivially copyable no slot of it was ever given free, because
  storing in such a slot assigns to a destroyed object, which is undefined behaviour
  (\<open>page_list_needs_trivial_values\<close>).
\<close>

theorem page_list_store_all:
  assumes "list_ok pl" and "mem (page_size pl)" and "storable tr pl" and "page_room (length vs) pl"
  shows "\<exists>is pl'. store_all (list_set tr mem) vs pl = Inr (is, pl') \<and> list_ok pl' \<and> storable tr pl' \<and> distinct is \<and>
    map (\<lambda>i. held pl' (unat i)) is = map Some vs \<and> (\<forall>i \<in> set is. held pl (unat i) = None) \<and>
    (\<forall>j x. held pl (unat j) = Some x \<longrightarrow> held pl' (unat (j :: size_t)) = Some x)"
  using page_store.store_all_loads [of pl mem tr vs, OF conjI [OF assms(1) conjI [OF assms(2,3)]] assms(4)] by blast

section \<open>Giving free\<close>

lemma held_in_cut:
  assumes "0 < sz" and "c < length pages"
  shows "held_in sz (take c pages @ drop (Suc c) pages) j = held_in sz pages (if j div sz < c then j else j + sz)"
proof -
  have "(j + sz) div sz = Suc (j div sz)" "(j + sz) mod sz = j mod sz" using assms(1) by simp_all
  then show ?thesis using assms(2) by (auto simp: held_in_def nth_append min_def)
qed

lemma held_in_update:
  assumes "0 < sz" and "c < length pages"
    and "\<forall>k. page_held p k = (if k = s then None else page_held (pages ! c) k)" and "s < sz"
  shows "held_in sz (pages[c := p]) j = (if j = c * sz + s then None else held_in sz pages j)"
proof (cases "j div sz = c")
  case True
  then have "j = c * sz + j mod sz" by (metis div_mult_mod_eq)
  then have "j = c * sz + s \<longleftrightarrow> j mod sz = s" by linarith
  with True assms(2,3) show ?thesis by (simp add: held_in_def)
next
  case False
  then have "j \<noteq> c * sz + s" using assms(1,4) by auto
  with False show ?thesis by (simp add: held_in_def)
qed

text \<open>The only value of its page.\<close>

definition alone :: "'a page_list \<Rightarrow> nat \<Rightarrow> bool" where
  "alone pl i \<longleftrightarrow> (\<forall>k < unat (page_size pl). k \<noteq> i mod unat (page_size pl) \<longrightarrow>
     held pl (i div unat (page_size pl) * unat (page_size pl) + k) = None)"

text \<open>Whether deleting the page is defined is all that depends on the type of the values.\<close>

lemma list_unset_page:
  assumes "list_ok pl" and "held pl (unat i) \<noteq> None"
  shows "\<exists>p cs. page_ok (page_size pl) p \<and> p_sets p = Some cs \<and>
    unat (i mod page_size pl) < length cs \<and> s_value (cs ! unat (i mod page_size pl)) = Destroyed \<and>
    (p_empty p \<longleftrightarrow> alone pl (unat i)) \<and> unat (i div page_size pl) < length (page_list pl) \<and>
    (\<forall>k. page_held p k = (if k = unat (i mod page_size pl) then None
       else page_held (page_list pl ! unat (i div page_size pl)) k)) \<and>
    list_unset tr i pl = (if p_empty p
      then andthen (page_delete tr p) (\<lambda>_. Inr (pl\<lparr>page_list := take (unat (i div page_size pl)) (page_list pl) @
             drop (Suc (unat (i div page_size pl))) (page_list pl)\<rparr>))
      else Inr (pl\<lparr>page_list := (page_list pl)[unat (i div page_size pl) := p]\<rparr>))"
proof -
  let ?sz = "unat (page_size pl)" and ?c = "unat (i div page_size pl)" and ?s = "unat (i mod page_size pl)"
  have pos: "page_size pl \<noteq> 0" "0 < ?sz" using assms(1) by (simp_all add: list_ok_def unat_gt_0)
  have div: "?c = unat i div ?sz" "?s = unat i mod ?sz" by (simp_all add: unat_div unat_mod)
  then have s: "?s < ?sz" using pos(2) by simp
  have c: "?c < length (page_list pl)" and here: "page_held (page_list pl ! ?c) ?s \<noteq> None"
    using assms(2) unfolding held_def div by (simp_all split: if_splits)
  have ok: "page_ok (page_size pl) (page_list pl ! ?c)" using assms(1) c by (simp add: list_ok_def)
  from page_unset_correct [OF ok s here] obtain p cs where
    p: "page_unset (i mod page_size pl) (page_list pl ! ?c) = Inr p" "page_ok (page_size pl) p"
      "\<forall>k. page_held p k = (if k = ?s then None else page_held (page_list pl ! ?c) k)"
      "p_empty p \<longleftrightarrow> (\<forall>k. k \<noteq> ?s \<longrightarrow> page_held (page_list pl ! ?c) k = None)"
      "p_sets p = Some cs" "?s < length cs" "s_value (cs ! ?s) = Destroyed"
    by auto
  have "held pl (unat i div ?sz * ?sz + k) = page_held (page_list pl ! ?c) k" if "k < ?sz" for k
    using that pos(2) c by (simp add: held_def div)
  then have "alone pl (unat i) \<longleftrightarrow> (\<forall>k < ?sz. k \<noteq> ?s \<longrightarrow> page_held (page_list pl ! ?c) k = None)"
    by (simp add: alone_def div)
  then have "p_empty p \<longleftrightarrow> alone pl (unat i)" using p(4) page_held_out [OF ok] by (metis not_le)
  then show ?thesis
    using p c pos(1) by (intro exI [of _ p] exI [of _ cs])
      (simp add: list_unset_def get_chunk_def get_chunk_subindex_def)
qed

text \<open>
  C38: Giving an index free that holds a value makes it hold none, and every other index keeps
  its value, if another value is left in the page.  If none is left the page is removed from the
  list, and the values of all later pages are then found at an index that is smaller by the page
  size: the indices their users have do not stand for them any more.  If the type of the values has a
  destructor of its own, removing the page is undefined behaviour instead, as the value that was given
  free is destroyed a second time with the page.
\<close>

theorem page_list_unset_correct:
  assumes "list_ok pl" and "held pl (unat i) = Some v"
  shows "if \<not> trivially_destructible tr \<and> alone pl (unat i) then list_unset tr i pl = Inl Undefined_behaviour
    else \<exists>pl'. list_unset tr i pl = Inr pl' \<and> list_ok pl' \<and> page_size pl' = page_size pl \<and>
    (\<forall>j. held pl' j = (if \<not> alone pl (unat i) then (if j = unat i then None else held pl j)
       else if j div unat (page_size pl) < unat i div unat (page_size pl) then held pl j
       else held pl (j + unat (page_size pl))))"
proof -
  let ?sz = "unat (page_size pl)" and ?c = "unat (i div page_size pl)"
  have pos: "0 < ?sz" using assms(1) by (simp add: list_ok_def unat_gt_0)
  have div: "?c = unat i div ?sz" "unat (i mod page_size pl) = unat i mod ?sz" by (simp_all add: unat_div unat_mod)
  have "held pl (unat i) \<noteq> None" using assms(2) by simp
  from list_unset_page [OF assms(1) this, of tr] obtain p cs where
    p: "page_ok (page_size pl) p" "p_sets p = Some cs" "p_empty p \<longleftrightarrow> alone pl (unat i)" "?c < length (page_list pl)"
      "\<forall>k. page_held p k = (if k = unat i mod ?sz then None else page_held (page_list pl ! ?c) k)"
      "\<exists>c \<in> set cs. s_value c = Destroyed"
    and eq: "list_unset tr i pl = (if p_empty p
      then andthen (page_delete tr p) (\<lambda>_. Inr (pl\<lparr>page_list := take ?c (page_list pl) @ drop (Suc ?c) (page_list pl)\<rparr>))
      else Inr (pl\<lparr>page_list := (page_list pl)[?c := p]\<rparr>))"
    unfolding div using nth_mem by blast
  have del: "page_delete tr p = (if trivially_destructible tr then Inr () else Inl Undefined_behaviour)"
    using p(2,6) by (simp add: page_delete_def page_resize_def delete_slots_def)
  consider (twice) "\<not> trivially_destructible tr" "alone pl (unat i)" | (last) "trivially_destructible tr" "alone pl (unat i)"
    | (more) "\<not> alone pl (unat i)" by blast
  then show ?thesis
  proof cases
    case twice
    then show ?thesis using p(3) eq del by simp
  next
    case last
    note True = last(2) and del = del [unfolded if_P [OF last(1)]]
    let ?pl = "pl\<lparr>page_list := take ?c (page_list pl) @ drop (Suc ?c) (page_list pl)\<rparr>"
    have "list_ok ?pl" using assms(1) by (auto simp: list_ok_def dest: in_set_takeD in_set_dropD)
    moreover have "held ?pl j = (if j div ?sz < ?c then held pl j else held pl (j + ?sz))" for j
      using held_in_cut [OF pos p(4), of j] by (simp add: held_eq)
    ultimately show ?thesis using True last(1) p(3) eq del by (simp add: div)
  next
    case more
    note False = more
    let ?pl = "pl\<lparr>page_list := (page_list pl)[?c := p]\<rparr>"
    have "list_ok ?pl" using assms(1) p(1,3) False set_update_subset_insert [of "page_list pl" ?c p] by (auto simp: list_ok_def)
    moreover have "held ?pl j = (if j = unat i then None else held pl j)" for j
      using held_in_update [OF pos p(4,5), of j] pos by (simp add: held_eq div)
    ultimately show ?thesis using False p(3) eq by simp
  qed
qed

text \<open>
  Values of a type with a destructor of its own: giving the last value of a page free is
  undefined, as the destructor of the value runs once for the index and once for the page; and so
  is storing a value in a slot that was given free, as it is assigned to a destroyed object.
\<close>

theorem page_list_needs_trivial_values:
  assumes "list_ok pl" and "held pl (unat i) = Some v"
  shows "(\<not> trivially_destructible tr \<and> alone pl (unat i) \<longrightarrow> list_unset tr i pl = Inl Undefined_behaviour) \<and>
    (\<not> trivially_copyable tr \<and> \<not> alone pl (unat i) \<and> unat i < unat (page_size pl) \<and>
       (\<forall>j < unat i. held pl j \<noteq> None) \<longrightarrow>
      (\<exists>pl'. list_unset tr i pl = Inr pl' \<and> list_set tr mem w pl' = Inl Undefined_behaviour))"
proof -
  let ?s = "unat (i mod page_size pl)" and ?c = "unat (i div page_size pl)"
  have "held pl (unat i) \<noteq> None" using assms(2) by simp
  from list_unset_page [OF assms(1) this, of tr] obtain p cs where
    p: "page_ok (page_size pl) p" "p_sets p = Some cs" "?s < length cs" "s_value (cs ! ?s) = Destroyed"
      "p_empty p \<longleftrightarrow> alone pl (unat i)" "?c < length (page_list pl)"
      "\<forall>k. page_held p k = (if k = ?s then None else page_held (page_list pl ! ?c) k)"
    and eq: "list_unset tr i pl = (if p_empty p
      then andthen (page_delete tr p) (\<lambda>_. Inr (pl\<lparr>page_list := take ?c (page_list pl) @ drop (Suc ?c) (page_list pl)\<rparr>))
      else Inr (pl\<lparr>page_list := (page_list pl)[?c := p]\<rparr>))"
    by blast
  have "list_unset tr i pl = Inl Undefined_behaviour" if "\<not> trivially_destructible tr" "alone pl (unat i)"
  proof -
    have "\<exists>c \<in> set cs. s_value c = Destroyed" using p(3,4) nth_mem by blast
    with that p(2,5) eq show ?thesis by (simp add: page_delete_def page_resize_def delete_slots_def)
  qed
  moreover have "\<exists>pl'. list_unset tr i pl = Inr pl' \<and> list_set tr mem w pl' = Inl Undefined_behaviour"
    if t: "\<not> trivially_copyable tr" "\<not> alone pl (unat i)" "unat i < unat (page_size pl)" "\<forall>j < unat i. held pl j \<noteq> None"
  proof -
    have s: "?s = unat i" "?c = 0" using t(3) by (simp_all add: unat_mod unat_div)
    let ?pl = "pl\<lparr>page_list := (page_list pl)[0 := p]\<rparr>"
    from p(6) s obtain q pages where pages: "page_list pl = q # pages" by (cases "page_list pl") auto
    have "\<not> p_full p" using page_full_held [OF p(1), of ?s] p(7) t(3) s(1) by auto
    from page_set_store [OF p(1) this, of tr w] p(2) obtain k where
      k: "k < length cs" "\<not> s_set (cs ! k)" "\<forall>j < k. s_set (cs ! j)" "page_set tr w p = store_value tr w p cs k" by auto
    have "\<not> s_set (cs ! ?s)"
    proof -
      have "page_held p ?s = None" using p(7) by simp
      then have "slot_held (cs ! ?s) = None" using p(2,3) by (simp add: page_held_def)
      then show ?thesis using slot_held_None [OF p(1,2,3)] by blast
    qed
    then have "k \<le> ?s" using k(3) by (metis not_le)
    moreover have "\<not> k < ?s"
    proof
      assume "k < ?s"
      then have "held pl k \<noteq> None" using t(4) s(1) by simp
      then have "page_held p k \<noteq> None" using \<open>k < ?s\<close> p(7) s t(3) by (simp add: held_def split: if_splits)
      with slot_held_None [OF p(1,2) k(1)] k(1,2) p(2) show False by (simp add: page_held_def)
    qed
    ultimately have "k = ?s" by simp
    then have "page_set tr w p = Inl Undefined_behaviour" using k(4) p(4) t(1) by (simp add: store_value_def)
    then have "list_set tr mem w ?pl = Inl Undefined_behaviour"
      using \<open>\<not> p_full p\<close> pages by (simp add: list_set_def)
    moreover have "list_unset tr i pl = Inr ?pl" using eq p(5) t(2) s(2) by simp
    ultimately show ?thesis by blast
  qed
  ultimately show ?thesis by blast
qed

section \<open>Resizing a page\<close>

text \<open>
  C40: Making a page larger, when there is memory for it.  If the values are moved one by one (their
  type is not trivially copyable) they are all kept, provided that no slot was ever given free; if one
  was, its destroyed object is moved from, which is undefined behaviour.  If their type is trivially
  copyable, as many bytes are copied as there were slots: the values in the later slots are lost,
  while the counter still has them.  The flag lies inside its slot, and a trivially copyable type is
  trivially destructible, as the language demands.
\<close>

theorem page_grow_correct:
  assumes "page_ok sz p" and "p_sets p = Some cs" and "sz \<noteq> 0" and "sz \<le> s" and "mem s"
    and "offset_of_flag tr < sizeof_slot tr" and "trivially_copyable tr \<longrightarrow> trivially_destructible tr"
  shows "if \<not> trivially_copyable tr \<and> (\<exists>c \<in> set cs. s_value c = Destroyed)
    then page_resize tr mem s p = Inl Undefined_behaviour
    else \<exists>p'. page_resize tr mem s p = Inr p' \<and> p_max p' = s \<and> p_used p' = p_used p \<and> \<not> p_full p' \<and>
    (\<forall>i. page_held p' i = (if \<not> trivially_copyable tr \<or> i * sizeof_slot tr + offset_of_flag tr < unat sz
       then page_held p i else None))"
proof -
  from assms(1,2) have p: "length cs = unat sz" "p_max p = sz" by (auto elim: page_okE)
  have le: "unat sz \<le> unat s" using assms(4) by (simp add: word_le_nat_alt)
  have nl: "\<not> s < sz" using assms(4) by simp
  have nz: "s \<noteq> 0" using assms(3,4) by auto
  let ?new = "replicate (unat s) \<lparr>s_value = Unwritten, s_set = False\<rparr> :: 'a slot list"
  let ?n = "if trivially_copyable tr then copy_slots tr (unat sz) cs ?new else cs @ drop (unat sz) ?new"
  let ?p = "p\<lparr>p_sets := Some ?n, p_max := s, p_full := False, p_empty := (p_used p = 0)\<rparr>"
  have move: "move_slots (unat sz) cs ?new =
      (if \<exists>c \<in> set cs. s_value c = Destroyed then Inl Undefined_behaviour else Inr (cs @ drop (unat sz) ?new))"
    using p(1) by (simp add: move_slots_def)
  have "page_resize tr mem s p = (if \<not> trivially_copyable tr \<and> (\<exists>c \<in> set cs. s_value c = Destroyed)
      then Inl Undefined_behaviour else Inr ?p)"
    using assms(2,5,7) nz nl p(2) move by (auto simp: page_resize_def new_slots_def grown_def delete_slots_def)
  moreover have "page_held ?p i = (if \<not> trivially_copyable tr \<or> i * sizeof_slot tr + offset_of_flag tr < unat sz
       then page_held p i else None)" for i
  proof (cases "trivially_copyable tr")
    case True
    have small: "i < unat sz" if "i * sizeof_slot tr + offset_of_flag tr < unat sz"
    proof -
      have "i \<le> i * sizeof_slot tr" using assms(6) by (cases "sizeof_slot tr") simp_all
      with that show ?thesis by linarith
    qed
    then show ?thesis
      using True p(1) assms(2) le by (auto simp: page_held_def copy_slots_def slot_held_def)
  next
    case False
    then show ?thesis using p(1) assms(2) le by (auto simp: page_held_def nth_append slot_held_def)
  qed
  moreover have "p_max ?p = s" "p_used ?p = p_used p" "\<not> p_full ?p" by simp_all
  ultimately show ?thesis
    by (cases "\<not> trivially_copyable tr \<and> (\<exists>c \<in> set cs. s_value c = Destroyed)")
      (simp_all only: if_P if_not_P not_False_eq_True, blast+)
qed

section \<open>A sample\<close>

text \<open>Two pages of two slots, each with one value, of a type of eight bytes and of one with a destructor.\<close>

definition sample_page :: "nat \<Rightarrow> nat page" where
  "sample_page v = \<lparr>p_sets = Some [\<lparr>s_value = Value v, s_set = True\<rparr>, \<lparr>s_value = Unwritten, s_set = False\<rparr>],
     p_max = 2, p_used = 1, p_empty = False, p_full = False\<rparr>"

definition sample_pages :: "nat page_list" where
  "sample_pages = \<lparr>page_list = [sample_page 1, sample_page 2], page_size = 2\<rparr>"

definition long_values :: traits where
  "long_values = \<lparr>trivially_copyable = True, trivially_destructible = True, sizeof_slot = 16, offset_of_flag = 8\<rparr>"

definition string_values :: traits where
  "string_values = \<lparr>trivially_copyable = False, trivially_destructible = False, sizeof_slot = 40, offset_of_flag = 32\<rparr>"

lemma sample_page_ok: "page_ok 2 (sample_page v)"
  by (simp add: page_ok_def sample_page_def count_set_def)

lemma sample_pages_ok: "list_ok sample_pages"
  using sample_page_ok by (simp add: list_ok_def sample_pages_def) (simp add: sample_page_def)

lemma sample_held: "held sample_pages 0 = Some 1" "held sample_pages 1 = None" "held sample_pages 2 = Some 2"
  by (simp_all add: held_def sample_pages_def page_held_def slot_held_def sample_page_def)

lemma sample_alone: "alone sample_pages 0"
proof -
  have sz: "unat (page_size sample_pages) = 2" by (simp add: sample_pages_def)
  have "held sample_pages k = None" if "k < 2" "k \<noteq> 0" for k
  proof -
    have "k = 1" using that by simp
    then show ?thesis using sample_held(2) by simp
  qed
  then show ?thesis by (simp add: alone_def sz)
qed

lemma page_list_set_correct_witness:
  "\<exists>i pl'. list_set long_values (\<lambda>_. True) 7 sample_pages = Inr (i, pl') \<and> held pl' (unat i) = Some 7 \<and> held pl' 2 = Some 2"
proof -
  from page_list_set_correct [OF sample_pages_ok, of "\<lambda>_. True" long_values 7] sample_held(3)
  obtain i pl' where "list_set long_values (\<lambda>_. True) 7 sample_pages = Inr (i, pl')" "held sample_pages (unat i) = None"
    "\<forall>j. held pl' j = (if j = unat i then Some 7 else held sample_pages j)"
    by (auto simp: sample_pages_def long_values_def storable_def writable_def)
  with sample_held(3) show ?thesis by (intro exI [of _ i] exI [of _ pl']) auto
qed

theorem page_list_store_all_witness:
  "\<exists>is pl'. store_all (list_set long_values (\<lambda>_. True)) [7, 8, 9] sample_pages = Inr (is, pl') \<and> distinct is \<and>
    map (\<lambda>i. held pl' (unat i)) is = [Some 7, Some 8, Some 9] \<and> held pl' 2 = Some 2"
proof -
  have "page_room (length [7, 8, 9 :: nat]) sample_pages" by (simp add: page_room_def sample_pages_def)
  with page_list_store_all [OF sample_pages_ok, of "\<lambda>_. True" long_values "[7, 8, 9]"] obtain "is" pl' where
    s: "store_all (list_set long_values (\<lambda>_. True)) [7, 8, 9] sample_pages = Inr (is, pl')" "distinct is"
      "map (\<lambda>i. held pl' (unat i)) is = [Some 7, Some 8, Some 9]"
    and old: "\<forall>j x. held sample_pages (unat j) = Some x \<longrightarrow> held pl' (unat (j :: size_t)) = Some x"
    by (auto simp: long_values_def storable_def writable_def)
  have "held pl' 2 = Some 2" using spec [OF old, of 2] sample_held(3) by simp
  with s show ?thesis by (intro exI [of _ "is"] exI [of _ pl']) simp
qed

lemma page_list_unset_correct_witness:
  "\<exists>pl'. list_unset long_values 0 sample_pages = Inr pl' \<and> held pl' 0 = Some 2"
proof -
  have alone: "alone sample_pages 0" by (rule sample_alone)
  have "unat (page_size sample_pages) = 2" by (simp add: sample_pages_def)
  with page_list_unset_correct [OF sample_pages_ok, of 0 1 long_values] sample_held(1,3) alone show ?thesis
    by (auto simp: long_values_def simp del: add_2_eq_Suc add_2_eq_Suc')
qed

lemma page_list_needs_trivial_values_witness:
  "list_unset string_values 0 sample_pages = Inl Undefined_behaviour"
proof -
  have "alone sample_pages 0" by (rule sample_alone)
  with page_list_needs_trivial_values [OF sample_pages_ok, of 0 1 string_values] sample_held(1) show ?thesis
    by (simp add: string_values_def)
qed

text \<open>A page with two values of eight bytes, made twice as large, has lost both.\<close>

definition full_page :: "nat page" where
  "full_page = \<lparr>p_sets = Some [\<lparr>s_value = Value 1, s_set = True\<rparr>, \<lparr>s_value = Value 2, s_set = True\<rparr>],
     p_max = 2, p_used = 2, p_empty = False, p_full = True\<rparr>"

lemma page_grow_correct_witness:
  "\<exists>p'. page_resize long_values (\<lambda>_. True) 4 full_page = Inr p' \<and> p_used p' = 2 \<and> (\<forall>i. page_held p' i = None)"
proof -
  have ok: "page_ok 2 full_page" by (simp add: page_ok_def full_page_def count_set_def)
  have le: "(2 :: size_t) \<le> 4" "(2 :: size_t) \<noteq> 0" by simp_all
  from page_grow_correct [OF ok _ le(2,1), of _ "\<lambda>_. True" long_values]
  show ?thesis by (auto simp: full_page_def long_values_def)
qed

end
