(* ===== verification/GcValue.thy ===== *)
theory GcValue
  imports Prelude
begin

text \<open>
  The values that an object can store without a pointer: \<open>push\<close> (\<open>include/managed_object_heap.h\<close>)
  assigns them to an \<open>Info\<close>, whose operator takes an \<open>uintptr_t\<close>, so that they are converted; and
  \<open>get_value_at\<close> (\<open>include/managed_object.h\<close>) reads the bytes of the stored word as the type again.

  The types are the arithmetic ones of at most 64 bits: integers with and without sign (\<open>bool\<close>, the
  characters and enumerations are among them, with the representation of their integer type) and the
  binary floating formats of IEEE 754, which \<open>float\<close> and \<open>double\<close> are.  The lowest byte of a word
  comes first in memory, and reading it through a reference of another type gives the bytes that are there.
\<close>

section \<open>Values and their conversion\<close>

datatype arith =
    U8 "8 word" | U16 "16 word" | U32 "32 word" | U64 "64 word"
  | S8 "8 word" | S16 "16 word" | S32 "32 word" | S64 "64 word"
  | Float32 "32 word" | Float64 "64 word"

text \<open>
  A floating value with \<open>e\<close> bits of exponent and \<open>f\<close> of fraction, given by the bits \<open>b\<close>, is converted
  by cutting off what is behind the point; a result that is no 64 bit word is undefined behaviour.
\<close>

definition fraction :: "nat \<Rightarrow> nat \<Rightarrow> nat" where
  "fraction f b = b mod 2 ^ f"

definition exponent :: "nat \<Rightarrow> nat \<Rightarrow> nat \<Rightarrow> nat" where
  "exponent e f b = b div 2 ^ f mod 2 ^ e"

definition negative :: "nat \<Rightarrow> nat \<Rightarrow> nat \<Rightarrow> bool" where
  "negative e f b \<longleftrightarrow> odd (b div 2 ^ (e + f))"

definition bias :: "nat \<Rightarrow> nat" where
  "bias e = 2 ^ (e - 1) - 1"

definition truncate_float :: "nat \<Rightarrow> nat \<Rightarrow> nat \<Rightarrow> fault + addr" where
  "truncate_float e f b =
     (if exponent e f b = 2 ^ e - 1 then Inl Undefined_behaviour
      else let t = (if exponent e f b < bias e then 0
                    else (2 ^ f + fraction f b) * 2 ^ (exponent e f b - bias e) div 2 ^ f)
           in if t = 0 then Inr 0
              else if negative e f b \<or> t \<ge> 2 ^ 64 then Inl Undefined_behaviour
              else Inr (of_nat t))"

fun to_uintptr :: "arith \<Rightarrow> fault + addr" where
  "to_uintptr (U8 x) = Inr (ucast x)"
| "to_uintptr (U16 x) = Inr (ucast x)"
| "to_uintptr (U32 x) = Inr (ucast x)"
| "to_uintptr (U64 x) = Inr x"
| "to_uintptr (S8 x) = Inr (scast x)"
| "to_uintptr (S16 x) = Inr (scast x)"
| "to_uintptr (S32 x) = Inr (scast x)"
| "to_uintptr (S64 x) = Inr x"
| "to_uintptr (Float32 x) = truncate_float 8 23 (unat x)"
| "to_uintptr (Float64 x) = truncate_float 11 52 (unat x)"

text \<open>The bytes of a word read as the type of another value.\<close>

fun read_like :: "arith \<Rightarrow> addr \<Rightarrow> arith" where
  "read_like (U8 x) w = U8 (ucast w)"
| "read_like (U16 x) w = U16 (ucast w)"
| "read_like (U32 x) w = U32 (ucast w)"
| "read_like (U64 x) w = U64 w"
| "read_like (S8 x) w = S8 (ucast w)"
| "read_like (S16 x) w = S16 (ucast w)"
| "read_like (S32 x) w = S32 (ucast w)"
| "read_like (S64 x) w = S64 w"
| "read_like (Float32 x) w = Float32 (ucast w)"
| "read_like (Float64 x) w = Float64 w"

fun is_integer :: "arith \<Rightarrow> bool" where
  "is_integer (Float32 x) = False"
| "is_integer (Float64 x) = False"
| "is_integer x = True"

section \<open>What comes back\<close>

lemma ucast_ucast_back: "(ucast (ucast (x :: 'a::len word) :: addr) :: 'a word) = x" if "LENGTH('a) \<le> 64"
  using that by (intro bit_word_eqI) (auto simp: bit_simps)

lemma ucast_scast_back: "(ucast (scast (x :: 'a::len word) :: addr) :: 'a word) = x" if "LENGTH('a) \<le> 64"
  using that by (intro bit_word_eqI) (auto simp: bit_simps)

lemma integer_converted: "is_integer x \<Longrightarrow> \<exists>w. to_uintptr x = Inr w \<and> read_like x w = x"
  by (cases x) (simp_all add: ucast_ucast_back ucast_scast_back)

lemma to_uintptr_cases: "to_uintptr x = Inl Undefined_behaviour \<or> (\<exists>w. to_uintptr x = Inr w)"
  by (cases x) (simp_all add: truncate_float_def Let_def)

text \<open>The number that finite bits stand for; the conversion takes the integer part of its amount.\<close>

definition float_value :: "nat \<Rightarrow> nat \<Rightarrow> nat \<Rightarrow> real" where
  "float_value e f b = (if negative e f b then - 1 else 1) *
     (if exponent e f b = 0 then 2 * (real (fraction f b) / 2 ^ f) / 2 ^ bias e
      else (1 + real (fraction f b) / 2 ^ f) * 2 ^ exponent e f b / 2 ^ bias e)"

lemma fraction_less: "real (fraction f b) < 2 ^ f"
proof -
  have "fraction f b < 2 ^ f" by (simp add: fraction_def)
  then have "real (fraction f b) < real (2 ^ f)" by (simp only: of_nat_less_iff)
  then show ?thesis by simp
qed

lemma float_value_abs:
  "\<bar>float_value e f b\<bar> = (if exponent e f b = 0 then 2 * (real (fraction f b) / 2 ^ f) / 2 ^ bias e
      else (1 + real (fraction f b) / 2 ^ f) * 2 ^ exponent e f b / 2 ^ bias e)"
  by (simp add: float_value_def abs_mult)

lemma truncated_amount:
  assumes e: "2 \<le> e"
  shows "(if exponent e f b < bias e then 0 else (2 ^ f + fraction f b) * 2 ^ (exponent e f b - bias e) div 2 ^ f) =
    nat \<lfloor>\<bar>float_value e f b\<bar>\<rfloor>"
proof -
  let ?x = "exponent e f b" and ?q = "real (fraction f b) / 2 ^ f"
  have q: "0 \<le> ?q" "?q < 1" using fraction_less [of f b] by simp_all
  have b1: "1 \<le> bias e"
  proof -
    have "(2 :: nat) ^ 1 \<le> 2 ^ (e - 1)" by (rule power_increasing) (use e in simp_all)
    then show ?thesis by (simp add: bias_def)
  qed
  show ?thesis
  proof (cases "?x < bias e")
    case True
    have "\<bar>float_value e f b\<bar> < 1"
    proof (cases "?x = 0")
      case z: True
      have "(2 :: real) ^ 1 \<le> 2 ^ bias e" by (rule power_increasing) (use b1 in simp_all)
      moreover have "2 * ?q < 2" using q(2) by linarith
      ultimately have "2 * ?q < 2 ^ bias e" by (simp only: power_one_right order.strict_trans2)
      then have "2 * ?q / 2 ^ bias e < 1" using divide_less_eq_1_pos [of "2 ^ bias e" "2 * ?q"] by simp
      then show ?thesis unfolding float_value_abs if_P [OF z] .
    next
      case z: False
      have "(1 + ?q) * 2 ^ ?x < 2 * 2 ^ ?x" using q by simp
      also have "\<dots> = (2 :: real) ^ Suc ?x" by simp
      also have "\<dots> \<le> 2 ^ bias e" by (rule power_increasing) (use True in simp_all)
      finally show ?thesis using z by (simp add: float_value_abs)
    qed
    then have "\<lfloor>\<bar>float_value e f b\<bar>\<rfloor> = 0" by (simp add: floor_eq_iff)
    then show ?thesis using True by simp
  next
    case False
    then have "?x \<noteq> 0" using b1 by simp
    then have "\<bar>float_value e f b\<bar> = (1 + ?q) * 2 ^ ?x / 2 ^ bias e" by (simp add: float_value_abs)
    also have "\<dots> = (1 + ?q) * 2 ^ (?x - bias e)" using False by (simp add: power_diff)
    also have "\<dots> = real ((2 ^ f + fraction f b) * 2 ^ (?x - bias e)) / real (2 ^ f)"
      by (simp add: field_simps)
    finally have "\<lfloor>\<bar>float_value e f b\<bar>\<rfloor> = int ((2 ^ f + fraction f b) * 2 ^ (?x - bias e) div 2 ^ f)"
      by (simp only: floor_divide_of_nat_eq)
    then show ?thesis using False by simp
  qed
qed

lemma truncate_float_value:
  "2 \<le> e \<Longrightarrow> exponent e f b \<noteq> 2 ^ e - 1 \<Longrightarrow> truncate_float e f b =
     (let t = nat \<lfloor>\<bar>float_value e f b\<bar>\<rfloor> in if t = 0 then Inr 0
      else if float_value e f b < 0 \<or> t \<ge> 2 ^ 64 then Inl Undefined_behaviour else Inr (of_nat t))"
proof -
  assume e: "2 \<le> e" "exponent e f b \<noteq> 2 ^ e - 1"
  have "float_value e f b < 0 \<longleftrightarrow> negative e f b" if "nat \<lfloor>\<bar>float_value e f b\<bar>\<rfloor> \<noteq> 0"
  proof -
    from that have "\<bar>float_value e f b\<bar> \<noteq> 0" by auto
    then have "0 < \<bar>float_value e f b\<bar>" by simp
    moreover have "float_value e f b = (if negative e f b then - \<bar>float_value e f b\<bar> else \<bar>float_value e f b\<bar>)"
      unfolding float_value_abs by (simp add: float_value_def)
    ultimately show ?thesis by (metis less_asym neg_less_0_iff_less)
  qed
  then show ?thesis unfolding truncate_float_def truncated_amount [OF e(1)] Let_def using e(2) by auto
qed

text \<open>One and a half is stored as 1, whose bytes are not those of one and a half.\<close>

lemma one_and_a_half:
  "to_uintptr (Float64 0x3FF8000000000000) = Inr 1"
  "read_like (Float64 0x3FF8000000000000) 1 \<noteq> Float64 0x3FF8000000000000"
  by (simp_all add: truncate_float_def exponent_def fraction_def negative_def bias_def)

text \<open>Minus one as a \<open>double\<close> is undefined, as an \<open>int\<close> it is stored with its sign extended.\<close>

lemma minus_one:
  "to_uintptr (Float64 0xBFF0000000000000) = Inl Undefined_behaviour"
  "to_uintptr (S32 (- 1)) = Inr (- 1)"
  by (simp_all add: truncate_float_def exponent_def fraction_def negative_def bias_def)

end
