(* ===== verification/GcHeap.thy ===== *)
theory GcHeap
  imports GcValue
begin

text \<open>
  The mark and sweep heap in C++ (\<open>src/src/managed_object_heap.cpp\<close> and
  \<open>include/managed_object_heap.h\<close>): data and operations.

  A \<open>ManagedObjectHeap\<close> is a handle on a \<open>Memory\<close>, which it makes on its first use and which copies
  of the handle share.  A memory holds a vector of \<open>Info\<close>s, each a plain pointer or a reference to
  another handle.  Handles and memories are made with \<open>new\<close> and known by their addresses, which are
  numbers here: the code does no arithmetic on them.  \<open>new\<close> gives a new number each time and does
  not fail.  Using an address that was deleted is undefined behaviour.

  An iterator is a position, as in the common implementations of \<open>std::vector\<close>: the loops of the
  code erase the element they are at and go on with the iterator.  Vector sizes are natural
  numbers.
\<close>

section \<open>Data\<close>

type_synonym ref = nat

datatype color =
    MANAGED_OBJECT_HEAP_COLOR_WHITE
  | MANAGED_OBJECT_HEAP_COLOR_GRAY
  | MANAGED_OBJECT_HEAP_COLOR_BLACK

text \<open>What a \<open>void *\<close> of an \<open>Info\<close> can be: null, the address of a handle, or anything else.\<close>

datatype pointer = Null | Plain addr | Handle ref

text \<open>
  The function pointer \<open>destructor\<close>: not initialised, the function that does nothing, the one that
  deletes a handle, or a function of the client.
\<close>

datatype destructor = Unset | Do_nothing | Delete_heap | Client nat

record Info =
  i_index :: nat
  i_ptr :: pointer
  i_destructor :: destructor
  ptr_is_ref :: bool

record Memory =
  indexes :: "nat list"
  infos :: "Info list"         \<comment> \<open>the field \<open>memory\<close>\<close>
  color :: color
  dealloc_count :: "8 word"
  seen :: bool
  keep_memory :: bool

record ManagedObjectHeap =
  tag :: string
  memory :: "ref option"       \<comment> \<open>\<open>None\<close> for \<open>nullptr\<close>\<close>
  deallocated :: bool
  lazy :: bool                 \<comment> \<open>whether \<open>get_memory_\<close> is \<open>get_memory1\<close>\<close>

text \<open>Ghost events: what the destructors did, in order.\<close>

datatype gc_event = Client_destroyed nat pointer | Heap_deleted ref | Memory_deleted ref

record gc =
  heaps :: "ref \<Rightarrow> ManagedObjectHeap option"
  mems :: "ref \<Rightarrow> Memory option"
  next_ref :: ref              \<comment> \<open>the next address of \<open>new\<close>\<close>
  root :: ref                  \<comment> \<open>the static handle of \<open>get_root\<close>\<close>
  inside_destructor :: bool
  collect_count :: size_t
  ran :: "gc_event list"

definition dealloc_limit :: "8 word" where
  "dealloc_limit = 10"

definition new_Info :: "nat \<Rightarrow> Info" where
  "new_Info index = \<lparr>i_index = index, i_ptr = Null, i_destructor = Unset, ptr_is_ref = False\<rparr>"

definition new_Memory :: Memory where
  "new_Memory = \<lparr>indexes = [], infos = [], color = MANAGED_OBJECT_HEAP_COLOR_GRAY, dealloc_count = 0,
     seen = False, keep_memory = False\<rparr>"

section \<open>Access through pointers\<close>

definition get_heap :: "ref \<Rightarrow> gc \<Rightarrow> fault + ManagedObjectHeap" where
  "get_heap h g = (case heaps g h of None \<Rightarrow> Inl Undefined_behaviour | Some hp \<Rightarrow> Inr hp)"

definition put_heap :: "ref \<Rightarrow> ManagedObjectHeap \<Rightarrow> gc \<Rightarrow> gc" where
  "put_heap h hp g = g\<lparr>heaps := (heaps g)(h \<mapsto> hp)\<rparr>"

definition get_mem :: "ref \<Rightarrow> gc \<Rightarrow> fault + Memory" where
  "get_mem m g = (case mems g m of None \<Rightarrow> Inl Undefined_behaviour | Some M \<Rightarrow> Inr M)"

definition put_mem :: "ref \<Rightarrow> Memory \<Rightarrow> gc \<Rightarrow> gc" where
  "put_mem m M g = g\<lparr>mems := (mems g)(m \<mapsto> M)\<rparr>"

definition MANAGED_OBJECT_GET_HEAP :: "Info \<Rightarrow> fault + ref option" where
  "MANAGED_OBJECT_GET_HEAP info =
     (if ptr_is_ref info
      then (case i_ptr info of
              Null \<Rightarrow> Inr None
            | Handle r \<Rightarrow> Inr (Some r)
            | Plain _ \<Rightarrow> Inl Undefined_behaviour)
      else Inr None)"

section \<open>Handles and their memory\<close>

definition new_ManagedObjectHeap :: "string \<Rightarrow> gc \<Rightarrow> ref \<times> gc" where
  "new_ManagedObjectHeap t g =
     (next_ref g, put_heap (next_ref g) \<lparr>tag = t, memory = None, deallocated = False, lazy = True\<rparr>
        (g\<lparr>next_ref := Suc (next_ref g)\<rparr>))"

definition get_memory1 :: "ref \<Rightarrow> ManagedObjectHeap \<Rightarrow> gc \<Rightarrow> ref \<times> gc" where
  "get_memory1 h hp g =
     (let m = next_ref g
      in (m, put_heap h (hp\<lparr>memory := Some m, lazy := False\<rparr>) (put_mem m new_Memory (g\<lparr>next_ref := Suc m\<rparr>))))"

text \<open>The result of \<open>get_memory\<close> is used at once everywhere, so a null pointer is a fault here already.\<close>

definition get_memory :: "ref \<Rightarrow> gc \<Rightarrow> fault + ref \<times> gc" where
  "get_memory h g = andthen (get_heap h g) (\<lambda>hp.
     if lazy hp then Inr (get_memory1 h hp g)
     else case memory hp of None \<Rightarrow> Inl Undefined_behaviour | Some m \<Rightarrow> Inr (m, g))"

section \<open>Storing\<close>

definition assign_pointer :: "pointer \<Rightarrow> Info \<Rightarrow> Info" where
  "assign_pointer p info = info\<lparr>i_ptr := p\<rparr>"

definition assign_heap :: "ref \<Rightarrow> Info \<Rightarrow> Info" where
  "assign_heap r info = info\<lparr>i_ptr := Handle r, ptr_is_ref := True, i_destructor := Delete_heap\<rparr>"

text \<open>The five overloads of \<open>push\<close> differ in what they do to the new \<open>Info\<close>.\<close>

definition push_info :: "ref \<Rightarrow> (Info \<Rightarrow> Info) \<Rightarrow> gc \<Rightarrow> fault + nat \<times> gc" where
  "push_info h assign g = andthen (get_memory h g) (\<lambda>(m, g1). andthen (get_mem m g1) (\<lambda>M.
     let index = length (infos M)
     in Inr (index, put_mem m (M\<lparr>indexes := indexes M @ [index],
          infos := infos M @ [assign (new_Info index)]\<rparr>) g1)))"

definition push_empty :: "ref \<Rightarrow> gc \<Rightarrow> fault + nat \<times> gc" where
  "push_empty h = push_info h (\<lambda>info. info)"

definition push_heap :: "ref \<Rightarrow> ref \<Rightarrow> gc \<Rightarrow> fault + nat \<times> gc" where
  "push_heap h r = push_info h (assign_heap r)"

text \<open>A value that is no pointer is converted by the assignment to the \<open>Info\<close>.\<close>

definition push_word :: "ref \<Rightarrow> addr \<Rightarrow> gc \<Rightarrow> fault + nat \<times> gc" where
  "push_word h v = push_info h (\<lambda>info. (assign_pointer (Plain v) info)\<lparr>i_destructor := Do_nothing\<rparr>)"

definition push_value :: "ref \<Rightarrow> arith \<Rightarrow> gc \<Rightarrow> fault + nat \<times> gc" where
  "push_value h x g = andthen (to_uintptr x) (\<lambda>v. push_word h v g)"

definition push_pointer :: "ref \<Rightarrow> pointer \<Rightarrow> destructor \<Rightarrow> gc \<Rightarrow> fault + nat \<times> gc" where
  "push_pointer h p d = push_info h (\<lambda>info. (assign_pointer p info)\<lparr>i_destructor := d\<rparr>)"

definition push_object_pointer :: "ref \<Rightarrow> pointer \<Rightarrow> bool \<Rightarrow> destructor \<Rightarrow> gc \<Rightarrow> fault + nat \<times> gc" where
  "push_object_pointer h p is_ref d = push_info h (\<lambda>info. (assign_pointer p info)\<lparr>i_destructor := d\<rparr>)"

section \<open>Marking\<close>

text \<open>
  Marking recurses along references.  The first argument bounds the depth of the recursion; the
  operations below pass a bound that is never reached.
\<close>

primrec mark_loop :: "(ref \<Rightarrow> gc \<Rightarrow> fault + gc) \<Rightarrow> ref \<Rightarrow> nat \<Rightarrow> nat \<Rightarrow> gc \<Rightarrow> fault + gc" where
  "mark_loop mk h i 0 g = Inr g"
| "mark_loop mk h i (Suc k) g =
     andthen (get_memory h g) (\<lambda>(m, g1). andthen (get_mem m g1) (\<lambda>M.
       if i < length (infos M)
       then (let info = infos M ! i in
             andthen (MANAGED_OBJECT_GET_HEAP info) (\<lambda>ref.
             andthen (case ref of None \<Rightarrow> Inr g1 | Some r \<Rightarrow> mk r g1) (\<lambda>g2.
             mark_loop mk h (Suc i) k g2)))
       else Inl Undefined_behaviour))"

fun mark :: "nat \<Rightarrow> ref \<Rightarrow> gc \<Rightarrow> fault + gc" where
  "mark 0 h g = Inl Diverges"
| "mark (Suc n) h g =
     andthen (get_memory h g) (\<lambda>(m, g1). andthen (get_mem m g1) (\<lambda>M. andthen (get_heap h g1) (\<lambda>hp.
       let M1 = M\<lparr>keep_memory := False\<rparr> in
       if color M \<noteq> MANAGED_OBJECT_HEAP_COLOR_GRAY then Inr (put_mem m M1 g1)
       else (let c = (if deallocated hp then MANAGED_OBJECT_HEAP_COLOR_WHITE
                      else MANAGED_OBJECT_HEAP_COLOR_BLACK)
             in mark_loop (mark n) h 0 (length (infos M)) (put_mem m (M1\<lparr>color := c\<rparr>) g1)))))"

section \<open>Sweeping\<close>

record queue =
  q_list :: "(pointer \<times> destructor) list"
  q_memory :: "ref list"       \<comment> \<open>\<open>memory_list\<close>, whose destructor always deletes a memory\<close>

definition erase_at :: "nat \<Rightarrow> 'a list \<Rightarrow> 'a list" where
  "erase_at i xs = take i xs @ drop (Suc i) xs"

text \<open>Erase the last occurrence, if there is one.\<close>

definition erase_last :: "'a \<Rightarrow> 'a list \<Rightarrow> 'a list" where
  "erase_last x xs = rev (remove1 x (rev xs))"

definition last_pos :: "('a \<Rightarrow> bool) \<Rightarrow> 'a list \<Rightarrow> nat option" where
  "last_pos P xs = List.find (\<lambda>i. P (xs ! i)) (rev [0..<length xs])"

definition enqueue :: "Info \<Rightarrow> queue \<Rightarrow> queue" where
  "enqueue info q = q\<lparr>q_list := q_list q @ [(i_ptr info, i_destructor info)]\<rparr>"

text \<open>Erase the entry at position \<open>j\<close> of the memory \<open>m\<close>, and one of its index numbers.\<close>

definition unlink :: "ref \<Rightarrow> nat \<Rightarrow> gc \<Rightarrow> fault + gc" where
  "unlink m j g = andthen (get_mem m g) (\<lambda>M.
     Inr (put_mem m (M\<lparr>indexes := erase_last (i_index (infos M ! j)) (indexes M),
       infos := erase_at j (infos M)\<rparr>) g))"

text \<open>
  The loop that empties the memory of a dead handle, from index number \<open>j\<close> down.  It takes the
  index number for a position, and looks for the entry to erase with a test that compares
  iterators of two vectors: if there is none, it runs over the beginning.
\<close>

primrec drop_contents :: "ref \<Rightarrow> nat \<Rightarrow> gc \<Rightarrow> queue \<Rightarrow> fault + gc \<times> queue" where
  "drop_contents m2 0 g q = Inr (g, q)"
| "drop_contents m2 (Suc j) g q = andthen (get_mem m2 g) (\<lambda>M.
     let i = indexes M ! j in
     if i < length (infos M)
     then (let info2 = infos M ! i;
               ms = (infos M)[i := info2\<lparr>i_ptr := Null\<rparr>]
           in case last_pos (\<lambda>e. i_index e = i) ms of
                None \<Rightarrow> Inl Undefined_behaviour
              | Some p \<Rightarrow>
                  drop_contents m2 j (put_mem m2 (M\<lparr>infos := erase_at p ms, indexes := erase_at j (indexes M)\<rparr>) g)
                    (enqueue info2 q))
     else Inl Undefined_behaviour)"

text \<open>The body of the loop of \<open>do_sweep\<close>: what happens to the entry at position \<open>j\<close>.\<close>

definition sweep_entry ::
  "(ref \<Rightarrow> gc \<Rightarrow> queue \<Rightarrow> fault + gc \<times> queue) \<Rightarrow> ref \<Rightarrow> nat \<Rightarrow> gc \<Rightarrow> queue \<Rightarrow> fault + gc \<times> queue"
where
  "sweep_entry sw m j g q = andthen (get_mem m g) (\<lambda>M.
     let info = infos M ! j in
     if \<not> ptr_is_ref info
     then (if color M = MANAGED_OBJECT_HEAP_COLOR_WHITE
           then andthen (unlink m j g) (\<lambda>g1. Inr (g1, enqueue info q))
           else Inr (g, q))
     else andthen (MANAGED_OBJECT_GET_HEAP info) (\<lambda>ref.
       case ref of
         None \<Rightarrow> Inr (g, q)
       | Some r \<Rightarrow>
           andthen (get_memory r g) (\<lambda>(m2, g1). andthen (get_mem m2 g1) (\<lambda>M2.
             if seen M2 then Inr (g1, q)
             else andthen (sw r g1 q) (\<lambda>(g2, q2). andthen (get_mem m2 g2) (\<lambda>M3.
               if keep_memory M3
               then andthen (unlink m j g2) (\<lambda>g3. Inr (g3, enqueue info q2))
               else if color M3 = MANAGED_OBJECT_HEAP_COLOR_WHITE
               then andthen (drop_contents m2 (length (indexes M3)) (put_mem m2 (M3\<lparr>keep_memory := True\<rparr>) g2) q2)
                 (\<lambda>(g3, q3). andthen (get_mem m2 g3) (\<lambda>M4.
                    let q4 = (if infos M4 = [] then q3\<lparr>q_memory := q_memory q3 @ [m2]\<rparr> else q3)
                    in andthen (unlink m j g3) (\<lambda>g4. Inr (g4, enqueue info q4))))
               else Inr (g2, q2)))))))"

primrec sweep_loop ::
  "(ref \<Rightarrow> gc \<Rightarrow> queue \<Rightarrow> fault + gc \<times> queue) \<Rightarrow> ref \<Rightarrow> nat \<Rightarrow> gc \<Rightarrow> queue \<Rightarrow> fault + gc \<times> queue"
where
  "sweep_loop sw m 0 g q = Inr (g, q)"
| "sweep_loop sw m (Suc j) g q = andthen (sweep_entry sw m j g q) (\<lambda>(g1, q1). sweep_loop sw m j g1 q1)"

fun do_sweep :: "nat \<Rightarrow> ref \<Rightarrow> gc \<Rightarrow> queue \<Rightarrow> fault + gc \<times> queue" where
  "do_sweep 0 h g q = Inl Diverges"
| "do_sweep (Suc n) h g q = andthen (get_memory h g) (\<lambda>(m, g1). andthen (get_mem m g1) (\<lambda>M.
     if seen M then Inr (g1, q)
     else
       (let c = (if color M = MANAGED_OBJECT_HEAP_COLOR_BLACK then MANAGED_OBJECT_HEAP_COLOR_GRAY else color M)
        in andthen (sweep_loop (do_sweep n) m (length (infos M)) (put_mem m (M\<lparr>seen := True, color := c\<rparr>) g1) q)
             (\<lambda>(g2, q2). andthen (get_mem m g2) (\<lambda>M2. Inr (put_mem m (M2\<lparr>seen := False\<rparr>) g2, q2))))))"

section \<open>Running the destructors\<close>

text \<open>
  Deleting a handle calls its \<open>dealloc\<close>, which returns at once while \<open>inside_destructor\<close> is set, as it
  is whenever destructors run.
\<close>

definition delete_heap :: "ref \<Rightarrow> gc \<Rightarrow> fault + gc" where
  "delete_heap r g = andthen (get_heap r g) (\<lambda>hp.
     Inr (g\<lparr>heaps := (heaps g)(r := None), ran := ran g @ [Heap_deleted r]\<rparr>))"

definition do_destroy :: "pointer \<times> destructor \<Rightarrow> gc \<Rightarrow> fault + gc" where
  "do_destroy pair g =
     (case snd pair of
        Unset \<Rightarrow> Inl Undefined_behaviour
      | Do_nothing \<Rightarrow> Inr g
      | Client k \<Rightarrow> Inr (g\<lparr>ran := ran g @ [Client_destroyed k (fst pair)]\<rparr>)
      | Delete_heap \<Rightarrow>
          (case fst pair of
             Null \<Rightarrow> Inr g
           | Handle r \<Rightarrow> delete_heap r g
           | Plain _ \<Rightarrow> Inl Undefined_behaviour))"

definition delete_memory :: "ref \<Rightarrow> gc \<Rightarrow> fault + gc" where
  "delete_memory m g = andthen (get_mem m g) (\<lambda>M.
     Inr (g\<lparr>mems := (mems g)(m := None), ran := ran g @ [Memory_deleted m]\<rparr>))"

primrec run_all :: "('a \<Rightarrow> gc \<Rightarrow> fault + gc) \<Rightarrow> 'a list \<Rightarrow> gc \<Rightarrow> fault + gc" where
  "run_all f [] g = Inr g"
| "run_all f (x # xs) g = andthen (f x g) (run_all f xs)"

definition run_destructors :: "queue \<Rightarrow> gc \<Rightarrow> fault + gc" where
  "run_destructors q g =
     andthen (run_all do_destroy (rev (q_list q)) (g\<lparr>inside_destructor := True\<rparr>)) (\<lambda>g1.
     andthen (run_all delete_memory (rev (q_memory q)) g1) (\<lambda>g2.
     Inr (g2\<lparr>inside_destructor := inside_destructor g\<rparr>)))"

definition sweep :: "nat \<Rightarrow> ref \<Rightarrow> gc \<Rightarrow> fault + size_t \<times> gc" where
  "sweep n h g = andthen (do_sweep n h g \<lparr>q_list = [], q_memory = []\<rparr>) (\<lambda>(g1, q).
     let s = word_of_nat (length (q_list q) + length (q_memory q))
     in andthen (run_destructors q (g1\<lparr>collect_count := collect_count g1 + s\<rparr>)) (\<lambda>g2. Inr (s, g2)))"

section \<open>Collecting\<close>

text \<open>The depth of a recursion along distinct handles is at most the number of addresses given so far.\<close>

definition collect :: "ref \<Rightarrow> gc \<Rightarrow> fault + size_t \<times> gc" where
  "collect r g = andthen (get_memory r g) (\<lambda>(m, g1). andthen (get_mem m g1) (\<lambda>M.
     if infos M = [] then Inr (0, g1)
     else andthen (mark (Suc (next_ref g1)) r g1) (\<lambda>g2.
          andthen (sweep (Suc (next_ref g2)) r g2) (\<lambda>(s, g3).
          if inside_destructor g3 then Inr (s, g3)
          else andthen (get_memory r g3) (\<lambda>(m4, g4). andthen (get_mem m4 g4) (\<lambda>M4.
               Inr (s, (put_mem m4 (M4\<lparr>dealloc_count := 0\<rparr>) g4)\<lparr>collect_count := 0\<rparr>)))))))"

definition collect_all :: "gc \<Rightarrow> fault + size_t \<times> gc" where
  "collect_all g = collect (root g) g"

definition dealloc :: "ref \<Rightarrow> ref \<Rightarrow> gc \<Rightarrow> fault + gc" where
  "dealloc h r g =
     (if inside_destructor g then Inr g
      else andthen (get_heap h g) (\<lambda>hp.
        let g1 = put_heap h (hp\<lparr>deallocated := True\<rparr>) g in
        if r = h
        then andthen (collect r g1) (\<lambda>(s, g2). andthen (get_heap h g2) (\<lambda>hp2.
               case memory hp2 of None \<Rightarrow> Inr g2 | Some m \<Rightarrow> delete_memory m g2))
        else andthen (get_memory r g1) (\<lambda>(m, g2). andthen (get_mem m g2) (\<lambda>M.
               let c = dealloc_count M + 1;
                   g3 = put_mem m (M\<lparr>dealloc_count := c\<rparr>) g2
               in if dealloc_limit \<noteq> 0 \<and> c \<ge> dealloc_limit
                  then andthen (collect r g3) (\<lambda>(s, g4). Inr g4)
                  else Inr g3))))"

text \<open>The destructor of a handle.\<close>

definition destroy_ManagedObjectHeap :: "ref \<Rightarrow> gc \<Rightarrow> fault + gc" where
  "destroy_ManagedObjectHeap h g = dealloc h (root g) g"

text \<open>
  Assigning a handle by value to the entry \<open>i\<close> of a memory: a new handle becomes a copy of the
  argument, which is itself a copy, and whose destructor counts as a deallocation.  Nothing in the
  library uses this overload.
\<close>

definition assign_copy :: "ref \<Rightarrow> nat \<Rightarrow> ref \<Rightarrow> gc \<Rightarrow> fault + gc" where
  "assign_copy m i r g = andthen (get_heap r g) (\<lambda>hp.
     let (copy, g1) = new_ManagedObjectHeap (tag hp) g;
         (s, g2) = new_ManagedObjectHeap ''no name'' (put_heap copy hp g1);
         g3 = put_heap s hp g2
     in andthen (get_mem m g3) (\<lambda>M.
        if i < length (infos M)
        then andthen (destroy_ManagedObjectHeap copy
               (put_mem m (M\<lparr>infos := (infos M)[i := assign_heap s (infos M ! i)]\<rparr>) g3))
             (\<lambda>g4. Inr (g4\<lparr>heaps := (heaps g4)(copy := None)\<rparr>))
        else Inl Undefined_behaviour))"

text \<open>The start of the program: only the static root handle.\<close>

definition get_root :: gc where
  "get_root = \<lparr>heaps = [0 \<mapsto> \<lparr>tag = ''root list'', memory = None, deallocated = False, lazy = True\<rparr>],
     mems = Map.empty, next_ref = 1, root = 0, inside_destructor = False, collect_count = 0, ran = []\<rparr>"

end
