(* ===== verification/GcObject.thy ===== *)
theory GcObject
  imports GcHeap
begin

text \<open>
  \<open>ManagedObject\<close> (\<open>include/managed_object.h\<close>, \<open>src/src/managed_object.cpp\<close>): the operations that
  clients use.  An object has a handle of its own from its constructor to its end, so it is known
  by its handle here; its field \<open>parent\<close> is written but never read, and is left out.
\<close>

definition new_ManagedObject :: "string \<Rightarrow> gc \<Rightarrow> fault + ref \<times> gc" where
  "new_ManagedObject t g =
     (let (h, g1) = new_ManagedObjectHeap t g
      in andthen (push_heap (root g1) h g1) (\<lambda>(i, g2). Inr (h, g2)))"

definition copy_ManagedObject :: "ref \<Rightarrow> gc \<Rightarrow> fault + ref \<times> gc" where
  "copy_ManagedObject other g = andthen (get_heap other g) (\<lambda>op.
     let (h, g1) = new_ManagedObjectHeap (tag op) g;
         g2 = put_heap h \<lparr>tag = tag op, memory = memory op, deallocated = deallocated op, lazy = lazy op\<rparr> g1
     in andthen (push_heap (root g2) h g2) (\<lambda>(i, g3). Inr (h, g3)))"

text \<open>
  Assignment: a new handle takes over what this object had and is deallocated, and this object's
  handle becomes a copy of the other's, under its own tag.
\<close>

definition assign_handles :: "ref \<Rightarrow> ref \<Rightarrow> gc \<Rightarrow> fault + ref \<times> gc" where
  "assign_handles this other g = andthen (get_heap this g) (\<lambda>tp.
     let (old, g1) = new_ManagedObjectHeap (tag tp) g;
         g2 = put_heap old tp g1
     in andthen (push_heap (root g2) old g2) (\<lambda>(i, g3).
        andthen (get_heap other g3) (\<lambda>op. Inr (old, put_heap this (op\<lparr>tag := tag tp\<rparr>) g3))))"

definition assign_ManagedObject :: "ref \<Rightarrow> ref \<Rightarrow> gc \<Rightarrow> fault + gc" where
  "assign_ManagedObject this other g =
     (if this = other then Inr g
      else andthen (assign_handles this other g) (\<lambda>(old, g1). dealloc old (root g1) g1))"

definition dealloc_ManagedObject :: "ref \<Rightarrow> gc \<Rightarrow> fault + gc" where
  "dealloc_ManagedObject this g = dealloc this (root g) g"

text \<open>Remove the last reference to a handle from the root list, if there is one.\<close>

definition unroot :: "ref \<Rightarrow> gc \<Rightarrow> fault + gc" where
  "unroot other g = andthen (get_memory (root g) g) (\<lambda>(m, g1). andthen (get_mem m g1) (\<lambda>M.
     case last_pos (\<lambda>e. ptr_is_ref e \<and> i_ptr e = Handle other) (infos M) of
       None \<Rightarrow> Inr g1
     | Some p \<Rightarrow> unlink m p g1))"

definition byRef :: "ref \<Rightarrow> ref \<Rightarrow> gc \<Rightarrow> fault + nat \<times> gc" where
  "byRef this other g = andthen (push_heap this other g) (\<lambda>(i, g1).
     andthen (unroot other g1) (\<lambda>g2. Inr (i, g2)))"

text \<open>
  The overloads of \<open>push_value\<close>, by the type of the value.  The ones without a destructor argument
  pass a function that deletes the pointer, which is a \<open>Client\<close> function here.  A pointer to an object
  is pushed with \<open>is_ref\<close> set, which the heap ignores.
\<close>

datatype pushed_value = Trivial arith | Pointer pointer destructor | Object_pointer pointer destructor

fun push_value_object :: "ref \<Rightarrow> pushed_value \<Rightarrow> gc \<Rightarrow> fault + nat \<times> gc" where
  "push_value_object this (Trivial v) = push_value this v"
| "push_value_object this (Pointer p d) = push_pointer this p d"
| "push_value_object this (Object_pointer p d) = push_object_pointer this p True d"

definition get_value_at :: "ref \<Rightarrow> nat \<Rightarrow> gc \<Rightarrow> fault + pointer \<times> gc" where
  "get_value_at this index g = andthen (get_memory this g) (\<lambda>(m, g1). andthen (get_mem m g1) (\<lambda>M.
     if index < length (infos M) then Inr (i_ptr (infos M ! index), g1) else Inl Undefined_behaviour))"

definition set_value_at :: "ref \<Rightarrow> nat \<Rightarrow> pointer \<Rightarrow> gc \<Rightarrow> fault + gc" where
  "set_value_at this index p g = andthen (get_memory this g) (\<lambda>(m, g1). andthen (get_mem m g1) (\<lambda>M.
     if index < length (infos M)
     then Inr (put_mem m (M\<lparr>infos := (infos M)[index := assign_pointer p (infos M ! index)]\<rparr>) g1)
     else Inl Undefined_behaviour))"

text \<open>
  \<open>get_value_at\<close> is the \<open>void *\<close> of the entry; what the caller reads through the reference that it
  gets are the bytes of that pointer as the type it asks for.  The addresses of the handles, which are
  whatever \<open>new\<close> has given, are an argument.
\<close>

definition pointer_word :: "(ref \<Rightarrow> addr) \<Rightarrow> pointer \<Rightarrow> addr" where
  "pointer_word address p = (case p of Null \<Rightarrow> 0 | Plain v \<Rightarrow> v | Handle r \<Rightarrow> address r)"

definition get_value_like :: "(ref \<Rightarrow> addr) \<Rightarrow> arith \<Rightarrow> ref \<Rightarrow> nat \<Rightarrow> gc \<Rightarrow> fault + arith \<times> gc" where
  "get_value_like address x this index g =
     andthen (get_value_at this index g) (\<lambda>(p, g1). Inr (read_like x (pointer_word address p), g1))"

text \<open>
  The two overloads of \<open>reroot\<close>.  For a pointer \<open>p\<close> to an object with the handle \<open>other\<close>, the entry
  gets the pointer and the handle is pushed as a reference.
\<close>

definition reroot :: "ref \<Rightarrow> nat \<Rightarrow> addr \<Rightarrow> ref \<Rightarrow> gc \<Rightarrow> fault + pointer \<times> gc" where
  "reroot this index p other g = andthen (set_value_at this index (Plain p) g) (\<lambda>g1.
     andthen (push_heap this other g1) (\<lambda>(i, g2).
     andthen (unroot other g2) (\<lambda>g3. get_value_at this index g3)))"

definition reroot_plain :: "ref \<Rightarrow> nat \<Rightarrow> addr \<Rightarrow> gc \<Rightarrow> fault + pointer \<times> gc" where
  "reroot_plain this index p g = andthen (set_value_at this index (Plain p) g) (get_value_at this index)"

end
