(* ===== verification/GcInv.thy ===== *)
theory GcInv
  imports GcObject "HOL-Library.Multiset"
begin

text \<open>
  What holds of the C++ heap between the calls of a client: every pointer leads to something
  that exists, and the index numbers of a memory are those of its entries.  Constructors, \<open>push\<close>,
  \<open>byRef\<close> and the accessors keep it.
\<close>

section \<open>The graph of handles\<close>

text \<open>The memory of a handle, if it has one already.\<close>

definition mem_of :: "gc \<Rightarrow> ref \<Rightarrow> ref option" where
  "mem_of g h = (case heaps g h of None \<Rightarrow> None | Some hp \<Rightarrow> if lazy hp then None else memory hp)"

definition refs_in :: "Memory \<Rightarrow> ref set" where
  "refs_in M = {r. \<exists>e \<in> set (infos M). ptr_is_ref e \<and> i_ptr e = Handle r}"

definition children :: "gc \<Rightarrow> ref \<Rightarrow> ref set" where
  "children g h = (case mem_of g h of None \<Rightarrow> {} | Some m \<Rightarrow>
     (case mems g m of None \<Rightarrow> {} | Some M \<Rightarrow> refs_in M))"

definition edges :: "gc \<Rightarrow> (ref \<times> ref) set" where
  "edges g = {(x, y). y \<in> children g x}"

section \<open>The invariant\<close>

definition entry_ok :: "gc \<Rightarrow> Info \<Rightarrow> bool" where
  "entry_ok g e \<longleftrightarrow> (ptr_is_ref e \<longrightarrow> (\<exists>r. i_ptr e = Handle r \<and> heaps g r \<noteq> None \<and> i_destructor e = Delete_heap))"

definition memory_ok :: "gc \<Rightarrow> Memory \<Rightarrow> bool" where
  "memory_ok g M \<longleftrightarrow> mset (indexes M) = mset (map i_index (infos M)) \<and> (\<forall>e \<in> set (infos M). entry_ok g e)"

definition handle_ok :: "gc \<Rightarrow> ManagedObjectHeap \<Rightarrow> bool" where
  "handle_ok g hp \<longleftrightarrow> (if lazy hp then memory hp = None else \<exists>m. memory hp = Some m \<and> mems g m \<noteq> None)"

definition gc_ok :: "gc \<Rightarrow> bool" where
  "gc_ok g \<longleftrightarrow> heaps g (root g) \<noteq> None \<and>
     (\<forall>x. heaps g x \<noteq> None \<or> mems g x \<noteq> None \<longrightarrow> x < next_ref g) \<and>
     (\<forall>h hp. heaps g h = Some hp \<longrightarrow> handle_ok g hp) \<and>
     (\<forall>m M. mems g m = Some M \<longrightarrow> memory_ok g M)"

lemma gc_okD:
  assumes "gc_ok g"
  shows "heaps g (root g) \<noteq> None"
    and "heaps g x \<noteq> None \<Longrightarrow> x < next_ref g"
    and "mems g x \<noteq> None \<Longrightarrow> x < next_ref g"
    and "heaps g h = Some hp \<Longrightarrow> handle_ok g hp"
    and "mems g m = Some M \<Longrightarrow> memory_ok g M"
  using assms unfolding gc_ok_def by blast+

lemma finite_handles: "gc_ok g \<Longrightarrow> finite (dom (heaps g)) \<and> card (dom (heaps g)) \<le> next_ref g"
proof -
  assume "gc_ok g"
  then have "dom (heaps g) \<subseteq> {..<next_ref g}" by (auto dest: gc_okD(2))
  then show ?thesis
    using card_mono [of "{..<next_ref g}"] finite_subset [of _ "{..<next_ref g}"] by simp
qed

lemma gc_ok_fresh: "gc_ok g \<Longrightarrow> heaps g (next_ref g) = None \<and> mems g (next_ref g) = None"
  using gc_okD(2,3) by blast

lemma refs_in_ok: "memory_ok g M \<Longrightarrow> r \<in> refs_in M \<Longrightarrow> heaps g r \<noteq> None"
  by (auto simp: memory_ok_def refs_in_def entry_ok_def)

lemma GET_HEAP_ok:
  "entry_ok g e \<Longrightarrow> MANAGED_OBJECT_GET_HEAP e = Inr (if ptr_is_ref e then
     (case i_ptr e of Handle r \<Rightarrow> Some r | _ \<Rightarrow> None) else None)"
  by (auto simp: entry_ok_def MANAGED_OBJECT_GET_HEAP_def)

lemma entry_ok_mono: "entry_ok g e \<Longrightarrow> dom (heaps g) \<subseteq> dom (heaps g') \<Longrightarrow> entry_ok g' e"
  by (auto simp: entry_ok_def)

lemma memory_ok_mono: "memory_ok g M \<Longrightarrow> dom (heaps g) \<subseteq> dom (heaps g') \<Longrightarrow> memory_ok g' M"
  using entry_ok_mono [of g _ g'] unfolding memory_ok_def by blast

lemma handle_ok_mono: "handle_ok g hp \<Longrightarrow> dom (mems g) \<subseteq> dom (mems g') \<Longrightarrow> handle_ok g' hp"
  by (auto simp: handle_ok_def split: if_splits)

text \<open>A state with more handles and memories, whose new ones are fine.\<close>

lemma gc_ok_extend:
  assumes ok: "gc_ok g" and dh: "dom (heaps g) \<subseteq> dom (heaps g')" and dm: "dom (mems g) \<subseteq> dom (mems g')"
    and "root g' = root g" and "next_ref g \<le> next_ref g'"
    and "\<And>x. x \<in> dom (heaps g') - dom (heaps g) \<Longrightarrow> x < next_ref g'"
    and "\<And>x. x \<in> dom (mems g') - dom (mems g) \<Longrightarrow> x < next_ref g'"
    and "\<And>h hp. heaps g' h = Some hp \<Longrightarrow> heaps g h = Some hp \<or> handle_ok g' hp"
    and "\<And>m M. mems g' m = Some M \<Longrightarrow> mems g m = Some M \<or> memory_ok g' M"
  shows "gc_ok g'"
  unfolding gc_ok_def
proof (intro conjI allI impI)
  show "heaps g' (root g') \<noteq> None" using gc_okD(1) [OF ok] assms(4) dh by auto
next
  fix x assume "heaps g' x \<noteq> None \<or> mems g' x \<noteq> None"
  then show "x < next_ref g'"
    using assms(5-7) gc_okD(2,3) [OF ok, of x] by fastforce
next
  fix h hp assume "heaps g' h = Some hp"
  then show "handle_ok g' hp"
    using assms(8) gc_okD(4) [OF ok] handle_ok_mono dm by blast
next
  fix m M assume "mems g' m = Some M"
  then show "memory_ok g' M"
    using assms(9) gc_okD(5) [OF ok] memory_ok_mono dh by blast
qed

lemma gc_ok_put_mem:
  assumes "gc_ok g" and "mems g m \<noteq> None" and "memory_ok g M"
  shows "gc_ok (put_mem m M g)"
  by (rule gc_ok_extend [OF assms(1)])
    (use assms(2,3) memory_ok_mono [OF assms(3), of "put_mem m M g"] in \<open>auto simp: put_mem_def split: if_splits\<close>)

text \<open>Making a handle, and giving it its memory.\<close>

lemma gc_ok_new_handle:
  assumes "gc_ok g" and "new_ManagedObjectHeap t g = (h, g1)"
  shows "gc_ok g1 \<and> h = next_ref g \<and>
    g1 = g\<lparr>heaps := (heaps g)(h \<mapsto> \<lparr>tag = t, memory = None, deallocated = False, lazy = True\<rparr>), next_ref := Suc h\<rparr>"
proof -
  have g1: "h = next_ref g" "g1 = g\<lparr>heaps := (heaps g)(h \<mapsto> \<lparr>tag = t, memory = None, deallocated = False, lazy = True\<rparr>),
      next_ref := Suc h\<rparr>"
    using assms(2) by (auto simp: new_ManagedObjectHeap_def put_heap_def)
  moreover have "gc_ok g1"
    by (rule gc_ok_extend [OF assms(1)])
      (use gc_ok_fresh [OF assms(1)] in \<open>auto simp: g1 handle_ok_def split: if_splits\<close>)
  ultimately show ?thesis by simp
qed

lemma get_memory_outcome:
  assumes ok: "gc_ok g" and h: "heaps g h = Some hp"
  shows "\<exists>m g1 M. get_memory h g = Inr (m, g1) \<and> mems g1 m = Some M \<and> gc_ok g1 \<and> mem_of g1 h = Some m \<and>
    (if lazy hp
     then m = next_ref g \<and> M = new_Memory \<and> g1 = g\<lparr>heaps := (heaps g)(h \<mapsto> hp\<lparr>memory := Some m, lazy := False\<rparr>),
       mems := (mems g)(m \<mapsto> new_Memory), next_ref := Suc m\<rparr>
     else g1 = g)"
proof (cases "lazy hp")
  case False
  with gc_okD(4) [OF ok h] h ok show ?thesis
    by (auto simp: get_memory_def get_heap_def handle_ok_def mem_of_def)
next
  case True
  let ?m = "next_ref g"
  let ?g = "g\<lparr>heaps := (heaps g)(h \<mapsto> hp\<lparr>memory := Some ?m, lazy := False\<rparr>),
       mems := (mems g)(?m \<mapsto> new_Memory), next_ref := Suc ?m\<rparr>"
  have "get_memory h g = Inr (?m, ?g)"
    using True h by (simp add: get_memory_def get_heap_def get_memory1_def put_heap_def put_mem_def Let_def)
  moreover have "gc_ok ?g"
    by (rule gc_ok_extend [OF ok])
      (use h gc_ok_fresh [OF ok] in \<open>auto simp: handle_ok_def memory_ok_def new_Memory_def split: if_splits\<close>)
  ultimately show ?thesis using True by (simp add: mem_of_def)
qed

end
