(* ===== verification/GcMark.thy ===== *)
theory GcMark
  imports GcInv
begin

text \<open>
  Marking: it ends whatever cycles and sharing there are, reaches every handle that can be reached
  along references, and colours exactly their memories.  The order of the visits is in MarkOrder.
\<close>

section \<open>What marking leaves alone\<close>

text \<open>
  The later state has the same handles with the same memories, apart from empty, unshared memories
  that handles got meanwhile, and its memories have the same entries.
\<close>

definition same_entries :: "Memory \<Rightarrow> Memory \<Rightarrow> bool" where
  "same_entries M M' \<longleftrightarrow> infos M' = infos M \<and> indexes M' = indexes M \<and> seen M' = seen M \<and>
     dealloc_count M' = dealloc_count M"

definition attrs :: "gc \<Rightarrow> ref \<Rightarrow> (string \<times> bool) option" where
  "attrs g h = map_option (\<lambda>hp. (tag hp, deallocated hp)) (heaps g h)"

definition flag :: "gc \<Rightarrow> ref \<Rightarrow> bool option" where
  "flag g h = map_option deallocated (heaps g h)"

definition frame :: "gc \<Rightarrow> ref \<times> bool \<times> size_t \<times> gc_event list" where
  "frame g = (root g, inside_destructor g, collect_count g, ran g)"

definition empty_new :: "gc \<Rightarrow> gc \<Rightarrow> ref \<Rightarrow> bool" where
  "empty_new g g' m \<longleftrightarrow> mems g m = None \<and> (\<exists>M. mems g' m = Some M \<and> infos M = [] \<and> \<not> seen M)"

definition later :: "gc \<Rightarrow> gc \<Rightarrow> bool" where
  "later g g' \<longleftrightarrow> attrs g' = attrs g \<and> frame g' = frame g \<and> next_ref g \<le> next_ref g' \<and>
     (\<forall>h m. mem_of g h = Some m \<longrightarrow> mem_of g' h = Some m) \<and>
     (\<forall>h m. mem_of g' h = Some m \<longrightarrow> mem_of g h = Some m \<or> empty_new g g' m) \<and>
     (\<forall>m. mems g m = None \<longrightarrow> mems g' m \<noteq> None \<longrightarrow> empty_new g g' m) \<and>
     (\<forall>h h' m. mem_of g h = None \<longrightarrow> mem_of g' h = Some m \<longrightarrow> mem_of g' h' = Some m \<longrightarrow> h' = h) \<and>
     (\<forall>m M. mems g m = Some M \<longrightarrow> (\<exists>M'. mems g' m = Some M' \<and> same_entries M M'))"

lemma same_entries_refl [simp]: "same_entries M M"
  by (simp add: same_entries_def)

lemma same_entries_trans: "same_entries M M' \<Longrightarrow> same_entries M' M'' \<Longrightarrow> same_entries M M''"
  by (simp add: same_entries_def)

lemma refs_in_same: "same_entries M M' \<Longrightarrow> refs_in M' = refs_in M"
  by (simp add: same_entries_def refs_in_def)

lemma flag_attrs: "flag g h = map_option snd (attrs g h)"
  by (simp add: flag_def attrs_def option.map_comp comp_def)

lemma later_refl [simp]: "later g g"
  by (simp add: later_def)

lemma laterD:
  assumes "later g g'"
  shows later_attrs: "attrs g' = attrs g"
    and later_frame: "frame g' = frame g"
    and later_next: "next_ref g \<le> next_ref g'"
    and later_mem_of: "mem_of g h = Some m \<Longrightarrow> mem_of g' h = Some m"
    and later_new: "mem_of g' h = Some m \<Longrightarrow> mem_of g h = Some m \<or> empty_new g g' m"
    and later_fresh: "mems g m = None \<Longrightarrow> mems g' m \<noteq> None \<Longrightarrow> empty_new g g' m"
    and later_unshared: "mem_of g h = None \<Longrightarrow> mem_of g' h = Some m \<Longrightarrow> mem_of g' h' = Some m \<Longrightarrow> h' = h"
    and later_mem: "mems g m = Some M \<Longrightarrow> \<exists>M'. mems g' m = Some M' \<and> same_entries M M'"
  using assms unfolding later_def by blast+

lemma later_flag: "later g g' \<Longrightarrow> flag g' = flag g"
  by (rule ext) (simp add: flag_attrs later_attrs)

lemma later_dom: "later g g' \<Longrightarrow> dom (heaps g') = dom (heaps g)"
proof -
  assume "later g g'"
  then have "dom (attrs g') = dom (attrs g)" by (simp add: later_attrs)
  moreover have "dom (attrs x) = dom (heaps x)" for x by (auto simp: attrs_def dom_def)
  ultimately show ?thesis by simp
qed

lemma empty_new_later: "empty_new g g1 m \<Longrightarrow> later g1 g2 \<Longrightarrow> empty_new g g2 m"
  using later_mem [of g1 g2 m] by (fastforce simp: empty_new_def same_entries_def)

lemma empty_new_before: "empty_new g1 g2 m \<Longrightarrow> later g g1 \<Longrightarrow> empty_new g g2 m"
  using later_mem [of g g1 m] by (cases "mems g m") (auto simp: empty_new_def)

lemma later_trans:
  assumes "later g g'" and "later g' g''"
  shows "later g g''"
  unfolding later_def
proof (intro conjI allI impI)
  show "attrs g'' = attrs g" "frame g'' = frame g"
    using assms by (simp_all add: later_attrs later_frame)
  show "next_ref g \<le> next_ref g''"
    using later_next [OF assms(1)] later_next [OF assms(2)] by simp
next
  fix h m assume "mem_of g h = Some m"
  then show "mem_of g'' h = Some m"
    by (intro later_mem_of [OF assms(2)] later_mem_of [OF assms(1)])
next
  fix h m assume "mem_of g'' h = Some m"
  then show "mem_of g h = Some m \<or> empty_new g g'' m"
    using later_new [OF assms(2)] later_new [OF assms(1)] empty_new_later [OF _ assms(2)]
      empty_new_before [OF _ assms(1)] by blast
next
  fix m assume m: "mems g m = None" "mems g'' m \<noteq> None"
  show "empty_new g g'' m"
  proof (cases "mems g' m")
    case None
    then show ?thesis using later_fresh [OF assms(2)] m(2) empty_new_before [OF _ assms(1)] by blast
  next
    case (Some M)
    then show ?thesis using later_fresh [OF assms(1) m(1)] empty_new_later [OF _ assms(2)] by simp
  qed
next
  fix h h' m assume h: "mem_of g h = None" "mem_of g'' h = Some m" "mem_of g'' h' = Some m"
  show "h' = h"
  proof (cases "mem_of g' h")
    case None
    then show ?thesis using later_unshared [OF assms(2)] h by blast
  next
    case (Some x)
    then have x: "mem_of g' h = Some m" using later_mem_of [OF assms(2) Some] h by simp
    show ?thesis
    proof (cases "mem_of g' h'")
      case None
      then show ?thesis using later_unshared [OF assms(2) None h(3,2)] by simp
    next
      case (Some y)
      then have "mem_of g' h' = Some m" using later_mem_of [OF assms(2) Some] h by simp
      then show ?thesis using later_unshared [OF assms(1) h(1) x] by simp
    qed
  qed
next
  fix m M assume "mems g m = Some M"
  then show "\<exists>M''. mems g'' m = Some M'' \<and> same_entries M M''"
    using later_mem [OF assms(1)] later_mem [OF assms(2)] same_entries_trans by blast
qed

lemma mem_of_Some: "gc_ok g \<Longrightarrow> mem_of g h = Some m \<Longrightarrow> \<exists>M. mems g m = Some M"
  using gc_okD(4) [of g h] by (auto simp: mem_of_def handle_ok_def split: option.splits if_splits)

lemma childrenI: "mem_of g h = Some m \<Longrightarrow> mems g m = Some M \<Longrightarrow> children g h = refs_in M"
  by (simp add: children_def)

lemma later_children:
  assumes "later g g'" and "gc_ok g"
  shows "children g' h = children g h"
proof (cases "mem_of g h")
  case (Some m)
  then obtain M where M: "mems g m = Some M" using mem_of_Some [OF assms(2)] by blast
  from later_mem [OF assms(1) this] obtain M' where "mems g' m = Some M'" "same_entries M M'" by blast
  with Some M later_mem_of [OF assms(1) Some] show ?thesis
    by (simp add: children_def refs_in_same)
next
  case None
  then have "children g' h = {}"
    using later_new [OF assms(1), of h]
    by (cases "mem_of g' h") (auto simp: children_def empty_new_def refs_in_def)
  with None show ?thesis by (simp add: children_def)
qed

lemma later_edges: "later g g' \<Longrightarrow> gc_ok g \<Longrightarrow> edges g' = edges g"
  by (simp add: edges_def later_children)

section \<open>Colours\<close>

definition coloured :: "gc \<Rightarrow> ref \<Rightarrow> bool" where
  "coloured g m \<longleftrightarrow> (\<exists>M. mems g m = Some M \<and> color M \<noteq> MANAGED_OBJECT_HEAP_COLOR_GRAY)"

definition marked :: "gc \<Rightarrow> ref \<Rightarrow> bool" where
  "marked g h \<longleftrightarrow> (\<exists>m. mem_of g h = Some m \<and> coloured g m)"

definition flag_color :: "bool \<Rightarrow> color" where
  "flag_color dead = (if dead then MANAGED_OBJECT_HEAP_COLOR_WHITE else MANAGED_OBJECT_HEAP_COLOR_BLACK)"

lemma flag_color_not_gray [simp]: "flag_color b \<noteq> MANAGED_OBJECT_HEAP_COLOR_GRAY"
  by (simp add: flag_color_def)

text \<open>
  What a part of the marking that starts from the handles \<open>S\<close> does: coloured memories stay as they
  are, and one that is coloured new belongs to a handle that can be reached from \<open>S\<close>, has the
  colour of that handle's flag, will be kept, and has all its references marked.
\<close>

definition keeps_colour :: "Memory \<Rightarrow> Memory \<Rightarrow> bool" where
  "keeps_colour M M' \<longleftrightarrow> color M' = color M \<and> (keep_memory M' \<longrightarrow> keep_memory M)"

definition owned :: "gc \<Rightarrow> gc \<Rightarrow> ref set \<Rightarrow> ref \<Rightarrow> color \<Rightarrow> bool" where
  "owned g g' S m c \<longleftrightarrow> (\<exists>s \<in> S. \<exists>h d. (s, h) \<in> (edges g)\<^sup>* \<and> mem_of g' h = Some m \<and> flag g h = Some d \<and> c = flag_color d)"

definition new_colour_ok :: "gc \<Rightarrow> gc \<Rightarrow> ref set \<Rightarrow> ref \<Rightarrow> Memory \<Rightarrow> bool" where
  "new_colour_ok g g' S m M \<longleftrightarrow> \<not> keep_memory M \<and> (\<forall>r \<in> refs_in M. marked g' r) \<and> owned g g' S m (color M)"

definition marks :: "gc \<Rightarrow> ref set \<Rightarrow> gc \<Rightarrow> bool" where
  "marks g S g' \<longleftrightarrow> gc_ok g' \<and> later g g' \<and>
     (\<forall>m M. mems g m = Some M \<longrightarrow> coloured g m \<longrightarrow> (\<exists>M'. mems g' m = Some M' \<and> keeps_colour M M')) \<and>
     (\<forall>m M. mems g' m = Some M \<longrightarrow> coloured g' m \<longrightarrow> \<not> coloured g m \<longrightarrow> new_colour_ok g g' S m M)"

lemma marksD:
  assumes "marks g S g'"
  shows marks_ok: "gc_ok g'" and marks_later: "later g g'"
    and marks_keeps: "mems g m = Some M \<Longrightarrow> coloured g m \<Longrightarrow> \<exists>M'. mems g' m = Some M' \<and> keeps_colour M M'"
    and marks_new: "mems g' m = Some M \<Longrightarrow> coloured g' m \<Longrightarrow> \<not> coloured g m \<Longrightarrow> new_colour_ok g g' S m M"
  using assms unfolding marks_def by blast+

lemma colouredE:
  assumes "coloured g m" obtains M where "mems g m = Some M" "color M \<noteq> MANAGED_OBJECT_HEAP_COLOR_GRAY"
  using assms by (auto simp: coloured_def)

lemma marks_coloured: "marks g S g' \<Longrightarrow> coloured g m \<Longrightarrow> coloured g' m"
  using marks_keeps [of g S g' m] by (auto simp: coloured_def keeps_colour_def)

lemma marks_marked: "marks g S g' \<Longrightarrow> marked g h \<Longrightarrow> marked g' h"
  using marks_coloured [of g S g'] later_mem_of [OF marks_later, of g S g'] unfolding marked_def by blast

lemma marks_refl: "gc_ok g \<Longrightarrow> marks g S g"
  by (auto simp: marks_def keeps_colour_def)

lemma owned_mono: "owned g g' S m c \<Longrightarrow> S \<subseteq> T \<Longrightarrow> owned g g' T m c"
  unfolding owned_def by blast

lemma marks_mono: "marks g S g' \<Longrightarrow> S \<subseteq> T \<Longrightarrow> marks g T g'"
  unfolding marks_def new_colour_ok_def using owned_mono by blast

lemma owned_later: "owned g g1 S m c \<Longrightarrow> later g1 g2 \<Longrightarrow> owned g g2 S m c"
  unfolding owned_def using later_mem_of by blast

lemma owned_before: "owned g1 g2 S m c \<Longrightarrow> later g g1 \<Longrightarrow> gc_ok g \<Longrightarrow> owned g g2 S m c"
  by (simp add: owned_def later_edges later_flag)

lemma new_colour_ok_later:
  assumes ok: "gc_ok g" and m1: "marks g S g1" and m2: "marks g1 S g2"
    and M: "mems g2 m = Some M" "coloured g2 m" "\<not> coloured g m"
  shows "new_colour_ok g g2 S m M"
proof (cases "coloured g1 m")
  case True
  then obtain M1 where M1: "mems g1 m = Some M1" by (rule colouredE)
  from marks_new [OF m1 M1 True M(3)] have n: "new_colour_ok g g1 S m M1" .
  from marks_keeps [OF m2 M1 True] M(1) have same: "keeps_colour M1 M" by simp
  have "refs_in M = refs_in M1"
    using later_mem [OF marks_later [OF m2] M1] M(1) refs_in_same by auto
  with n same show ?thesis
    using marks_marked [OF m2] owned_later [OF _ marks_later [OF m2]]
    by (auto simp: new_colour_ok_def keeps_colour_def)
next
  case False
  with marks_new [OF m2 M(1,2)] have "new_colour_ok g1 g2 S m M" by simp
  then show ?thesis using owned_before [OF _ marks_later [OF m1] ok] by (simp add: new_colour_ok_def)
qed

lemma marks_trans:
  assumes ok: "gc_ok g" and m1: "marks g S g1" and m2: "marks g1 S g2"
  shows "marks g S g2"
  unfolding marks_def
proof (intro conjI allI impI)
  fix m M assume M: "mems g m = Some M" "coloured g m"
  from marks_keeps [OF m1 M] obtain M1 where M1: "mems g1 m = Some M1" "keeps_colour M M1" by blast
  from marks_keeps [OF m2 M1(1) marks_coloured [OF m1 M(2)]] M1(2)
  show "\<exists>M'. mems g2 m = Some M' \<and> keeps_colour M M'" by (auto simp: keeps_colour_def)
next
  show "later g g2" by (rule later_trans [OF marks_later [OF m1] marks_later [OF m2]])
qed (use new_colour_ok_later [OF assms] marks_ok [OF m2] in blast)+

section \<open>The depth of the recursion\<close>

definition unmarked :: "gc \<Rightarrow> ref set" where
  "unmarked g = {h \<in> dom (heaps g). \<not> marked g h}"

lemma finite_unmarked:
  assumes "gc_ok g"
  shows "finite (unmarked g)" and "card (unmarked g) \<le> next_ref g"
proof -
  from finite_handles [OF assms] have fin: "finite (dom (heaps g))" "card (dom (heaps g)) \<le> next_ref g" by auto
  have sub: "unmarked g \<subseteq> dom (heaps g)" by (auto simp: unmarked_def)
  show "finite (unmarked g)" by (rule finite_subset [OF sub fin(1)])
  show "card (unmarked g) \<le> next_ref g" by (rule order_trans [OF card_mono [OF fin(1) sub] fin(2)])
qed

lemma marks_unmarked: "marks g S g' \<Longrightarrow> unmarked g' \<subseteq> unmarked g"
  using marks_marked [of g S g'] later_dom [OF marks_later, of g S g'] unfolding unmarked_def by blast

lemma card_unmarked_le: "gc_ok g \<Longrightarrow> marks g S g' \<Longrightarrow> card (unmarked g') \<le> card (unmarked g)"
  by (rule card_mono [OF finite_unmarked(1) marks_unmarked])

lemma card_unmarked_less:
  assumes "gc_ok g" and "marks g S g'" and "heaps g h \<noteq> None" and "\<not> marked g h" and "marked g' h"
  shows "card (unmarked g') < card (unmarked g)"
  using assms marks_unmarked [OF assms(2)] finite_unmarked(1) [OF assms(1)]
  by (intro psubset_card_mono) (auto simp: unmarked_def)

section \<open>The steps of marking\<close>

lemma get_memory_marks:
  assumes ok: "gc_ok g" and h: "heaps g h = Some hp"
  shows "\<exists>m g1 M. get_memory h g = Inr (m, g1) \<and> mems g1 m = Some M \<and> mem_of g1 h = Some m \<and> marks g S g1 \<and>
    (\<forall>x. coloured g1 x = coloured g x) \<and> (\<exists>hp1. heaps g1 h = Some hp1 \<and> deallocated hp1 = deallocated hp)"
proof (cases "lazy hp")
  case False
  with get_memory_outcome [OF ok h] h ok show ?thesis by (fastforce intro: marks_refl)
next
  case True
  let ?m = "next_ref g"
  let ?g = "g\<lparr>heaps := (heaps g)(h \<mapsto> hp\<lparr>memory := Some ?m, lazy := False\<rparr>),
       mems := (mems g)(?m \<mapsto> new_Memory), next_ref := Suc ?m\<rparr>"
  from True get_memory_outcome [OF ok h] have gm: "get_memory h g = Inr (?m, ?g)" and ok1: "gc_ok ?g"
    and mo: "mem_of ?g h = Some ?m" by auto
  have fresh: "mems g ?m = None" using gc_ok_fresh [OF ok] by simp
  have nofresh: "mem_of g y \<noteq> Some ?m" for y using mem_of_Some [OF ok, of y ?m] fresh by auto
  have none: "mem_of g h = None" using True h by (simp add: mem_of_def)
  have mem_of': "mem_of ?g x = (if x = h then Some ?m else mem_of g x)" for x by (simp add: mem_of_def)
  have later: "later g ?g"
    unfolding later_def
  proof (intro conjI allI impI)
    show "attrs ?g = attrs g" using h by (auto simp: attrs_def)
    show "\<And>x M. mems g x = Some M \<Longrightarrow> \<exists>M'. mems ?g x = Some M' \<and> same_entries M M'"
      using fresh by auto
    show "\<And>x m. mem_of g x = Some m \<Longrightarrow> mem_of ?g x = Some m" using none by (auto simp: mem_of')
    show "\<And>x m. mem_of ?g x = Some m \<Longrightarrow> mem_of g x = Some m \<or> empty_new g ?g m"
      using fresh unfolding mem_of' by (auto simp: empty_new_def new_Memory_def split: if_splits)
    show "\<And>m. mems g m = None \<Longrightarrow> mems ?g m \<noteq> None \<Longrightarrow> empty_new g ?g m"
      by (auto simp: empty_new_def new_Memory_def split: if_splits)
    show "\<And>x y m. mem_of g x = None \<Longrightarrow> mem_of ?g x = Some m \<Longrightarrow> mem_of ?g y = Some m \<Longrightarrow> y = x"
      using nofresh unfolding mem_of' by (auto split: if_splits)
  qed (simp_all add: frame_def)
  have col: "coloured ?g x = coloured g x" for x
    using fresh by (simp add: coloured_def new_Memory_def)
  moreover have "marks g S ?g"
    unfolding marks_def using ok1 later col fresh by (auto simp: keeps_colour_def)
  ultimately show ?thesis using gm mo by fastforce
qed

lemma later_put_mem: "mems g m = Some M \<Longrightarrow> same_entries M M' \<Longrightarrow> later g (put_mem m M' g)"
  by (auto simp: later_def put_mem_def attrs_def frame_def mem_of_def)

lemma memory_ok_same: "memory_ok g M \<Longrightarrow> same_entries M M' \<Longrightarrow> memory_ok g M'"
  by (simp add: memory_ok_def same_entries_def)

lemma gc_ok_put_same:
  assumes ok: "gc_ok g" and M: "mems g m = Some M" and "same_entries M M'"
  shows "gc_ok (put_mem m M' g)"
  by (rule gc_ok_put_mem [OF ok _ memory_ok_same [OF gc_okD(5) [OF ok M] assms(3)]]) (simp add: M)

text \<open>Colouring a memory and then marking all of its references is a part of a marking.\<close>

lemma marks_visit:
  assumes ok: "gc_ok g" and mo: "mem_of g h = Some m" and M: "mems g m = Some M"
    and gray: "color M = MANAGED_OBJECT_HEAP_COLOR_GRAY" and fl: "flag g h = Some d"
    and M1: "M1 = M\<lparr>keep_memory := False, color := flag_color d\<rparr>"
    and loop: "marks (put_mem m M1 g) (refs_in M) g'" and refs: "\<forall>r \<in> refs_in M. marked g' r"
  shows "marks g {h} g'"
proof -
  let ?g = "put_mem m M1 g"
  have same: "same_entries M M1" by (simp add: M1 same_entries_def)
  have l1: "later g ?g" by (rule later_put_mem [OF M same])
  have col: "coloured ?g x = (x = m \<or> coloured g x)" for x
    by (simp add: coloured_def put_mem_def M1)
  have old: "x \<noteq> m" if "coloured g x" for x
    using that M gray by (auto simp: coloured_def)
  have "new_colour_ok g g' {h} x X" if X: "mems g' x = Some X" "coloured g' x" "\<not> coloured g x" for x X
  proof (cases "x = m")
    case True
    have mem1: "mems ?g m = Some M1" by (simp add: put_mem_def)
    from marks_keeps [OF loop mem1] X(1) True have "keeps_colour M1 X" by (simp add: col)
    moreover from later_mem [OF marks_later [OF loop] mem1] X(1) True have "refs_in X = refs_in M1"
      using refs_in_same by auto
    moreover have "refs_in M1 = refs_in M" by (rule refs_in_same [OF same])
    moreover have "owned g g' {h} m (flag_color d)"
      unfolding owned_def using later_mem_of [OF later_trans [OF l1 marks_later [OF loop]] mo] fl by blast
    ultimately show ?thesis using refs True by (simp add: new_colour_ok_def keeps_colour_def M1)
  next
    case False
    with X have "new_colour_ok ?g g' (refs_in M) x X" using marks_new [OF loop] by (simp add: col)
    then have n: "\<not> keep_memory X" "\<forall>r \<in> refs_in X. marked g' r" "owned g g' (refs_in M) x (color X)"
      using owned_before [OF _ l1 ok] by (auto simp: new_colour_ok_def)
    have "(h, r) \<in> edges g" if "r \<in> refs_in M" for r
      using that childrenI [OF mo M] by (simp add: edges_def)
    with n(3) have "owned g g' {h} x (color X)"
      unfolding owned_def by (meson converse_rtrancl_into_rtrancl singletonI)
    with n show ?thesis by (simp add: new_colour_ok_def)
  qed
  moreover have "\<exists>X'. mems g' x = Some X' \<and> keeps_colour X X'" if "mems g x = Some X" "coloured g x" for x X
    using marks_keeps [OF loop, of x X] that old [OF that(2)] by (simp add: col) (simp add: put_mem_def)
  ultimately show ?thesis
    unfolding marks_def using marks_ok [OF loop] later_trans [OF l1 marks_later [OF loop]] by blast
qed

lemma refs_in_nth:
  "memory_ok g M \<Longrightarrow> i < length (infos M) \<Longrightarrow> ptr_is_ref (infos M ! i) \<Longrightarrow>
    \<exists>r. i_ptr (infos M ! i) = Handle r \<and> r \<in> refs_in M \<and> r \<in> dom (heaps g)"
  using nth_mem [of i "infos M"] by (fastforce simp: memory_ok_def entry_ok_def refs_in_def)

definition marker :: "nat \<Rightarrow> (ref \<Rightarrow> gc \<Rightarrow> fault + gc) \<Rightarrow> bool" where
  "marker n mk \<longleftrightarrow> (\<forall>g r. gc_ok g \<longrightarrow> r \<in> dom (heaps g) \<longrightarrow> card (unmarked g) < n \<longrightarrow>
     (\<exists>g'. mk r g = Inr g' \<and> marks g {r} g' \<and> marked g' r))"

lemma mark_loop_correct:
  assumes "marker n mk"
  shows "gc_ok g \<Longrightarrow> mem_of g h = Some m \<Longrightarrow> mems g m = Some M \<Longrightarrow> i + k = length (infos M) \<Longrightarrow>
    card (unmarked g) < n \<Longrightarrow>
    \<exists>g'. mark_loop mk h i k g = Inr g' \<and> marks g (refs_in M) g' \<and>
      (\<forall>j r. i \<le> j \<longrightarrow> j < length (infos M) \<longrightarrow> ptr_is_ref (infos M ! j) \<longrightarrow> i_ptr (infos M ! j) = Handle r \<longrightarrow> marked g' r)"
proof (induction k arbitrary: i g M)
  case 0
  then show ?case using marks_refl by auto
next
  case (Suc k)
  note ok = Suc.prems(1) and mo = Suc.prems(2) and M = Suc.prems(3) and len = Suc.prems(4) and card = Suc.prems(5)
  let ?e = "infos M ! i"
  from mo obtain hp where hp: "heaps g h = Some hp" "\<not> lazy hp" "memory hp = Some m"
    by (auto simp: mem_of_def split: option.splits if_splits)
  have gm: "get_memory h g = Inr (m, g)" using hp by (simp add: get_memory_def get_heap_def)
  have Mok: "memory_ok g M" by (rule gc_okD(5) [OF ok M])
  have i: "i < length (infos M)" using len by simp
  then have eok: "entry_ok g ?e" using Mok nth_mem by (auto simp: memory_ok_def)
  have "\<exists>g1. mark_loop mk h i (Suc k) g = mark_loop mk h (Suc i) k g1 \<and> marks g (refs_in M) g1 \<and>
     (\<forall>r. ptr_is_ref ?e \<longrightarrow> i_ptr ?e = Handle r \<longrightarrow> marked g1 r)"
  proof (cases "ptr_is_ref ?e")
    case False
    then show ?thesis using i gm M marks_refl [OF ok] by (auto simp: get_mem_def MANAGED_OBJECT_GET_HEAP_def)
  next
    case True
    from refs_in_nth [OF Mok i True] obtain r where r: "i_ptr ?e = Handle r" "r \<in> refs_in M" "r \<in> dom (heaps g)"
      by blast
    with assms ok card obtain g1 where "mk r g = Inr g1" "marks g {r} g1" "marked g1 r"
      unfolding marker_def by blast
    moreover from this(2) have "marks g (refs_in M) g1" by (rule marks_mono) (use r in simp)
    ultimately show ?thesis using i gm M True r by (auto simp: get_mem_def MANAGED_OBJECT_GET_HEAP_def)
  qed
  then obtain g1 where step: "mark_loop mk h i (Suc k) g = mark_loop mk h (Suc i) k g1"
    and m1: "marks g (refs_in M) g1" and r1: "\<forall>r. ptr_is_ref ?e \<longrightarrow> i_ptr ?e = Handle r \<longrightarrow> marked g1 r" by blast
  from later_mem [OF marks_later [OF m1] M] obtain M' where M': "mems g1 m = Some M'" "same_entries M M'" by blast
  have "card (unmarked g1) < n" using card_unmarked_le [OF ok m1] card by simp
  from Suc.IH [OF marks_ok [OF m1] later_mem_of [OF marks_later [OF m1] mo] M'(1) _ this, of "Suc i"] len M'(2)
  obtain g' where g': "mark_loop mk h (Suc i) k g1 = Inr g'" "marks g1 (refs_in M) g'"
    "\<forall>j r. Suc i \<le> j \<longrightarrow> j < length (infos M) \<longrightarrow> ptr_is_ref (infos M ! j) \<longrightarrow> i_ptr (infos M ! j) = Handle r \<longrightarrow> marked g' r"
    using refs_in_same [OF M'(2)] by (auto simp: same_entries_def)
  moreover have "marks g (refs_in M) g'" by (rule marks_trans [OF ok m1 g'(2)])
  moreover have "marked g' r" if "i \<le> j" "j < length (infos M)" "ptr_is_ref (infos M ! j)" "i_ptr (infos M ! j) = Handle r" for j r
  proof (cases "j = i")
    case True
    with that r1 marks_marked [OF g'(2)] show ?thesis by blast
  next
    case False
    with that have "Suc i \<le> j" by simp
    with that g'(3) show ?thesis by blast
  qed
  ultimately show ?case using step by auto
qed

lemma mark_marker: "marker n (mark n)"
proof (induction n)
  case 0
  show ?case by (simp add: marker_def)
next
  case (Suc n)
  show ?case
    unfolding marker_def
  proof (intro allI impI)
    fix g h assume ok: "gc_ok g" and h: "h \<in> dom (heaps g)" and card: "card (unmarked g) < Suc n"
    from h obtain hp where hp: "heaps g h = Some hp" by blast
    from get_memory_marks [OF ok hp] obtain m g1 M hp1 where gm: "get_memory h g = Inr (m, g1)"
      and M: "mems g1 m = Some M" and mo: "mem_of g1 h = Some m" and m1: "marks g {h} g1"
      and col: "\<forall>x. coloured g1 x = coloured g x" and hp1: "heaps g1 h = Some hp1"
      by blast
    note ok1 = marks_ok [OF m1]
    let ?M1 = "M\<lparr>keep_memory := False\<rparr>"
    show "\<exists>g'. mark (Suc n) h g = Inr g' \<and> marks g {h} g' \<and> marked g' h"
    proof (cases "color M = MANAGED_OBJECT_HEAP_COLOR_GRAY")
      case False
      let ?g = "put_mem m ?M1 g1"
      have same: "same_entries M ?M1" by (simp add: same_entries_def)
      have c: "coloured ?g x = coloured g1 x" for x using M by (simp add: coloured_def put_mem_def)
      have "marks g1 {h} ?g"
        unfolding marks_def using gc_ok_put_same [OF ok1 M same] later_put_mem [OF M same] c M
        by (auto simp: put_mem_def keeps_colour_def)
      moreover have "marked ?g h"
        using mo False by (auto simp: marked_def mem_of_def coloured_def put_mem_def)
      moreover have "mark (Suc n) h g = Inr ?g"
        using gm M hp1 False by (simp add: get_mem_def get_heap_def)
      ultimately show ?thesis using marks_trans [OF ok m1] by blast
    next
      case True
      let ?M2 = "M\<lparr>keep_memory := False, color := flag_color (deallocated hp1)\<rparr>"
      let ?g = "put_mem m ?M2 g1"
      have same: "same_entries M ?M2" by (simp add: same_entries_def)
      have ok2: "gc_ok ?g" by (rule gc_ok_put_same [OF ok1 M same])
      have mo2: "mem_of ?g h = Some m" by (rule later_mem_of [OF later_put_mem [OF M same] mo])
      have M2: "mems ?g m = Some ?M2" by (simp add: put_mem_def)
      have "marked ?g h" using mo2 by (auto simp: marked_def coloured_def put_mem_def)
      moreover have un: "\<not> marked g1 h" using mo M True by (simp add: marked_def coloured_def)
      moreover have "marked ?g x" if "marked g1 x" for x
        using that M by (auto simp: marked_def coloured_def put_mem_def mem_of_def)
      ultimately have "unmarked ?g \<subset> unmarked g1"
        using hp1 later_dom [OF later_put_mem [OF M same]] unfolding unmarked_def by blast
      then have "card (unmarked ?g) < card (unmarked g1)" by (rule psubset_card_mono [OF finite_unmarked(1) [OF ok1]])
      then have "card (unmarked ?g) < n" using card card_unmarked_le [OF ok m1] by simp
      from mark_loop_correct [OF Suc.IH ok2 mo2 M2 _ this, of 0 "length (infos M)"]
      obtain g' where g': "mark_loop (mark n) h 0 (length (infos M)) ?g = Inr g'" "marks ?g (refs_in M) g'"
        and r: "\<forall>j r. j < length (infos M) \<longrightarrow> ptr_is_ref (infos M ! j) \<longrightarrow> i_ptr (infos M ! j) = Handle r \<longrightarrow> marked g' r"
        using refs_in_same [OF same] by auto
      have "\<forall>r \<in> refs_in M. marked g' r" using r by (auto simp: refs_in_def in_set_conv_nth)
      from marks_visit [OF ok1 mo M True _ refl g'(2) this] hp1 have "marks g1 {h} g'" by (simp add: flag_def)
      moreover have "mark (Suc n) h g = Inr g'"
        using gm M hp1 True g'(1) by (simp add: get_mem_def get_heap_def flag_color_def)
      moreover have "marked g' h" by (rule marks_marked [OF g'(2) \<open>marked ?g h\<close>])
      ultimately show ?thesis using marks_trans [OF ok m1] by blast
    qed
  qed
qed

section \<open>The whole marking\<close>

definition all_gray :: "gc \<Rightarrow> bool" where
  "all_gray g \<longleftrightarrow> (\<forall>m. \<not> coloured g m)"

lemma marked_closed:
  assumes ok: "gc_ok g" and gray: "all_gray g" and m: "marks g S g'" and "marked g' x" and e: "(x, y) \<in> (edges g)\<^sup>*"
  shows "marked g' y"
  using e assms(4)
proof (induction rule: rtrancl_induct)
  case (step y z)
  then obtain k where k: "mem_of g' y = Some k" "coloured g' k" by (auto simp: marked_def)
  then obtain M where M: "mems g' k = Some M" by (auto elim: colouredE)
  have "z \<in> refs_in M"
    using step(2) later_edges [OF marks_later [OF m] ok] childrenI [OF k(1) M] by (auto simp: edges_def)
  with marks_new [OF m M k(2)] gray show ?case by (auto simp: all_gray_def new_colour_ok_def)
qed

definition marked_memory :: "gc \<Rightarrow> ref \<Rightarrow> gc \<Rightarrow> ref \<Rightarrow> Memory \<Rightarrow> bool" where
  "marked_memory g h g' m M \<longleftrightarrow>
     (if \<exists>x. (h, x) \<in> (edges g)\<^sup>* \<and> mem_of g' x = Some m
      then \<not> keep_memory M \<and> (\<exists>x d. (h, x) \<in> (edges g)\<^sup>* \<and> mem_of g' x = Some m \<and> flag g x = Some d \<and>
        color M = flag_color d)
      else color M = MANAGED_OBJECT_HEAP_COLOR_GRAY)"

text \<open>
  What marking does, whatever the order of the visits: it reaches everything in reach, colours
  nothing else, and changes nothing but colours.
\<close>

lemma mark_outcome:
  assumes ok: "gc_ok g" and h: "heaps g h \<noteq> None" and gray: "all_gray g" and n: "next_ref g < n"
  shows "\<exists>g'. mark n h g = Inr g' \<and> gc_ok g' \<and> later g g' \<and>
    (\<forall>x. (h, x) \<in> (edges g)\<^sup>* \<longrightarrow> mem_of g' x \<noteq> None) \<and>
    (\<forall>m M. mems g' m = Some M \<longrightarrow> marked_memory g h g' m M)"
proof -
  have "card (unmarked g) < n" using finite_unmarked(2) [OF ok] n by simp
  with mark_marker [of n] ok h obtain g' where g': "mark n h g = Inr g'" "marks g {h} g'" "marked g' h"
    unfolding marker_def by blast
  have reached: "marked g' x" if "(h, x) \<in> (edges g)\<^sup>*" for x
    by (rule marked_closed [OF ok gray g'(2,3) that])
  have "marked_memory g h g' m M" if M: "mems g' m = Some M" for m M
  proof (cases "coloured g' m")
    case True
    with marks_new [OF g'(2) M] gray show ?thesis
      by (auto simp: all_gray_def new_colour_ok_def owned_def marked_memory_def)
  next
    case False
    then have "\<not> (\<exists>x. (h, x) \<in> (edges g)\<^sup>* \<and> mem_of g' x = Some m)"
      using reached by (fastforce simp: marked_def)
    with False M show ?thesis by (auto simp: coloured_def marked_memory_def)
  qed
  moreover have "mem_of g' x \<noteq> None" if "(h, x) \<in> (edges g)\<^sup>*" for x
    using reached [OF that] by (auto simp: marked_def)
  ultimately show ?thesis using g' marks_ok marks_later by blast
qed

end
