(* ===== verification/GcSweep.thy ===== *)
theory GcSweep
  imports GcMark
begin

text \<open>
  Sweeping: what is queued for destruction and what stays, when every dead handle has only dead
  handles below it, is not below itself, and shares its memory with dead handles only.
\<close>

section \<open>Erasing from vectors\<close>

lemma mset_erase_last: "mset (erase_last x xs) = mset xs - {#x#}"
  by (simp add: erase_last_def)

lemma mset_erase_at: "i < length xs \<Longrightarrow> mset xs = add_mset (xs ! i) (mset (erase_at i xs))"
proof -
  assume i: "i < length xs"
  have "mset xs = mset (take i xs @ xs ! i # drop (Suc i) xs)" using id_take_nth_drop [OF i] by simp
  then show ?thesis by (simp add: erase_at_def)
qed

lemma erase_at_middle: "j < length xs \<Longrightarrow> erase_at j (take (Suc j) xs @ ys) = take j xs @ ys"
  by (simp add: erase_at_def)

section \<open>What sweeping may rely on\<close>

definition dead :: "gc \<Rightarrow> ref \<Rightarrow> bool" where
  "dead g x \<longleftrightarrow> flag g x = Some True"

definition dead_ref :: "gc \<Rightarrow> Info \<Rightarrow> bool" where
  "dead_ref g e \<longleftrightarrow> ptr_is_ref e \<and> (\<exists>r. i_ptr e = Handle r \<and> dead g r)"

definition seen_in :: "gc \<Rightarrow> ref \<Rightarrow> bool" where
  "seen_in g m \<longleftrightarrow> (\<exists>M. mems g m = Some M \<and> seen M)"

text \<open>The state after marking; \<open>R\<close> are the handles that can be reached.\<close>

definition marked_handle :: "gc \<Rightarrow> ref \<Rightarrow> bool" where
  "marked_handle g x \<longleftrightarrow> (\<exists>m M. mem_of g x = Some m \<and> mems g m = Some M \<and> color M = flag_color (dead g x) \<and>
     \<not> seen M \<and> \<not> keep_memory M)"

definition sweepable :: "gc \<Rightarrow> ref set \<Rightarrow> bool" where
  "sweepable g R \<longleftrightarrow> gc_ok g \<and> R \<subseteq> dom (heaps g) \<and>
     (\<forall>x \<in> R. children g x \<subseteq> R \<and> marked_handle g x) \<and>
     (\<forall>x \<in> R. dead g x \<longrightarrow> (\<forall>y \<in> children g x. dead g y) \<and> (x, x) \<notin> (edges g)\<^sup>+)"

definition memories :: "gc \<Rightarrow> ref set \<Rightarrow> ref set" where
  "memories g R = {m. \<exists>x \<in> R. mem_of g x = Some m}"

section \<open>The invariant of the sweep\<close>

definition settle :: "color \<Rightarrow> color" where
  "settle c = (if c = MANAGED_OBJECT_HEAP_COLOR_BLACK then MANAGED_OBJECT_HEAP_COLOR_GRAY else c)"

text \<open>The entries of a memory that stay: none in a white one, all but dead references in others.\<close>

definition staying :: "gc \<Rightarrow> Memory \<Rightarrow> Info list \<Rightarrow> Info list" where
  "staying g M = filter (\<lambda>e. color M \<noteq> MANAGED_OBJECT_HEAP_COLOR_WHITE \<and> \<not> dead_ref g e)"

definition pair_of :: "Info \<Rightarrow> pointer \<times> destructor" where
  "pair_of e = (i_ptr e, i_destructor e)"

definition content :: "gc \<Rightarrow> (pointer \<times> destructor) multiset" where
  "content g = (\<Sum>m \<in> dom (mems g). mset (map pair_of (infos (the (mems g m)))))"

definition memory_inv :: "gc \<Rightarrow> ref set \<Rightarrow> queue \<Rightarrow> ref \<Rightarrow> Memory \<Rightarrow> Memory \<Rightarrow> bool" where
  "memory_inv g0 F q m M0 M \<longleftrightarrow>
     mset (indexes M) = mset (map i_index (infos M)) \<and> dealloc_count M = dealloc_count M0 \<and>
     keep_memory M = (m \<in> set (q_memory q)) \<and>
     (m \<in> F \<longrightarrow> infos M = staying g0 M0 (infos M0)) \<and>
     (m \<notin> F \<longrightarrow> \<not> seen M \<longrightarrow> infos M = infos M0) \<and>
     color M = (if m \<in> F \<or> seen M then settle (color M0) else color M0)"

text \<open>Every reference \<open>r\<close> in a part \<open>es\<close> of a memory has been followed.\<close>

definition followed :: "gc \<Rightarrow> ref set \<Rightarrow> gc \<Rightarrow> queue \<Rightarrow> Info list \<Rightarrow> bool" where
  "followed g0 F g q es \<longleftrightarrow> (\<forall>e \<in> set es. \<forall>r. ptr_is_ref e \<longrightarrow> i_ptr e = Handle r \<longrightarrow>
     (\<exists>m. mem_of g0 r = Some m \<and> (m \<in> F \<or> seen_in g m) \<and> (dead g0 r \<longrightarrow> m \<in> set (q_memory q))))"

definition sweep_inv :: "gc \<Rightarrow> ref set \<Rightarrow> ref set \<Rightarrow> gc \<Rightarrow> queue \<Rightarrow> bool" where
  "sweep_inv g0 R F g q \<longleftrightarrow>
     heaps g = heaps g0 \<and> frame g = frame g0 \<and> next_ref g = next_ref g0 \<and> dom (mems g) = dom (mems g0) \<and>
     (\<forall>m. m \<notin> memories g0 R \<longrightarrow> mems g m = mems g0 m) \<and>
     (\<forall>m M0 M. m \<in> memories g0 R \<longrightarrow> mems g0 m = Some M0 \<longrightarrow> mems g m = Some M \<longrightarrow> memory_inv g0 F q m M0 M) \<and>
     F \<subseteq> memories g0 R \<and> (\<forall>m M0. m \<in> F \<longrightarrow> mems g0 m = Some M0 \<longrightarrow> followed g0 F g q (infos M0)) \<and>
     distinct (q_memory q) \<and>
     (\<forall>m M0. m \<in> set (q_memory q) \<longrightarrow> mems g0 m = Some M0 \<longrightarrow> m \<in> F \<and> color M0 = MANAGED_OBJECT_HEAP_COLOR_WHITE) \<and>
     set (q_memory q) \<subseteq> F \<and>
     mset (q_list q) + content g = content g0"

text \<open>What a part of the sweep does: it finishes memories, and leaves those alone that are being swept.\<close>

definition swept :: "gc \<Rightarrow> ref set \<Rightarrow> ref set \<Rightarrow> gc \<Rightarrow> queue \<Rightarrow> ref set \<Rightarrow> gc \<Rightarrow> queue \<Rightarrow> bool" where
  "swept g0 R F g q F' g' q' \<longleftrightarrow> sweep_inv g0 R F' g' q' \<and> F \<subseteq> F' \<and> set (q_memory q) \<subseteq> set (q_memory q') \<and>
     (\<forall>m. seen_in g' m = seen_in g m) \<and> (\<forall>m. seen_in g m \<longrightarrow> mems g' m = mems g m \<and> (m \<in> F' \<longleftrightarrow> m \<in> F))"

text \<open>The memories that are being swept are those of handles above \<open>h\<close>.\<close>

definition above :: "gc \<Rightarrow> ref set \<Rightarrow> gc \<Rightarrow> ref \<Rightarrow> bool" where
  "above g0 R g h \<longleftrightarrow> (\<forall>m. seen_in g m \<longrightarrow> (\<exists>x \<in> R. mem_of g0 x = Some m \<and> (x, h) \<in> (edges g0)\<^sup>*))"

definition unseen :: "gc \<Rightarrow> gc \<Rightarrow> ref set" where
  "unseen g0 g = {x \<in> dom (heaps g0). \<exists>m. mem_of g0 x = Some m \<and> \<not> seen_in g m}"

definition sweeper :: "gc \<Rightarrow> ref set \<Rightarrow> nat \<Rightarrow> (ref \<Rightarrow> gc \<Rightarrow> queue \<Rightarrow> fault + gc \<times> queue) \<Rightarrow> bool" where
  "sweeper g0 R n sw \<longleftrightarrow> (\<forall>F g q h m. h \<in> R \<longrightarrow> mem_of g0 h = Some m \<longrightarrow> sweep_inv g0 R F g q \<longrightarrow> above g0 R g h \<longrightarrow>
     card (unseen g0 g) < n \<longrightarrow>
     (\<exists>F' g' q'. sw h g q = Inr (g', q') \<and> swept g0 R F g q F' g' q' \<and> (m \<in> F' \<or> seen_in g m)))"

section \<open>Consequences\<close>

lemma sweepableD:
  assumes "sweepable g R"
  shows sw_ok: "gc_ok g" and sw_dom: "x \<in> R \<Longrightarrow> x \<in> dom (heaps g)"
    and sw_children: "x \<in> R \<Longrightarrow> y \<in> children g x \<Longrightarrow> y \<in> R"
    and sw_marked: "x \<in> R \<Longrightarrow> marked_handle g x"
    and sw_dead: "x \<in> R \<Longrightarrow> dead g x \<Longrightarrow> y \<in> children g x \<Longrightarrow> dead g y"
    and sw_acyclic: "x \<in> R \<Longrightarrow> dead g x \<Longrightarrow> (x, x) \<notin> (edges g)\<^sup>+"
  using assms unfolding sweepable_def by blast+

lemma sweep_invD:
  assumes "sweep_inv g0 R F g q"
  shows si_heaps: "heaps g = heaps g0" and si_frame: "frame g = frame g0"
    and si_next: "next_ref g = next_ref g0" and si_dom: "dom (mems g) = dom (mems g0)"
    and si_other: "m \<notin> memories g0 R \<Longrightarrow> mems g m = mems g0 m"
    and si_mem: "m \<in> memories g0 R \<Longrightarrow> mems g0 m = Some M0 \<Longrightarrow> mems g m = Some M \<Longrightarrow> memory_inv g0 F q m M0 M"
    and si_F: "F \<subseteq> memories g0 R"
    and si_followed: "m \<in> F \<Longrightarrow> mems g0 m = Some M0 \<Longrightarrow> followed g0 F g q (infos M0)"
    and si_distinct: "distinct (q_memory q)"
    and si_white: "m \<in> set (q_memory q) \<Longrightarrow> mems g0 m = Some M0 \<Longrightarrow> m \<in> F \<and> color M0 = MANAGED_OBJECT_HEAP_COLOR_WHITE"
    and si_queue: "set (q_memory q) \<subseteq> F"
    and si_content: "mset (q_list q) + content g = content g0"
  using assms unfolding sweep_inv_def by blast+

lemma si_mem_of: "sweep_inv g0 R F g q \<Longrightarrow> mem_of g h = mem_of g0 h"
  using si_heaps by (simp add: mem_of_def)

lemma si_get_memory:
  assumes "sweep_inv g0 R F g q" and "mem_of g0 h = Some m"
  shows "get_memory h g = Inr (m, g)"
  using assms(2) si_heaps [OF assms(1)]
  by (auto simp: get_memory_def get_heap_def mem_of_def split: option.splits if_splits)

lemma si_mem_ex:
  assumes "sweep_inv g0 R F g q" and "sweepable g0 R" and "h \<in> R" and "mem_of g0 h = Some m"
  shows "\<exists>M0 M. mems g0 m = Some M0 \<and> mems g m = Some M \<and> memory_inv g0 F q m M0 M \<and> color M0 = flag_color (dead g0 h)"
proof -
  from sw_marked [OF assms(2,3)] assms(4) obtain M0 where M0: "mems g0 m = Some M0" "color M0 = flag_color (dead g0 h)"
    by (auto simp: marked_handle_def)
  then have "m \<in> dom (mems g)" using si_dom [OF assms(1)] by auto
  then obtain M where "mems g m = Some M" by blast
  with M0 si_mem [OF assms(1) _ M0(1)] assms(3,4) show ?thesis by (auto simp: memories_def)
qed

lemma above_child:
  assumes "above g0 R g h" and "r \<in> children g0 h"
  shows "above g0 R g r"
proof -
  have "(h, r) \<in> edges g0" using assms(2) by (simp add: edges_def)
  then show ?thesis using assms(1) unfolding above_def by (meson rtrancl.rtrancl_into_rtrancl)
qed

lemma dead_not_above:
  assumes s: "sweepable g0 R" and ab: "above g0 R g h" and r: "r \<in> children g0 h" "h \<in> R" "dead g0 r"
    and m: "mem_of g0 r = Some m"
  shows "\<not> seen_in g m"
proof
  assume "seen_in g m"
  with ab obtain x where x: "x \<in> R" "mem_of g0 x = Some m" "(x, h) \<in> (edges g0)\<^sup>*" by (auto simp: above_def)
  have same: "children g0 x = children g0 r" using x(2) m by (simp add: children_def)
  have hr: "(h, r) \<in> edges g0" using r(1) by (simp add: edges_def)
  from x(3) have "(r, r) \<in> (edges g0)\<^sup>+"
  proof (cases rule: converse_rtranclE)
    case base
    with same r(1) have "(r, r) \<in> edges g0" by (simp add: edges_def)
    then show ?thesis by simp
  next
    case (step y)
    then have "(r, y) \<in> edges g0" using same by (simp add: edges_def)
    with step(2) hr show ?thesis by (meson rtrancl_into_trancl1 rtrancl_into_trancl2 trancl.trancl_into_trancl)
  qed
  with sw_acyclic [OF s _ r(3)] sw_children [OF s r(2,1)] show False by blast
qed

lemma finite_unseen:
  assumes "gc_ok g0"
  shows "finite (unseen g0 g)" and "card (unseen g0 g) \<le> next_ref g0"
proof -
  from finite_handles [OF assms] have fin: "finite (dom (heaps g0))" "card (dom (heaps g0)) \<le> next_ref g0" by auto
  have sub: "unseen g0 g \<subseteq> dom (heaps g0)" by (auto simp: unseen_def)
  show "finite (unseen g0 g)" by (rule finite_subset [OF sub fin(1)])
  show "card (unseen g0 g) \<le> next_ref g0" by (rule order_trans [OF card_mono [OF fin(1) sub] fin(2)])
qed

lemma unseen_cong: "(\<And>m. seen_in g' m = seen_in g m) \<Longrightarrow> unseen g0 g' = unseen g0 g"
  by (simp add: unseen_def)

lemma swept_refl: "sweep_inv g0 R F g q \<Longrightarrow> swept g0 R F g q F g q"
  by (simp add: swept_def)

lemma swept_trans: "swept g0 R F g q F1 g1 q1 \<Longrightarrow> swept g0 R F1 g1 q1 F2 g2 q2 \<Longrightarrow> swept g0 R F g q F2 g2 q2"
  unfolding swept_def by (metis subset_trans)

lemma swept_inv: "swept g0 R F g q F' g' q' \<Longrightarrow> sweep_inv g0 R F' g' q'"
  by (simp add: swept_def)

lemma followed_mono:
  "followed g0 F g q es \<Longrightarrow> F \<subseteq> F' \<Longrightarrow> set (q_memory q) \<subseteq> set (q_memory q') \<Longrightarrow>
    (\<And>m. seen_in g m \<Longrightarrow> seen_in g' m \<or> m \<in> F') \<Longrightarrow> followed g0 F' g' q' es"
  unfolding followed_def by blast

lemma followed_swept: "followed g0 F g q es \<Longrightarrow> swept g0 R F g q F' g' q' \<Longrightarrow> followed g0 F' g' q' es"
  by (erule followed_mono) (auto simp: swept_def)

lemma sweptD:
  assumes "swept g0 R F g q F' g' q'"
  shows swept_F: "F \<subseteq> F'" and swept_queue: "set (q_memory q) \<subseteq> set (q_memory q')"
    and swept_seen: "seen_in g' m = seen_in g m"
    and swept_same: "seen_in g m \<Longrightarrow> mems g' m = mems g m \<and> (m \<in> F' \<longleftrightarrow> m \<in> F)"
  using assms unfolding swept_def by blast+

section \<open>The steps of the sweep\<close>

lemma finite_mems: "gc_ok g \<Longrightarrow> finite (dom (mems g))"
proof -
  assume "gc_ok g"
  then have "dom (mems g) \<subseteq> {..<next_ref g}" by (auto dest: gc_okD(3))
  then show ?thesis using finite_subset by blast
qed

lemma content_put_mem:
  assumes "finite (dom (mems g))" and "mems g m = Some M"
  shows "content (put_mem m M' g) + mset (map pair_of (infos M)) = content g + mset (map pair_of (infos M'))"
proof -
  let ?f = "\<lambda>g x. mset (map pair_of (infos (the (mems g x))))"
  have d: "dom (mems (put_mem m M' g)) = dom (mems g)" using assms(2) by (auto simp: put_mem_def)
  have m: "m \<in> dom (mems g)" using assms(2) by blast
  have "(\<Sum>x \<in> dom (mems g) - {m}. ?f (put_mem m M' g) x) = (\<Sum>x \<in> dom (mems g) - {m}. ?f g x)"
    by (rule sum.cong) (auto simp: put_mem_def)
  then show ?thesis
    unfolding content_def d
    by (simp only: sum.remove [OF assms(1) m]) (simp add: put_mem_def assms(2))
qed

text \<open>Changing one memory, with the queue.\<close>

lemma sweep_inv_put:
  assumes si: "sweep_inv g0 R F g q" and m: "m \<in> memories g0 R" and M: "mems g m = Some M" and M0: "mems g0 m = Some M0"
    and qm: "q_memory q' = q_memory q" and inv: "memory_inv g0 F q m M0 M'" and seen: "seen M' = seen M"
    and content: "mset (q_list q') + content (put_mem m M' g) = content g0"
  shows "sweep_inv g0 R F (put_mem m M' g) q'"
proof -
  have same: "memory_inv g0 F q' = memory_inv g0 F q" by (intro ext) (simp add: memory_inv_def qm)
  have seen': "seen_in (put_mem m M' g) x = seen_in g x" for x
    using M seen by (simp add: seen_in_def put_mem_def)
  have fol: "followed g0 F (put_mem m M' g) q' = followed g0 F g q"
    by (intro ext) (simp add: followed_def qm seen')
  have "heaps (put_mem m M' g) = heaps g \<and> frame (put_mem m M' g) = frame g \<and> next_ref (put_mem m M' g) = next_ref g"
    by (simp add: put_mem_def frame_def)
  moreover have "dom (mems (put_mem m M' g)) = dom (mems g)" using M by (auto simp: put_mem_def)
  moreover have "mems (put_mem m M' g) x = mems g x" if "x \<noteq> m" for x using that by (simp add: put_mem_def)
  moreover have "mems (put_mem m M' g) m = Some M'" by (simp add: put_mem_def)
  ultimately show ?thesis
    using si m M0 inv content unfolding sweep_inv_def same fol qm
    by (smt (verit, best) option.inject)
qed

lemma unlink_step:
  assumes ok: "gc_ok g0" and si: "sweep_inv g0 R F g q" and m: "m \<in> memories g0 R" and M: "mems g m = Some M"
    and M0: "mems g0 m = Some M0" and seen: "seen M" and notF: "m \<notin> F" and j: "j < length (infos M)"
  shows "\<exists>M'. unlink m j g = Inr (put_mem m M' g) \<and> sweep_inv g0 R F (put_mem m M' g) (enqueue (infos M ! j) q) \<and>
    seen M' \<and> infos M' = erase_at j (infos M)"
proof -
  let ?e = "infos M ! j"
  let ?M = "M\<lparr>indexes := erase_last (i_index ?e) (indexes M), infos := erase_at j (infos M)\<rparr>"
  from si_mem [OF si m M0 M] have inv: "memory_inv g0 F q m M0 M" .
  note split = mset_erase_at [OF j]
  from split have "mset (map i_index (infos M)) = add_mset (i_index ?e) (mset (map i_index (erase_at j (infos M))))"
    by simp
  with inv have "memory_inv g0 F q m M0 ?M"
    using notF seen by (simp add: memory_inv_def mset_erase_last)
  moreover have "mset (q_list (enqueue ?e q)) + content (put_mem m ?M g) = content g0"
  proof -
    have fin: "finite (dom (mems g))" using finite_mems [OF ok] si_dom [OF si] by simp
    have "content (put_mem m ?M g) + mset (map pair_of (infos M)) = content g + mset (map pair_of (erase_at j (infos M)))"
      using content_put_mem [OF fin M, of ?M] by simp
    moreover have "mset (map pair_of (infos M)) = add_mset (pair_of ?e) (mset (map pair_of (erase_at j (infos M))))"
      using split by simp
    ultimately have "add_mset (pair_of ?e) (content (put_mem m ?M g)) + mset (map pair_of (erase_at j (infos M))) =
        content g + mset (map pair_of (erase_at j (infos M)))" by simp
    then have c: "content g = add_mset (pair_of ?e) (content (put_mem m ?M g))" by (rule add_right_imp_eq [symmetric])
    show ?thesis
      using si_content [OF si] by (simp add: c enqueue_def pair_of_def)
  qed
  ultimately have "sweep_inv g0 R F (put_mem m ?M g) (enqueue ?e q)"
    by (intro sweep_inv_put [OF si m M M0]) (simp_all add: enqueue_def)
  moreover have "unlink m j g = Inr (put_mem m ?M g)" using M by (simp add: unlink_def get_mem_def)
  ultimately show ?thesis using seen by (intro exI [of _ ?M]) simp
qed

text \<open>The memory of a dead handle, emptied by its own sweep, is queued.\<close>

lemma release_step:
  assumes si: "sweep_inv g0 R F g q" and m: "m \<in> memories g0 R" "m \<in> F" "m \<notin> set (q_memory q)"
    and M: "mems g m = Some M" and M0: "mems g0 m = Some M0" "color M0 = MANAGED_OBJECT_HEAP_COLOR_WHITE"
    and fin: "finite (dom (mems g))"
  shows "sweep_inv g0 R F (put_mem m (M\<lparr>keep_memory := True\<rparr>) g) (q\<lparr>q_memory := q_memory q @ [m]\<rparr>)"
proof -
  let ?g = "put_mem m (M\<lparr>keep_memory := True\<rparr>) g" and ?q = "q\<lparr>q_memory := q_memory q @ [m]\<rparr>"
  have seen: "seen_in ?g x = seen_in g x" for x using M by (simp add: seen_in_def put_mem_def)
  have "memory_inv g0 F ?q x X0 X" if "x \<in> memories g0 R" "mems g0 x = Some X0" "mems ?g x = Some X" for x X0 X
  proof (cases "x = m")
    case True
    then have X: "X = M\<lparr>keep_memory := True\<rparr>" "X0 = M0" using that M0 by (simp_all add: put_mem_def)
    show ?thesis using si_mem [OF si m(1) M0(1) M] m(2) unfolding X True by (simp add: memory_inv_def)
  next
    case False
    then show ?thesis using that si_mem [OF si that(1,2)] by (simp add: put_mem_def memory_inv_def)
  qed
  moreover have "followed g0 F ?g ?q es" if "followed g0 F g q es" for es
    by (rule followed_mono [OF that]) (auto simp: seen)
  moreover have "content ?g = content g"
    using content_put_mem [OF fin M, of "M\<lparr>keep_memory := True\<rparr>"] by simp
  moreover have "dom (mems ?g) = dom (mems g)" using M by (auto simp: put_mem_def)
  moreover have "mems ?g x = mems g0 x" if "x \<notin> memories g0 R" for x
    using that m(1) si_other [OF si that] by (auto simp: put_mem_def)
  moreover have "heaps ?g = heaps g \<and> frame ?g = frame g \<and> next_ref ?g = next_ref g" by (simp add: put_mem_def frame_def)
  ultimately show ?thesis
    using si m M0 unfolding sweep_inv_def by auto
qed

text \<open>
  The loop over the entries \<open>e1\<close> of the memory \<open>m\<close>: those from position \<open>j\<close> on are done.  It starts in
  the state \<open>gs\<close> with the finished memories \<open>F0\<close>.
\<close>

definition looping ::
  "gc \<Rightarrow> ref set \<Rightarrow> ref \<Rightarrow> Memory \<Rightarrow> Info list \<Rightarrow> ref set \<Rightarrow> queue \<Rightarrow> gc \<Rightarrow> nat \<Rightarrow> ref set \<Rightarrow> gc \<Rightarrow> queue \<Rightarrow> bool"
where
  "looping g0 R m M0 e1 F0 q0 gs j F g q \<longleftrightarrow> sweep_inv g0 R F g q \<and> F0 \<subseteq> F \<and> set (q_memory q0) \<subseteq> set (q_memory q) \<and>
     (\<forall>x. seen_in g x = seen_in gs x) \<and> (\<forall>x. x \<noteq> m \<longrightarrow> seen_in gs x \<longrightarrow> mems g x = mems gs x) \<and>
     (\<forall>x. seen_in gs x \<longrightarrow> (x \<in> F \<longleftrightarrow> x \<in> F0)) \<and>
     (\<exists>M. mems g m = Some M \<and> seen M \<and> infos M = take j e1 @ staying g0 M0 (drop j e1)) \<and>
     followed g0 F g q (drop j e1)"

lemma loopingD:
  assumes "looping g0 R m M0 e1 F0 q0 gs j F g q"
  shows lo_inv: "sweep_inv g0 R F g q" and lo_F: "F0 \<subseteq> F" and lo_queue: "set (q_memory q0) \<subseteq> set (q_memory q)"
    and lo_seen: "seen_in g x = seen_in gs x" and lo_same: "x \<noteq> m \<Longrightarrow> seen_in gs x \<Longrightarrow> mems g x = mems gs x"
    and lo_notF: "seen_in gs x \<Longrightarrow> x \<in> F \<longleftrightarrow> x \<in> F0"
    and lo_mem: "\<exists>M. mems g m = Some M \<and> seen M \<and> infos M = take j e1 @ staying g0 M0 (drop j e1)"
    and lo_followed: "followed g0 F g q (drop j e1)"
  using assms unfolding looping_def by blast+

lemma drop_Suc_nth: "j < length xs \<Longrightarrow> drop j xs = xs ! j # drop (Suc j) xs"
  by (rule Cons_nth_drop_Suc [symmetric])

lemma staying_Cons:
  "staying g M (e # es) = (if color M \<noteq> MANAGED_OBJECT_HEAP_COLOR_WHITE \<and> \<not> dead_ref g e then e # staying g M es else staying g M es)"
  by (simp add: staying_def)

text \<open>An entry that stays.\<close>

lemma looping_keep:
  assumes lo: "looping g0 R m M0 e1 F0 q0 gs (Suc j) F g q" and j: "j < length e1"
    and e: "color M0 \<noteq> MANAGED_OBJECT_HEAP_COLOR_WHITE" "\<not> dead_ref g0 (e1 ! j)"
    and fol: "followed g0 F g q [e1 ! j]"
  shows "looping g0 R m M0 e1 F0 q0 gs j F g q"
proof -
  have "take (Suc j) e1 @ staying g0 M0 (drop (Suc j) e1) = take j e1 @ staying g0 M0 (drop j e1)"
    using j e by (simp add: take_Suc_conv_app_nth drop_Suc_nth staying_Cons)
  moreover have "followed g0 F g q (drop j e1)"
    using lo_followed [OF lo] fol by (simp add: drop_Suc_nth [OF j] followed_def)
  ultimately show ?thesis using lo unfolding looping_def by auto
qed

text \<open>An entry that goes.\<close>

lemma looping_unlink:
  assumes ok: "gc_ok g0" and m: "m \<in> memories g0 R" and M0: "mems g0 m = Some M0"
    and lo: "looping g0 R m M0 e1 F0 q0 gs (Suc j) F g q" and j: "j < length e1"
    and notF: "m \<notin> F0" and ms: "seen_in gs m"
    and e: "color M0 = MANAGED_OBJECT_HEAP_COLOR_WHITE \<or> dead_ref g0 (e1 ! j)"
    and fol: "followed g0 F g q [e1 ! j]"
  shows "\<exists>g'. unlink m j g = Inr g' \<and> looping g0 R m M0 e1 F0 q0 gs j F g' (enqueue (e1 ! j) q)"
proof -
  from lo_mem [OF lo] obtain M where M: "mems g m = Some M" "seen M"
    "infos M = take (Suc j) e1 @ staying g0 M0 (drop (Suc j) e1)" by blast
  have len: "j < length (infos M)" and nth: "infos M ! j = e1 ! j" using M(3) j by (auto simp: nth_append)
  have "m \<notin> F" using lo_notF [OF lo ms] notF by simp
  from unlink_step [OF ok lo_inv [OF lo] m M(1) M0 M(2) this len] nth
  obtain M' where M': "unlink m j g = Inr (put_mem m M' g)" "sweep_inv g0 R F (put_mem m M' g) (enqueue (e1 ! j) q)"
    "seen M'" "infos M' = erase_at j (infos M)" by auto
  let ?g = "put_mem m M' g"
  have seen: "seen_in ?g x = seen_in g x" for x using M M'(3) by (simp add: seen_in_def put_mem_def)
  have "infos M' = take j e1 @ staying g0 M0 (drop j e1)"
    using M'(4) M(3) e j by (auto simp: erase_at_middle drop_Suc_nth staying_Cons)
  moreover have "followed g0 F ?g (enqueue (e1 ! j) q) (drop j e1)"
    using lo_followed [OF lo] fol by (simp add: drop_Suc_nth [OF j] followed_def seen enqueue_def)
  moreover have "mems ?g m = Some M'" "\<And>x. x \<noteq> m \<Longrightarrow> mems ?g x = mems g x" by (simp_all add: put_mem_def)
  ultimately have "looping g0 R m M0 e1 F0 q0 gs j F ?g (enqueue (e1 ! j) q)"
    using lo M'(2,3) unfolding looping_def seen by (simp add: enqueue_def)
  with M'(1) show ?thesis by blast
qed

text \<open>The sweep of another memory in between.\<close>

lemma looping_swept:
  assumes lo: "looping g0 R m M0 e1 F0 q0 gs j F g q" and sw: "swept g0 R F g q F' g' q'" and ms: "seen_in gs m"
  shows "looping g0 R m M0 e1 F0 q0 gs j F' g' q'"
proof -
  have m: "mems g' m = mems g m" using swept_same [OF sw, of m] lo_seen [OF lo] ms by simp
  have same: "mems g' x = mems gs x" if "x \<noteq> m" "seen_in gs x" for x
    using swept_same [OF sw, of x] lo_seen [OF lo, of x] lo_same [OF lo that] that by simp
  have "x \<in> F' \<longleftrightarrow> x \<in> F0" if "seen_in gs x" for x
    using swept_same [OF sw, of x] lo_seen [OF lo, of x] lo_notF [OF lo that] that by simp
  with same m show ?thesis
    using swept_inv [OF sw] lo followed_swept [OF lo_followed [OF lo] sw] swept_F [OF sw] swept_queue [OF sw] swept_seen [OF sw]
    unfolding looping_def by (auto intro: subset_trans)
qed

end
