(* ===== verification/GcCollect.thy ===== *)
theory GcCollect
  imports GcSweep
begin

text \<open>
  The sweep as a whole, the destructors that it runs, and what a collection does.
\<close>

section \<open>The loop over a memory\<close>

lemma settle_white [simp]: "settle c = MANAGED_OBJECT_HEAP_COLOR_WHITE \<longleftrightarrow> c = MANAGED_OBJECT_HEAP_COLOR_WHITE"
  by (simp add: settle_def)

lemma flag_color_white [simp]: "flag_color b = MANAGED_OBJECT_HEAP_COLOR_WHITE \<longleftrightarrow> b"
  by (simp add: flag_color_def)

lemma dead_ref_Handle: "ptr_is_ref e \<Longrightarrow> i_ptr e = Handle r \<Longrightarrow> dead_ref g e \<longleftrightarrow> dead g r"
  by (simp add: dead_ref_def)

lemma followed_Handle:
  "ptr_is_ref e \<Longrightarrow> i_ptr e = Handle r \<Longrightarrow> mem_of g0 r = Some m \<Longrightarrow>
    followed g0 F g q [e] \<longleftrightarrow> (m \<in> F \<or> seen_in g m) \<and> (dead g0 r \<longrightarrow> m \<in> set (q_memory q))"
  by (simp add: followed_def)

lemma staying_nth: "j < length (staying g M es) \<Longrightarrow> \<not> dead_ref g (staying g M es ! j)"
  using nth_mem [of j "staying g M es"] unfolding staying_def set_filter by blast

lemma above_cong: "(\<And>m. seen_in g m = seen_in g' m) \<Longrightarrow> above g0 R g h = above g0 R g' h"
  by (simp add: above_def)

lemma sweep_entry_plain:
  assumes s: "sweepable g0 R" and h: "h \<in> R" "mem_of g0 h = Some m" and M0: "mems g0 m = Some M0"
    and lo: "looping g0 R m M0 e1 F0 q0 gs (Suc j) F g q" and j: "j < length e1"
    and e1: "m \<in> F0 \<longrightarrow> e1 = staying g0 M0 (infos M0)" and ms: "seen_in gs m" and e: "\<not> ptr_is_ref (e1 ! j)"
  shows "\<exists>F' g' q'. sweep_entry sw m j g q = Inr (g', q') \<and> looping g0 R m M0 e1 F0 q0 gs j F' g' q'"
proof -
  have mm: "m \<in> memories g0 R" using h by (auto simp: memories_def)
  from lo_mem [OF lo] obtain M where M: "mems g m = Some M" "seen M"
    "infos M = take (Suc j) e1 @ staying g0 M0 (drop (Suc j) e1)" by blast
  have nth: "infos M ! j = e1 ! j" using M(3) j by (auto simp: nth_append)
  have col: "color M = settle (color M0)"
    using si_mem [OF lo_inv [OF lo] mm M0 M(1)] M(2) by (simp add: memory_inv_def)
  have fol: "followed g0 F g q [e1 ! j]" using e by (simp add: followed_def)
  show ?thesis
  proof (cases "color M0 = MANAGED_OBJECT_HEAP_COLOR_WHITE")
    case True
    then have "m \<notin> F0" using e1 j by (auto simp: staying_def)
    from looping_unlink [OF sw_ok [OF s] mm M0 lo j this ms _ fol] True
    obtain g' where "unlink m j g = Inr g'" "looping g0 R m M0 e1 F0 q0 gs j F g' (enqueue (e1 ! j) q)" by blast
    then show ?thesis using M(1) nth e True col by (auto simp: sweep_entry_def get_mem_def Let_def)
  next
    case False
    have "looping g0 R m M0 e1 F0 q0 gs j F g q"
      by (rule looping_keep [OF lo j False _ fol]) (simp add: dead_ref_def e)
    then show ?thesis using M(1) nth e False col by (auto simp: sweep_entry_def get_mem_def Let_def)
  qed
qed

text \<open>A reference to a dead handle, whose own sweep has emptied its memory.\<close>

lemma sweep_entry_dead:
  assumes s: "sweepable g0 R" and m: "m \<in> memories g0 R" and M0: "mems g0 m = Some M0"
    and lo: "looping g0 R m M0 e1 F0 q0 gs (Suc j) F g q" and j: "j < length e1"
    and notF: "m \<notin> F0" and ms: "seen_in gs m" and e: "ptr_is_ref (e1 ! j)" "i_ptr (e1 ! j) = Handle r" "dead g0 r"
    and r: "r \<in> R" "mem_of g0 r = Some m2" "m2 \<in> F" "\<not> seen_in gs m2"
    and M3: "mems g m2 = Some M3"
  shows "\<exists>F' g' q'. (if keep_memory M3 then andthen (unlink m j g) (\<lambda>g3. Inr (g3, enqueue (e1 ! j) q))
      else andthen (drop_contents m2 (length (indexes M3)) (put_mem m2 (M3\<lparr>keep_memory := True\<rparr>) g) q)
        (\<lambda>(g3, q3). andthen (get_mem m2 g3) (\<lambda>M4.
           let q4 = (if infos M4 = [] then q3\<lparr>q_memory := q_memory q3 @ [m2]\<rparr> else q3)
           in andthen (unlink m j g3) (\<lambda>g4. Inr (g4, enqueue (e1 ! j) q4))))) = Inr (g', q') \<and>
     color M3 = MANAGED_OBJECT_HEAP_COLOR_WHITE \<and> looping g0 R m M0 e1 F0 q0 gs j F' g' q'"
proof -
  note ok = sw_ok [OF s] and si = lo_inv [OF lo]
  have m2: "m2 \<in> memories g0 R" using r by (auto simp: memories_def)
  from si_mem_ex [OF si s r(1,2)] M3 e(3) obtain M20 where M20: "mems g0 m2 = Some M20"
    "color M20 = MANAGED_OBJECT_HEAP_COLOR_WHITE" and inv: "memory_inv g0 F q m2 M20 M3" by auto
  have empty: "infos M3 = []" "indexes M3 = []" and white: "color M3 = MANAGED_OBJECT_HEAP_COLOR_WHITE"
    and keep: "keep_memory M3 = (m2 \<in> set (q_memory q))"
    using inv r(3) M20(2) by (auto simp: memory_inv_def staying_def)
  have gone: "color M0 = MANAGED_OBJECT_HEAP_COLOR_WHITE \<or> dead_ref g0 (e1 ! j)"
    using dead_ref_Handle [OF e(1,2)] e(3) by simp
  show ?thesis
  proof (cases "keep_memory M3")
    case True
    with keep r(3) have "followed g0 F g q [e1 ! j]" by (simp add: followed_Handle [OF e(1,2) r(2)])
    from looping_unlink [OF ok m M0 lo j notF ms gone this] True white show ?thesis by auto
  next
    case False
    let ?g = "put_mem m2 (M3\<lparr>keep_memory := True\<rparr>) g" and ?q = "q\<lparr>q_memory := q_memory q @ [m2]\<rparr>"
    have fin: "finite (dom (mems g))" using finite_mems [OF ok] si_dom [OF si] by simp
    have "sweep_inv g0 R F ?g ?q"
      using release_step [OF si m2 r(3) _ M3 M20 fin] keep False by simp
    moreover have unseen: "\<not> seen_in g m2" using r(4) lo_seen [OF lo] by simp
    ultimately have "swept g0 R F g q F ?g ?q"
      using M3 by (auto simp: swept_def seen_in_def put_mem_def)
    from looping_swept [OF lo this ms] have lo': "looping g0 R m M0 e1 F0 q0 gs (Suc j) F ?g ?q" .
    have "followed g0 F ?g ?q [e1 ! j]" using r(3) by (simp add: followed_Handle [OF e(1,2) r(2)])
    from looping_unlink [OF ok m M0 lo' j notF ms gone this]
    obtain g' where "unlink m j ?g = Inr g'" "looping g0 R m M0 e1 F0 q0 gs j F g' (enqueue (e1 ! j) ?q)" by blast
    then show ?thesis
      using False empty white by (auto simp: get_mem_def put_mem_def Let_def)
  qed
qed

lemma sweep_entry_ref:
  assumes s: "sweepable g0 R" and sw: "sweeper g0 R n sw"
    and h: "h \<in> R" "mem_of g0 h = Some m" and M0: "mems g0 m = Some M0"
    and lo: "looping g0 R m M0 e1 F0 q0 gs (Suc j) F g q" and j: "j < length e1"
    and e1: "m \<in> F0 \<longrightarrow> e1 = staying g0 M0 (infos M0)" "set e1 \<subseteq> set (infos M0)" and ms: "seen_in gs m"
    and ab: "above g0 R gs h" and card: "card (unseen g0 gs) < n" and e: "ptr_is_ref (e1 ! j)"
  shows "\<exists>F' g' q'. sweep_entry sw m j g q = Inr (g', q') \<and> looping g0 R m M0 e1 F0 q0 gs j F' g' q'"
proof -
  note ok = sw_ok [OF s] and si = lo_inv [OF lo]
  have mm: "m \<in> memories g0 R" using h by (auto simp: memories_def)
  from lo_mem [OF lo] obtain M where M: "mems g m = Some M" "seen M"
    "infos M = take (Suc j) e1 @ staying g0 M0 (drop (Suc j) e1)" by blast
  have nth: "infos M ! j = e1 ! j" using M(3) j by (auto simp: nth_append)
  have in0: "e1 ! j \<in> set (infos M0)" using j e1(2) nth_mem by blast
  with gc_okD(5) [OF ok M0] e obtain r where ptr: "i_ptr (e1 ! j) = Handle r"
    by (auto simp: memory_ok_def entry_ok_def)
  have child: "r \<in> children g0 h" using childrenI [OF h(2) M0] in0 e ptr by (auto simp: refs_in_def)
  have rR: "r \<in> R" by (rule sw_children [OF s h(1) child])
  from sw_marked [OF s rR] obtain m2 where m2: "mem_of g0 r = Some m2" by (auto simp: marked_handle_def)
  from si_mem_ex [OF si s rR m2] obtain M2 where M2: "mems g m2 = Some M2" by blast
  have gm: "get_memory r g = Inr (m2, g)" by (rule si_get_memory [OF si m2])
  have abg: "above g0 R g h" using ab lo_seen [OF lo] above_cong [of g gs g0 R h] by simp
  have live_parent: "color M0 \<noteq> MANAGED_OBJECT_HEAP_COLOR_WHITE" if "\<not> dead g0 r"
  proof -
    have "\<not> dead g0 h" using sw_dead [OF s h(1) _ child] that by blast
    then show ?thesis using si_mem_ex [OF si s h] M0 by (auto simp: flag_color_def)
  qed
  have start: "sweep_entry sw m j g q =
      (if seen M2 then Inr (g, q)
       else andthen (sw r g q) (\<lambda>(g2, q2). andthen (get_mem m2 g2) (\<lambda>M3.
         if keep_memory M3 then andthen (unlink m j g2) (\<lambda>g3. Inr (g3, enqueue (e1 ! j) q2))
         else if color M3 = MANAGED_OBJECT_HEAP_COLOR_WHITE
         then andthen (drop_contents m2 (length (indexes M3)) (put_mem m2 (M3\<lparr>keep_memory := True\<rparr>) g2) q2)
           (\<lambda>(g3, q3). andthen (get_mem m2 g3) (\<lambda>M4.
              let q4 = (if infos M4 = [] then q3\<lparr>q_memory := q_memory q3 @ [m2]\<rparr> else q3)
              in andthen (unlink m j g3) (\<lambda>g4. Inr (g4, enqueue (e1 ! j) q4))))
         else Inr (g2, q2))))"
    using M(1) M2 gm e ptr unfolding nth [symmetric]
    by (simp add: sweep_entry_def get_mem_def MANAGED_OBJECT_GET_HEAP_def Let_def)
  show ?thesis
  proof (cases "seen M2")
    case True
    then have seen2: "seen_in g m2" using M2 by (simp add: seen_in_def)
    then have alive: "\<not> dead g0 r" using dead_not_above [OF s abg child h(1) _ m2] by blast
    have "followed g0 F g q [e1 ! j]" using seen2 alive by (simp add: followed_Handle [OF e ptr m2])
    from looping_keep [OF lo j live_parent [OF alive] _ this] alive start True show ?thesis
      by (auto simp: dead_ref_Handle [OF e ptr])
  next
    case False
    then have unseen2: "\<not> seen_in gs m2" using M2 lo_seen [OF lo, of m2] by (simp add: seen_in_def)
    have "card (unseen g0 g) < n" using card lo_seen [OF lo] unseen_cong [of g gs g0] by simp
    with sw rR m2 si above_child [OF abg child] obtain F1 g1 q1
      where call: "sw r g q = Inr (g1, q1)" and sp: "swept g0 R F g q F1 g1 q1" and "m2 \<in> F1 \<or> seen_in g m2"
      unfolding sweeper_def by blast
    then have m2F: "m2 \<in> F1" using unseen2 lo_seen [OF lo] by simp
    have lo1: "looping g0 R m M0 e1 F0 q0 gs (Suc j) F1 g1 q1" by (rule looping_swept [OF lo sp ms])
    from si_mem_ex [OF swept_inv [OF sp] s rR m2] obtain M20 M3 where M3: "mems g1 m2 = Some M3"
      and M20: "mems g0 m2 = Some M20" "color M20 = flag_color (dead g0 r)" and inv: "memory_inv g0 F1 q1 m2 M20 M3" by blast
    show ?thesis
    proof (cases "dead g0 r")
      case True
      then have "dead_ref g0 (e1 ! j)" by (simp add: dead_ref_Handle [OF e ptr])
      then have "m \<notin> F0" using e1(1) j staying_nth by blast
      from sweep_entry_dead [OF s mm M0 lo1 j this ms e ptr True rR m2 m2F unseen2 M3]
      show ?thesis using start False call M3 by (auto simp: get_mem_def)
    next
      case alive: False
      have "m2 \<notin> set (q_memory q1)" using si_white [OF swept_inv [OF sp] _ M20(1)] M20(2) alive by auto
      then have "\<not> keep_memory M3" using inv by (simp add: memory_inv_def)
      moreover have "color M3 \<noteq> MANAGED_OBJECT_HEAP_COLOR_WHITE"
        using inv m2F M20(2) alive by (simp add: memory_inv_def)
      moreover have "followed g0 F1 g1 q1 [e1 ! j]" using m2F alive by (simp add: followed_Handle [OF e ptr m2])
      then have "looping g0 R m M0 e1 F0 q0 gs j F1 g1 q1"
        by (intro looping_keep [OF lo1 j live_parent [OF alive]]) (simp_all add: dead_ref_Handle [OF e ptr] alive)
      ultimately show ?thesis using start False call M3 by (auto simp: get_mem_def)
    qed
  qed
qed

lemma sweep_loop_correct:
  assumes s: "sweepable g0 R" and sw: "sweeper g0 R n sw"
    and h: "h \<in> R" "mem_of g0 h = Some m" and M0: "mems g0 m = Some M0"
    and e1: "m \<in> F0 \<longrightarrow> e1 = staying g0 M0 (infos M0)" "set e1 \<subseteq> set (infos M0)" and ms: "seen_in gs m"
    and ab: "above g0 R gs h" and card: "card (unseen g0 gs) < n"
  shows "looping g0 R m M0 e1 F0 q0 gs j F g q \<Longrightarrow> j \<le> length e1 \<Longrightarrow>
    \<exists>F' g' q'. sweep_loop sw m j g q = Inr (g', q') \<and> looping g0 R m M0 e1 F0 q0 gs 0 F' g' q'"
proof (induction j arbitrary: F g q)
  case 0
  then show ?case by auto
next
  case (Suc j)
  then have j: "j < length e1" by simp
  have "\<exists>F' g' q'. sweep_entry sw m j g q = Inr (g', q') \<and> looping g0 R m M0 e1 F0 q0 gs j F' g' q'"
    using sweep_entry_plain [OF s h M0 Suc.prems(1) j e1(1) ms]
      sweep_entry_ref [OF s sw h M0 Suc.prems(1) j e1 ms ab card] by blast
  then obtain F1 g1 q1 where "sweep_entry sw m j g q = Inr (g1, q1)" "looping g0 R m M0 e1 F0 q0 gs j F1 g1 q1" by blast
  with Suc.IH [OF this(2)] j show ?case by simp
qed

section \<open>The sweep of a handle\<close>

text \<open>Entering a memory, and leaving it after the loop.\<close>

lemma looping_start:
  assumes ok: "gc_ok g0" and si: "sweep_inv g0 R F g q" and m: "m \<in> memories g0 R" and M: "mems g m = Some M" "\<not> seen M"
    and M0: "mems g0 m = Some M0" and M1: "M1 = M\<lparr>seen := True, color := settle (color M)\<rparr>"
  shows "looping g0 R m M0 (infos M) F q (put_mem m M1 g) (length (infos M)) F (put_mem m M1 g) q"
proof -
  let ?g = "put_mem m M1 g"
  from si_mem [OF si m M0 M(1)] have inv: "memory_inv g0 F q m M0 M" .
  have inv1: "memory_inv g0 F q m M0 M1" using inv M(2) by (auto simp: memory_inv_def M1 settle_def)
  have seen: "seen_in ?g x = (x = m \<or> seen_in g x)" for x by (simp add: seen_in_def put_mem_def M1)
  have fol: "followed g0 F ?g q es" if "followed g0 F g q es" for es
    by (rule followed_mono [OF that]) (auto simp: seen)
  have fin: "finite (dom (mems g))" using finite_mems [OF ok] si_dom [OF si] by simp
  have "content ?g = content g" using content_put_mem [OF fin M(1), of M1] by (simp add: M1)
  moreover have "memory_inv g0 F q x X0 X"
    if "x \<in> memories g0 R" "mems g0 x = Some X0" "mems ?g x = Some X" for x X0 X
    using that inv1 M0 si_mem [OF si that(1,2)] by (cases "x = m") (auto simp: put_mem_def)
  moreover have "mems ?g x = mems g0 x" if "x \<notin> memories g0 R" for x
    using that m si_other [OF si that] by (auto simp: put_mem_def)
  moreover have "dom (mems ?g) = dom (mems g)" using M by (auto simp: put_mem_def)
  moreover have "heaps ?g = heaps g \<and> frame ?g = frame g \<and> next_ref ?g = next_ref g" by (simp add: put_mem_def frame_def)
  ultimately have "sweep_inv g0 R F ?g q" using si fol unfolding sweep_inv_def by auto
  then show ?thesis by (simp add: looping_def put_mem_def M1 staying_def followed_def)
qed

lemma looping_end:
  assumes ok: "gc_ok g0" and M: "mems g m = Some M" "\<not> seen M" and M0: "mems g0 m = Some M0" and m: "m \<in> memories g0 R"
    and M1: "M1 = M\<lparr>seen := True, color := settle (color M)\<rparr>"
    and e1: "infos M = (if m \<in> F then staying g0 M0 (infos M0) else infos M0)" "m \<in> F \<Longrightarrow> followed g0 F g q (infos M0)"
    and lo: "looping g0 R m M0 (infos M) F q (put_mem m M1 g) 0 F' g' q'" and M2: "mems g' m = Some M2"
  shows "swept g0 R F g q (insert m F') (put_mem m (M2\<lparr>seen := False\<rparr>) g') q'"
proof -
  let ?g = "put_mem m (M2\<lparr>seen := False\<rparr>) g'" and ?gs = "put_mem m M1 g"
  note si = lo_inv [OF lo]
  have M2': "seen M2" "infos M2 = staying g0 M0 (infos M)" using lo_mem [OF lo] M2 by auto
  have stay: "infos M2 = staying g0 M0 (infos M0)" using M2'(2) e1(1) by (simp add: staying_def)
  have seens: "seen_in ?gs x = (x = m \<or> seen_in g x)" for x by (simp add: seen_in_def put_mem_def M1)
  have notm: "\<not> seen_in g m" using M by (simp add: seen_in_def)
  have seen: "seen_in ?g x = seen_in g x" for x
    using lo_seen [OF lo, of x] notm seens [of x] by (cases "x = m") (simp_all add: seen_in_def put_mem_def)
  have seen': "seen_in g' x = (x = m \<or> seen_in g x)" for x using lo_seen [OF lo] seens by simp
  have fol: "followed g0 (insert m F') ?g q' es" if "followed g0 F' g' q' es" for es
    by (rule followed_mono [OF that]) (auto simp: seen seen')
  have "followed g0 F' g' q' (infos M0)"
  proof (cases "m \<in> F")
    case True
    show ?thesis
      by (rule followed_mono [OF e1(2) [OF True] lo_F [OF lo] lo_queue [OF lo]]) (simp add: seen')
  next
    case False
    then show ?thesis using lo_followed [OF lo] e1(1) by simp
  qed
  from fol [OF this] have folm: "followed g0 (insert m F') ?g q' (infos M0)" .
  from si_mem [OF si m M0 M2] have inv2: "memory_inv g0 F' q' m M0 M2" .
  have "memory_inv g0 (insert m F') q' m M0 (M2\<lparr>seen := False\<rparr>)"
    using inv2 M2'(1) stay by (simp add: memory_inv_def)
  then have invs: "memory_inv g0 (insert m F') q' x X0 X"
    if "x \<in> memories g0 R" "mems g0 x = Some X0" "mems ?g x = Some X" for x X0 X
    using that M0 si_mem [OF si that(1,2)] by (cases "x = m") (auto simp: put_mem_def memory_inv_def)
  have fin: "finite (dom (mems g'))" using finite_mems [OF ok] si_dom [OF si] by simp
  have "content ?g = content g'" using content_put_mem [OF fin M2, of "M2\<lparr>seen := False\<rparr>"] by simp
  moreover have "mems ?g x = mems g0 x" if "x \<notin> memories g0 R" for x
    using that m si_other [OF si that] by (auto simp: put_mem_def)
  moreover have "dom (mems ?g) = dom (mems g')" using M2 by (auto simp: put_mem_def)
  moreover have "heaps ?g = heaps g' \<and> frame ?g = frame g' \<and> next_ref ?g = next_ref g'" by (simp add: put_mem_def frame_def)
  moreover have "followed g0 (insert m F') ?g q' (infos X0)" if "x \<in> insert m F'" "mems g0 x = Some X0" for x X0
    using that folm M0 fol [OF si_followed [OF si _ that(2)]] by auto
  ultimately have "sweep_inv g0 R (insert m F') ?g q'"
    using si invs m unfolding sweep_inv_def by auto
  moreover have "mems ?g x = mems g x \<and> (x \<in> insert m F' \<longleftrightarrow> x \<in> F)" if "seen_in g x" for x
  proof -
    from that notm have "x \<noteq> m" by auto
    moreover from this have "mems ?gs x = mems g x" by (simp add: put_mem_def)
    moreover have "seen_in ?gs x" using that seens by simp
    ultimately show ?thesis using lo_same [OF lo, of x] lo_notF [OF lo, of x] by (simp add: put_mem_def)
  qed
  ultimately show ?thesis
    unfolding swept_def using seen lo_F [OF lo] lo_queue [OF lo] by auto
qed

lemma do_sweep_sweeper:
  assumes s: "sweepable g0 R"
  shows "sweeper g0 R n (do_sweep n)"
proof (induction n)
  case 0
  show ?case by (simp add: sweeper_def)
next
  case (Suc n)
  show ?case
    unfolding sweeper_def
  proof (intro allI impI)
    fix F g q h m
    assume h: "h \<in> R" "mem_of g0 h = Some m" and si: "sweep_inv g0 R F g q" and ab: "above g0 R g h"
      and card: "card (unseen g0 g) < Suc n"
    note ok = sw_ok [OF s]
    have mm: "m \<in> memories g0 R" using h by (auto simp: memories_def)
    from si_mem_ex [OF si s h] obtain M0 M where M0: "mems g0 m = Some M0" and M: "mems g m = Some M"
      and inv: "memory_inv g0 F q m M0 M" by blast
    have gm: "get_memory h g = Inr (m, g)" by (rule si_get_memory [OF si h(2)])
    show "\<exists>F' g' q'. do_sweep (Suc n) h g q = Inr (g', q') \<and> swept g0 R F g q F' g' q' \<and> (m \<in> F' \<or> seen_in g m)"
    proof (cases "seen M")
      case True
      then have "do_sweep (Suc n) h g q = Inr (g, q)" "seen_in g m" using gm M by (simp_all add: get_mem_def seen_in_def)
      then show ?thesis using swept_refl [OF si] by auto
    next
      case False
      let ?M1 = "M\<lparr>seen := True, color := settle (color M)\<rparr>"
      let ?gs = "put_mem m ?M1 g"
      have e1: "infos M = (if m \<in> F then staying g0 M0 (infos M0) else infos M0)"
        using inv False by (simp add: memory_inv_def)
      have seens: "seen_in ?gs x = (x = m \<or> seen_in g x)" for x by (simp add: seen_in_def put_mem_def)
      have "above g0 R ?gs h" using ab h by (auto simp: above_def seens)
      moreover have "h \<in> unseen g0 g - unseen g0 ?gs"
        using h M False sw_dom [OF s h(1)] by (auto simp: unseen_def seens) (simp add: seen_in_def)
      then have "unseen g0 ?gs \<subset> unseen g0 g" by (auto simp: unseen_def seens)
      then have "card (unseen g0 ?gs) < card (unseen g0 g)" by (rule psubset_card_mono [OF finite_unseen(1) [OF ok]])
      then have "card (unseen g0 ?gs) < n" using card by simp
      moreover have "m \<in> F \<longrightarrow> infos M = staying g0 M0 (infos M0)" "set (infos M) \<subseteq> set (infos M0)"
        using e1 by (auto simp: staying_def)
      moreover have "seen_in ?gs m" by (simp add: seens)
      ultimately obtain F' g' q' where loop: "sweep_loop (do_sweep n) m (length (infos M)) ?gs q = Inr (g', q')"
        and lo: "looping g0 R m M0 (infos M) F q ?gs 0 F' g' q'"
        using sweep_loop_correct [OF s Suc.IH h M0 _ _ _ _ _ looping_start [OF ok si mm M False M0 refl]] by blast
      from lo_mem [OF lo] obtain M2 where M2: "mems g' m = Some M2" by blast
      have "swept g0 R F g q (insert m F') (put_mem m (M2\<lparr>seen := False\<rparr>) g') q'"
        by (rule looping_end [OF ok M False M0 mm refl e1 si_followed [OF si _ M0] lo M2])
      moreover have "do_sweep (Suc n) h g q = Inr (put_mem m (M2\<lparr>seen := False\<rparr>) g', q')"
        using gm M False loop M2 by (simp add: get_mem_def settle_def Let_def)
      ultimately show ?thesis by blast
    qed
  qed
qed

end
