(* ===== verification/GcDestroy.thy ===== *)
theory GcDestroy
  imports GcCollect
begin

text \<open>
  The destructors that a sweep queues, and what is left when they have run.
\<close>

section \<open>Running a queue\<close>

definition event_of :: "pointer \<times> destructor \<Rightarrow> gc_event list" where
  "event_of pd = (case pd of (p, Client k) \<Rightarrow> [Client_destroyed k p] | (Handle r, Delete_heap) \<Rightarrow> [Heap_deleted r] | _ \<Rightarrow> [])"

definition handle_of :: "pointer \<times> destructor \<Rightarrow> ref list" where
  "handle_of pd = (case pd of (Handle r, Delete_heap) \<Rightarrow> [r] | _ \<Rightarrow> [])"

definition runnable :: "pointer \<times> destructor \<Rightarrow> bool" where
  "runnable pd \<longleftrightarrow> snd pd \<noteq> Unset \<and> (snd pd = Delete_heap \<longrightarrow> (\<exists>r. fst pd = Handle r))"

lemma restrict_map_UNIV [simp]: "f |` UNIV = f"
  by (simp add: restrict_map_def)

lemma do_destroy_runnable:
  assumes "runnable pd" and "set (handle_of pd) \<subseteq> dom (heaps g)"
  shows "do_destroy pd g = Inr (g\<lparr>heaps := heaps g |` (- set (handle_of pd)), ran := ran g @ event_of pd\<rparr>)"
proof -
  obtain p d where pd: "pd = (p, d)" by (cases pd)
  show ?thesis
  proof (cases d)
    case Delete_heap
    with assms(1) pd obtain r where "p = Handle r" by (auto simp: runnable_def)
    with Delete_heap assms(2) pd show ?thesis
      by (auto simp: do_destroy_def delete_heap_def get_heap_def event_of_def handle_of_def restrict_complement_singleton_eq)
  qed (use assms(1) pd in \<open>auto simp: do_destroy_def event_of_def handle_of_def runnable_def split: pointer.splits\<close>)
qed

lemma run_all_destroy:
  "\<forall>pd \<in> set ps. runnable pd \<Longrightarrow> distinct (concat (map handle_of ps)) \<Longrightarrow>
    set (concat (map handle_of ps)) \<subseteq> dom (heaps g) \<Longrightarrow>
    run_all do_destroy ps g = Inr (g\<lparr>heaps := heaps g |` (- set (concat (map handle_of ps))),
      ran := ran g @ concat (map event_of ps)\<rparr>)"
proof (induction ps arbitrary: g)
  case (Cons pd ps)
  let ?g = "g\<lparr>heaps := heaps g |` (- set (handle_of pd)), ran := ran g @ event_of pd\<rparr>"
  have "do_destroy pd g = Inr ?g" using Cons.prems by (intro do_destroy_runnable) auto
  moreover have "set (concat (map handle_of ps)) \<subseteq> dom (heaps ?g)"
  proof
    fix x assume x: "x \<in> set (concat (map handle_of ps))"
    then have "x \<in> dom (heaps g)" using Cons.prems(3) by simp blast
    moreover have "x \<notin> set (handle_of pd)" using Cons.prems(2) x by auto
    ultimately show "x \<in> dom (heaps ?g)" by simp
  qed
  ultimately show ?case
    using Cons.IH [of ?g] Cons.prems(1,2) by (simp add: Int_commute)
qed simp

lemma run_all_memory:
  "distinct ms \<Longrightarrow> set ms \<subseteq> dom (mems g) \<Longrightarrow>
    run_all delete_memory ms g = Inr (g\<lparr>mems := mems g |` (- set ms), ran := ran g @ map Memory_deleted ms\<rparr>)"
proof (induction ms arbitrary: g)
  case (Cons m ms)
  let ?g = "g\<lparr>mems := mems g |` (- {m}), ran := ran g @ [Memory_deleted m]\<rparr>"
  have "delete_memory m g = Inr ?g"
    using Cons.prems by (auto simp: delete_memory_def get_mem_def restrict_complement_singleton_eq)
  moreover have "set ms \<subseteq> dom (mems ?g)" using Cons.prems by auto
  moreover have "- set (m # ms) = - {m} \<inter> - set ms" by auto
  ultimately show ?case using Cons.IH [of ?g] Cons.prems(1) by (simp add: Int_commute)
qed simp

definition queued_events :: "queue \<Rightarrow> gc_event list" where
  "queued_events q = concat (map event_of (rev (q_list q))) @ map Memory_deleted (rev (q_memory q))"

definition queued_handles :: "queue \<Rightarrow> ref set" where
  "queued_handles q = set (concat (map handle_of (q_list q)))"

lemma run_destructors_correct:
  assumes "\<forall>pd \<in> set (q_list q). runnable pd" and "distinct (concat (map handle_of (q_list q)))"
    and "queued_handles q \<subseteq> dom (heaps g)" and "distinct (q_memory q)" and "set (q_memory q) \<subseteq> dom (mems g)"
  shows "run_destructors q g = Inr (g\<lparr>heaps := heaps g |` (- queued_handles q),
    mems := mems g |` (- set (q_memory q)), ran := ran g @ queued_events q\<rparr>)"
proof -
  have set: "set (concat (map handle_of (rev (q_list q)))) = queued_handles q" by (simp add: queued_handles_def)
  have "mset (concat (map handle_of (rev (q_list q)))) = mset (concat (map handle_of (q_list q)))"
    by (simp add: mset_concat rev_map [symmetric])
  then have "distinct (concat (map handle_of (rev (q_list q))))"
    using assms(2) mset_eq_imp_distinct_iff by blast
  then have "run_all do_destroy (rev (q_list q)) (g\<lparr>inside_destructor := True\<rparr>) =
      Inr (g\<lparr>inside_destructor := True, heaps := heaps g |` (- set (concat (map handle_of (rev (q_list q))))),
        ran := ran g @ concat (map event_of (rev (q_list q)))\<rparr>)"
    by (subst run_all_destroy) (simp_all only: set, use assms(1,3) in simp_all)
  then have a: "run_all do_destroy (rev (q_list q)) (g\<lparr>inside_destructor := True\<rparr>) =
      Inr (g\<lparr>inside_destructor := True, heaps := heaps g |` (- queued_handles q),
        ran := ran g @ concat (map event_of (rev (q_list q)))\<rparr>)"
    unfolding set .
  show ?thesis
    unfolding run_destructors_def a
    using assms(4,5) by (simp add: run_all_memory queued_events_def)
qed

section \<open>What the sweep has queued\<close>

text \<open>The entries that go.\<close>

definition going :: "gc \<Rightarrow> Memory \<Rightarrow> Info list" where
  "going g M = filter (\<lambda>e. color M = MANAGED_OBJECT_HEAP_COLOR_WHITE \<or> dead_ref g e) (infos M)"

lemma mset_staying_going: "mset (infos M) = mset (staying g M (infos M)) + mset (going g M)"
proof -
  have "going g M = filter (\<lambda>e. \<not> (color M \<noteq> MANAGED_OBJECT_HEAP_COLOR_WHITE \<and> \<not> dead_ref g e)) (infos M)"
    by (simp add: going_def)
  then show ?thesis by (simp add: staying_def)
qed

lemma finite_memories: "gc_ok g \<Longrightarrow> finite (memories g R) \<and> memories g R \<subseteq> dom (mems g)"
proof -
  assume ok: "gc_ok g"
  have "memories g R \<subseteq> dom (mems g)" using mem_of_Some [OF ok] by (auto simp: memories_def)
  then show ?thesis using finite_mems [OF ok] finite_subset by blast
qed

lemma queue_content:
  assumes ok: "gc_ok g0" and si: "sweep_inv g0 R F g q" and F: "F = memories g0 R"
  shows "mset (q_list q) = (\<Sum>m \<in> memories g0 R. mset (map pair_of (going g0 (the (mems g0 m)))))"
proof -
  let ?A = "dom (mems g0)" and ?B = "memories g0 R"
  let ?f = "\<lambda>h m. mset (map pair_of (infos (the (mems h m))))"
  let ?gone = "\<lambda>m. mset (map pair_of (going g0 (the (mems g0 m))))"
  have fin: "finite ?A" by (rule finite_mems [OF ok])
  have sub: "?B \<subseteq> ?A" using finite_memories [OF ok] by blast
  have in': "?f g0 m = ?f g m + ?gone m" if m: "m \<in> ?B" for m
  proof -
    from m sub obtain M0 where M0: "mems g0 m = Some M0" by blast
    then have "m \<in> dom (mems g)" using si_dom [OF si] by auto
    then obtain M where M: "mems g m = Some M" by blast
    have "infos M = staying g0 M0 (infos M0)" using si_mem [OF si m M0 M] m F by (simp add: memory_inv_def)
    moreover have "image_mset pair_of (mset (infos M0)) =
        image_mset pair_of (mset (staying g0 M0 (infos M0))) + image_mset pair_of (mset (going g0 M0))"
      by (simp only: mset_staying_going [of M0 g0] image_mset_union)
    ultimately show ?thesis using M0 M by simp
  qed
  have "content g0 = (\<Sum>m \<in> ?A - ?B. ?f g0 m) + (\<Sum>m \<in> ?B. ?f g0 m)"
    unfolding content_def by (rule sum.subset_diff [OF sub fin])
  also have "(\<Sum>m \<in> ?A - ?B. ?f g0 m) = (\<Sum>m \<in> ?A - ?B. ?f g m)"
    by (rule sum.cong) (auto simp: si_other [OF si])
  also have "(\<Sum>m \<in> ?B. ?f g0 m) = (\<Sum>m \<in> ?B. ?f g m) + (\<Sum>m \<in> ?B. ?gone m)"
    using in' by (simp add: sum.distrib)
  also have "(\<Sum>m \<in> ?A - ?B. ?f g m) + ((\<Sum>m \<in> ?B. ?f g m) + (\<Sum>m \<in> ?B. ?gone m)) = content g + (\<Sum>m \<in> ?B. ?gone m)"
    unfolding content_def si_dom [OF si] by (simp add: sum.subset_diff [OF sub fin] add.assoc)
  finally have "mset (q_list q) + content g = (\<Sum>m \<in> ?B. ?gone m) + content g"
    using si_content [OF si] by (simp add: add.commute)
  then show ?thesis by (rule add_right_imp_eq)
qed

text \<open>At the end every memory that can be reached is finished, and those of dead handles are queued.\<close>

lemma sweep_closed:
  assumes s: "sweepable g0 R" and si: "sweep_inv g0 R F g q" and none: "\<And>m. \<not> seen_in g m"
    and h: "h \<in> R" "mem_of g0 h = Some m" "m \<in> F" and r: "r \<in> children g0 h"
  shows "\<exists>m2. mem_of g0 r = Some m2 \<and> m2 \<in> F \<and> (dead g0 r \<longrightarrow> m2 \<in> set (q_memory q))"
proof -
  from si_mem_ex [OF si s h(1,2)] obtain M0 where M0: "mems g0 m = Some M0" by blast
  from childrenI [OF h(2) M0] r obtain e where "e \<in> set (infos M0)" "ptr_is_ref e" "i_ptr e = Handle r"
    by (auto simp: refs_in_def)
  with si_followed [OF si h(3) M0] none show ?thesis unfolding followed_def by blast
qed

lemma do_sweep_correct:
  assumes s: "sweepable g0 R" and R: "R = (edges g0)\<^sup>* `` {r}" and r: "\<not> dead g0 r"
    and none: "\<And>m. \<not> seen_in g0 m" and n: "next_ref g0 < n"
  shows "\<exists>g q. do_sweep n r g0 \<lparr>q_list = [], q_memory = []\<rparr> = Inr (g, q) \<and> sweep_inv g0 R (memories g0 R) g q \<and>
    (\<forall>m. \<not> seen_in g m) \<and> set (q_memory q) = memories g0 {x \<in> R. dead g0 x}"
proof -
  let ?q = "\<lparr>q_list = [], q_memory = []\<rparr>"
  note ok = sw_ok [OF s]
  have rR: "r \<in> R" by (simp add: R)
  from sw_marked [OF s rR] obtain m where m: "mem_of g0 r = Some m" by (auto simp: marked_handle_def)
  have "memory_inv g0 {} ?q x X X" if "x \<in> memories g0 R" "mems g0 x = Some X" for x X
  proof -
    from that obtain h where h: "h \<in> R" "mem_of g0 h = Some x" by (auto simp: memories_def)
    have "\<not> seen X \<and> \<not> keep_memory X" using sw_marked [OF s h(1)] h(2) that(2) by (auto simp: marked_handle_def)
    then show ?thesis using gc_okD(5) [OF ok that(2)] by (simp add: memory_inv_def memory_ok_def)
  qed
  then have start: "sweep_inv g0 R {} g0 ?q" by (auto simp: sweep_inv_def)
  have "above g0 R g0 r" using none by (simp add: above_def)
  moreover have "card (unseen g0 g0) < n" using finite_unseen(2) [OF ok, of g0] n by simp
  ultimately obtain F g q where sweep: "do_sweep n r g0 ?q = Inr (g, q)" and sp: "swept g0 R {} g0 ?q F g q"
    and "m \<in> F \<or> seen_in g0 m"
    using do_sweep_sweeper [OF s, of n] rR m start unfolding sweeper_def by blast
  then have mF: "m \<in> F" using none by blast
  note si = swept_inv [OF sp]
  have seen: "\<And>m. \<not> seen_in g m" using swept_seen [OF sp] none by simp
  have reach: "\<exists>k. mem_of g0 x = Some k \<and> k \<in> F \<and> (dead g0 x \<longrightarrow> k \<in> set (q_memory q))" if "(r, x) \<in> (edges g0)\<^sup>*" for x
    using that
  proof (induction rule: rtrancl_induct)
    case base
    then show ?case using m mF r by simp
  next
    case (step y z)
    then obtain k where "mem_of g0 y = Some k" "k \<in> F" by blast
    moreover have "y \<in> R" using step by (simp add: R)
    moreover have "z \<in> children g0 y" using step by (simp add: edges_def)
    ultimately show ?case using sweep_closed [OF s si seen] by blast
  qed
  have "memories g0 R \<subseteq> F" unfolding memories_def R using reach by fastforce
  then have "F = memories g0 R" using si_F [OF si] by blast
  moreover have "set (q_memory q) = memories g0 {x \<in> R. dead g0 x}"
  proof
    show "memories g0 {x \<in> R. dead g0 x} \<subseteq> set (q_memory q)" using reach by (fastforce simp: memories_def R)
  next
    show "set (q_memory q) \<subseteq> memories g0 {x \<in> R. dead g0 x}"
    proof
      fix k assume k: "k \<in> set (q_memory q)"
      then obtain x where x: "x \<in> R" "mem_of g0 x = Some k" using si_queue [OF si] si_F [OF si] by (auto simp: memories_def)
      from si_mem_ex [OF si s x] si_white [OF si k] have "dead g0 x" by fastforce
      with x show "k \<in> memories g0 {x \<in> R. dead g0 x}" by (auto simp: memories_def)
    qed
  qed
  ultimately show ?thesis using sweep si seen by blast
qed

end
