(* ===== verification/GcCorrect.thy ===== *)
theory GcCorrect
  imports GcDestroy
begin

text \<open>
  A whole collection: which handles and memories it destroys, which destructors it runs and how
  often, and that everything else is as before.
\<close>

section \<open>Counting events\<close>

definition all_of :: "('a \<Rightarrow> 'b list) \<Rightarrow> 'a multiset \<Rightarrow> 'b multiset" where
  "all_of f M = (\<Sum>p \<in># M. mset (f p))"

lemma all_of_mset: "mset (concat (map f ps)) = all_of f (mset ps)"
  by (induction ps) (simp_all add: all_of_def)

lemma all_of_sum: "finite A \<Longrightarrow> all_of f (\<Sum>m \<in> A. N m) = (\<Sum>m \<in> A. all_of f (N m))"
  by (induction A rule: finite_induct) (simp_all add: all_of_def)

lemma event_of_cases: "event_of pd = [] \<or> (\<exists>ev. event_of pd = [ev])"
  by (auto simp: event_of_def split: prod.split pointer.split destructor.split)

lemma handle_of_cases: "handle_of pd = [] \<or> (\<exists>r. handle_of pd = [r])"
  by (auto simp: handle_of_def split: prod.split pointer.split destructor.split)

lemma count_all_of:
  assumes "\<And>pd. f pd = [] \<or> (\<exists>ev. f pd = [ev])"
  shows "count (all_of f (mset (map pair_of es))) y = length (filter (\<lambda>e. f (pair_of e) = [y]) es)"
proof (induction es)
  case (Cons e es)
  from assms [of "pair_of e"] show ?case using Cons by (auto simp: all_of_def)
qed (simp add: all_of_def)

lemma event_of_Heap_deleted: "event_of pd = [Heap_deleted r] \<longleftrightarrow> handle_of pd = [r]"
  by (auto simp: event_of_def handle_of_def split: prod.split pointer.split destructor.split)

lemma event_of_Client: "event_of pd = [Client_destroyed k p] \<longleftrightarrow> pd = (p, Client k)"
  by (auto simp: event_of_def split: prod.splits pointer.splits destructor.splits)

lemma event_of_Memory [simp]: "event_of pd \<noteq> [Memory_deleted m]"
  by (auto simp: event_of_def split: prod.split pointer.split destructor.split)

lemma handle_of_Some: "handle_of pd = [r] \<longleftrightarrow> pd = (Handle r, Delete_heap)"
  by (auto simp: handle_of_def split: prod.splits pointer.splits destructor.splits)

section \<open>What can be collected\<close>

definition entries :: "gc \<Rightarrow> ref \<Rightarrow> Info list" where
  "entries g m = (case mems g m of None \<Rightarrow> [] | Some M \<Rightarrow> infos M)"

definition reachable :: "gc \<Rightarrow> ref set" where
  "reachable g = (edges g)\<^sup>* `` {root g}"

text \<open>The dead handles that can be reached.\<close>

definition garbage :: "gc \<Rightarrow> ref set" where
  "garbage g = {x \<in> reachable g. dead g x}"

definition refers :: "ref \<Rightarrow> Info \<Rightarrow> bool" where
  "refers x e \<longleftrightarrow> ptr_is_ref e \<and> i_ptr e = Handle x"

text \<open>How many entries refer to a handle.\<close>

definition refs_to :: "gc \<Rightarrow> ref \<Rightarrow> nat" where
  "refs_to g x = (\<Sum>m \<in> dom (mems g). length (filter (refers x) (entries g m)))"

definition plain_ok :: "Info \<Rightarrow> bool" where
  "plain_ok e \<longleftrightarrow> ptr_is_ref e \<or> i_destructor e = Do_nothing \<or> (\<exists>k. i_destructor e = Client k)"

text \<open>
  What a dead handle has to be like: everything below it is dead too, it is not below itself, one
  entry refers to it, only garbage shares its memory, and its values have destructors.
\<close>

definition garbage_ok :: "gc \<Rightarrow> ref \<Rightarrow> bool" where
  "garbage_ok g x \<longleftrightarrow> (\<forall>y \<in> children g x. dead g y) \<and> (x, x) \<notin> (edges g)\<^sup>+ \<and> refs_to g x \<le> 1 \<and>
     (\<forall>m. mem_of g x = Some m \<longrightarrow> (\<forall>y. mem_of g y = Some m \<longrightarrow> y \<in> garbage g) \<and> (\<forall>e \<in> set (entries g m). plain_ok e))"

text \<open>The states between the calls of a client.\<close>

definition idle :: "gc \<Rightarrow> bool" where
  "idle g \<longleftrightarrow> gc_ok g \<and> all_gray g \<and> (\<forall>m. \<not> seen_in g m) \<and> \<not> inside_destructor g \<and> \<not> dead g (root g)"

definition collectable :: "gc \<Rightarrow> bool" where
  "collectable g \<longleftrightarrow> idle g \<and> (\<forall>x \<in> garbage g. garbage_ok g x)"

lemma collectableD:
  assumes "collectable g"
  shows co_ok: "gc_ok g" and co_gray: "all_gray g" and co_seen: "\<not> seen_in g m"
    and co_outside: "\<not> inside_destructor g" and co_root: "\<not> dead g (root g)"
    and co_garbage: "x \<in> garbage g \<Longrightarrow> garbage_ok g x"
  using assms unfolding collectable_def idle_def by blast+

section \<open>The state after marking\<close>

lemma later_dead: "later g g' \<Longrightarrow> dead g' = dead g"
  by (rule ext) (simp add: dead_def later_flag)

lemma later_dead_ref: "later g g' \<Longrightarrow> dead_ref g' = dead_ref g"
  by (rule ext) (simp add: dead_ref_def later_dead)

lemma later_root: "later g g' \<Longrightarrow> root g' = root g"
  using later_frame [of g g'] by (simp add: frame_def)

lemma later_reachable: "later g g' \<Longrightarrow> gc_ok g \<Longrightarrow> reachable g' = reachable g"
  by (simp add: reachable_def later_edges later_root)

lemma later_garbage: "later g g' \<Longrightarrow> gc_ok g \<Longrightarrow> garbage g' = garbage g"
  by (simp add: garbage_def later_reachable later_dead)

lemma later_entries: "later g g' \<Longrightarrow> entries g' m = entries g m"
proof (cases "mems g m")
  case None
  then show "later g g' \<Longrightarrow> ?thesis" using later_fresh [of g g' m] by (cases "mems g' m") (auto simp: entries_def empty_new_def)
next
  case (Some M)
  then show "later g g' \<Longrightarrow> ?thesis" using later_mem [of g g' m M] by (auto simp: entries_def same_entries_def)
qed

lemma later_seen: "later g g' \<Longrightarrow> (\<And>m. \<not> seen_in g m) \<Longrightarrow> \<not> seen_in g' m"
proof (cases "mems g m")
  case None
  then show "later g g' \<Longrightarrow> ?thesis" using later_fresh [of g g' m] by (auto simp: seen_in_def empty_new_def)
next
  case (Some M)
  then show "later g g' \<Longrightarrow> (\<And>m. \<not> seen_in g m) \<Longrightarrow> ?thesis"
    using later_mem [of g g' m M] by (auto simp: seen_in_def same_entries_def)
qed

lemma garbage_unshared:
  assumes co: "collectable g" and l: "later g g'" and x: "x \<in> garbage g" "mem_of g' x = Some m" "mem_of g' y = Some m"
  shows "y \<in> garbage g"
proof (cases "mem_of g x")
  case None
  then show ?thesis using later_unshared [OF l None x(2,3)] x(1) by simp
next
  case (Some k)
  then have k: "mem_of g x = Some m" using later_mem_of [OF l Some] x(2) by simp
  show ?thesis
  proof (cases "mem_of g y")
    case None
    then show ?thesis using later_unshared [OF l None x(3,2)] x(1) by simp
  next
    case (Some k')
    then have "mem_of g y = Some m" using later_mem_of [OF l Some] x(3) by simp
    then show ?thesis using co_garbage [OF co x(1)] k unfolding garbage_ok_def by blast
  qed
qed

text \<open>Marking a collectable state gives one that can be swept.\<close>

lemma mark_sweepable:
  assumes co: "collectable g" and ok0: "gc_ok g0" and l: "later g g0"
    and mem: "\<forall>x. (root g, x) \<in> (edges g)\<^sup>* \<longrightarrow> mem_of g0 x \<noteq> None"
    and col: "\<forall>m M. mems g0 m = Some M \<longrightarrow> marked_memory g (root g) g0 m M"
  shows "sweepable g0 (reachable g0)"
proof -
  note ok = co_ok [OF co]
  have R: "reachable g0 = reachable g" by (rule later_reachable [OF l ok])
  have reach: "x \<in> reachable g \<longleftrightarrow> (root g, x) \<in> (edges g)\<^sup>*" for x by (simp add: reachable_def)
  have ch: "children g0 x = children g x" for x by (rule later_children [OF l ok])
  have d: "dead g0 = dead g" by (rule later_dead [OF l])
  have "x \<in> dom (heaps g0)" if "x \<in> reachable g" for x
  proof -
    from that mem have "mem_of g0 x \<noteq> None" by (auto simp: reachable_def)
    then show ?thesis by (auto simp: mem_of_def split: option.splits)
  qed
  moreover have "marked_handle g0 x" if x: "x \<in> reachable g" for x
  proof -
    from x mem obtain m where m: "mem_of g0 x = Some m" by (auto simp: reachable_def)
    from mem_of_Some [OF ok0 m] obtain M where M: "mems g0 m = Some M" by blast
    have rx: "(root g, x) \<in> (edges g)\<^sup>*" using x by (simp add: reachable_def)
    have ex: "\<exists>y. (root g, y) \<in> (edges g)\<^sup>* \<and> mem_of g0 y = Some m" using rx m by blast
    from col M have "marked_memory g (root g) g0 m M" by blast
    then have mm: "\<not> keep_memory M \<and> (\<exists>y f. (root g, y) \<in> (edges g)\<^sup>* \<and> mem_of g0 y = Some m \<and> flag g y = Some f \<and>
        color M = flag_color f)"
      unfolding marked_memory_def if_P [OF ex] .
    then obtain y f where y: "(root g, y) \<in> (edges g)\<^sup>*" "mem_of g0 y = Some m" "flag g y = Some f" "color M = flag_color f"
      and k: "\<not> keep_memory M" by blast
    have "f = dead g y" using y(3) by (simp add: dead_def)
    moreover have "dead g y = dead g x"
      using garbage_unshared [OF co l _ m y(2)] garbage_unshared [OF co l _ y(2) m] x y(1)
      unfolding garbage_def reach by blast
    moreover have "\<not> seen M" using later_seen [OF l co_seen [OF co], of m] M by (simp add: seen_in_def)
    ultimately show ?thesis using m M k y(4) by (simp add: marked_handle_def d)
  qed
  moreover have "children g x \<subseteq> reachable g" if "x \<in> reachable g" for x
    using that by (auto simp: reachable_def edges_def intro: rtrancl_into_rtrancl)
  moreover have "(\<forall>y \<in> children g x. dead g y) \<and> (x, x) \<notin> (edges g)\<^sup>+" if "x \<in> reachable g" "dead g x" for x
    using co_garbage [OF co, of x] that by (simp add: garbage_ok_def garbage_def)
  ultimately show ?thesis
    unfolding sweepable_def R ch d later_edges [OF l ok] using ok0 by blast
qed

section \<open>The state after sweeping\<close>

text \<open>What is in the queue, in terms of the state before.\<close>

lemma going_entries:
  assumes s: "sweepable g0 R" and h: "h \<in> R" "mem_of g0 h = Some m" and M0: "mems g0 m = Some M0"
  shows "going g0 M0 = filter (\<lambda>e. dead g0 h \<or> dead_ref g0 e) (infos M0)"
proof -
  from sw_marked [OF s h(1)] h(2) M0 have "color M0 = flag_color (dead g0 h)" by (auto simp: marked_handle_def)
  then show ?thesis by (simp add: going_def)
qed

lemma queue_count:
  assumes s: "sweepable g0 R" and si: "sweep_inv g0 R (memories g0 R) g q"
    and f: "\<And>pd. f pd = [] \<or> (\<exists>ev. f pd = [ev])"
  shows "count (mset (concat (map f (q_list q)))) y =
    (\<Sum>m \<in> memories g0 R. length (filter (\<lambda>e. f (pair_of e) = [y]) (going g0 (the (mems g0 m)))))"
proof -
  note ok = sw_ok [OF s]
  have fin: "finite (memories g0 R)" using finite_memories [OF ok] by blast
  have "mset (concat (map f (q_list q))) = all_of f (\<Sum>m \<in> memories g0 R. mset (map pair_of (going g0 (the (mems g0 m)))))"
    by (simp only: all_of_mset queue_content [OF ok si refl])
  also have "\<dots> = (\<Sum>m \<in> memories g0 R. all_of f (mset (map pair_of (going g0 (the (mems g0 m))))))"
    by (rule all_of_sum [OF fin])
  finally show ?thesis by (simp only: count_sum count_all_of [OF f])
qed

text \<open>An entry that goes and is not a reference is a value of a dead handle.\<close>

definition values_ok :: "gc \<Rightarrow> ref set \<Rightarrow> bool" where
  "values_ok g0 R \<longleftrightarrow> (\<forall>h \<in> R. \<forall>m. dead g0 h \<longrightarrow> mem_of g0 h = Some m \<longrightarrow> (\<forall>e \<in> set (entries g0 m). plain_ok e))"

lemma memoriesE:
  assumes "m \<in> memories g0 R" and "sweepable g0 R"
  obtains h M0 where "h \<in> R" "mem_of g0 h = Some m" "mems g0 m = Some M0" "entries g0 m = infos M0" "memory_ok g0 M0"
proof -
  from assms(1) obtain h where h: "h \<in> R" "mem_of g0 h = Some m" by (auto simp: memories_def)
  from mem_of_Some [OF sw_ok [OF assms(2)] h(2)] obtain M0 where "mems g0 m = Some M0" by blast
  with that h gc_okD(5) [OF sw_ok [OF assms(2)]] show ?thesis by (auto simp: entries_def)
qed

lemma going_handle:
  assumes s: "sweepable g0 R" and v: "values_ok g0 R" and m: "m \<in> memories g0 R" and e: "e \<in> set (going g0 (the (mems g0 m)))"
  shows "handle_of (pair_of e) = [x] \<longleftrightarrow> refers x e" and "runnable (pair_of e)" and "refers x e \<Longrightarrow> dead g0 x \<and> x \<in> R"
proof -
  from m s obtain h M0 where h: "h \<in> R" "mem_of g0 h = Some m" and M0: "mems g0 m = Some M0"
    and en: "entries g0 m = infos M0" and mok: "memory_ok g0 M0" by (rule memoriesE)
  have e': "e \<in> set (infos M0)" "dead g0 h \<or> dead_ref g0 e"
    using e M0 going_entries [OF s h M0] by auto
  have eok: "entry_ok g0 e" using mok e'(1) by (simp add: memory_ok_def)
  have plain: "i_destructor e = Do_nothing \<or> (\<exists>k. i_destructor e = Client k)" if "\<not> ptr_is_ref e"
  proof -
    from that e'(2) have "dead g0 h" by (simp add: dead_ref_def)
    then have "plain_ok e" using v h e'(1) en unfolding values_ok_def by simp
    with that show ?thesis by (simp add: plain_ok_def)
  qed
  show "handle_of (pair_of e) = [x] \<longleftrightarrow> refers x e"
    using eok plain by (cases "ptr_is_ref e") (auto simp: handle_of_Some pair_of_def refers_def entry_ok_def)
  show "runnable (pair_of e)"
    using eok plain by (cases "ptr_is_ref e") (auto simp: runnable_def pair_of_def entry_ok_def)
  assume r: "refers x e"
  have child: "x \<in> children g0 h" using childrenI [OF h(2) M0] e'(1) r by (auto simp: refs_in_def refers_def)
  have "dead g0 x" using e'(2) r sw_dead [OF s h(1) _ child] by (auto simp: refers_def dead_ref_def)
  with sw_children [OF s h(1) child] show "dead g0 x \<and> x \<in> R" by simp
qed

lemma sum_if_const: "(\<Sum>m \<in> A. if b then f m else 0) = (if b then \<Sum>m \<in> A. f m else (0 :: nat))"
  by (cases b) simp_all

lemma handle_count:
  assumes s: "sweepable g0 R" and v: "values_ok g0 R" and si: "sweep_inv g0 R (memories g0 R) g q"
  shows "count (mset (concat (map handle_of (q_list q)))) x =
    (if x \<in> R \<and> dead g0 x then \<Sum>m \<in> memories g0 R. length (filter (refers x) (entries g0 m)) else 0)"
proof -
  have "count (mset (concat (map handle_of (q_list q)))) x =
      (\<Sum>m \<in> memories g0 R. length (filter (refers x) (going g0 (the (mems g0 m)))))"
    unfolding queue_count [OF s si handle_of_cases]
    by (intro sum.cong refl arg_cong [where f = length] filter_cong) (simp add: going_handle(1) [OF s v])
  also have "\<dots> = (\<Sum>m \<in> memories g0 R. if x \<in> R \<and> dead g0 x then length (filter (refers x) (entries g0 m)) else 0)"
  proof (rule sum.cong [OF refl])
    fix m assume m: "m \<in> memories g0 R"
    from m s obtain h M0 where h: "h \<in> R" "mem_of g0 h = Some m" and M0: "mems g0 m = Some M0"
      and en: "entries g0 m = infos M0" by (rule memoriesE)
    show "length (filter (refers x) (going g0 (the (mems g0 m)))) =
        (if x \<in> R \<and> dead g0 x then length (filter (refers x) (entries g0 m)) else 0)"
    proof (cases "x \<in> R \<and> dead g0 x")
      case True
      then have "filter (refers x) (going g0 M0) = filter (refers x) (infos M0)"
        unfolding going_def filter_filter by (intro filter_cong) (auto simp: refers_def dead_ref_def)
      with True M0 en show ?thesis by simp
    next
      case False
      then have "filter (refers x) (going g0 (the (mems g0 m))) = []"
        using going_handle(3) [OF s v m] by (auto simp: filter_empty_conv)
      then show ?thesis unfolding if_not_P [OF False] by simp
    qed
  qed
  also have "\<dots> = (if x \<in> R \<and> dead g0 x then \<Sum>m \<in> memories g0 R. length (filter (refers x) (entries g0 m)) else 0)"
    by (rule sum_if_const)
  finally show ?thesis .
qed

section \<open>What a collection does\<close>

definition survivors :: "gc \<Rightarrow> gc \<Rightarrow> bool" where
  "survivors g g' \<longleftrightarrow>
     (\<forall>x. attrs g' x = (if x \<in> garbage g then None else attrs g x)) \<and>
     (\<forall>x m. x \<notin> garbage g \<longrightarrow> mem_of g x = Some m \<longrightarrow> mem_of g' x = Some m) \<and>
     (\<forall>m \<in> memories g (garbage g). mems g' m = None) \<and>
     (\<forall>m. m \<notin> memories g (garbage g) \<longrightarrow> entries g' m =
        (if m \<in> memories g (reachable g) then filter (\<lambda>e. \<not> dead_ref g e) (entries g m) else entries g m))"

definition destroyed :: "gc \<Rightarrow> gc_event list \<Rightarrow> bool" where
  "destroyed g evs \<longleftrightarrow>
     (\<forall>x. count (mset evs) (Heap_deleted x) = (if x \<in> garbage g then 1 else 0)) \<and>
     (\<forall>m \<in> dom (mems g). count (mset evs) (Memory_deleted m) = (if m \<in> memories g (garbage g) then 1 else 0)) \<and>
     (\<forall>k p. count (mset evs) (Client_destroyed k p) =
        (\<Sum>m \<in> memories g (garbage g). length (filter (\<lambda>e. i_ptr e = p \<and> i_destructor e = Client k) (entries g m))))"

lemma memories_later:
  assumes l: "later g g0" and m: "m \<in> memories g0 X"
  shows "m \<in> memories g X \<or> mems g m = None"
proof -
  from m obtain x where x: "x \<in> X" "mem_of g0 x = Some m" by (auto simp: memories_def)
  from later_new [OF l x(2)] x(1) show ?thesis by (auto simp: memories_def empty_new_def)
qed

lemma memories_later': "later g g0 \<Longrightarrow> memories g X \<subseteq> memories g0 X"
  using later_mem_of by (fastforce simp: memories_def)

lemma collectable_values:
  assumes co: "collectable g" and l: "later g g0"
  shows "values_ok g0 (reachable g)"
  unfolding values_ok_def
proof (intro ballI allI impI)
  fix h m e assume h: "h \<in> reachable g" "dead g0 h" "mem_of g0 h = Some m" and e: "e \<in> set (entries g0 m)"
  have gb: "h \<in> garbage g" using h by (simp add: garbage_def later_dead [OF l])
  show "plain_ok e"
  proof (cases "mem_of g h")
    case (Some k)
    then have "mem_of g h = Some m" using later_mem_of [OF l Some] h(3) by simp
    then show ?thesis using co_garbage [OF co gb] e later_entries [OF l, of m] unfolding garbage_ok_def by simp
  next
    case None
    then have "entries g0 m = []" using later_new [OF l h(3)] by (auto simp: empty_new_def entries_def)
    with e show ?thesis by simp
  qed
qed

text \<open>Each dead handle is referred to exactly once, by a memory that can be reached.\<close>

lemma garbage_refs:
  assumes co: "collectable g" and l: "later g g0" and s: "sweepable g0 (reachable g)" and x: "x \<in> garbage g"
  shows "(\<Sum>m \<in> memories g0 (reachable g). length (filter (refers x) (entries g0 m))) = 1"
    and "m \<notin> memories g (reachable g) \<Longrightarrow> e \<in> set (entries g m) \<Longrightarrow> \<not> refers x e"
proof -
  note ok = co_ok [OF co]
  let ?R = "reachable g" and ?len = "\<lambda>m. length (filter (refers x) (entries g m))"
  have fin: "finite (dom (mems g))" by (rule finite_mems [OF ok])
  from x have rx: "(root g, x) \<in> (edges g)\<^sup>*" "dead g x" by (auto simp: garbage_def reachable_def)
  then have "x \<noteq> root g" using co_root [OF co] by auto
  with rx(1) obtain y where y: "(root g, y) \<in> (edges g)\<^sup>*" "(y, x) \<in> edges g" by (auto elim: rtranclE)
  from y(2) obtain m1 where m1: "mem_of g y = Some m1" "m1 \<in> dom (mems g)" "\<exists>e \<in> set (entries g m1). refers x e"
    by (auto simp: edges_def children_def entries_def refs_in_def refers_def split: option.splits)
  have m1R: "m1 \<in> memories g ?R" using m1(1) y(1) by (auto simp: memories_def reachable_def)
  have pos: "0 < ?len m1" using m1(3) by (auto simp: filter_empty_conv)
  have le: "refs_to g x \<le> 1" using co_garbage [OF co x] by (simp add: garbage_ok_def)
  have sub: "memories g ?R \<subseteq> dom (mems g)" using finite_memories [OF ok] by blast
  have split: "refs_to g x = sum ?len (dom (mems g) - memories g ?R) + sum ?len (memories g ?R)"
    unfolding refs_to_def by (rule sum.subset_diff [OF sub fin])
  have one: "1 \<le> sum ?len (memories g ?R)"
    using member_le_sum [OF m1R, of ?len] finite_subset [OF sub fin] pos by linarith
  have "(\<Sum>m \<in> memories g0 ?R. length (filter (refers x) (entries g0 m))) = sum ?len (memories g0 ?R)"
    by (simp add: later_entries [OF l])
  also have "\<dots> = sum ?len (memories g ?R)"
  proof (rule sum.mono_neutral_right [OF _ memories_later' [OF l]])
    show "finite (memories g0 ?R)" using finite_memories [OF sw_ok [OF s]] by blast
    show "\<forall>m \<in> memories g0 ?R - memories g ?R. ?len m = 0"
    proof
      fix m assume "m \<in> memories g0 ?R - memories g ?R"
      then have "mems g m = None" using memories_later [OF l] by blast
      then show "?len m = 0" by (simp add: entries_def)
    qed
  qed
  finally show "(\<Sum>m \<in> memories g0 ?R. length (filter (refers x) (entries g0 m))) = 1" using one le split by simp
  assume m: "m \<notin> memories g ?R" and e: "e \<in> set (entries g m)"
  then have "m \<in> dom (mems g) - memories g ?R" by (cases "mems g m") (auto simp: entries_def)
  moreover have "sum ?len (dom (mems g) - memories g ?R) = 0" using one le split by simp
  ultimately have "?len m = 0" using fin by simp
  with e show "\<not> refers x e" by (auto simp: filter_empty_conv)
qed

text \<open>The queue of a whole sweep, and the events of its destructors.\<close>

lemma queue_correct:
  assumes co: "collectable g" and l: "later g g0" and s: "sweepable g0 (reachable g)"
    and si: "sweep_inv g0 (reachable g) (memories g0 (reachable g)) g1 q"
    and qm: "set (q_memory q) = memories g0 (garbage g)"
  shows "\<forall>pd \<in> set (q_list q). runnable pd" and "distinct (concat (map handle_of (q_list q)))"
    and "queued_handles q = garbage g" and "destroyed g (queued_events q)"
proof -
  let ?R = "reachable g" and ?hs = "concat (map handle_of (q_list q))"
  note ok = co_ok [OF co] and v = collectable_values [OF co l]
  have gb: "x \<in> ?R \<and> dead g0 x \<longleftrightarrow> x \<in> garbage g" for x by (simp add: garbage_def later_dead [OF l])
  have cnt: "count (mset ?hs) x = (if x \<in> garbage g then 1 else 0)" for x
    unfolding handle_count [OF s v si] gb using garbage_refs(1) [OF co l s] by simp
  have mem: "x \<in> set ?hs \<longleftrightarrow> x \<in> garbage g" for x
    using cnt [of x] by (simp only: count_greater_zero_iff [symmetric] set_mset_mset [symmetric]) simp
  then show "queued_handles q = garbage g" unfolding queued_handles_def by blast
  show "distinct ?hs" unfolding distinct_count_atmost_1 using cnt mem by simp
  show "\<forall>pd \<in> set (q_list q). runnable pd"
  proof
    fix pd assume "pd \<in> set (q_list q)"
    then have "pd \<in># (\<Sum>m \<in> memories g0 ?R. mset (map pair_of (going g0 (the (mems g0 m)))))"
      using queue_content [OF sw_ok [OF s] si refl] by (simp only: set_mset_mset [symmetric])
    moreover have "finite (memories g0 ?R)" using finite_memories [OF sw_ok [OF s]] by blast
    ultimately obtain m e where "m \<in> memories g0 ?R" "e \<in> set (going g0 (the (mems g0 m)))" "pd = pair_of e"
      by (auto simp: set_mset_sum)
    then show "runnable pd" using going_handle(2) [OF s v] by blast
  qed
  have ev: "mset (queued_events q) = mset (concat (map event_of (q_list q))) + mset (map Memory_deleted (q_memory q))"
    by (simp add: queued_events_def mset_concat rev_map [symmetric])
  have memory: "count (mset (map Memory_deleted (q_memory q))) ev = (if \<exists>m. ev = Memory_deleted m \<and> m \<in> memories g0 (garbage g) then 1 else 0)" for ev
  proof -
    have "distinct (map Memory_deleted (q_memory q))" using si_distinct [OF si] by (simp add: distinct_map inj_on_def)
    then show ?thesis unfolding distinct_count_atmost_1 using qm by auto
  qed
  have "count (mset (queued_events q)) (Heap_deleted x) = (if x \<in> garbage g then 1 else 0)" for x
    using queue_count [OF s si event_of_cases, where y = "Heap_deleted x"] queue_count [OF s si handle_of_cases, where y = x] cnt [of x]
    unfolding ev count_union memory event_of_Heap_deleted by simp
  moreover have "count (mset (queued_events q)) (Memory_deleted m) = (if m \<in> memories g (garbage g) then 1 else 0)"
    if "m \<in> dom (mems g)" for m
  proof -
    have "m \<in> memories g0 (garbage g) \<longleftrightarrow> m \<in> memories g (garbage g)"
      using that memories_later [OF l, of m] memories_later' [OF l, of "garbage g"] by auto
    then show ?thesis
      using queue_count [OF s si event_of_cases, where y = "Memory_deleted m"] unfolding ev count_union memory by simp
  qed
  moreover have "count (mset (queued_events q)) (Client_destroyed k p) =
      (\<Sum>m \<in> memories g (garbage g). length (filter (\<lambda>e. i_ptr e = p \<and> i_destructor e = Client k) (entries g m)))" for k p
  proof -
    let ?c = "\<lambda>e. i_ptr e = p \<and> i_destructor e = Client k"
    have "count (mset (queued_events q)) (Client_destroyed k p) =
        (\<Sum>m \<in> memories g0 ?R. length (filter ?c (going g0 (the (mems g0 m)))))"
      using queue_count [OF s si event_of_cases, where y = "Client_destroyed k p"]
      unfolding ev count_union memory event_of_Client by (simp add: pair_of_def)
    also have "\<dots> = (\<Sum>m \<in> memories g (garbage g). length (filter ?c (going g0 (the (mems g0 m)))))"
    proof (rule sum.mono_neutral_right)
      show "finite (memories g0 ?R)" using finite_memories [OF sw_ok [OF s]] by blast
      show "memories g (garbage g) \<subseteq> memories g0 ?R"
        using memories_later' [OF l] by (fastforce simp: memories_def garbage_def)
      show "\<forall>m \<in> memories g0 ?R - memories g (garbage g). length (filter ?c (going g0 (the (mems g0 m)))) = 0"
      proof
        fix m assume m: "m \<in> memories g0 ?R - memories g (garbage g)"
        then have "m \<in> memories g0 ?R" by simp
        from this s obtain h M0 where h: "h \<in> ?R" "mem_of g0 h = Some m" and M0: "mems g0 m = Some M0"
          and en: "entries g0 m = infos M0" and mok: "memory_ok g0 M0" by (rule memoriesE)
        have "\<not> ?c e" if e: "e \<in> set (going g0 M0)" for e
        proof (cases "dead g0 h")
          case True
          then have "m \<in> memories g0 (garbage g)" using h gb by (auto simp: memories_def)
          then have "mems g m = None" using memories_later [OF l] m by blast
          then have "entries g m = []" by (simp add: entries_def)
          with later_entries [OF l, of m] en e show ?thesis by (simp add: going_def)
        next
          case False
          with e going_entries [OF s h M0] have "dead_ref g0 e" "e \<in> set (infos M0)" by auto
          with mok show ?thesis by (auto simp: dead_ref_def memory_ok_def entry_ok_def)
        qed
        then show "length (filter ?c (going g0 (the (mems g0 m)))) = 0" using M0 by (auto simp: filter_empty_conv)
      qed
    qed
    also have "\<dots> = (\<Sum>m \<in> memories g (garbage g). length (filter ?c (entries g m)))"
    proof (rule sum.cong [OF refl])
      fix m assume "m \<in> memories g (garbage g)"
      then obtain h where h: "h \<in> garbage g" "mem_of g h = Some m" by (auto simp: memories_def)
      have h0: "mem_of g0 h = Some m" by (rule later_mem_of [OF l h(2)])
      have hR: "h \<in> ?R" "dead g0 h" using h(1) gb by auto
      from mem_of_Some [OF sw_ok [OF s] h0] obtain M0 where M0: "mems g0 m = Some M0" by blast
      have "going g0 M0 = infos M0" using going_entries [OF s hR(1) h0 M0] hR(2) by simp
      then show "length (filter ?c (going g0 (the (mems g0 m)))) = length (filter ?c (entries g m))"
        using M0 later_entries [OF l, of m] by (simp add: entries_def)
    qed
    finally show ?thesis .
  qed
  ultimately show "destroyed g (queued_events q)" unfolding destroyed_def by blast
qed

end
