(* ===== verification/GcProgram.thy ===== *)
theory GcProgram
  imports GcCorrect
begin

text \<open>
  The collection as clients see it, with the properties of the C++ heap and their witnesses.
\<close>

section \<open>The state after the destructors\<close>

lemma swept_state:
  assumes co: "collectable g" and l: "later g g0" and s: "sweepable g0 (reachable g)"
    and gray: "\<forall>m M. mems g0 m = Some M \<longrightarrow> marked_memory g (root g) g0 m M"
    and si: "sweep_inv g0 (reachable g) (memories g0 (reachable g)) g1 q" and seen: "\<forall>m. \<not> seen_in g1 m"
    and h: "heaps g2 = heaps g0 |` (- garbage g)" and m: "mems g2 = mems g1 |` (- memories g0 (garbage g))"
    and other: "root g2 = root g0" "next_ref g2 = next_ref g0"
  shows "survivors g g2" and "gc_ok g2" and "all_gray g2" and "\<forall>m. \<not> seen_in g2 m" and "edges g2 \<subseteq> edges g"
proof -
  let ?R = "reachable g" and ?G = "garbage g"
  note ok = co_ok [OF co] and ok0 = sw_ok [OF s]
  have gb: "x \<in> ?R \<and> dead g0 x \<longleftrightarrow> x \<in> ?G" for x by (simp add: garbage_def later_dead [OF l])
  have at: "attrs g2 x = (if x \<in> ?G then None else attrs g x)" for x
    using later_attrs [OF l] by (auto simp: attrs_def h fun_eq_iff)
  have mo: "mem_of g2 x = (if x \<in> ?G then None else mem_of g0 x)" for x
    by (simp add: mem_of_def h)
  have gone: "memories g ?G \<subseteq> memories g0 ?G" by (rule memories_later' [OF l])
  have live: "\<not> dead g0 x" if "x \<in> ?R" "mem_of g0 x = Some k" "k \<notin> memories g0 ?G" for x k
    using that gb by (auto simp: memories_def)
  have mem2: "\<exists>M0 M. mems g0 k = Some M0 \<and> mems g1 k = Some M \<and> color M = MANAGED_OBJECT_HEAP_COLOR_GRAY \<and>
      infos M = filter (\<lambda>e. \<not> dead_ref g0 e) (infos M0) \<and> mset (indexes M) = mset (map i_index (infos M))"
    if k: "k \<in> memories g0 ?R" "k \<notin> memories g0 ?G" for k
  proof -
    from k obtain x where x: "x \<in> ?R" "mem_of g0 x = Some k" by (auto simp: memories_def)
    from si_mem_ex [OF si s x] live [OF x k(2)] obtain M0 M where M: "mems g0 k = Some M0" "mems g1 k = Some M"
      "memory_inv g0 (memories g0 ?R) q k M0 M" "color M0 = MANAGED_OBJECT_HEAP_COLOR_BLACK" by (auto simp: flag_color_def)
    then show ?thesis using k by (auto simp: memory_inv_def staying_def settle_def)
  qed
  have en: "entries g2 k = (if k \<in> memories g ?R then filter (\<lambda>e. \<not> dead_ref g e) (entries g k) else entries g k)"
    if k: "k \<notin> memories g ?G" for k
  proof (cases "k \<in> memories g0 ?G")
    case True
    then have "mems g k = None" using memories_later [OF l True] k by simp
    then show ?thesis using True by (simp add: entries_def m)
  next
    case False
    show ?thesis
    proof (cases "k \<in> memories g0 ?R")
      case True
      from mem2 [OF True False] obtain M0 M where M: "mems g0 k = Some M0" "mems g1 k = Some M"
        "infos M = filter (\<lambda>e. \<not> dead_ref g0 e) (infos M0)" by blast
      have "entries g k = infos M0" using later_entries [OF l, of k] M(1) by (simp add: entries_def)
      moreover have "entries g k = []" if "k \<notin> memories g ?R"
        using memories_later [OF l True] that by (simp add: entries_def)
      moreover have "entries g2 k = infos M" using M(2) False by (simp add: entries_def m)
      ultimately show ?thesis using M(3) by (auto simp: later_dead_ref [OF l])
    next
      case notR: False
      then have "mems g2 k = mems g0 k" using si_other [OF si notR] False by (simp add: m)
      moreover have "k \<notin> memories g ?R" using notR memories_later' [OF l] by blast
      ultimately show ?thesis using later_entries [OF l, of k] by (simp add: entries_def)
    qed
  qed
  have "mems g2 k = None" if "k \<in> memories g ?G" for k using that gone by (auto simp: m)
  with at mo en show "survivors g g2"
    unfolding survivors_def using later_mem_of [OF l] by auto
  show "edges g2 \<subseteq> edges g"
  proof
    fix xy assume "xy \<in> edges g2"
    then obtain x y k M where xy: "xy = (x, y)" and k: "mem_of g2 x = Some k" "mems g2 k = Some M" "y \<in> refs_in M"
      by (auto simp: edges_def children_def split: option.splits)
    have x: "x \<notin> ?G" "mem_of g0 x = Some k" using k(1) mo by (auto split: if_splits)
    have "k \<notin> memories g ?G" using k(2) gone by (auto simp: m)
    from mem_of_Some [OF ok0 x(2)] obtain M0 where M0: "mems g0 k = Some M0" by blast
    have "infos M = entries g2 k" using k(2) by (simp add: entries_def)
    then have "set (infos M) \<subseteq> set (entries g k)" using en [OF \<open>k \<notin> memories g ?G\<close>] by auto
    also have "entries g k = infos M0" using later_entries [OF l, of k] M0 by (simp add: entries_def)
    finally have "y \<in> refs_in M0" using k(3) by (auto simp: refs_in_def)
    then have "y \<in> children g0 x" using childrenI [OF x(2) M0] by simp
    then show "xy \<in> edges g" using xy later_children [OF l ok] by (simp add: edges_def)
  qed
  show "\<forall>m. \<not> seen_in g2 m" using seen by (auto simp: seen_in_def m restrict_map_def)
  show "all_gray g2"
    unfolding all_gray_def
  proof
    fix k
    show "\<not> coloured g2 k"
    proof (cases "k \<in> memories g0 ?R")
      case True
      show ?thesis
      proof (cases "k \<in> memories g0 ?G")
        case False
        from mem2 [OF True False] show ?thesis using False by (auto simp: coloured_def m restrict_map_def)
      qed (simp add: coloured_def m)
    next
      case False
      have "\<not> (\<exists>x. (root g, x) \<in> (edges g)\<^sup>* \<and> mem_of g0 x = Some k)"
        using False by (auto simp: memories_def reachable_def)
      then have "color M = MANAGED_OBJECT_HEAP_COLOR_GRAY" if "mems g0 k = Some M" for M
        using gray that unfolding marked_memory_def by auto
      then show ?thesis using si_other [OF si False] by (auto simp: coloured_def m restrict_map_def split: if_splits)
    qed
  qed
  show "gc_ok g2"
    unfolding gc_ok_def
  proof (intro conjI allI impI)
    have "root g \<notin> ?G" using co_root [OF co] by (simp add: garbage_def)
    then show "heaps g2 (root g2) \<noteq> None"
      using gc_okD(1) [OF ok0] other later_root [OF l] by (simp add: h)
  next
    fix x assume "heaps g2 x \<noteq> None \<or> mems g2 x \<noteq> None"
    then have "heaps g0 x \<noteq> None \<or> mems g1 x \<noteq> None" by (auto simp: h m restrict_map_def split: if_splits)
    then have "heaps g0 x \<noteq> None \<or> x \<in> dom (mems g0)" using si_dom [OF si] by auto
    then show "x < next_ref g2" using gc_okD(2,3) [OF ok0, of x] other by auto
  next
    fix x hp assume x: "heaps g2 x = Some hp"
    then have x0: "heaps g0 x = Some hp" "x \<notin> ?G" by (auto simp: h restrict_map_def split: if_splits)
    show "handle_ok g2 hp"
    proof (cases "lazy hp")
      case False
      with gc_okD(4) [OF ok0 x0(1)] obtain k where k: "memory hp = Some k" "k \<in> dom (mems g0)"
        by (auto simp: handle_ok_def)
      have "mem_of g0 x = Some k" using x0(1) k(1) False by (simp add: mem_of_def)
      then have "k \<notin> memories g0 ?G" using garbage_unshared [OF co l] x0(2) by (auto simp: memories_def)
      with k si_dom [OF si] False show ?thesis by (auto simp: handle_ok_def m)
    qed (use gc_okD(4) [OF ok0 x0(1)] in \<open>simp add: handle_ok_def\<close>)
  next
    fix k M assume k: "mems g2 k = Some M"
    then have k1: "mems g1 k = Some M" "k \<notin> memories g0 ?G" by (auto simp: m restrict_map_def split: if_splits)
    have "\<exists>M0. mems g0 k = Some M0 \<and> set (infos M) \<subseteq> set (infos M0) \<and> mset (indexes M) = mset (map i_index (infos M)) \<and>
        (\<forall>e \<in> set (infos M). \<forall>x \<in> ?G. \<not> refers x e)"
    proof (cases "k \<in> memories g0 ?R")
      case True
      from mem2 [OF True k1(2)] k1(1) gb show ?thesis by (fastforce simp: refers_def dead_ref_def garbage_def)
    next
      case False
      then have k0: "mems g0 k = Some M" using si_other [OF si False] k1(1) by simp
      have notR: "k \<notin> memories g ?R" using False memories_later' [OF l] by blast
      have "entries g k = infos M" using later_entries [OF l, of k] k0 by (simp add: entries_def)
      then have "\<forall>e \<in> set (infos M). \<forall>x \<in> ?G. \<not> refers x e"
        using garbage_refs(2) [OF co l s _ notR] by auto
      then show ?thesis using k0 gc_okD(5) [OF ok0 k0] by (auto simp: memory_ok_def)
    qed
    then obtain M0 where M0: "mems g0 k = Some M0" "set (infos M) \<subseteq> set (infos M0)"
      "mset (indexes M) = mset (map i_index (infos M))" "\<forall>e \<in> set (infos M). \<forall>x \<in> ?G. \<not> refers x e" by blast
    have "entry_ok g2 e" if e: "e \<in> set (infos M)" for e
    proof -
      have "entry_ok g0 e" using gc_okD(5) [OF ok0 M0(1)] M0(2) e by (auto simp: memory_ok_def)
      then show ?thesis using M0(4) e by (auto simp: entry_ok_def refers_def h restrict_map_def)
    qed
    then show "memory_ok g2 M" using M0(3) by (simp add: memory_ok_def)
  qed
qed

text \<open>The memory of the root at the end gets a new count of deallocations.\<close>

lemma survivors_reset:
  assumes "mems g2 m = Some M" and g3: "g3 = (put_mem m (M\<lparr>dealloc_count := 0\<rparr>) g2)\<lparr>collect_count := 0\<rparr>"
  shows "survivors g g2 \<Longrightarrow> survivors g g3" and "gc_ok g2 \<Longrightarrow> gc_ok g3" and "all_gray g2 \<Longrightarrow> all_gray g3"
    and "\<forall>m. \<not> seen_in g2 m \<Longrightarrow> \<forall>m. \<not> seen_in g3 m" and "edges g3 = edges g2" and "ran g3 = ran g2"
    and "inside_destructor g3 = inside_destructor g2" and "dead g3 = dead g2" and "root g3 = root g2"
proof -
  let ?M = "M\<lparr>dealloc_count := 0\<rparr>"
  have at: "attrs g3 = attrs g2" and mo: "mem_of g3 = mem_of g2"
    by (auto simp: g3 put_mem_def attrs_def mem_of_def)
  have en: "entries g3 = entries g2" using assms(1) by (auto simp: g3 put_mem_def entries_def)
  have none: "mems g3 k = None \<longleftrightarrow> mems g2 k = None" for k using assms(1) by (simp add: g3 put_mem_def)
  show "survivors g g2 \<Longrightarrow> survivors g g3" by (simp add: survivors_def at mo en none)
  show "gc_ok g3" if "gc_ok g2"
  proof -
    have "memory_ok g2 ?M" using gc_okD(5) [OF that assms(1)] by (simp add: memory_ok_def)
    then have "gc_ok (put_mem m ?M g2)" using assms(1) by (intro gc_ok_put_mem [OF that]) simp_all
    from gc_ok_extend [OF this, of g3] gc_okD(2,3) [OF this] show ?thesis by (auto simp: g3)
  qed
  show "all_gray g2 \<Longrightarrow> all_gray g3" using assms(1) by (auto simp: g3 put_mem_def all_gray_def coloured_def)
  show "\<forall>m. \<not> seen_in g2 m \<Longrightarrow> \<forall>m. \<not> seen_in g3 m" using assms(1) by (auto simp: g3 put_mem_def seen_in_def)
  show "edges g3 = edges g2"
    using assms(1) by (auto simp: edges_def children_def mo) (auto simp: g3 put_mem_def refs_in_def split: option.splits if_splits)
  show "dead g3 = dead g2" by (rule ext) (simp add: dead_def flag_def g3 put_mem_def)
qed (simp_all add: g3 put_mem_def)

lemma no_garbage:
  assumes "survivors g g'" and "edges g' \<subseteq> edges g" and "root g' = root g"
  shows "garbage g' = {}"
proof -
  have "(edges g')\<^sup>* \<subseteq> (edges g)\<^sup>*" by (rule rtrancl_mono [OF assms(2)])
  then have "reachable g' \<subseteq> reachable g" using assms(3) by (auto simp: reachable_def)
  moreover have "x \<notin> garbage g \<and> dead g x" if "dead g' x" for x
  proof -
    from that have "attrs g' x \<noteq> None" by (auto simp: dead_def flag_attrs)
    then have "x \<notin> garbage g" "attrs g' x = attrs g x" using assms(1) unfolding survivors_def by (metis, metis)
    then show ?thesis using that by (simp add: dead_def flag_attrs)
  qed
  ultimately show ?thesis by (auto simp: garbage_def)
qed

lemma no_dead_refs:
  assumes ok: "gc_ok g" and gb: "garbage g = {}" and m: "m \<in> memories g (reachable g)"
  shows "filter (\<lambda>e. \<not> dead_ref g e) (entries g m) = entries g m"
proof -
  have "\<not> dead_ref g e" if e: "e \<in> set (entries g m)" for e
  proof
    assume "dead_ref g e"
    then obtain r where r: "refers r e" "dead g r" by (auto simp: dead_ref_def refers_def)
    from m obtain h where h: "h \<in> reachable g" "mem_of g h = Some m" by (auto simp: memories_def)
    from mem_of_Some [OF ok h(2)] obtain M where M: "mems g m = Some M" by blast
    have "r \<in> children g h" using childrenI [OF h(2) M] e r(1) M by (auto simp: entries_def refs_in_def refers_def)
    then have "r \<in> reachable g" using h(1) by (auto simp: reachable_def edges_def intro: rtrancl_into_rtrancl)
    with r(2) gb show False by (auto simp: garbage_def)
  qed
  then show ?thesis by (simp add: filter_id_conv)
qed

lemma survivors_refl:
  assumes "later g g'" and "garbage g = {}" and "gc_ok g"
  shows "survivors g g'"
  using later_attrs [OF assms(1)] later_mem_of [OF assms(1)] later_entries [OF assms(1)] assms(2)
    no_dead_refs [OF assms(3,2)]
  by (simp add: survivors_def memories_def)

section \<open>The whole collection\<close>

lemma later_marked_memory: "later g g1 \<Longrightarrow> gc_ok g \<Longrightarrow> marked_memory g1 h = marked_memory g h"
  by (intro ext) (simp only: marked_memory_def later_edges later_flag)

lemma later_idle:
  assumes "later g g'" and "idle g" and "gc_ok g'" and "\<And>m. coloured g' m = coloured g m"
  shows "idle g'"
proof -
  have ok: "gc_ok g" and seen: "\<And>m. \<not> seen_in g m" using assms(2) by (auto simp: idle_def)
  have "inside_destructor g' = inside_destructor g" using later_frame [OF assms(1)] by (simp add: frame_def)
  with assms later_seen [OF assms(1) seen] show ?thesis
    by (simp add: idle_def all_gray_def later_root later_dead)
qed

lemma destroyed_nothing: "garbage g = {} \<Longrightarrow> destroyed g []"
  by (simp add: destroyed_def memories_def)

lemma collect_empty:
  assumes co: "collectable g" and l: "later g g1" and ok1: "gc_ok g1" and col: "\<And>m. coloured g1 m = coloured g m"
    and none: "children g (root g) = {}"
  shows "survivors g g1 \<and> idle g1 \<and> garbage g = {} \<and> garbage g1 = {}"
proof -
  note ok = co_ok [OF co]
  have "x = root g" if "x \<in> reachable g" for x
    using that none by (auto simp: reachable_def edges_def elim: converse_rtranclE)
  then have gb: "garbage g = {}" using co_root [OF co] by (auto simp: garbage_def)
  have "idle g" using co by (simp add: collectable_def)
  with survivors_refl [OF l gb ok] later_idle [OF l _ ok1 col] gb later_garbage [OF l ok] show ?thesis by simp
qed

lemma queue_empty:
  assumes s: "sweepable g0 R" and v: "values_ok g0 R" and si: "sweep_inv g0 R (memories g0 R) g q"
    and none: "\<And>x. x \<in> R \<Longrightarrow> \<not> dead g0 x"
  shows "q_list q = []"
proof -
  have "going g0 (the (mems g0 m)) = []" if m: "m \<in> memories g0 R" for m
  proof -
    from m s obtain h M0 where h: "h \<in> R" "mem_of g0 h = Some m" and M0: "mems g0 m = Some M0" by (rule memoriesE)
    have "\<not> dead_ref g0 e" if "e \<in> set (infos M0)" for e
    proof
      assume "dead_ref g0 e"
      then obtain r where r: "refers r e" "dead g0 r" by (auto simp: dead_ref_def refers_def)
      then have "r \<in> children g0 h" using childrenI [OF h(2) M0] that by (auto simp: refs_in_def refers_def)
      with sw_children [OF s h(1)] none r(2) show False by blast
    qed
    then show ?thesis using going_entries [OF s h M0] none [OF h(1)] M0 by (simp add: filter_empty_conv)
  qed
  then have "mset (q_list q) = {#}" using queue_content [OF sw_ok [OF s] si refl] by simp
  then show ?thesis by simp
qed

lemma sweep_outcome:
  assumes co: "collectable g" and l: "later g g0" and s: "sweepable g0 (reachable g)"
    and gray: "\<forall>m M. mems g0 m = Some M \<longrightarrow> marked_memory g (root g) g0 m M"
  shows "\<exists>s g2 evs. sweep (Suc (next_ref g0)) (root g) g0 = Inr (s, g2) \<and> survivors g g2 \<and> gc_ok g2 \<and> all_gray g2 \<and>
    (\<forall>m. \<not> seen_in g2 m) \<and> edges g2 \<subseteq> edges g \<and> root g2 = root g \<and> inside_destructor g2 = inside_destructor g \<and>
    ran g2 = ran g @ evs \<and> destroyed g evs \<and> mem_of g2 (root g) \<noteq> None \<and> (garbage g = {} \<longrightarrow> s = 0 \<and> evs = [])"
proof -
  note ok = co_ok [OF co] and ok0 = sw_ok [OF s]
  let ?R = "reachable g"
  have R: "?R = (edges g0)\<^sup>* `` {root g}" by (simp add: reachable_def later_edges [OF l ok])
  have gb: "{x \<in> ?R. dead g0 x} = garbage g" by (simp add: garbage_def later_dead [OF l])
  have root: "\<not> dead g0 (root g)" using co_root [OF co] by (simp add: later_dead [OF l])
  from do_sweep_correct [OF s R root later_seen [OF l co_seen [OF co]], of "Suc (next_ref g0)"]
  obtain g1 q where sw: "do_sweep (Suc (next_ref g0)) (root g) g0 \<lparr>q_list = [], q_memory = []\<rparr> = Inr (g1, q)"
    and si: "sweep_inv g0 ?R (memories g0 ?R) g1 q" and seen: "\<forall>m. \<not> seen_in g1 m"
    and qm: "set (q_memory q) = memories g0 (garbage g)" unfolding gb by auto
  note queue = queue_correct [OF co l s si qm]
  let ?s = "word_of_nat (length (q_list q) + length (q_memory q)) :: size_t"
  let ?g1 = "g1\<lparr>collect_count := collect_count g1 + ?s\<rparr>"
  let ?g2 = "?g1\<lparr>heaps := heaps ?g1 |` (- garbage g), mems := mems ?g1 |` (- memories g0 (garbage g)),
      ran := ran ?g1 @ queued_events q\<rparr>"
  have fr: "frame g1 = frame g" using si_frame [OF si] later_frame [OF l] by simp
  have "garbage g \<subseteq> dom (heaps ?g1)"
    using si_heaps [OF si] sw_dom [OF s] by (auto simp: garbage_def)
  moreover have "memories g0 (garbage g) \<subseteq> dom (mems ?g1)"
    using si_dom [OF si] finite_memories [OF ok0, of "garbage g"] by simp
  ultimately have "run_destructors q ?g1 = Inr ?g2"
    using run_destructors_correct [OF queue(1,2) _ si_distinct [OF si], of ?g1] qm queue(3) by simp
  then have sweep: "sweep (Suc (next_ref g0)) (root g) g0 = Inr (?s, ?g2)"
    by (simp add: sweep_def sw Let_def del: do_sweep.simps)
  have h: "heaps ?g2 = heaps g0 |` (- garbage g)" using si_heaps [OF si] by simp
  have other: "root ?g2 = root g0" "next_ref ?g2 = next_ref g0"
    using si_frame [OF si] si_next [OF si] by (simp_all add: frame_def)
  have m: "mems ?g2 = mems g1 |` (- memories g0 (garbage g))" by simp
  note st = swept_state [OF co l s gray si seen h m other]
  have "root g \<notin> garbage g" using co_root [OF co] by (simp add: garbage_def)
  moreover have "root g \<in> ?R" by (simp add: reachable_def)
  then have "mem_of g0 (root g) \<noteq> None" using sw_marked [OF s] by (auto simp: marked_handle_def)
  ultimately have "mem_of ?g2 (root g) \<noteq> None" unfolding mem_of_def h by simp
  moreover have "?s = 0 \<and> queued_events q = []" if none: "garbage g = {}"
  proof -
    have "q_list q = []"
      using queue_empty [OF s collectable_values [OF co l] si] none gb by blast
    moreover have "q_memory q = []" using qm none by (simp add: memories_def)
    ultimately show ?thesis by (simp add: queued_events_def)
  qed
  moreover have "inside_destructor ?g2 = inside_destructor g" "ran ?g2 = ran g @ queued_events q" "root ?g2 = root g"
    using fr by (simp_all add: frame_def)
  ultimately show ?thesis using sweep st queue(4) by blast
qed

lemma collect_outcome:
  assumes co: "collectable g"
  shows "\<exists>s g' evs. collect_all g = Inr (s, g') \<and> survivors g g' \<and> ran g' = ran g @ evs \<and> destroyed g evs \<and>
    idle g' \<and> garbage g' = {} \<and> (garbage g = {} \<longrightarrow> s = 0 \<and> evs = [])"
proof -
  note ok = co_ok [OF co]
  from gc_okD(1) [OF ok] obtain hp where hp: "heaps g (root g) = Some hp" by blast
  from get_memory_marks [OF ok hp, of "{}"] obtain m g1 M where gm: "get_memory (root g) g = Inr (m, g1)"
    and M: "mems g1 m = Some M" and mo: "mem_of g1 (root g) = Some m" and mk: "marks g {} g1"
    and col: "\<And>x. coloured g1 x = coloured g x" by blast
  note l1 = marks_later [OF mk] and ok1 = marks_ok [OF mk]
  show ?thesis
  proof (cases "infos M = []")
    case True
    have "children g (root g) = {}"
      using later_children [OF l1 ok] childrenI [OF mo M] True by (simp add: refs_in_def)
    from collect_empty [OF co l1 ok1 col this] destroyed_nothing [of g] gm M True show ?thesis
      using later_frame [OF l1] by (auto simp: collect_all_def collect_def get_mem_def frame_def)
  next
    case False
    have gray1: "all_gray g1" using co_gray [OF co] col by (simp add: all_gray_def)
    have "heaps g1 (root g) \<noteq> None" using mo by (cases "heaps g1 (root g)") (simp_all add: mem_of_def)
    from mark_outcome [OF ok1 this gray1, of "Suc (next_ref g1)"] obtain g0
      where mark: "mark (Suc (next_ref g1)) (root g) g1 = Inr g0" and ok0: "gc_ok g0" and l0: "later g1 g0"
        and mem: "\<forall>x. (root g, x) \<in> (edges g1)\<^sup>* \<longrightarrow> mem_of g0 x \<noteq> None"
        and gray: "\<forall>m M. mems g0 m = Some M \<longrightarrow> marked_memory g1 (root g) g0 m M" by blast
    have l: "later g g0" by (rule later_trans [OF l1 l0])
    have mem': "\<forall>x. (root g, x) \<in> (edges g)\<^sup>* \<longrightarrow> mem_of g0 x \<noteq> None" using mem by (simp add: later_edges [OF l1 ok])
    have gray': "\<forall>m M. mems g0 m = Some M \<longrightarrow> marked_memory g (root g) g0 m M"
      using gray by (simp add: later_marked_memory [OF l1 ok])
    have s: "sweepable g0 (reachable g)"
      using mark_sweepable [OF co ok0 l mem' gray'] by (simp add: later_reachable [OF l ok])
    from sweep_outcome [OF co l s gray'] obtain s g2 evs where sw: "sweep (Suc (next_ref g0)) (root g) g0 = Inr (s, g2)"
      and st: "survivors g g2" "gc_ok g2" "all_gray g2" "\<forall>m. \<not> seen_in g2 m" "edges g2 \<subseteq> edges g" "root g2 = root g"
        "inside_destructor g2 = inside_destructor g" "ran g2 = ran g @ evs" "destroyed g evs" "mem_of g2 (root g) \<noteq> None"
        "garbage g = {} \<longrightarrow> s = 0 \<and> evs = []" by blast
    from st(10) obtain m2 where m2: "mem_of g2 (root g) = Some m2" by blast
    from mem_of_Some [OF st(2) m2] obtain M2 where M2: "mems g2 m2 = Some M2" by blast
    have gm2: "get_memory (root g) g2 = Inr (m2, g2)"
      using m2 by (auto simp: get_memory_def get_heap_def mem_of_def split: option.splits if_splits)
    define g3 where "g3 = (put_mem m2 (M2\<lparr>dealloc_count := 0\<rparr>) g2)\<lparr>collect_count := 0\<rparr>"
    note r = survivors_reset [OF M2 g3_def]
    have "collect_all g = Inr (s, g3)"
      using gm M False mark sw gm2 M2 st(7) co_outside [OF co]
      by (simp add: collect_all_def collect_def get_mem_def g3_def del: mark.simps)
    moreover have "survivors g g3" by (rule r(1) [OF st(1)])
    moreover have "root g \<notin> garbage g" using co_root [OF co] by (simp add: garbage_def)
    then have "attrs g2 (root g) = attrs g (root g)" using st(1) by (simp add: survivors_def)
    then have "\<not> dead g3 (root g3)"
      using st(6) co_root [OF co] by (simp add: r(8,9)) (simp add: dead_def flag_attrs)
    then have "idle g3" using r(2-4) st co_outside [OF co] r(7) by (simp add: idle_def)
    moreover have "garbage g3 = {}"
      by (rule no_garbage [OF r(1) [OF st(1)]]) (use r(5,9) st(5,6) in simp_all)
    ultimately show ?thesis using st(8,9,11) r(6) by auto
  qed
qed

text \<open>
  C9: A collection, when what is dead can be collected.  It ends and meets no fault; every dead
  handle that can be reached is deleted once, every memory of a dead handle is deleted once and
  every value in it with a destructor is given to that destructor once for each entry, and nothing
  else is destroyed.  All other handles and memories are as before, except that memories that can be
  reached have lost their references to dead handles.  The heap is then in order again, with no
  dead handle in reach.
\<close>

theorem collect_correct:
  assumes "collectable g"
  shows "\<exists>s g' evs. collect_all g = Inr (s, g') \<and> survivors g g' \<and> ran g' = ran g @ evs \<and> destroyed g evs \<and>
    idle g' \<and> garbage g' = {}"
  using collect_outcome [OF assms] by blast

text \<open>
  C10: If no handle in reach is deallocated, then whatever sharing and cycles there are a collection
  destroys nothing: every handle keeps its tag, flag and memory, every memory its entries, no
  destructor runs, and the result is 0.
\<close>

theorem collect_keeps_live:
  assumes "idle g" and "\<forall>x \<in> reachable g. \<not> dead g x"
  shows "\<exists>g'. collect_all g = Inr (0, g') \<and> attrs g' = attrs g \<and> (\<forall>x m. mem_of g x = Some m \<longrightarrow> mem_of g' x = Some m) \<and>
    (\<forall>m. entries g' m = entries g m) \<and> ran g' = ran g \<and> idle g'"
proof -
  have gb: "garbage g = {}" using assms(2) by (auto simp: garbage_def)
  then have co: "collectable g" using assms(1) by (simp add: collectable_def)
  from collect_outcome [OF co] gb obtain g' where g': "collect_all g = Inr (0, g')" "survivors g g'" "ran g' = ran g" "idle g'"
    by auto
  then have "attrs g' = attrs g" "\<forall>m. entries g' m = entries g m" "\<forall>x m. mem_of g x = Some m \<longrightarrow> mem_of g' x = Some m"
    using gb no_dead_refs [OF co_ok [OF co] gb] by (auto simp: survivors_def memories_def fun_eq_iff)
  with g' show ?thesis by blast
qed

end
