(* ===== verification/GcClient.thy ===== *)
theory GcClient
  imports GcProgram
begin

text \<open>
  The operations of the clients: what each does to the entries of the memories, and that a client
  that keeps its side of the contract meets no fault and leaves the heap in order.
\<close>

section \<open>Collectable states that differ in little\<close>

lemma children_entries:
  "children g h = (case mem_of g h of None \<Rightarrow> {} | Some m \<Rightarrow> {r. \<exists>e \<in> set (entries g m). refers r e})"
  by (auto simp: children_def entries_def refs_in_def refers_def split: option.split)

lemma idle_cong:
  assumes "gc_ok g'" and "attrs g' = attrs g" and "root g' = root g" and "inside_destructor g' = inside_destructor g"
    and "\<And>m. coloured g' m = coloured g m" and "\<And>m. seen_in g' m = seen_in g m" and "idle g"
  shows "idle g'"
proof -
  have "dead g' = dead g" by (rule ext) (simp add: dead_def flag_attrs assms(2))
  with assms show ?thesis by (simp add: idle_def all_gray_def)
qed

lemma refs_to_entries: "gc_ok g \<Longrightarrow> dom (mems g) \<subseteq> A \<Longrightarrow> finite A \<Longrightarrow>
    refs_to g x = (\<Sum>m \<in> A. length (filter (refers x) (entries g m)))"
  unfolding refs_to_def by (rule sum.mono_neutral_left) (auto simp: entries_def split: option.splits)

lemma garbage_ok_cong:
  assumes ok: "gc_ok g" "gc_ok g'" and at: "attrs g' = attrs g" and root: "root g' = root g"
    and en: "\<And>m. entries g' m = entries g m" and ch: "\<And>h. children g' h = children g h"
    and share: "\<And>m y. mem_of g' x = Some m \<Longrightarrow> mem_of g' y = Some m \<Longrightarrow> y \<in> garbage g"
    and plain: "\<And>m. mem_of g' x = Some m \<Longrightarrow> mem_of g x = Some m \<or> entries g m = []"
    and x: "garbage_ok g x"
  shows "garbage_ok g' x"
proof -
  have d: "dead g' = dead g" by (rule ext) (simp add: dead_def flag_attrs at)
  have ed: "edges g' = edges g" by (simp add: edges_def ch)
  have gb: "garbage g' = garbage g" by (simp add: garbage_def reachable_def ed root d)
  let ?A = "dom (mems g) \<union> dom (mems g')"
  have fin: "finite ?A" using finite_mems [OF ok(1)] finite_mems [OF ok(2)] by simp
  have "refs_to g' x = refs_to g x"
    using refs_to_entries [OF ok(1) _ fin, of x] refs_to_entries [OF ok(2) _ fin, of x] by (simp add: en)
  then show ?thesis
    using x share plain unfolding garbage_ok_def by (fastforce simp: ch d ed gb en)
qed

lemma collectable_cong:
  assumes co: "collectable g" and ok': "gc_ok g'" and at: "attrs g' = attrs g" and root: "root g' = root g"
    and ins: "inside_destructor g' = inside_destructor g"
    and col: "\<And>m. coloured g' m = coloured g m" and seen: "\<And>m. seen_in g' m = seen_in g m"
    and en: "\<And>m. entries g' m = entries g m" and mo: "\<And>h. mem_of g' h = mem_of g h"
  shows "collectable g'"
proof -
  have ch: "children g' h = children g h" for h by (simp add: children_entries en mo split: option.split)
  have "garbage g' = garbage g"
    by (simp add: garbage_def reachable_def edges_def ch root dead_def flag_attrs at)
  moreover have "garbage_ok g' x" if "x \<in> garbage g" for x
  proof (rule garbage_ok_cong [OF co_ok [OF co] ok' at root en ch])
    show "garbage_ok g x" by (rule co_garbage [OF co that])
    then show "\<And>m y. mem_of g' x = Some m \<Longrightarrow> mem_of g' y = Some m \<Longrightarrow> y \<in> garbage g"
      unfolding garbage_ok_def mo by blast
  qed (simp add: mo)
  moreover have "idle g'" by (rule idle_cong [OF ok' at root ins col seen]) (use co in \<open>simp add: collectable_def\<close>)
  ultimately show ?thesis by (simp add: collectable_def)
qed

lemma collectable_later:
  assumes co: "collectable g" and ok': "gc_ok g'" and l: "later g g'" and col: "\<And>m. coloured g' m = coloured g m"
  shows "collectable g'"
proof -
  note ok = co_ok [OF co]
  have "garbage_ok g' x" if x: "x \<in> garbage g" for x
  proof (rule garbage_ok_cong [OF ok ok' later_attrs [OF l] later_root [OF l] later_entries [OF l] later_children [OF l ok]])
    show "garbage_ok g x" by (rule co_garbage [OF co x])
    show "\<And>m y. mem_of g' x = Some m \<Longrightarrow> mem_of g' y = Some m \<Longrightarrow> y \<in> garbage g"
      by (rule garbage_unshared [OF co l x])
    show "\<And>m. mem_of g' x = Some m \<Longrightarrow> mem_of g x = Some m \<or> entries g m = []"
    proof -
      fix m assume "mem_of g' x = Some m"
      from later_new [OF l this] show "mem_of g x = Some m \<or> entries g m = []" by (auto simp: empty_new_def entries_def)
    qed
  qed
  moreover have "idle g'" using later_idle [OF l _ ok' col] co by (simp add: collectable_def)
  ultimately show ?thesis by (simp add: collectable_def later_garbage [OF l ok])
qed

section \<open>Pushing\<close>

text \<open>The effect on the entries: \<open>h\<close>, with the memory \<open>m\<close>, has a new entry \<open>e\<close>.\<close>

definition pushed :: "gc \<Rightarrow> ref \<Rightarrow> ref \<Rightarrow> Info \<Rightarrow> gc \<Rightarrow> bool" where
  "pushed g h m e g' \<longleftrightarrow> attrs g' = attrs g \<and> frame g' = frame g \<and> mem_of g' h = Some m \<and>
     (mem_of g h = Some m \<or> mem_of g h = None \<and> mems g m = None) \<and> (\<forall>x. x \<noteq> h \<longrightarrow> mem_of g' x = mem_of g x) \<and>
     entries g' m = entries g m @ [e] \<and> (\<forall>k. k \<noteq> m \<longrightarrow> entries g' k = entries g k)"

lemma pushedD:
  assumes "pushed g h m e g'"
  shows pu_attrs: "attrs g' = attrs g" and pu_frame: "frame g' = frame g" and pu_mem: "mem_of g' h = Some m"
    and pu_old: "mem_of g h = Some m \<or> mem_of g h = None \<and> mems g m = None"
    and pu_others: "x \<noteq> h \<Longrightarrow> mem_of g' x = mem_of g x"
    and pu_new: "entries g' m = entries g m @ [e]" and pu_entries: "k \<noteq> m \<Longrightarrow> entries g' k = entries g k"
  using assms unfolding pushed_def by blast+

lemma push_info_outcome:
  assumes id: "idle g" and h: "heaps g h \<noteq> None"
    and e: "\<And>i. entry_ok g (assign (new_Info i)) \<and> i_index (assign (new_Info i)) = i"
  shows "\<exists>m g'. push_info h assign g = Inr (length (entries g m), g') \<and> idle g' \<and>
    pushed g h m (assign (new_Info (length (entries g m)))) g'"
proof -
  have ok: "gc_ok g" using id by (simp add: idle_def)
  from h obtain hp where hp: "heaps g h = Some hp" by blast
  from get_memory_marks [OF ok hp, of "{}"] obtain m g1 M where gm: "get_memory h g = Inr (m, g1)"
    and M: "mems g1 m = Some M" and mo: "mem_of g1 h = Some m" and mk: "marks g {} g1"
    and col: "\<And>x. coloured g1 x = coloured g x" by blast
  note l = marks_later [OF mk] and ok1 = marks_ok [OF mk]
  have id1: "idle g1" by (rule later_idle [OF l id ok1 col])
  let ?n = "length (infos M)" let ?e = "assign (new_Info ?n)"
  let ?M = "M\<lparr>indexes := indexes M @ [?n], infos := infos M @ [?e]\<rparr>" let ?g = "put_mem m ?M g1"
  have en: "entries g m = infos M" using later_entries [OF l, of m] M by (simp add: entries_def)
  have "entry_ok g1 ?e" using e [of ?n] later_dom [OF l] entry_ok_mono [of g ?e g1] by simp
  then have "memory_ok g1 ?M" using gc_okD(5) [OF ok1 M] e [of ?n] by (auto simp: memory_ok_def)
  then have ok2: "gc_ok ?g" using gc_ok_put_mem [OF ok1] M by simp
  have mo2: "mem_of ?g = mem_of g1" by (rule ext) (simp add: mem_of_def put_mem_def)
  have at: "attrs ?g = attrs g1" by (rule ext) (simp add: attrs_def put_mem_def)
  have "idle ?g"
    by (rule idle_cong [OF ok2 at _ _ _ _ id1]) (use M in \<open>simp_all add: put_mem_def coloured_def seen_in_def\<close>)
  moreover have "mem_of g1 x = mem_of g x" if "x \<noteq> h" for x
    using get_memory_outcome [OF ok hp] gm that by (auto simp: mem_of_def split: if_splits)
  moreover have "mem_of g h = Some m \<or> mem_of g h = None \<and> mems g m = None"
    using get_memory_outcome [OF ok hp] gm mo gc_ok_fresh [OF ok] hp by (auto simp: mem_of_def split: if_splits)
  moreover have "entries ?g m = entries g m @ [?e]" "\<And>k. k \<noteq> m \<Longrightarrow> entries ?g k = entries g k"
    using en later_entries [OF l] by (simp_all add: put_mem_def) (simp_all add: entries_def)
  ultimately have "idle ?g \<and> pushed g h m ?e ?g"
    using at later_attrs [OF l] later_frame [OF l] mo mo2 by (simp add: pushed_def) (simp add: frame_def put_mem_def)
  moreover have "push_info h assign g = Inr (?n, ?g)"
    using gm M by (simp add: push_info_def get_mem_def Let_def)
  ultimately show ?thesis using en by metis
qed

text \<open>What the overloads store.\<close>

definition heap_info :: "ref \<Rightarrow> nat \<Rightarrow> Info" where
  "heap_info r i = \<lparr>i_index = i, i_ptr = Handle r, i_destructor = Delete_heap, ptr_is_ref = True\<rparr>"

definition plain_info :: "pointer \<Rightarrow> destructor \<Rightarrow> nat \<Rightarrow> Info" where
  "plain_info p d i = \<lparr>i_index = i, i_ptr = p, i_destructor = d, ptr_is_ref = False\<rparr>"

lemma push_heap_outcome:
  "idle g \<Longrightarrow> heaps g h \<noteq> None \<Longrightarrow> heaps g r \<noteq> None \<Longrightarrow>
    \<exists>m g'. push_heap h r g = Inr (length (entries g m), g') \<and> idle g' \<and> pushed g h m (heap_info r (length (entries g m))) g'"
  using push_info_outcome [of g h "assign_heap r"]
  by (simp add: push_heap_def assign_heap_def new_Info_def entry_ok_def heap_info_def)

lemma push_plain_outcome:
  "idle g \<Longrightarrow> heaps g h \<noteq> None \<Longrightarrow>
    \<exists>m g'. push_pointer h p d g = Inr (length (entries g m), g') \<and> idle g' \<and> pushed g h m (plain_info p d (length (entries g m))) g'"
  using push_info_outcome [of g h "\<lambda>info. (assign_pointer p info)\<lparr>i_destructor := d\<rparr>"]
  by (simp add: push_pointer_def assign_pointer_def new_Info_def entry_ok_def plain_info_def)

lemma push_word_pointer: "push_word h v = push_pointer h (Plain v) Do_nothing"
  by (simp add: push_word_def push_pointer_def)

section \<open>Making handles\<close>

lemma idle_gc_ok: "idle g \<Longrightarrow> gc_ok g"
  by (simp add: idle_def)

lemma idle_put_heap:
  assumes id: "idle g" and hp: "handle_ok g hp" and h: "h < next_ref g" and root: "h = root g \<Longrightarrow> \<not> deallocated hp"
  shows "idle (put_heap h hp g)"
proof -
  note ok = idle_gc_ok [OF id]
  let ?g = "put_heap h hp g"
  have "handle_ok ?g hp" using handle_ok_mono [OF hp, of ?g] by (simp add: put_heap_def)
  then have "gc_ok ?g"
    by (intro gc_ok_extend [OF ok]) (use h in \<open>auto simp: put_heap_def split: if_splits\<close>)
  moreover have "\<not> dead ?g (root ?g)"
    using id root by (auto simp: idle_def dead_def flag_def put_heap_def split: if_splits)
  ultimately show ?thesis
    using id by (simp add: idle_def all_gray_def coloured_def seen_in_def put_heap_def)
qed

lemma idle_new_handle:
  assumes id: "idle g" and new: "new_ManagedObjectHeap t g = (h, g1)" and hp: "handle_ok g hp"
  shows "idle (put_heap h hp g1) \<and> heaps g h = None \<and> h \<noteq> root g \<and>
    put_heap h hp g1 = g\<lparr>heaps := (heaps g)(h \<mapsto> hp), next_ref := Suc (next_ref g)\<rparr>"
proof -
  note ok = idle_gc_ok [OF id]
  from new have g1: "h = next_ref g" "g1 = put_heap h \<lparr>tag = t, memory = None, deallocated = False, lazy = True\<rparr>
      (g\<lparr>next_ref := Suc (next_ref g)\<rparr>)" by (auto simp: new_ManagedObjectHeap_def)
  have none: "heaps g h = None" using gc_ok_fresh [OF ok] g1 by simp
  then have root: "h \<noteq> root g" using gc_okD(1) [OF ok] by auto
  have "gc_ok g1" using gc_ok_new_handle [OF ok new] by blast
  moreover have "dead g1 (root g1) = dead g (root g)" using root by (simp add: g1(2) put_heap_def dead_def flag_def)
  ultimately have "idle g1"
    using id by (simp add: idle_def all_gray_def) (simp add: g1(2) put_heap_def coloured_def seen_in_def)
  moreover have "handle_ok g1 hp" "h < next_ref g1" "root g1 = root g"
    using handle_ok_mono [OF hp, of g1] g1(1) by (simp_all add: g1(2) put_heap_def)
  ultimately have "idle (put_heap h hp g1)" using root by (intro idle_put_heap) simp_all
  then show ?thesis using none root by (simp add: g1(2) put_heap_def)
qed

text \<open>A new handle \<open>h\<close> that the root refers to.\<close>

definition rooted :: "gc \<Rightarrow> ref \<Rightarrow> ManagedObjectHeap \<Rightarrow> gc \<Rightarrow> bool" where
  "rooted g h hp g' \<longleftrightarrow> heaps g h = None \<and> attrs g' = (attrs g)(h \<mapsto> (tag hp, deallocated hp)) \<and> frame g' = frame g \<and>
     mem_of g' h = (if lazy hp then None else memory hp) \<and>
     (\<exists>m. mem_of g' (root g) = Some m \<and> (mem_of g (root g) = Some m \<or> mem_of g (root g) = None \<and> mems g m = None) \<and>
       entries g' m = entries g m @ [heap_info h (length (entries g m))] \<and> (\<forall>k. k \<noteq> m \<longrightarrow> entries g' k = entries g k)) \<and>
     (\<forall>x. x \<noteq> h \<longrightarrow> x \<noteq> root g \<longrightarrow> mem_of g' x = mem_of g x)"

lemma rooted_outcome:
  assumes id: "idle g" and new: "new_ManagedObjectHeap t g = (h, g1)" and hp: "handle_ok g hp"
  shows "\<exists>i g'. push_heap (root g1) h (put_heap h hp g1) = Inr (i, g') \<and> idle g' \<and> rooted g h hp g'"
proof -
  let ?g = "put_heap h hp g1"
  from idle_new_handle [OF assms] have id2: "idle ?g" and none: "heaps g h = None" and root: "h \<noteq> root g"
    and g2: "?g = g\<lparr>heaps := (heaps g)(h \<mapsto> hp), next_ref := Suc (next_ref g)\<rparr>" by auto
  have r: "root g1 = root g" using new by (auto simp: new_ManagedObjectHeap_def put_heap_def)
  have "heaps ?g (root g) \<noteq> None" "heaps ?g h \<noteq> None"
    using gc_okD(1) [OF idle_gc_ok [OF id]] unfolding g2 by auto
  from push_heap_outcome [OF id2 this] obtain m g'
    where p: "push_heap (root g) h ?g = Inr (length (entries ?g m), g')" "idle g'"
      and pu: "pushed ?g (root g) m (heap_info h (length (entries ?g m))) g'" by blast
  have en: "entries ?g k = entries g k" and mems: "mems ?g = mems g" for k unfolding g2 by (simp_all add: entries_def)
  have mo: "mem_of ?g x = (if x = h then if lazy hp then None else memory hp else mem_of g x)" for x
    unfolding g2 by (simp add: mem_of_def)
  have at: "attrs ?g = (attrs g)(h \<mapsto> (tag hp, deallocated hp))" unfolding g2 by (auto simp: attrs_def)
  have fr: "frame ?g = frame g" unfolding g2 by (simp add: frame_def)
  have "rooted g h hp g'"
    using none root pu_attrs [OF pu] pu_frame [OF pu] pu_mem [OF pu] pu_old [OF pu] pu_others [OF pu] pu_new [OF pu] pu_entries [OF pu]
    unfolding rooted_def en mo at fr mems by auto
  with p show ?thesis by (simp add: r)
qed

lemma new_ManagedObject_outcome:
  assumes "idle g"
  shows "\<exists>h g'. new_ManagedObject t g = Inr (h, g') \<and> idle g' \<and>
    rooted g h \<lparr>tag = t, memory = None, deallocated = False, lazy = True\<rparr> g'"
proof -
  let ?hp = "\<lparr>tag = t, memory = None, deallocated = False, lazy = True\<rparr>"
  obtain h g1 where new: "new_ManagedObjectHeap t g = (h, g1)" by fastforce
  have "put_heap h ?hp g1 = g1" using new by (auto simp: new_ManagedObjectHeap_def put_heap_def)
  with rooted_outcome [OF assms new, of ?hp] new show ?thesis by (auto simp: new_ManagedObject_def handle_ok_def)
qed

lemma copy_ManagedObject_outcome:
  assumes id: "idle g" and op: "heaps g other = Some op"
  shows "\<exists>h g'. copy_ManagedObject other g = Inr (h, g') \<and> idle g' \<and> rooted g h op g'"
proof -
  obtain h g1 where new: "new_ManagedObjectHeap (tag op) g = (h, g1)" by fastforce
  have "handle_ok g op" using gc_okD(4) [OF idle_gc_ok [OF id] op] .
  from rooted_outcome [OF id new this] obtain i g' where
    "push_heap (root g1) h (put_heap h op g1) = Inr (i, g')" "idle g'" "rooted g h op g'" by blast
  moreover have e: "\<lparr>tag = tag op, memory = memory op, deallocated = deallocated op, lazy = lazy op\<rparr> = op"
    by (cases op) simp
  moreover have r: "root (put_heap h op g1) = root g1" by (simp add: put_heap_def)
  ultimately show ?thesis
    using op new by (simp add: copy_ManagedObject_def get_heap_def Let_def e r)
qed

section \<open>Taking a reference out of the root list\<close>

lemma last_pos_Some: "last_pos P xs = Some p \<Longrightarrow> p < length xs \<and> P (xs ! p)"
  by (auto simp: last_pos_def find_Some_iff rev_nth)

lemma last_pos_None: "last_pos P xs = None \<longleftrightarrow> (\<forall>x \<in> set xs. \<not> P x)"
  by (simp add: last_pos_def find_None_iff all_set_conv_all_nth)

lemma set_erase_at: "set (erase_at i xs) \<subseteq> set xs"
  using set_take_subset [of i xs] set_drop_subset [of "Suc i" xs] by (auto simp: erase_at_def)

lemma unlink_outcome:
  assumes id: "idle g" and M: "mems g m = Some M" and p: "p < length (infos M)"
  shows "\<exists>g'. unlink m p g = Inr g' \<and> idle g' \<and> attrs g' = attrs g \<and> frame g' = frame g \<and> mem_of g' = mem_of g \<and>
    entries g' m = erase_at p (entries g m) \<and> (\<forall>k. k \<noteq> m \<longrightarrow> entries g' k = entries g k)"
proof -
  note ok = idle_gc_ok [OF id]
  let ?e = "infos M ! p"
  let ?M = "M\<lparr>indexes := erase_last (i_index ?e) (indexes M), infos := erase_at p (infos M)\<rparr>" let ?g = "put_mem m ?M g"
  have mok: "memory_ok g M" by (rule gc_okD(5) [OF ok M])
  have "mset (map i_index (infos M)) = add_mset (i_index ?e) (mset (map i_index (erase_at p (infos M))))"
    using mset_erase_at [OF p] by simp
  then have "memory_ok g ?M"
    using mok set_erase_at [of p "infos M"] by (auto simp: memory_ok_def mset_erase_last)
  then have ok2: "gc_ok ?g" using gc_ok_put_mem [OF ok] M by simp
  have "attrs ?g = attrs g" "frame ?g = frame g" "mem_of ?g = mem_of g"
    by (auto simp: attrs_def frame_def mem_of_def put_mem_def fun_eq_iff)
  moreover have "idle ?g"
    by (rule idle_cong [OF ok2 _ _ _ _ _ id]) (use M in \<open>auto simp: put_mem_def attrs_def coloured_def seen_in_def fun_eq_iff\<close>)
  moreover have "entries ?g m = erase_at p (entries g m)" "\<And>k. k \<noteq> m \<Longrightarrow> entries ?g k = entries g k"
    using M by (simp_all add: entries_def put_mem_def)
  ultimately show ?thesis using M by (simp add: unlink_def get_mem_def)
qed

text \<open>The state \<open>g'\<close> is \<open>g\<close> without the last reference from the root, with the memory \<open>m\<close>, to a handle.\<close>

definition unrooted :: "gc \<Rightarrow> ref \<Rightarrow> ref \<Rightarrow> gc \<Rightarrow> bool" where
  "unrooted g other m g' \<longleftrightarrow> attrs g' = attrs g \<and> frame g' = frame g \<and> mem_of g' (root g) = Some m \<and>
     (\<forall>x k. mem_of g x = Some k \<longrightarrow> mem_of g' x = Some k) \<and>
     (case last_pos (refers other) (entries g m) of None \<Rightarrow> entries g' m = entries g m
      | Some p \<Rightarrow> entries g' m = erase_at p (entries g m)) \<and> (\<forall>k. k \<noteq> m \<longrightarrow> entries g' k = entries g k)"

lemma unroot_outcome:
  assumes id: "idle g"
  shows "\<exists>m g'. unroot other g = Inr g' \<and> idle g' \<and> unrooted g other m g'"
proof -
  note ok = idle_gc_ok [OF id]
  from gc_okD(1) [OF ok] obtain hp where hp: "heaps g (root g) = Some hp" by blast
  from get_memory_marks [OF ok hp, of "{}"] obtain m g1 M where gm: "get_memory (root g) g = Inr (m, g1)"
    and M: "mems g1 m = Some M" and mo: "mem_of g1 (root g) = Some m" and mk: "marks g {} g1"
    and col: "\<And>x. coloured g1 x = coloured g x" by blast
  note l = marks_later [OF mk] and ok1 = marks_ok [OF mk]
  have id1: "idle g1" by (rule later_idle [OF l id ok1 col])
  have en: "entries g m = infos M" using later_entries [OF l, of m] M by (simp add: entries_def)
  have P: "(\<lambda>e. ptr_is_ref e \<and> i_ptr e = Handle other) = refers other" by (rule ext) (simp add: refers_def)
  show ?thesis
  proof (cases "last_pos (refers other) (entries g m)")
    case None
    then have "unroot other g = Inr g1" using gm M en by (simp add: unroot_def get_mem_def P)
    then show ?thesis
      using id1 later_attrs [OF l] later_frame [OF l] later_mem_of [OF l] later_entries [OF l] mo None
      by (auto simp: unrooted_def)
  next
    case (Some p)
    have "p < length (infos M)" using last_pos_Some [OF Some] en by simp
    from unlink_outcome [OF id1 M this] obtain g' where g': "unlink m p g1 = Inr g'" "idle g'" "attrs g' = attrs g1"
      "frame g' = frame g1" "mem_of g' = mem_of g1" "entries g' m = erase_at p (entries g1 m)"
      "\<forall>k. k \<noteq> m \<longrightarrow> entries g' k = entries g1 k" by blast
    have "unroot other g = Inr g'" using gm M en Some g'(1) by (simp add: unroot_def get_mem_def P)
    then show ?thesis
      using g' later_attrs [OF l] later_frame [OF l] later_mem_of [OF l] later_entries [OF l] mo Some
      by (auto simp: unrooted_def)
  qed
qed

end
