(* ===== verification/GcSteps.thy ===== *)
theory GcSteps
  imports GcClient
begin

text \<open>
  The C++ heap as a state machine: every operation of the clients is a step, what the client has to
  keep to is the guard, and every state that is reached is in order.
\<close>

section \<open>Values\<close>

lemma idle_get_memory:
  assumes "mem_of g h = Some m"
  shows "get_memory h g = Inr (m, g)"
  using assms by (cases "heaps g h") (auto simp: get_memory_def get_heap_def mem_of_def split: if_splits)

lemma entries_memory: "i < length (entries g m) \<Longrightarrow> \<exists>M. mems g m = Some M \<and> entries g m = infos M"
  by (cases "mems g m") (simp_all add: entries_def)

lemma get_value_outcome:
  assumes "mem_of g h = Some m" and "i < length (entries g m)"
  shows "get_value_at h i g = Inr (i_ptr (entries g m ! i), g)"
proof -
  from entries_memory [OF assms(2)] obtain M where "mems g m = Some M" "entries g m = infos M" by blast
  with assms idle_get_memory [OF assms(1)] show ?thesis by (simp add: get_value_at_def get_mem_def)
qed

lemma set_value_outcome:
  assumes id: "idle g" and h: "mem_of g h = Some m" and i: "i < length (entries g m)"
    and e: "\<not> ptr_is_ref (entries g m ! i)"
  shows "\<exists>g'. set_value_at h i p g = Inr g' \<and> idle g' \<and> attrs g' = attrs g \<and> frame g' = frame g \<and> mem_of g' = mem_of g \<and>
    entries g' m = (entries g m)[i := assign_pointer p (entries g m ! i)] \<and> (\<forall>k. k \<noteq> m \<longrightarrow> entries g' k = entries g k)"
proof -
  note ok = idle_gc_ok [OF id]
  from entries_memory [OF i] obtain M where M: "mems g m = Some M" and en: "entries g m = infos M" by blast
  let ?e = "assign_pointer p (infos M ! i)"
  let ?M = "M\<lparr>infos := (infos M)[i := ?e]\<rparr>" let ?g = "put_mem m ?M g"
  have mok: "memory_ok g M" by (rule gc_okD(5) [OF ok M])
  have "map i_index ((infos M)[i := ?e]) = map i_index (infos M)"
    using i en by (simp add: map_update assign_pointer_def)
      (metis list_update_id nth_map)
  moreover have "entry_ok g ?e" using e en by (simp add: entry_ok_def assign_pointer_def)
  ultimately have "memory_ok g ?M"
    using mok set_update_subset_insert [of "infos M" i ?e] unfolding memory_ok_def by auto
  then have ok2: "gc_ok ?g" using gc_ok_put_mem [OF ok] M by simp
  have "attrs ?g = attrs g" "frame ?g = frame g" "mem_of ?g = mem_of g"
    by (auto simp: attrs_def frame_def mem_of_def put_mem_def fun_eq_iff)
  moreover have "idle ?g"
    by (rule idle_cong [OF ok2 _ _ _ _ _ id]) (use M in \<open>auto simp: put_mem_def attrs_def coloured_def seen_in_def fun_eq_iff\<close>)
  moreover have "entries ?g m = (entries g m)[i := assign_pointer p (entries g m ! i)]" "\<And>k. k \<noteq> m \<Longrightarrow> entries ?g k = entries g k"
    using M by (simp_all add: entries_def put_mem_def)
  ultimately show ?thesis
    using M i en idle_get_memory [OF h] by (simp add: set_value_at_def get_mem_def)
qed

section \<open>References\<close>

lemma attrs_dom: "attrs g h = None \<longleftrightarrow> heaps g h = None"
  by (simp add: attrs_def)

lemma frame_root: "frame g' = frame g \<Longrightarrow> root g' = root g"
  by (simp add: frame_def)

text \<open>Pushing a reference and taking one out of the root list.\<close>

lemma byRef_outcome:
  assumes id: "idle g" and h: "heaps g this \<noteq> None" "heaps g other \<noteq> None"
  shows "\<exists>m g1 mr g'. byRef this other g = Inr (length (entries g m), g') \<and> idle g' \<and>
    pushed g this m (heap_info other (length (entries g m))) g1 \<and> idle g1 \<and> unrooted g1 other mr g'"
proof -
  from push_heap_outcome [OF id h] obtain m g1 where p: "push_heap this other g = Inr (length (entries g m), g1)"
    "idle g1" "pushed g this m (heap_info other (length (entries g m))) g1" by blast
  from unroot_outcome [OF p(2), of other] obtain mr g' where "unroot other g1 = Inr g'" "idle g'" "unrooted g1 other mr g'"
    by blast
  with p show ?thesis by (auto simp: byRef_def)
qed

lemma length_erase_at: "p < length xs \<Longrightarrow> length (erase_at p xs) = length xs - 1"
  by (simp add: erase_at_def)

lemma unrooted_length:
  assumes "unrooted g other mr g'"
  shows "length (entries g k) - 1 \<le> length (entries g' k)"
proof (cases "k = mr")
  case True
  with assms show ?thesis
    using last_pos_Some [of "refers other" "entries g mr"]
    by (auto simp: unrooted_def length_erase_at split: option.splits)
next
  case False
  with assms show ?thesis by (simp add: unrooted_def)
qed

lemma mem_of_heap: "mem_of g h = Some m \<Longrightarrow> heaps g h \<noteq> None"
  by (cases "heaps g h") (simp_all add: mem_of_def)

lemma reroot_outcome:
  assumes id: "idle g" and h: "mem_of g this = Some m" and other: "heaps g other \<noteq> None"
    and i: "i < length (entries g m)" and e: "\<not> ptr_is_ref (entries g m ! i)"
  shows "\<exists>v g'. reroot this i p other g = Inr (v, g') \<and> idle g'"
proof -
  from set_value_outcome [OF id h i e] obtain g1 where g1: "set_value_at this i (Plain p) g = Inr g1" "idle g1"
    "attrs g1 = attrs g" "mem_of g1 = mem_of g" "entries g1 m = (entries g m)[i := assign_pointer (Plain p) (entries g m ! i)]"
    by blast
  have this': "heaps g1 this \<noteq> None" using h unfolding g1(4) [symmetric] by (rule mem_of_heap)
  have other': "heaps g1 other \<noteq> None" using other g1(3) attrs_dom by metis
  from push_heap_outcome [OF g1(2) this' other'] obtain m' g2 where g2: "push_heap this other g1 = Inr (length (entries g1 m'), g2)"
    "idle g2" and pu: "pushed g1 this m' (heap_info other (length (entries g1 m'))) g2" by blast
  have m': "m' = m" using pu_old [OF pu] h g1(4) by auto
  from unroot_outcome [OF g2(2), of other] obtain mr g3 where g3: "unroot other g2 = Inr g3" "idle g3"
    and un: "unrooted g2 other mr g3" by blast
  have "length (entries g2 m) = Suc (length (entries g m))" using pu_new [OF pu] m' g1(5) by simp
  then have "i < length (entries g3 m)" using unrooted_length [OF un, of m] i by simp
  moreover have "mem_of g3 this = Some m" using un pu_mem [OF pu] m' by (simp add: unrooted_def)
  ultimately have "get_value_at this i g3 = Inr (i_ptr (entries g3 m ! i), g3)" by (intro get_value_outcome)
  with g1 g2 g3 show ?thesis by (simp add: reroot_def)
qed

section \<open>Deallocation and assignment\<close>

definition flagged :: "ref \<Rightarrow> gc \<Rightarrow> gc" where
  "flagged h g = g\<lparr>heaps := (heaps g)(h := map_option (\<lambda>hp. hp\<lparr>deallocated := True\<rparr>) (heaps g h))\<rparr>"

definition root_count :: "gc \<Rightarrow> 8 word" where
  "root_count g = (case mem_of g (root g) of None \<Rightarrow> 0
     | Some m \<Rightarrow> (case mems g m of None \<Rightarrow> 0 | Some M \<Rightarrow> dealloc_count M))"

lemma idle_flagged:
  assumes id: "idle g" and h: "heaps g h \<noteq> None" "h \<noteq> root g"
  shows "idle (flagged h g)"
proof -
  from h obtain hp where hp: "heaps g h = Some hp" by blast
  have "flagged h g = put_heap h (hp\<lparr>deallocated := True\<rparr>) g" by (simp add: flagged_def put_heap_def hp)
  moreover have "handle_ok g (hp\<lparr>deallocated := True\<rparr>)"
    using gc_okD(4) [OF idle_gc_ok [OF id] hp] by (simp add: handle_ok_def split: if_splits)
  moreover have "h < next_ref g" using gc_okD(2) [OF idle_gc_ok [OF id] h(1)] .
  ultimately show ?thesis using h(2) by (simp add: idle_put_heap [OF id])
qed

text \<open>
  Either the count of deallocations has not reached the limit, and the handle is flagged only, or
  there is a collection from the flagged state.
\<close>

lemma dealloc_outcome:
  assumes id: "idle g" and h: "heaps g h \<noteq> None" "h \<noteq> root g"
    and co: "root_count g + 1 \<ge> dealloc_limit \<longrightarrow> collectable (flagged h g)"
  shows "\<exists>g'. dealloc h (root g) g = Inr g' \<and> idle g' \<and>
    (if root_count g + 1 < dealloc_limit
     then attrs g' = attrs (flagged h g) \<and> (\<forall>k. entries g' k = entries g k) \<and> ran g' = ran g \<and>
       root_count g' = root_count g + 1
     else garbage g' = {})"
proof -
  let ?f = "flagged h g"
  note idf = idle_flagged [OF id h]
  note ok = idle_gc_ok [OF idf]
  from h obtain hp0 where hp0: "heaps g h = Some hp0" by blast
  have f: "?f = put_heap h (hp0\<lparr>deallocated := True\<rparr>) g" "root ?f = root g"
    by (simp_all add: flagged_def put_heap_def hp0)
  have ins: "\<not> inside_destructor g" using id by (simp add: idle_def)
  from gc_okD(1) [OF ok] obtain hp where hp: "heaps ?f (root ?f) = Some hp" by blast
  from get_memory_marks [OF ok hp, of "{}"] obtain m g1 M where gm: "get_memory (root ?f) ?f = Inr (m, g1)"
    and M: "mems g1 m = Some M" and mo: "mem_of g1 (root ?f) = Some m" and mk: "marks ?f {} g1"
    and col: "\<And>x. coloured g1 x = coloured ?f x" by blast
  note l = marks_later [OF mk] and ok1 = marks_ok [OF mk]
  have id1: "idle g1" by (rule later_idle [OF l idf ok1 col])
  let ?M = "M\<lparr>dealloc_count := dealloc_count M + 1\<rparr>" let ?g = "put_mem m ?M g1"
  have ok2: "gc_ok ?g"
    using gc_ok_put_mem [OF ok1] M gc_okD(5) [OF ok1 M] by (simp add: memory_ok_def)
  have en: "entries ?g k = entries g1 k" for k using M by (simp add: entries_def put_mem_def)
  have at: "attrs ?g = attrs g1" by (rule ext) (simp add: attrs_def put_mem_def)
  have mo2: "mem_of ?g x = mem_of g1 x" for x by (simp add: mem_of_def put_mem_def)
  have same: "coloured ?g k = coloured g1 k" "seen_in ?g k = seen_in g1 k" for k
    using M by (simp_all add: put_mem_def coloured_def seen_in_def)
  have id2: "idle ?g" by (rule idle_cong [OF ok2 at _ _ same id1]) (simp_all add: put_mem_def)
  have co2: "collectable ?g" if "collectable ?f"
    by (rule collectable_cong [OF collectable_later [OF that ok1 l col] ok2 at _ _ same en mo2]) (simp_all add: put_mem_def)
  have root2: "root ?g = root g" using later_root [OF l] f(2) by (simp add: put_mem_def)
  have count: "dealloc_count M = root_count g"
  proof (cases "mem_of ?f (root ?f)")
    case (Some k)
    then have km: "k = m" using later_mem_of [OF l Some] mo by simp
    from mem_of_Some [OF ok Some] obtain K where K: "mems ?f k = Some K" by blast
    from later_mem [OF l K] M km have "dealloc_count M = dealloc_count K" by (auto simp: same_entries_def)
    then show ?thesis
      using Some K h(2) by (simp add: root_count_def flagged_def mem_of_def)
  next
    case None
    then have lz: "lazy hp" using hp gc_okD(4) [OF ok hp] by (auto simp: mem_of_def handle_ok_def split: if_splits)
    then have "M = new_Memory" using get_memory_outcome [OF ok hp] gm M by auto
    moreover have "mem_of g (root g) = None" using None h(2) by (simp add: flagged_def mem_of_def)
    ultimately show ?thesis by (simp add: new_Memory_def root_count_def)
  qed
  have start: "dealloc h (root g) g = (if dealloc_count M + 1 \<ge> dealloc_limit
      then andthen (collect (root g) ?g) (\<lambda>(s, g4). Inr g4) else Inr ?g)"
    using ins hp0 h(2) gm M f by (simp add: dealloc_def get_heap_def get_mem_def Let_def dealloc_limit_def)
  show ?thesis
  proof (cases "dealloc_count M + 1 \<ge> dealloc_limit")
    case True
    with co count have "collectable ?f" by simp
    from collect_outcome [OF co2 [OF this]] obtain s g' where "collect_all ?g = Inr (s, g')" "idle g'" "garbage g' = {}" by blast
    then have "dealloc h (root g) g = Inr g'" unfolding start using True root2 by (simp add: collect_all_def)
    then show ?thesis using \<open>idle g'\<close> \<open>garbage g' = {}\<close> True count by auto
  next
    case False
    have "root_count ?g = root_count g + 1"
      using mo mo2 f(2) root2 count by (simp add: root_count_def) (simp add: put_mem_def)
    moreover have "ran ?g = ran g" using later_frame [OF l] by (simp add: frame_def flagged_def put_mem_def)
    moreover have "entries ?g k = entries g k" for k
      using en later_entries [OF l, of k] by (simp add: entries_def flagged_def)
    ultimately show ?thesis
      using start False id2 at later_attrs [OF l] count by auto
  qed
qed

text \<open>What an assignment has done when it deallocates the old handle.\<close>

lemma assign_outcome:
  assumes id: "idle g" and h: "heaps g this = Some tp" "heaps g other = Some op" and ne: "this \<noteq> root g"
  shows "\<exists>old g1. assign_handles this other g = Inr (old, g1) \<and> idle g1 \<and> heaps g1 old \<noteq> None \<and> old \<noteq> root g1 \<and>
    heaps g old = None"
proof -
  obtain old ga where new: "new_ManagedObjectHeap (tag tp) g = (old, ga)" by fastforce
  have tok: "handle_ok g tp" using gc_okD(4) [OF idle_gc_ok [OF id] h(1)] .
  from rooted_outcome [OF id new tok] obtain i g3 where p: "push_heap (root ga) old (put_heap old tp ga) = Inr (i, g3)"
    and id3: "idle g3" and ro: "rooted g old tp g3" by blast
  note new_facts = idle_new_handle [OF id new tok]
  have fresh: "heaps g old = None" by (rule new_facts [THEN conjunct2, THEN conjunct1])
  have old: "old \<noteq> root g" by (rule new_facts [THEN conjunct2, THEN conjunct2, THEN conjunct1])
  have "frame g3 = frame g" using ro by (simp add: rooted_def)
  then have r3: "root g3 = root g" by (rule frame_root)
  have at: "attrs g3 = (attrs g)(old \<mapsto> (tag tp, deallocated tp))" using ro by (simp add: rooted_def)
  have "attrs g3 other \<noteq> None" "attrs g3 this \<noteq> None" using at h by (auto simp: attrs_def)
  then obtain op3 tp3 where op3: "heaps g3 other = Some op3" and tp3: "heaps g3 this = Some tp3"
    using attrs_dom by (metis not_None_eq)
  let ?g = "put_heap this (op3\<lparr>tag := tag tp\<rparr>) g3"
  have "handle_ok g3 (op3\<lparr>tag := tag tp\<rparr>)"
    using gc_okD(4) [OF idle_gc_ok [OF id3] op3] by (simp add: handle_ok_def split: if_splits)
  moreover have "this < next_ref g3" using gc_okD(2) [OF idle_gc_ok [OF id3]] tp3 by simp
  ultimately have "idle ?g" using r3 ne by (intro idle_put_heap [OF id3]) simp_all
  moreover have "attrs g3 old \<noteq> None" using at by simp
  then have "heaps ?g old \<noteq> None" using attrs_dom [of g3 old] by (simp add: put_heap_def)
  moreover have "root ?g = root g" using r3 by (simp add: put_heap_def)
  moreover have "root (put_heap old tp ga) = root ga" by (simp add: put_heap_def)
  then have "assign_handles this other g = Inr (old, ?g)"
    using h new p op3 by (simp add: assign_handles_def get_heap_def)
  ultimately show ?thesis using old fresh by auto
qed

section \<open>The state machine\<close>

datatype gc_op =
    New_object string | Copy_object ref | Assign_object ref ref | Dealloc_object ref | Push_value ref arith
  | Push_pointer ref addr nat | By_ref ref ref | Reroot ref nat addr ref | Reroot_plain ref nat addr | Collect

definition only_state :: "fault + 'a \<times> gc \<Rightarrow> fault + gc" where
  "only_state r = andthen r (\<lambda>(x, g). Inr g)"

fun run_op :: "gc_op \<Rightarrow> gc \<Rightarrow> fault + gc" where
  "run_op (New_object t) g = only_state (new_ManagedObject t g)"
| "run_op (Copy_object h) g = only_state (copy_ManagedObject h g)"
| "run_op (Assign_object h x) g = assign_ManagedObject h x g"
| "run_op (Dealloc_object h) g = dealloc_ManagedObject h g"
| "run_op (Push_value h x) g = only_state (push_value_object h (Trivial x) g)"
| "run_op (Push_pointer h p k) g = only_state (push_value_object h (Pointer (Plain p) (Client k)) g)"
| "run_op (By_ref h x) g = only_state (byRef h x g)"
| "run_op (Reroot h i p x) g = only_state (reroot h i p x g)"
| "run_op (Reroot_plain h i p) g = only_state (reroot_plain h i p g)"
| "run_op Collect g = only_state (collect_all g)"

text \<open>
  The client's side: the handles exist, a value that is pushed is one that can be converted, an entry that is rerooted exists and is not a reference, the
  root is not assigned to or deallocated, and where the operation comes to a collection, what is dead
  can be collected.
\<close>

definition value_entry :: "gc \<Rightarrow> ref \<Rightarrow> nat \<Rightarrow> bool" where
  "value_entry g h i \<longleftrightarrow> (\<exists>m. mem_of g h = Some m \<and> i < length (entries g m) \<and> \<not> ptr_is_ref (entries g m ! i))"

fun op_allowed :: "gc \<Rightarrow> gc_op \<Rightarrow> bool" where
  "op_allowed g (New_object t) = True"
| "op_allowed g (Copy_object h) = (heaps g h \<noteq> None)"
| "op_allowed g (Assign_object h x) = (heaps g h \<noteq> None \<and> heaps g x \<noteq> None \<and> h \<noteq> root g \<and>
     (\<forall>old g1. assign_handles h x g = Inr (old, g1) \<longrightarrow> root_count g1 + 1 \<ge> dealloc_limit \<longrightarrow>
        collectable (flagged old g1)))"
| "op_allowed g (Dealloc_object h) = (heaps g h \<noteq> None \<and> h \<noteq> root g \<and>
     (root_count g + 1 \<ge> dealloc_limit \<longrightarrow> collectable (flagged h g)))"
| "op_allowed g (Push_value h x) = (heaps g h \<noteq> None \<and> to_uintptr x \<noteq> Inl Undefined_behaviour)"
| "op_allowed g (Push_pointer h p k) = (heaps g h \<noteq> None)"
| "op_allowed g (By_ref h x) = (heaps g h \<noteq> None \<and> heaps g x \<noteq> None)"
| "op_allowed g (Reroot h i p x) = (value_entry g h i \<and> heaps g x \<noteq> None)"
| "op_allowed g (Reroot_plain h i p) = value_entry g h i"
| "op_allowed g Collect = collectable g"

inductive gc_reached :: "gc \<Rightarrow> bool" where
  start: "gc_reached get_root"
| step: "gc_reached g \<Longrightarrow> op_allowed g c \<Longrightarrow> run_op c g = Inr g' \<Longrightarrow> gc_reached g'"

lemma run_op_outcome:
  assumes id: "idle g" and ok: "op_allowed g c"
  shows "\<exists>g'. run_op c g = Inr g' \<and> idle g'"
proof (cases c)
  case (New_object t)
  with new_ManagedObject_outcome [OF id, of t] show ?thesis by (auto simp: only_state_def)
next
  case (Copy_object h)
  with ok obtain hp where "heaps g h = Some hp" by auto
  with copy_ManagedObject_outcome [OF id this] Copy_object show ?thesis by (auto simp: only_state_def)
next
  case (Assign_object h x)
  show ?thesis
  proof (cases "h = x")
    case True
    with Assign_object id show ?thesis by (simp add: assign_ManagedObject_def)
  next
    case False
    from ok Assign_object obtain tp xp where "heaps g h = Some tp" "heaps g x = Some xp" "h \<noteq> root g" by auto
    from assign_outcome [OF id this] obtain old g1 where a: "assign_handles h x g = Inr (old, g1)"
      "idle g1" "heaps g1 old \<noteq> None" "old \<noteq> root g1" by blast
    with ok Assign_object have "root_count g1 + 1 \<ge> dealloc_limit \<longrightarrow> collectable (flagged old g1)" by simp
    from dealloc_outcome [OF a(2-4) this] a(1) False Assign_object show ?thesis
      by (auto simp: assign_ManagedObject_def)
  qed
next
  case (Dealloc_object h)
  with ok have h: "heaps g h \<noteq> None" "h \<noteq> root g"
    "root_count g + 1 \<ge> dealloc_limit \<longrightarrow> collectable (flagged h g)" by auto
  with dealloc_outcome [OF id h] Dealloc_object show ?thesis by (auto simp: dealloc_ManagedObject_def)
next
  case (Push_value h x)
  with ok obtain v where "to_uintptr x = Inr v" using to_uintptr_cases [of x] by auto
  with Push_value ok push_plain_outcome [OF id, of h "Plain v" Do_nothing] show ?thesis
    by (auto simp: only_state_def push_value_def push_word_pointer)
next
  case (Push_pointer h p k)
  with ok push_plain_outcome [OF id, of h "Plain p" "Client k"] show ?thesis by (auto simp: only_state_def)
next
  case (By_ref h x)
  with ok byRef_outcome [OF id, of h x] show ?thesis by (auto simp: only_state_def)
next
  case (Reroot h i p x)
  with ok reroot_outcome [OF id, of h _ x i p] show ?thesis by (fastforce simp: only_state_def value_entry_def)
next
  case (Reroot_plain h i p)
  with ok obtain m where m: "mem_of g h = Some m" "i < length (entries g m)" "\<not> ptr_is_ref (entries g m ! i)"
    by (auto simp: value_entry_def)
  from set_value_outcome [OF id m, of "Plain p"] obtain g1 where "set_value_at h i (Plain p) g = Inr g1" "idle g1"
    "mem_of g1 = mem_of g" "entries g1 m = (entries g m)[i := assign_pointer (Plain p) (entries g m ! i)]" by blast
  with get_value_outcome [of g1 h m i] m Reroot_plain show ?thesis
    by (auto simp: reroot_plain_def only_state_def)
next
  case Collect
  with ok collect_outcome [of g] show ?thesis by (auto simp: only_state_def)
qed

lemma idle_get_root: "idle get_root"
  by (auto simp: idle_def gc_ok_def get_root_def handle_ok_def all_gray_def coloured_def seen_in_def dead_def flag_def
      split: if_splits)

lemma gc_reached_idle: "gc_reached g \<Longrightarrow> idle g"
proof (induction rule: gc_reached.induct)
  case start
  show ?case by (rule idle_get_root)
next
  case (step g c g')
  with run_op_outcome [of g c] show ?case by auto
qed

end
