(* ===== verification/GcStore.thy ===== *)
theory GcStore
  imports GcSteps IndexedStore
begin

text \<open>
  Reading back what was pushed: the memory of an object provides the contract of an indexed store.
\<close>

section \<open>Reading\<close>

lemma get_value_lazy:
  assumes "gc_ok g" and h: "heaps g h \<noteq> None" "mem_of g h = None"
  shows "get_value_at h i g = Inl Undefined_behaviour"
proof -
  from h(1) obtain hp where hp: "heaps g h = Some hp" by blast
  have "lazy hp" using h(2) gc_okD(4) [OF assms(1) hp] hp by (auto simp: mem_of_def handle_ok_def split: if_splits)
  with hp show ?thesis
    by (simp add: get_value_at_def get_memory_def get_heap_def get_memory1_def Let_def get_mem_def put_mem_def put_heap_def
        new_Memory_def)
qed

text \<open>The memory of an object, as a store of plain values.\<close>

definition load_plain :: "ref \<Rightarrow> gc \<Rightarrow> nat \<Rightarrow> addr option" where
  "load_plain h g i = (case get_value_at h i g of Inr (Plain v, g') \<Rightarrow> Some v | _ \<Rightarrow> None)"

lemma get_value_same: "get_value_at h i g = Inr (p, g') \<Longrightarrow> g' = g"
proof (cases "mem_of g h")
  case None
  assume r: "get_value_at h i g = Inr (p, g')"
  then obtain hp where hp: "heaps g h = Some hp" by (auto simp: get_value_at_def get_memory_def get_heap_def ebind split: option.splits)
  then have "lazy hp \<or> memory hp = None" using None by (auto simp: mem_of_def split: if_splits)
  with hp r show ?thesis
    by (auto simp: get_value_at_def get_memory_def get_heap_def get_memory1_def Let_def get_mem_def put_mem_def put_heap_def
        new_Memory_def split: if_splits)
next
  case (Some m)
  assume "get_value_at h i g = Inr (p, g')"
  with Some show ?thesis
    by (auto simp: get_value_at_def get_memory_def get_heap_def mem_of_def ebind split: option.splits if_splits)
qed

lemma load_plain_iff: "load_plain h g i = Some v \<longleftrightarrow> get_value_at h i g = Inr (Plain v, g)"
  using get_value_same [of h i g] by (auto simp: load_plain_def split: sum.splits pointer.splits)

lemma get_value_bound:
  assumes "idle g" and "heaps g h \<noteq> None" and "load_plain h g i = Some v"
  shows "\<exists>m. mem_of g h = Some m \<and> i < length (entries g m) \<and> i_ptr (entries g m ! i) = Plain v"
proof (cases "mem_of g h")
  case None
  then show ?thesis using get_value_lazy [OF idle_gc_ok [OF assms(1)] assms(2)] assms(3) by (simp add: load_plain_def)
next
  case (Some m)
  have "i < length (entries g m)"
  proof (rule ccontr)
    assume "\<not> i < length (entries g m)"
    moreover obtain M where "mems g m = Some M" using mem_of_Some [OF idle_gc_ok [OF assms(1)] Some] by blast
    ultimately have "get_value_at h i g = Inl Undefined_behaviour"
      using Some by (auto simp: get_value_at_def get_memory_def get_heap_def mem_of_def get_mem_def entries_def
          split: option.splits if_splits)
    then show False using assms(3) by (simp add: load_plain_def)
  qed
  then show ?thesis using get_value_outcome [OF Some] assms(3) Some by (auto simp: load_plain_iff)
qed

lemma push_word_law:
  assumes "idle g" and "heaps g h \<noteq> None"
  shows "\<exists>i g'. push_word h v g = Inr (i, g') \<and> idle g' \<and> heaps g' h \<noteq> None \<and> load_plain h g i = None \<and>
    load_plain h g' i = Some v \<and> (\<forall>j x. load_plain h g j = Some x \<longrightarrow> load_plain h g' j = Some x)"
proof -
  from push_plain_outcome [OF assms, of "Plain v" Do_nothing] obtain m g' where
    p: "push_word h v g = Inr (length (entries g m), g')" "idle g'"
    and pu: "pushed g h m (plain_info (Plain v) Do_nothing (length (entries g m))) g'"
    by (auto simp: push_word_pointer)
  have get: "get_value_at h j g' = Inr (i_ptr (entries g' m ! j), g')" if "j \<le> length (entries g m)" for j
    using that pu_new [OF pu] by (intro get_value_outcome [OF pu_mem [OF pu]]) simp
  have "load_plain h g' (length (entries g m)) = Some v"
    using get [of "length (entries g m)"] pu_new [OF pu] by (simp add: plain_info_def load_plain_def)
  moreover have km: "k = m" if "mem_of g h = Some k" for k using that pu_old [OF pu] by auto
  moreover have "load_plain h g (length (entries g m)) = None"
  proof (rule ccontr)
    assume "load_plain h g (length (entries g m)) \<noteq> None"
    then obtain x where "load_plain h g (length (entries g m)) = Some x" by blast
    from get_value_bound [OF assms this] km show False by auto
  qed
  moreover have "load_plain h g' j = Some x" if "load_plain h g j = Some x" for j x
  proof -
    from get_value_bound [OF assms that] km have j: "j < length (entries g m)" "i_ptr (entries g m ! j) = Plain x" by auto
    then have "entries g' m ! j = entries g m ! j" using pu_new [OF pu] by (simp add: nth_append)
    with get [of j] j show ?thesis by (simp add: load_plain_def)
  qed
  moreover have "heaps g' h \<noteq> None" using pu_attrs [OF pu] assms(2) attrs_dom [of g' h] attrs_dom [of g h] by auto
  ultimately show ?thesis using p by blast
qed

interpretation pushed_values: indexed_store "\<lambda>g. idle g \<and> heaps g h \<noteq> None" "\<lambda>n g. True" "push_word h" "load_plain h" for h
  by unfold_locales (use push_word_law in blast)

end
