(* ===== verification/MarkOrder.thy ===== *)
theory MarkOrder
  imports GcMark
begin

text \<open>
  The order of marking: which handle gives its colour to a memory that several handles have.  The
  reference is the sequence of the calls of \<open>mark\<close> on the graph as it is before; the first handle of
  the sequence that has a memory colours it, and no later visit changes that.
\<close>

section \<open>The sequence of visits\<close>

definition handle_list :: "Info list \<Rightarrow> ref list" where
  "handle_list es = concat (map (\<lambda>e. if ptr_is_ref e then (case i_ptr e of Handle r \<Rightarrow> [r] | _ \<Rightarrow> []) else []) es)"

definition child_list :: "gc \<Rightarrow> ref \<Rightarrow> ref list" where
  "child_list g h = (case mem_of g h of None \<Rightarrow> [] | Some m \<Rightarrow>
     (case mems g m of None \<Rightarrow> [] | Some M \<Rightarrow> handle_list (infos M)))"

text \<open>What handles share: a memory, or nothing as long as they have none.\<close>

definition cell :: "gc \<Rightarrow> ref \<Rightarrow> ref + ref" where
  "cell g h = (case mem_of g h of None \<Rightarrow> Inr h | Some m \<Rightarrow> Inl m)"

fun visits :: "nat \<Rightarrow> gc \<Rightarrow> ref \<Rightarrow> ref list \<Rightarrow> ref list" where
  "visits 0 g h vs = vs"
| "visits (Suc n) g h vs =
     (if \<exists>v \<in> set vs. cell g v = cell g h then vs @ [h]
      else fold (visits n g) (child_list g h) (vs @ [h]))"

definition first_visited :: "gc \<Rightarrow> ref list \<Rightarrow> ref \<Rightarrow> ref option" where
  "first_visited g vs x = List.find (\<lambda>v. cell g v = cell g x) vs"

lemma handle_list_simps [simp]:
  "handle_list [] = []"
  "handle_list (e # es) = (if ptr_is_ref e then (case i_ptr e of Handle r \<Rightarrow> [r] | _ \<Rightarrow> []) else []) @ handle_list es"
  by (simp_all add: handle_list_def)

lemma child_listI: "mem_of g h = Some m \<Longrightarrow> mems g m = Some M \<Longrightarrow> child_list g h = handle_list (infos M)"
  by (simp add: child_list_def)

lemma first_visited_None: "first_visited g vs x = None \<longleftrightarrow> (\<forall>v \<in> set vs. cell g v \<noteq> cell g x)"
  by (auto simp: first_visited_def find_None_iff)

lemma find_snoc: "List.find P (xs @ [x]) = (case List.find P xs of None \<Rightarrow> if P x then Some x else None | Some y \<Rightarrow> Some y)"
  by (induction xs) auto

lemma first_visited_snoc:
  "first_visited g (vs @ [h]) x = (case first_visited g vs x of
     None \<Rightarrow> if cell g h = cell g x then Some h else None | Some f \<Rightarrow> Some f)"
  by (simp add: first_visited_def find_snoc)

lemma cell_iff:
  assumes "later g gc" and "mem_of gc h = Some m"
  shows "cell g x = cell g h \<longleftrightarrow> mem_of gc x = Some m"
proof (cases "mem_of g h")
  case (Some k)
  then have "k = m" using later_mem_of [OF assms(1) Some] assms(2) by simp
  with Some show ?thesis
    using later_mem_of [OF assms(1), of x] later_unshared [OF assms(1), of x m h] assms(2)
    by (cases "mem_of g x") (auto simp: cell_def)
next
  case None
  then show ?thesis
    using later_unshared [OF assms(1) None assms(2), of x] assms(2)
    by (cases "mem_of g x") (auto simp: cell_def)
qed

section \<open>Marking follows the sequence\<close>

definition coloured_by :: "gc \<Rightarrow> gc \<Rightarrow> ref list \<Rightarrow> ref \<Rightarrow> bool" where
  "coloured_by g gc vs x \<longleftrightarrow> (case first_visited g vs x of None \<Rightarrow> \<not> marked gc x
     | Some f \<Rightarrow> \<exists>m M d. mem_of gc x = Some m \<and> mems gc m = Some M \<and> flag g f = Some d \<and> color M = flag_color d)"

definition follows :: "gc \<Rightarrow> gc \<Rightarrow> ref list \<Rightarrow> bool" where
  "follows g gc vs \<longleftrightarrow> gc_ok gc \<and> later g gc \<and> (\<forall>x \<in> dom (heaps g). coloured_by g gc vs x)"

lemma followsD:
  assumes "follows g gc vs"
  shows follows_ok: "gc_ok gc" and follows_later: "later g gc"
    and follows_colour: "x \<in> dom (heaps g) \<Longrightarrow> coloured_by g gc vs x"
  using assms unfolding follows_def by blast+

lemma marked_first:
  "coloured_by g gc vs x \<Longrightarrow> marked gc x \<longleftrightarrow> (\<exists>v \<in> set vs. cell g v = cell g x)"
  using first_visited_None [of g vs x]
  by (cases "first_visited g vs x") (auto simp: coloured_by_def marked_def coloured_def)

lemma follows_get_memory:
  assumes f: "follows g gc vs" and m: "marks gc S gc1" and col: "\<forall>x. coloured gc1 x = coloured gc x"
  shows "follows g gc1 vs"
proof -
  note l = marks_later [OF m]
  have "coloured_by g gc1 vs x" if x: "x \<in> dom (heaps g)" for x
  proof (cases "first_visited g vs x")
    case None
    with follows_colour [OF f x] have "\<not> marked gc x" by (simp add: coloured_by_def)
    then have "\<not> marked gc1 x"
      using later_new [OF l, of x] col by (fastforce simp: marked_def empty_new_def coloured_def)
    with None show ?thesis by (simp add: coloured_by_def)
  next
    case (Some y)
    with follows_colour [OF f x] obtain k M d where k: "mem_of gc x = Some k" "mems gc k = Some M"
      "flag g y = Some d" "color M = flag_color d" by (auto simp: coloured_by_def)
    then have "coloured gc k" by (simp add: coloured_def)
    from marks_keeps [OF m k(2) this] k Some later_mem_of [OF l k(1)] show ?thesis
      by (auto simp: coloured_by_def keeps_colour_def)
  qed
  then show ?thesis using marks_ok [OF m] later_trans [OF follows_later [OF f] l] by (simp add: follows_def)
qed

lemma mem_of_put_mem [simp]: "mem_of (put_mem m M g) h = mem_of g h"
  by (simp add: mem_of_def put_mem_def)

lemma follows_again:
  assumes f: "follows g gc vs" and h: "h \<in> dom (heaps g)" and mo: "mem_of gc h = Some m" and M: "mems gc m = Some M"
    and c: "color M \<noteq> MANAGED_OBJECT_HEAP_COLOR_GRAY"
  shows "\<exists>v \<in> set vs. cell g v = cell g h"
    and "follows g (put_mem m (M\<lparr>keep_memory := False\<rparr>) gc) (vs @ [h])"
proof -
  let ?M = "M\<lparr>keep_memory := False\<rparr>"
  have same: "same_entries M ?M" by (simp add: same_entries_def)
  have "marked gc h" using mo M c by (auto simp: marked_def coloured_def)
  then show v: "\<exists>v \<in> set vs. cell g v = cell g h" using marked_first [OF follows_colour [OF f h]] by blast
  have "first_visited g (vs @ [h]) x = first_visited g vs x" for x
    using v first_visited_None [of g vs x] by (cases "first_visited g vs x") (auto simp: first_visited_snoc)
  moreover have "marked (put_mem m ?M gc) x = marked gc x" for x
    using M by (auto simp: marked_def coloured_def put_mem_def mem_of_def)
  ultimately have "coloured_by g (put_mem m ?M gc) (vs @ [h]) x" if "coloured_by g gc vs x" for x
    using that M by (cases "first_visited g vs x") (auto simp: coloured_by_def, auto simp: put_mem_def)
  then show "follows g (put_mem m ?M gc) (vs @ [h])"
    using gc_ok_put_same [OF follows_ok [OF f] M same] later_trans [OF follows_later [OF f] later_put_mem [OF M same]]
      follows_colour [OF f] by (simp add: follows_def)
qed

lemma follows_first:
  assumes f: "follows g gc vs" and h: "h \<in> dom (heaps g)" and mo: "mem_of gc h = Some m" and M: "mems gc m = Some M"
    and c: "color M = MANAGED_OBJECT_HEAP_COLOR_GRAY" and d: "flag g h = Some d"
  shows "\<not> (\<exists>v \<in> set vs. cell g v = cell g h)"
    and "follows g (put_mem m (M\<lparr>keep_memory := False, color := flag_color d\<rparr>) gc) (vs @ [h])"
proof -
  let ?M = "M\<lparr>keep_memory := False, color := flag_color d\<rparr>"
  have same: "same_entries M ?M" by (simp add: same_entries_def)
  have "\<not> marked gc h" using mo M c by (auto simp: marked_def coloured_def)
  then show v: "\<not> (\<exists>v \<in> set vs. cell g v = cell g h)" using marked_first [OF follows_colour [OF f h]] by blast
  have "coloured_by g (put_mem m ?M gc) (vs @ [h]) x" if x: "coloured_by g gc vs x" for x
  proof (cases "cell g x = cell g h")
    case True
    then have "first_visited g vs x = None" using v by (simp add: first_visited_None)
    with True d show ?thesis
      using cell_iff [OF follows_later [OF f] mo, of x] by (simp add: coloured_by_def first_visited_snoc put_mem_def mem_of_def)
  next
    case False
    then have ne: "mem_of gc x \<noteq> Some m" using cell_iff [OF follows_later [OF f] mo, of x] by simp
    then have "marked (put_mem m ?M gc) x = marked gc x"
      by (auto simp: marked_def coloured_def put_mem_def mem_of_def)
    with x False ne show ?thesis
      by (cases "first_visited g vs x") (auto simp: coloured_by_def first_visited_snoc, auto simp: put_mem_def)
  qed
  then show "follows g (put_mem m ?M gc) (vs @ [h])"
    using gc_ok_put_same [OF follows_ok [OF f] M same] later_trans [OF follows_later [OF f] later_put_mem [OF M same]]
      follows_colour [OF f] by (simp add: follows_def)
qed

definition follower :: "gc \<Rightarrow> nat \<Rightarrow> (ref \<Rightarrow> gc \<Rightarrow> fault + gc) \<Rightarrow> bool" where
  "follower g n mk \<longleftrightarrow> (\<forall>gc vs r gc'. follows g gc vs \<longrightarrow> r \<in> dom (heaps g) \<longrightarrow> mk r gc = Inr gc' \<longrightarrow>
     follows g gc' (visits n g r vs))"

lemma followerD:
  "follower g n mk \<Longrightarrow> follows g gc vs \<Longrightarrow> r \<in> dom (heaps g) \<Longrightarrow> mk r gc = Inr gc' \<Longrightarrow> follows g gc' (visits n g r vs)"
  unfolding follower_def by blast

lemma mark_loop_follows:
  assumes mk: "follower g n mk" and ok: "gc_ok g" and mo: "mem_of g h = Some m" and M: "mems g m = Some M"
  shows "follows g gc vs \<Longrightarrow> i + k = length (infos M) \<Longrightarrow> mark_loop mk h i k gc = Inr gc' \<Longrightarrow>
    follows g gc' (fold (visits n g) (handle_list (drop i (infos M))) vs)"
proof (induction k arbitrary: i gc vs)
  case 0
  then show ?case by simp
next
  case (Suc k)
  note f = Suc.prems(1)
  let ?e = "infos M ! i"
  have i: "i < length (infos M)" using Suc.prems(2) by simp
  have dr: "drop i (infos M) = ?e # drop (Suc i) (infos M)" using i by (simp add: Cons_nth_drop_Suc)
  from later_mem [OF follows_later [OF f] M] obtain M1 where M1: "mems gc m = Some M1" "infos M1 = infos M"
    by (auto simp: same_entries_def)
  from later_mem_of [OF follows_later [OF f] mo] obtain hp where
    hp: "heaps gc h = Some hp" "\<not> lazy hp" "memory hp = Some m" by (auto simp: mem_of_def split: option.splits if_splits)
  have gm: "get_memory h gc = Inr (m, gc)" using hp by (simp add: get_memory_def get_heap_def)
  have Mok: "memory_ok g M" by (rule gc_okD(5) [OF ok M])
  show ?case
  proof (cases "ptr_is_ref ?e")
    case False
    then have "mark_loop mk h (Suc i) k gc = Inr gc'"
      using Suc.prems(3) i gm M1 by (simp add: get_mem_def MANAGED_OBJECT_GET_HEAP_def)
    with Suc.IH [OF f, of "Suc i"] Suc.prems(2) False show ?thesis unfolding dr by simp
  next
    case True
    from refs_in_nth [OF Mok i True] obtain r where r: "i_ptr ?e = Handle r" "r \<in> dom (heaps g)" by blast
    with Suc.prems(3) i gm M1 True obtain g1 where g1: "mk r gc = Inr g1" "mark_loop mk h (Suc i) k g1 = Inr gc'"
      by (cases "mk r gc") (auto simp: get_mem_def MANAGED_OBJECT_GET_HEAP_def)
    from Suc.IH [OF followerD [OF mk f r(2) g1(1)] _ g1(2)] Suc.prems(2) True r show ?thesis unfolding dr by simp
  qed
qed

lemma mark_follower:
  assumes ok: "gc_ok g"
  shows "follower g n (mark n)"
proof (induction n)
  case 0
  show ?case by (simp add: follower_def)
next
  case (Suc n)
  show ?case
    unfolding follower_def
  proof (intro allI impI)
    fix gc vs h gc' assume f0: "follows g gc vs" and h: "h \<in> dom (heaps g)" and mk: "mark (Suc n) h gc = Inr gc'"
    have "h \<in> dom (heaps gc)" using h later_dom [OF follows_later [OF f0]] by simp
    then obtain hp where hp: "heaps gc h = Some hp" by blast
    from get_memory_marks [OF follows_ok [OF f0] hp, of "{}"] obtain m g1 M hp1 where gm: "get_memory h gc = Inr (m, g1)"
      and M: "mems g1 m = Some M" and mo: "mem_of g1 h = Some m" and m1: "marks gc {} g1"
      and col: "\<forall>x. coloured g1 x = coloured gc x" and hp1: "heaps g1 h = Some hp1" by blast
    note f = follows_get_memory [OF f0 m1 col]
    have fl: "flag g h = Some (deallocated hp1)"
      using hp1 later_flag [OF follows_later [OF f]] by (metis flag_def option.simps(9))
    show "follows g gc' (visits (Suc n) g h vs)"
    proof (cases "color M = MANAGED_OBJECT_HEAP_COLOR_GRAY")
      case False
      note a = follows_again [OF f h mo M False]
      have "gc' = put_mem m (M\<lparr>keep_memory := False\<rparr>) g1"
        using mk gm M hp1 False by (simp add: get_mem_def get_heap_def)
      with a show ?thesis by simp
    next
      case True
      note a = follows_first [OF f h mo M True fl]
      let ?g = "put_mem m (M\<lparr>keep_memory := False, color := flag_color (deallocated hp1)\<rparr>) g1"
      have lp: "mark_loop (mark n) h 0 (length (infos M)) ?g = Inr gc'"
        using mk gm M hp1 True by (simp add: get_mem_def get_heap_def flag_color_def)
      have "follows g gc' (fold (visits n g) (child_list g h) (vs @ [h]))"
      proof (cases "mem_of g h")
        case None
        with later_new [OF follows_later [OF f] mo] M have "infos M = []" by (auto simp: empty_new_def)
        with lp a(2) None show ?thesis by (simp add: child_list_def)
      next
        case (Some k)
        then have k: "k = m" using later_mem_of [OF follows_later [OF f] Some] mo by simp
        from mem_of_Some [OF ok Some] obtain M0 where M0: "mems g k = Some M0" by blast
        with later_mem [OF follows_later [OF f] M0] M k have "infos M = infos M0" by (auto simp: same_entries_def)
        with mark_loop_follows [OF Suc.IH ok Some M0 a(2), of 0 "length (infos M0)" gc'] lp
        show ?thesis by (simp add: child_listI [OF Some M0])
      qed
      with a(1) show ?thesis by simp
    qed
  qed
qed

lemma follows_start: "gc_ok g \<Longrightarrow> all_gray g \<Longrightarrow> follows g g []"
  by (simp add: follows_def coloured_by_def first_visited_def all_gray_def marked_def)

lemma child_list_children: "r \<in> set (child_list g h) \<Longrightarrow> (h, r) \<in> edges g"
proof -
  have "set (handle_list es) = {r. \<exists>e \<in> set es. ptr_is_ref e \<and> i_ptr e = Handle r}" for es
    by (auto simp: handle_list_def split: pointer.splits if_splits)
  then show "r \<in> set (child_list g h) \<Longrightarrow> (h, r) \<in> edges g"
    by (cases "mem_of g h"; cases "mems g (the (mem_of g h))")
       (auto simp: child_list_def edges_def children_def refs_in_def)
qed

lemma visits_reachable: "x \<in> set (visits n g h vs) \<Longrightarrow> x \<in> set vs \<or> (h, x) \<in> (edges g)\<^sup>*"
proof (induction n arbitrary: h vs)
  case (Suc n)
  have "x \<in> set (fold (visits n g) rs us) \<Longrightarrow> x \<in> set us \<or> (\<exists>r \<in> set rs. (r, x) \<in> (edges g)\<^sup>*)" for rs us
  proof (induction rs arbitrary: us)
    case (Cons r rs)
    then show ?case using Suc.IH [of r us] by fastforce
  qed simp
  note f = this
  show ?case
  proof (cases "\<exists>v \<in> set vs. cell g v = cell g h")
    case True
    with Suc.prems show ?thesis by auto
  next
    case False
    with Suc.prems have "x \<in> set (fold (visits n g) (child_list g h) (vs @ [h]))" by simp
    from f [OF this] show ?thesis
      using child_list_children [of _ g h] converse_rtrancl_into_rtrancl [of h _ "edges g" x] by auto
  qed
qed simp

text \<open>
  C11: Marking, from a state in which everything is grey, ends, whatever cycles and shared memories
  there are.  It changes colours only, apart from giving a memory to handles that had none.
  Afterwards every handle that can be reached along references has a memory that will be kept, in
  the colour of the flag \<open>deallocated\<close> of the first handle with that memory in the sequence of
  visits (a depth-first search along the entries in their order); later visits, through other
  handles of the same memory, do not change it.  All other memories are still grey.
\<close>

theorem mark_correct:
  assumes "gc_ok g" and "heaps g h \<noteq> None" and "all_gray g" and "next_ref g < n"
  shows "\<exists>g'. mark n h g = Inr g' \<and> gc_ok g' \<and> later g g' \<and>
    (\<forall>x. (h, x) \<in> (edges g)\<^sup>* \<longrightarrow> (\<exists>m M f d. mem_of g' x = Some m \<and> mems g' m = Some M \<and> \<not> keep_memory M \<and>
       first_visited g (visits n g h []) x = Some f \<and> (h, f) \<in> (edges g)\<^sup>* \<and> flag g f = Some d \<and> color M = flag_color d)) \<and>
    (\<forall>m M. mems g' m = Some M \<longrightarrow> marked_memory g h g' m M)"
proof -
  from mark_outcome [OF assms] obtain g' where g': "mark n h g = Inr g'" "gc_ok g'" "later g g'"
    "\<forall>x. (h, x) \<in> (edges g)\<^sup>* \<longrightarrow> mem_of g' x \<noteq> None"
    "\<forall>m M. mems g' m = Some M \<longrightarrow> marked_memory g h g' m M" by blast
  from followerD [OF mark_follower [OF assms(1)] follows_start [OF assms(1,3)] _ g'(1)] assms(2)
  have f: "follows g g' (visits n g h [])" by blast
  have "\<exists>m M f d. mem_of g' x = Some m \<and> mems g' m = Some M \<and> \<not> keep_memory M \<and>
       first_visited g (visits n g h []) x = Some f \<and> (h, f) \<in> (edges g)\<^sup>* \<and> flag g f = Some d \<and> color M = flag_color d"
    if x: "(h, x) \<in> (edges g)\<^sup>*" for x
  proof -
    from x g'(4) obtain m where m: "mem_of g' x = Some m" by blast
    from mem_of_Some [OF g'(2) m] obtain M where M: "mems g' m = Some M" by blast
    have k: "\<not> keep_memory M" "color M \<noteq> MANAGED_OBJECT_HEAP_COLOR_GRAY"
      using g'(5) [rule_format, OF M] x m flag_color_not_gray unfolding marked_memory_def by (metis (lifting))+
    have "x \<in> dom (heaps g')" using m by (auto simp: mem_of_def split: option.splits)
    then have "x \<in> dom (heaps g)" using later_dom [OF g'(3)] by simp
    from follows_colour [OF f this] m M k(2) obtain y d where y: "first_visited g (visits n g h []) x = Some y"
      "flag g y = Some d" "color M = flag_color d"
      by (cases "first_visited g (visits n g h []) x") (auto simp: coloured_by_def marked_def coloured_def)
    then have "y \<in> set (visits n g h [])" by (auto simp: first_visited_def find_Some_iff)
    with visits_reachable [of y n g h "[]"] have "(h, y) \<in> (edges g)\<^sup>*" by simp
    with y m M k show ?thesis by blast
  qed
  with g' show ?thesis by blast
qed

end
