(* ===== verification/GcSample.thy ===== *)
theory GcSample
  imports GcStore MarkOrder
begin

text \<open>
  The properties of the operations of the clients, uses that go wrong, and concrete heaps that the
  properties are applied to.
\<close>

section \<open>A sample heap\<close>

text \<open>
  The root refers to the objects 1 and 4.  Object 1 holds a number and refers to 6, which refers
  back to 1; object 4 holds a pointer with the client's destructor 9.
\<close>

definition memory_of :: "Info list \<Rightarrow> Memory" where
  "memory_of es = \<lparr>indexes = map i_index es, infos = es, color = MANAGED_OBJECT_HEAP_COLOR_GRAY, dealloc_count = 0,
     seen = False, keep_memory = False\<rparr>"

definition handle_on :: "ref \<Rightarrow> bool \<Rightarrow> ManagedObjectHeap" where
  "handle_on m d = \<lparr>tag = ''object'', memory = Some m, deallocated = d, lazy = False\<rparr>"

definition sample_heap :: "bool \<Rightarrow> gc" where
  "sample_heap d = \<lparr>heaps = [0 \<mapsto> handle_on 2 False, 1 \<mapsto> handle_on 3 False, 4 \<mapsto> handle_on 5 d, 6 \<mapsto> handle_on 7 False],
     mems = [2 \<mapsto> memory_of [heap_info 1 0, heap_info 4 1], 3 \<mapsto> memory_of [plain_info (Plain 5) Do_nothing 0, heap_info 6 1],
       5 \<mapsto> memory_of [plain_info (Plain 7) (Client 9) 0], 7 \<mapsto> memory_of [heap_info 1 0]],
     next_ref = 8, root = 0, inside_destructor = False, collect_count = 0, ran = []\<rparr>"

lemmas sample_defs = sample_heap_def memory_of_def handle_on_def heap_info_def plain_info_def

lemma sample_mems: "mems (sample_heap d) m = Some M \<Longrightarrow>
    m = 2 \<and> M = memory_of [heap_info 1 0, heap_info 4 1] \<or>
    m = 3 \<and> M = memory_of [plain_info (Plain 5) Do_nothing 0, heap_info 6 1] \<or>
    m = 5 \<and> M = memory_of [plain_info (Plain 7) (Client 9) 0] \<or> m = 7 \<and> M = memory_of [heap_info 1 0]"
  by (simp add: sample_heap_def split: if_splits)

lemma sample_heaps: "heaps (sample_heap d) h = Some hp \<Longrightarrow>
    h = 0 \<and> hp = handle_on 2 False \<or> h = 1 \<and> hp = handle_on 3 False \<or> h = 4 \<and> hp = handle_on 5 d \<or>
    h = 6 \<and> hp = handle_on 7 False"
  by (simp add: sample_heap_def split: if_splits)

lemma handle_on_ok: "mems g m \<noteq> None \<Longrightarrow> handle_ok g (handle_on m d)"
  by (simp add: handle_ok_def handle_on_def)

lemma memory_of_ok: "\<forall>e \<in> set es. entry_ok g e \<Longrightarrow> memory_ok g (memory_of es)"
  by (simp add: memory_ok_def memory_of_def)

lemma sample_entry_ok: "entry_ok (sample_heap d) (plain_info p k i)"
    "r \<in> {0, 1, 4, 6} \<Longrightarrow> entry_ok (sample_heap d) (heap_info r i)"
  by (simp add: entry_ok_def plain_info_def) (auto simp: entry_ok_def heap_info_def sample_heap_def)

lemma sample_gc_ok: "gc_ok (sample_heap d)"
  unfolding gc_ok_def
proof (intro conjI allI impI)
  fix x assume "heaps (sample_heap d) x \<noteq> None \<or> mems (sample_heap d) x \<noteq> None"
  then show "x < next_ref (sample_heap d)"
    using sample_heaps [of d x] sample_mems [of d x] by (auto simp: sample_heap_def)
next
  fix h hp assume "heaps (sample_heap d) h = Some hp"
  from sample_heaps [OF this] show "handle_ok (sample_heap d) hp"
    by (elim disjE conjE) (simp_all add: handle_ok_def handle_on_def sample_heap_def)
next
  fix m M assume "mems (sample_heap d) m = Some M"
  from sample_mems [OF this] show "memory_ok (sample_heap d) M"
    by (elim disjE conjE) (simp_all add: memory_of_ok sample_entry_ok)
qed (simp add: sample_heap_def)

lemma sample_dead: "dead (sample_heap d) x \<longleftrightarrow> d \<and> x = 4"
  by (auto simp: dead_def flag_def sample_heap_def handle_on_def)

lemma sample_gray: "all_gray (sample_heap d)"
  unfolding all_gray_def coloured_def using sample_mems by (fastforce simp: memory_of_def)

lemma sample_idle: "idle (sample_heap d)"
proof -
  have "\<not> seen_in (sample_heap d) m" for m
    unfolding seen_in_def using sample_mems by (fastforce simp: memory_of_def)
  then show ?thesis
    using sample_gc_ok sample_gray sample_dead by (simp add: idle_def) (simp add: sample_heap_def)
qed

lemma sample_mem_of: "mem_of (sample_heap d) h = [0 \<mapsto> 2, 1 \<mapsto> 3, 4 \<mapsto> 5, 6 \<mapsto> 7] h"
  by (auto simp: mem_of_def sample_heap_def handle_on_def)

lemma sample_entries: "entries (sample_heap d) 2 = [heap_info 1 0, heap_info 4 1]"
    "entries (sample_heap d) 5 = [plain_info (Plain 7) (Client 9) 0]"
    "entries (sample_heap d) 3 = [plain_info (Plain 5) Do_nothing 0, heap_info 6 1]"
    "entries (sample_heap d) 7 = [heap_info 1 0]"
  by (simp_all add: entries_def sample_heap_def memory_of_def)

lemma sample_no_children: "children (sample_heap d) 4 = {}"
  by (simp add: children_entries sample_mem_of sample_entries refers_def plain_info_def)

lemma sample_garbage: "garbage (sample_heap True) = {4}"
proof -
  have "4 \<in> children (sample_heap True) 0"
    by (simp add: children_entries sample_mem_of sample_entries refers_def heap_info_def)
  then have "4 \<in> reachable (sample_heap True)"
    by (auto simp: reachable_def edges_def sample_heap_def)
  then show ?thesis by (auto simp: garbage_def sample_dead)
qed

lemma sample_garbage_ok: "garbage_ok (sample_heap True) 4"
proof -
  have "(4, y) \<notin> edges (sample_heap True)" for y by (simp add: edges_def sample_no_children)
  then have "(4, 4) \<notin> (edges (sample_heap True))\<^sup>+" by (meson tranclD)
  moreover have "dom (mems (sample_heap True)) = {2, 3, 5, 7}" by (auto simp: sample_heap_def)
  then have "refs_to (sample_heap True) 4 \<le> 1"
    by (simp add: refs_to_def sample_entries refers_def heap_info_def plain_info_def)
  moreover have "y = 4" if "mem_of (sample_heap True) y = Some 5" for y
    using that by (simp add: sample_mem_of split: if_splits)
  moreover have "\<forall>e \<in> set (entries (sample_heap True) 5). plain_ok e"
    by (simp add: sample_entries plain_ok_def plain_info_def)
  moreover have "m = 5" if "mem_of (sample_heap True) 4 = Some m" for m
    using that by (simp add: sample_mem_of)
  ultimately show ?thesis
    unfolding garbage_ok_def sample_garbage sample_no_children by blast
qed

lemma sample_collectable: "collectable (sample_heap True)"
  by (simp add: collectable_def sample_idle sample_garbage sample_garbage_ok)

section \<open>Marking and collecting the sample\<close>

theorem mark_correct_witness:
  "\<exists>g'. mark 9 0 (sample_heap True) = Inr g' \<and> gc_ok g' \<and> later (sample_heap True) g' \<and>
    (\<forall>x. (0, x) \<in> (edges (sample_heap True))\<^sup>* \<longrightarrow> (\<exists>m M f d. mem_of g' x = Some m \<and> mems g' m = Some M \<and>
       \<not> keep_memory M \<and> first_visited (sample_heap True) (visits 9 (sample_heap True) 0 []) x = Some f \<and>
       (0, f) \<in> (edges (sample_heap True))\<^sup>* \<and> flag (sample_heap True) f = Some d \<and> color M = flag_color d)) \<and>
    (\<forall>m M. mems g' m = Some M \<longrightarrow> marked_memory (sample_heap True) 0 g' m M)"
  by (rule mark_correct [OF sample_gc_ok _ sample_gray]) (simp_all add: sample_heap_def)

theorem collect_correct_witness:
  "\<exists>s g' evs. collect_all (sample_heap True) = Inr (s, g') \<and> survivors (sample_heap True) g' \<and>
    ran g' = ran (sample_heap True) @ evs \<and> destroyed (sample_heap True) evs \<and> idle g' \<and> garbage g' = {}"
  by (rule collect_correct [OF sample_collectable])

theorem collect_keeps_live_witness:
  "\<exists>g'. collect_all (sample_heap False) = Inr (0, g') \<and> attrs g' = attrs (sample_heap False) \<and>
    (\<forall>x m. mem_of (sample_heap False) x = Some m \<longrightarrow> mem_of g' x = Some m) \<and>
    (\<forall>m. entries g' m = entries (sample_heap False) m) \<and> ran g' = ran (sample_heap False) \<and> idle g'"
  by (rule collect_keeps_live [OF sample_idle]) (simp add: sample_dead)

section \<open>Pushing, references and deallocation\<close>

lemma push_value_step:
  assumes "idle g" and "heaps g h \<noteq> None" and "to_uintptr x = Inr w"
  shows "\<exists>i g'. push_value h x g = Inr (i, g') \<and> idle g' \<and> heaps g' h \<noteq> None"
  using push_word_law [OF assms(1,2), of w] assms(3) by (auto simp: push_value_def)

lemma push_undefined:
  "idle g \<Longrightarrow> heaps g h \<noteq> None \<Longrightarrow> \<exists>x \<in> set xs. to_uintptr x = Inl Undefined_behaviour \<Longrightarrow>
    store_all (push_value h) xs g = Inl Undefined_behaviour"
proof (induction xs arbitrary: g)
  case (Cons x xs)
  show ?case
  proof (cases "to_uintptr x")
    case (Inl f)
    then show ?thesis using to_uintptr_cases [of x] by (simp add: push_value_def)
  next
    case (Inr w)
    from push_value_step [OF Cons.prems(1,2) Inr] obtain i g1 where
      "push_value h x g = Inr (i, g1)" "idle g1" "heaps g1 h \<noteq> None" by blast
    with Cons.IH [of g1] Cons.prems(3) Inr show ?thesis by auto
  qed
qed simp

lemma push_all_words:
  "\<forall>x \<in> set xs. \<exists>w. to_uintptr x = Inr w \<Longrightarrow>
    \<exists>ws. map to_uintptr xs = map Inr ws \<and> length ws = length xs \<and>
      (\<forall>g. store_all (push_value h) xs g = store_all (push_word h) ws g)"
proof (induction xs)
  case (Cons x xs)
  then obtain w ws where "to_uintptr x = Inr w" "map to_uintptr xs = map Inr ws" "length ws = length xs"
    "\<forall>g. store_all (push_value h) xs g = store_all (push_word h) ws g" by auto
  moreover from this(1) have "push_value h x g = push_word h w g" for g by (simp add: push_value_def)
  ultimately show ?case by (intro exI [of _ "w # ws"]) simp
qed simp

text \<open>
  C21: Values of the arithmetic types that are pushed one after the other.  If one of them cannot be
  converted to an unsigned word (a floating value that is infinite, not a number, too large, or
  negative and not above -1), that is undefined behaviour.  Otherwise they get different indices,
  each index leads to the converted value after all pushes, and every value that could be read before
  can still be read at its index.  An integer is read back as it was; a floating value is not, what is
  read are the bytes of its integer part.
\<close>

theorem push_all_get:
  assumes "idle g" and "heaps g h \<noteq> None"
  shows "if \<exists>x \<in> set xs. to_uintptr x = Inl Undefined_behaviour
    then store_all (push_value h) xs g = Inl Undefined_behaviour
    else \<exists>is g'. store_all (push_value h) xs g = Inr (is, g') \<and> idle g' \<and> distinct is \<and> length is = length xs \<and>
      (\<forall>k < length xs. \<exists>w. to_uintptr (xs ! k) = Inr w \<and> get_value_at h (is ! k) g' = Inr (Plain w, g') \<and>
         get_value_like address (xs ! k) h (is ! k) g' = Inr (if is_integer (xs ! k) then xs ! k else read_like (xs ! k) w, g')) \<and>
      (\<forall>j v. get_value_at h j g = Inr (Plain v, g) \<longrightarrow> get_value_at h j g' = Inr (Plain v, g'))"
proof (cases "\<exists>x \<in> set xs. to_uintptr x = Inl Undefined_behaviour")
  case True
  with push_undefined [OF assms] show ?thesis by simp
next
  case False
  then have "\<forall>x \<in> set xs. \<exists>w. to_uintptr x = Inr w" using to_uintptr_cases by blast
  from push_all_words [OF this, of h] obtain ws where ws: "map to_uintptr xs = map Inr ws" "length ws = length xs"
    "store_all (push_value h) xs g = store_all (push_word h) ws g" by blast
  from pushed_values.store_all_loads [of g h ws] assms obtain "is" g' where
    s: "store_all (push_word h) ws g = Inr (is, g')" "idle g'" "map (load_plain h g') is = map Some ws" "distinct is"
    and old: "\<forall>j v. load_plain h g j = Some v \<longrightarrow> load_plain h g' j = Some v" by auto
  have len: "length is = length xs" using arg_cong [OF s(3), of length] ws(2) by simp
  have "to_uintptr (xs ! k) = Inr (ws ! k) \<and> get_value_at h (is ! k) g' = Inr (Plain (ws ! k), g') \<and>
      get_value_like address (xs ! k) h (is ! k) g' =
        Inr (if is_integer (xs ! k) then xs ! k else read_like (xs ! k) (ws ! k), g')" if k: "k < length xs" for k
  proof -
    have w: "to_uintptr (xs ! k) = Inr (ws ! k)" using arg_cong [OF ws(1), of "\<lambda>ys. ys ! k"] k ws(2) by simp
    have "load_plain h g' (is ! k) = Some (ws ! k)" using arg_cong [OF s(3), of "\<lambda>ys. ys ! k"] k ws(2) len by simp
    then have "get_value_at h (is ! k) g' = Inr (Plain (ws ! k), g')" using load_plain_iff by blast
    with w integer_converted [of "xs ! k"] show ?thesis by (auto simp: get_value_like_def pointer_word_def)
  qed
  then have "\<forall>k < length xs. \<exists>w. to_uintptr (xs ! k) = Inr w \<and> get_value_at h (is ! k) g' = Inr (Plain w, g') \<and>
      get_value_like address (xs ! k) h (is ! k) g' = Inr (if is_integer (xs ! k) then xs ! k else read_like (xs ! k) w, g')"
    by blast
  moreover note s(1) [folded ws(3)] s(2,4) len old [unfolded load_plain_iff]
  ultimately have "\<exists>is g'. store_all (push_value h) xs g = Inr (is, g') \<and> idle g' \<and> distinct is \<and> length is = length xs \<and>
      (\<forall>k < length xs. \<exists>w. to_uintptr (xs ! k) = Inr w \<and> get_value_at h (is ! k) g' = Inr (Plain w, g') \<and>
         get_value_like address (xs ! k) h (is ! k) g' = Inr (if is_integer (xs ! k) then xs ! k else read_like (xs ! k) w, g')) \<and>
      (\<forall>j v. get_value_at h j g = Inr (Plain v, g) \<longrightarrow> get_value_at h j g' = Inr (Plain v, g'))"
    by blast
  then show ?thesis using False by (simp only: if_False)
qed

text \<open>The integer 200 in 8 bits with sign, and one and a half.\<close>

theorem push_all_get_witness:
  "\<exists>is g'. store_all (push_value 1) [S8 200, Float64 0x3FF8000000000000] (sample_heap False) = Inr (is, g') \<and>
    idle g' \<and> distinct is \<and> length is = 2 \<and>
    get_value_at 1 (is ! 0) g' = Inr (Plain 0xFFFFFFFFFFFFFFC8, g') \<and> get_value_like (\<lambda>r. 0) (S8 200) 1 (is ! 0) g' = Inr (S8 200, g') \<and>
    get_value_at 1 (is ! 1) g' = Inr (Plain 1, g') \<and> get_value_at 1 0 g' = Inr (Plain 5, g')"
proof -
  let ?xs = "[S8 200, Float64 0x3FF8000000000000]"
  have "heaps (sample_heap False) 1 \<noteq> None" by (simp add: sample_heap_def)
  note p = push_all_get [OF sample_idle this, of ?xs "\<lambda>r. 0"]
  have c: "to_uintptr (S8 200) = Inr 0xFFFFFFFFFFFFFFC8" by simp
  have d: "\<not> (\<exists>x \<in> set ?xs. to_uintptr x = Inl Undefined_behaviour)" using c one_and_a_half(1) by simp
  from p [unfolded if_not_P [OF d]] obtain "is" g' where
    s: "store_all (push_value 1) ?xs (sample_heap False) = Inr (is, g')" "idle g'" "distinct is" "length is = length ?xs"
    and k: "\<forall>k < length ?xs. \<exists>w. to_uintptr (?xs ! k) = Inr w \<and> get_value_at 1 (is ! k) g' = Inr (Plain w, g') \<and>
      get_value_like (\<lambda>r. 0) (?xs ! k) 1 (is ! k) g' = Inr (if is_integer (?xs ! k) then ?xs ! k else read_like (?xs ! k) w, g')"
    and old: "\<forall>j v. get_value_at 1 j (sample_heap False) = Inr (Plain v, sample_heap False) \<longrightarrow> get_value_at 1 j g' = Inr (Plain v, g')"
    by blast
  have "get_value_at 1 0 (sample_heap False) = Inr (Plain 5, sample_heap False)"
    using get_value_outcome [of "sample_heap False" 1 3 0] by (simp add: sample_mem_of sample_entries plain_info_def)
  moreover have "get_value_at 1 (is ! 0) g' = Inr (Plain 0xFFFFFFFFFFFFFFC8, g') \<and> get_value_like (\<lambda>r. 0) (S8 200) 1 (is ! 0) g' = Inr (S8 200, g')"
    using spec [OF k, of 0] c by auto
  moreover have "get_value_at 1 (is ! 1) g' = Inr (Plain 1, g')" using spec [OF k, of 1] one_and_a_half(1) by auto
  ultimately show ?thesis using s old by auto
qed

text \<open>
  C19: Copying an object.  If the original has a memory already, the copy shares it: what is pushed
  through the copy is read through the original, at the same index.  If the original was not used yet, each of the
  two makes a memory of its own: the index that a push to the copy returns is out of range in the original.
\<close>

theorem copy_shares:
  assumes id: "idle g" and h: "heaps g h \<noteq> None" "h \<noteq> root g"
  shows "\<exists>c g'. copy_ManagedObject h g = Inr (c, g') \<and> idle g' \<and> heaps g c = None \<and> heaps g' c \<noteq> None \<and>
    (\<forall>x v. to_uintptr x = Inr v \<longrightarrow> (\<exists>i g''. push_value c x g' = Inr (i, g'') \<and> idle g'' \<and>
       get_value_at h i g'' = (if mem_of g h = None then Inl Undefined_behaviour else Inr (Plain v, g''))))"
proof -
  from h(1) obtain hp where hp: "heaps g h = Some hp" by blast
  from copy_ManagedObject_outcome [OF id hp] obtain c g' where c: "copy_ManagedObject h g = Inr (c, g')" "idle g'"
    and ro: "rooted g c hp g'" by blast
  have new: "heaps g c = None" and mc: "mem_of g' c = mem_of g h" and at: "attrs g' c \<noteq> None"
    using ro hp by (simp_all add: rooted_def mem_of_def)
  have hc: "h \<noteq> c" using new h(1) by auto
  have mh: "mem_of g' h = mem_of g h" using ro hc h(2) by (simp add: rooted_def)
  have c': "heaps g' c \<noteq> None" using at by (simp add: attrs_def)
  have hh: "heaps g' h \<noteq> None" using ro hc h(1) unfolding rooted_def attrs_def by (metis (no_types, lifting) fun_upd_apply option.map_disc_iff)
  have "\<exists>i g''. push_value c x g' = Inr (i, g'') \<and> idle g'' \<and>
      get_value_at h i g'' = (if mem_of g h = None then Inl Undefined_behaviour else Inr (Plain v, g''))"
    if x: "to_uintptr x = Inr v" for x v
  proof -
    from push_plain_outcome [OF c(2) c', of "Plain v" Do_nothing] obtain m g''
      where p: "push_value c x g' = Inr (length (entries g' m), g'')" "idle g''"
        and pu: "pushed g' c m (plain_info (Plain v) Do_nothing (length (entries g' m))) g''"
      using x by (auto simp: push_value_def push_word_pointer)
    have mh'': "mem_of g'' h = mem_of g h" using pu_others [OF pu hc] mh by simp
    show ?thesis
    proof (cases "mem_of g h")
      case None
      have "attrs g'' h \<noteq> None" using pu_attrs [OF pu] hh by (simp add: attrs_def)
      then have "heaps g'' h \<noteq> None" by (simp add: attrs_def)
      with get_value_lazy [OF idle_gc_ok [OF p(2)] this] mh'' None p show ?thesis by auto
    next
      case (Some k)
      then have "k = m" using pu_old [OF pu] mc by auto
      with get_value_outcome [of g'' h m "length (entries g' m)"] mh'' Some pu_new [OF pu] p show ?thesis
        by (auto simp: plain_info_def)
    qed
  qed
  with c new c' show ?thesis by blast
qed

theorem copy_shares_witness:
  "\<exists>c g'. copy_ManagedObject 1 (sample_heap False) = Inr (c, g') \<and> idle g' \<and> heaps (sample_heap False) c = None \<and>
    heaps g' c \<noteq> None \<and> (\<forall>x v. to_uintptr x = Inr v \<longrightarrow> (\<exists>i g''. push_value c x g' = Inr (i, g'') \<and> idle g'' \<and>
      get_value_at 1 i g'' = (if mem_of (sample_heap False) 1 = None then Inl Undefined_behaviour else Inr (Plain v, g''))))"
  by (rule copy_shares [OF sample_idle]) (simp_all add: sample_heap_def)






section \<open>Reached states\<close>

text \<open>
  C17: A client that keeps to its side of the contract meets no fault: in every state that the
  operations reach from the start of the program, every pointer leads to something that exists,
  the index numbers of every memory are those of its entries, everything is grey and unseen, and every
  operation that is allowed returns.
\<close>

theorem gc_reached_sound:
  assumes "gc_reached g"
  shows "idle g \<and> (\<forall>c. op_allowed g c \<longrightarrow> (\<exists>g'. run_op c g = Inr g'))"
  using gc_reached_idle [OF assms] run_op_outcome by blast

theorem gc_reached_sound_witness:
  "\<exists>g. run_op (New_object ''a'') get_root = Inr g \<and> heaps g 1 \<noteq> None \<and>
    idle g \<and> (\<forall>c. op_allowed g c \<longrightarrow> (\<exists>g'. run_op c g = Inr g'))"
proof -
  have "case run_op (New_object ''a'') get_root of Inl f \<Rightarrow> False | Inr g \<Rightarrow> heaps g 1 \<noteq> None" by code_simp
  then obtain g where g: "run_op (New_object ''a'') get_root = Inr g" "heaps g 1 \<noteq> None"
    by (auto split: sum.splits)
  then have "gc_reached g" by (intro gc_reached.step [OF gc_reached.start _ g(1)]) simp
  with g gc_reached_sound show ?thesis by blast
qed

section \<open>Uses that go wrong\<close>

fun run_ops :: "gc_op list \<Rightarrow> gc \<Rightarrow> fault + gc" where
  "run_ops [] g = Inr g"
| "run_ops (c # cs) g = andthen (run_op c g) (run_ops cs)"

definition is_undefined :: "fault + gc \<Rightarrow> bool" where
  "is_undefined r \<longleftrightarrow> (case r of Inl f \<Rightarrow> f = Undefined_behaviour | Inr g \<Rightarrow> False)"

text \<open>
  What the guards exclude does go wrong.  If an object was copied and the original is deallocated, a
  collection deletes the handle of the copy, which is not deallocated.
\<close>

lemma copy_loses_memory:
  "case run_ops [New_object a, Push_value 1 (U64 v), Copy_object 1, Dealloc_object 1, Collect] get_root of
     Inl f \<Rightarrow> False | Inr g \<Rightarrow> heaps g 4 = None \<and> Heap_deleted 4 \<in> set (ran g)"
  by code_simp

text \<open>If a dead object with a value has a live one below it, the sweep reads beyond the end of a vector.\<close>

lemma live_below_dead:
  "is_undefined (run_ops [New_object a, Push_value 1 (U64 v), New_object b, By_ref 1 4, Dealloc_object 1, Collect] get_root)"
  by code_simp

text \<open>If two objects refer to a dead one, its handle is deleted twice.\<close>

lemma two_parents:
  "is_undefined (run_ops [New_object a, New_object b, New_object c, By_ref 1 3, By_ref 4 3, Dealloc_object 3, Collect] get_root)"
  by code_simp

text \<open>If dead objects refer to each other in a cycle that is in reach, they are deleted twice as well.\<close>

lemma dead_cycle:
  "is_undefined (run_ops [New_object a, New_object b, New_object c, By_ref 1 3, By_ref 3 4, By_ref 4 3,
     Dealloc_object 3, Dealloc_object 4, Collect] get_root)"
  by code_simp

end
