(* ===== verification/GcPrint.thy ===== *)
theory GcPrint
  imports GcSample
begin

text \<open>
  Printing the graph of handles (\<open>print\<close> and \<open>color\<close> in \<open>src/src/managed_object_heap.cpp\<close>): the
  text, and that printing ends on every graph and leaves the heap as it is.
\<close>

section \<open>Text\<close>

text \<open>
  A printer gives its text and the state after it: printing asks handles for their memory, which they may
  make then.  The prefix that the code passes down as a closure is a printer.  How \<open>%p\<close> shows addresses is an
  argument: \<open>fp\<close> for handles and memories, \<open>fv\<close> for other pointers.
\<close>

type_synonym printer = "gc \<Rightarrow> fault + string \<times> gc"

fun show_nat :: "nat \<Rightarrow> string" where
  "show_nat n = (if n < 10 then [char_of (48 + n)] else show_nat (n div 10) @ [char_of (48 + n mod 10)])"

declare show_nat.simps [simp del]

definition eol :: string where
  "eol = [CHR 0x0A]"

fun color_to_string :: "color \<Rightarrow> string" where
  "color_to_string MANAGED_OBJECT_HEAP_COLOR_WHITE = ''WHITE''"
| "color_to_string MANAGED_OBJECT_HEAP_COLOR_GRAY = ''GRAY''"
| "color_to_string MANAGED_OBJECT_HEAP_COLOR_BLACK = ''BLACK''"

primrec prints :: "printer list \<Rightarrow> printer" where
  "prints [] g = Inr ('''', g)"
| "prints (p # ps) g = andthen (p g) (\<lambda>(s, g1). andthen (prints ps g1) (\<lambda>(t, g2). Inr (s @ t, g2)))"

definition text_out :: "string \<Rightarrow> printer" where
  "text_out s g = Inr (s, g)"

definition mem_out :: "(ref \<Rightarrow> string) \<Rightarrow> ref \<Rightarrow> printer" where
  "mem_out fp h g = andthen (get_memory h g) (\<lambda>(m, g1). Inr (fp m, g1))"

definition tag_out :: "ref \<Rightarrow> printer" where
  "tag_out h g = andthen (get_heap h g) (\<lambda>hp. Inr (tag hp, g))"

definition color_out :: "ref \<Rightarrow> printer" where
  "color_out h g = andthen (get_memory h g) (\<lambda>(m, g1). andthen (get_mem m g1) (\<lambda>M. Inr (color_to_string (color M), g1)))"

definition dealloc_out :: "ref \<Rightarrow> printer" where
  "dealloc_out h g = andthen (get_heap h g) (\<lambda>hp. Inr (if deallocated hp then ''[deallocated] '' else '''', g))"

text \<open>\<open>[(ref %p, mem %p), %s\<close>, with which every line of a handle begins.\<close>

definition here :: "(ref \<Rightarrow> string) \<Rightarrow> ref \<Rightarrow> printer" where
  "here fp h = prints [text_out (''[(ref '' @ fp h @ '', mem ''), mem_out fp h, text_out ''), '', tag_out h]"

definition at_index :: "nat \<Rightarrow> string" where
  "at_index i = ''] memory['' @ show_nat i @ ''] = ''"

section \<open>The traversal\<close>

text \<open>The loop over the entries of the memory of \<open>h\<close>.\<close>

primrec print_loop :: "(nat \<Rightarrow> Info \<Rightarrow> printer) \<Rightarrow> ref \<Rightarrow> nat \<Rightarrow> nat \<Rightarrow> printer" where
  "print_loop pe h i 0 g = Inr ('''', g)"
| "print_loop pe h i (Suc k) g =
     andthen (get_memory h g) (\<lambda>(m, g1). andthen (get_mem m g1) (\<lambda>M.
       if i < length (infos M)
       then andthen (pe i (infos M ! i) g1) (\<lambda>(s, g2). andthen (print_loop pe h (Suc i) k g2) (\<lambda>(t, g3). Inr (s @ t, g3)))
       else Inl Undefined_behaviour))"

text \<open>The loop with the mark against cycles around it.\<close>

definition print_seen :: "(nat \<Rightarrow> Info \<Rightarrow> printer) \<Rightarrow> ref \<Rightarrow> ref \<Rightarrow> nat \<Rightarrow> printer" where
  "print_seen pe h m k g = andthen (get_mem m g) (\<lambda>M.
     andthen (print_loop pe h 0 k (put_mem m (M\<lparr>seen := True\<rparr>) g)) (\<lambda>(s, g1).
     andthen (get_mem m g1) (\<lambda>M1. Inr (s, put_mem m (M1\<lparr>seen := False\<rparr>) g1))))"

definition print_entry ::
  "(ref \<Rightarrow> string) \<Rightarrow> (pointer \<Rightarrow> string) \<Rightarrow> (printer \<Rightarrow> ref \<Rightarrow> printer) \<Rightarrow> printer \<Rightarrow> ref \<Rightarrow> nat \<Rightarrow> Info \<Rightarrow> printer"
where
  "print_entry fp fv pr prefix h i info g =
     (if \<not> ptr_is_ref info
      then prints [prefix, here fp h, text_out (at_index i @ fv (i_ptr info) @ eol)] g
      else andthen (MANAGED_OBJECT_GET_HEAP info) (\<lambda>ref.
        case ref of
          None \<Rightarrow> prints [prefix, here fp h, text_out (at_index i @ fv Null @ eol)] g
        | Some r \<Rightarrow> pr (prints [prefix, here fp h, text_out (at_index i @ ''(ref '' @ fp r @ '', mem ''), mem_out fp r,
            text_out '') '']) r g))"

text \<open>The recursion follows references; the number bounds its depth.\<close>

fun print_from :: "(ref \<Rightarrow> string) \<Rightarrow> (pointer \<Rightarrow> string) \<Rightarrow> nat \<Rightarrow> printer \<Rightarrow> ref \<Rightarrow> printer" where
  "print_from fp fv 0 prefix h g = Inl Diverges"
| "print_from fp fv (Suc n) prefix h g =
     andthen (get_memory h g) (\<lambda>(m, g1). andthen (get_mem m g1) (\<lambda>M. andthen (get_heap h g1) (\<lambda>hp.
       if infos M = []
       then prints [prefix, here fp h, text_out '' '', dealloc_out h, text_out (''[ZERO SIZE] ]'' @ eol)] g1
       else if seen M
       then prints [prefix, here fp h, text_out '' '', dealloc_out h, text_out (''[CYCLIC DETECTED] ]'' @ eol)] g1
       else if deallocated hp
       then prints [prefix, here fp h, text_out ('' [deallocated] ]'' @ eol)] g1
       else print_seen (print_entry fp fv (print_from fp fv n) prefix h) h m (length (infos M)) g1)))"

definition color_entry ::
  "(ref \<Rightarrow> string) \<Rightarrow> (pointer \<Rightarrow> string) \<Rightarrow> (printer \<Rightarrow> ref \<Rightarrow> printer) \<Rightarrow> printer \<Rightarrow> ref \<Rightarrow> nat \<Rightarrow> Info \<Rightarrow> printer"
where
  "color_entry fp fv pr prefix h i info g =
     (let head = [prefix, here fp h, text_out '' ['', color_out h, text_out ''] '', dealloc_out h]
      in if \<not> ptr_is_ref info
         then prints (head @ [text_out (at_index i @ fv (i_ptr info) @ eol)]) g
         else andthen (MANAGED_OBJECT_GET_HEAP info) (\<lambda>ref.
           case ref of
             None \<Rightarrow> prints (head @ [text_out (at_index i @ fv Null @ eol)]) g
           | Some r \<Rightarrow> pr (prints (head @ [text_out (at_index i)])) r g))"

fun color_from :: "(ref \<Rightarrow> string) \<Rightarrow> (pointer \<Rightarrow> string) \<Rightarrow> nat \<Rightarrow> printer \<Rightarrow> ref \<Rightarrow> printer" where
  "color_from fp fv 0 prefix h g = Inl Diverges"
| "color_from fp fv (Suc n) prefix h g =
     andthen (get_memory h g) (\<lambda>(m, g1). andthen (get_mem m g1) (\<lambda>M. andthen (get_heap h g1) (\<lambda>hp.
       let head = [prefix, here fp h, text_out '' ['', color_out h, text_out ''] '']
       in if infos M = []
          then prints (head @ [dealloc_out h, text_out (''[ZERO SIZE] ]'' @ eol)]) g1
          else if seen M
          then prints (head @ [dealloc_out h, text_out (''[CYCLIC DETECTED] ]'' @ eol)]) g1
          else prints [if deallocated hp then prints (head @ [text_out (''[deallocated] ]'' @ eol)]) else text_out '''',
                 print_seen (color_entry fp fv (color_from fp fv n) prefix h) h m (length (infos M))] g1)))"

definition print_heap :: "(ref \<Rightarrow> string) \<Rightarrow> (pointer \<Rightarrow> string) \<Rightarrow> ref \<Rightarrow> printer" where
  "print_heap fp fv h g = print_from fp fv (Suc (next_ref g)) (text_out '''') h g"

definition color_heap :: "(ref \<Rightarrow> string) \<Rightarrow> (pointer \<Rightarrow> string) \<Rightarrow> ref \<Rightarrow> printer" where
  "color_heap fp fv h g = color_from fp fv (Suc (next_ref g)) (text_out '''') h g"

section \<open>What printing leaves alone\<close>

text \<open>
  The later state differs from the earlier one in nothing but new, empty memories of handles that had none.
\<close>

definition quiet :: "gc \<Rightarrow> gc \<Rightarrow> bool" where
  "quiet g g' \<longleftrightarrow> gc_ok g' \<and> later g g' \<and> (\<forall>m M. mems g m = Some M \<longrightarrow> mems g' m = Some M) \<and>
     (\<forall>m M. mems g m = None \<longrightarrow> mems g' m = Some M \<longrightarrow> M = new_Memory)"

lemma quietD:
  assumes "quiet g g'"
  shows quiet_ok: "gc_ok g'" and quiet_later: "later g g'"
    and quiet_mem: "mems g m = Some M \<Longrightarrow> mems g' m = Some M"
    and quiet_new: "mems g m = None \<Longrightarrow> mems g' m = Some M \<Longrightarrow> M = new_Memory"
  using assms unfolding quiet_def by blast+

lemma quiet_refl: "gc_ok g \<Longrightarrow> quiet g g"
  by (simp add: quiet_def)

lemma quiet_trans:
  assumes "quiet g g'" and "quiet g' g''"
  shows "quiet g g''"
  unfolding quiet_def
proof (intro conjI allI impI)
  show "gc_ok g''" by (rule quiet_ok [OF assms(2)])
  show "later g g''" by (rule later_trans [OF quiet_later [OF assms(1)] quiet_later [OF assms(2)]])
next
  fix m M assume "mems g m = Some M"
  then show "mems g'' m = Some M" by (intro quiet_mem [OF assms(2)] quiet_mem [OF assms(1)])
next
  fix m M assume m: "mems g m = None" "mems g'' m = Some M"
  show "M = new_Memory"
  proof (cases "mems g' m")
    case None
    then show ?thesis using quiet_new [OF assms(2)] m(2) by blast
  next
    case (Some M1)
    then have "M1 = new_Memory" using quiet_new [OF assms(1) m(1)] by blast
    with quiet_mem [OF assms(2) Some] m(2) show ?thesis by simp
  qed
qed

lemma get_memory_quiet:
  assumes ok: "gc_ok g" and h: "heaps g h = Some hp"
  obtains m g1 M where "get_memory h g = Inr (m, g1)" "mems g1 m = Some M" "quiet g g1" "mem_of g1 h = Some m"
proof -
  from get_memory_outcome [OF ok h] obtain m g1 M where gm: "get_memory h g = Inr (m, g1)" "mems g1 m = Some M" "gc_ok g1"
    and l: "if lazy hp then m = next_ref g \<and> M = new_Memory \<and> g1 = g\<lparr>heaps := (heaps g)(h \<mapsto> hp\<lparr>memory := Some m, lazy := False\<rparr>),
       mems := (mems g)(m \<mapsto> new_Memory), next_ref := Suc m\<rparr> else g1 = g" and mo: "mem_of g1 h = Some m" by blast
  from get_memory_marks [OF ok h] gm(1) have "marks g {} g1" by auto
  then have "later g g1" by (simp add: marks_def)
  moreover have "mems g (next_ref g) = None" using gc_ok_fresh [OF ok] by simp
  ultimately have "quiet g g1" using gm(3) l by (auto simp: quiet_def split: if_splits)
  with gm mo show ?thesis by (rule_tac that)
qed

text \<open>Setting the mark, a quiet change, and resetting the mark.\<close>

lemma quiet_bracket:
  assumes ok: "gc_ok g" and M: "mems g m = Some M" "\<not> seen M" and q: "quiet (put_mem m (M\<lparr>seen := True\<rparr>) g) g1"
  shows "mems g1 m = Some (M\<lparr>seen := True\<rparr>)" and "quiet g (put_mem m M g1)"
proof -
  let ?g = "put_mem m (M\<lparr>seen := True\<rparr>) g"
  note l = quiet_later [OF q]
  show M1: "mems g1 m = Some (M\<lparr>seen := True\<rparr>)" by (rule quiet_mem [OF q]) (simp add: put_mem_def)
  have mo: "mem_of (put_mem m X a) x = mem_of a x" for X a x by (simp add: mem_of_def put_mem_def)
  have new: "empty_new g (put_mem m M g1) x" if "empty_new ?g g1 x" for x
    using that by (cases "x = m") (auto simp: empty_new_def put_mem_def)
  have "later g (put_mem m M g1)"
    unfolding later_def mo
  proof (intro conjI allI impI)
    show "attrs (put_mem m M g1) = attrs g" "frame (put_mem m M g1) = frame g" "next_ref g \<le> next_ref (put_mem m M g1)"
      using later_attrs [OF l] later_frame [OF l] later_next [OF l] by (simp_all add: attrs_def frame_def put_mem_def fun_eq_iff)
    show "mem_of g h = Some x \<Longrightarrow> mem_of g1 h = Some x" for h x using later_mem_of [OF l] by (simp add: mo)
    show "mem_of g1 h = Some x \<Longrightarrow> mem_of g h = Some x \<or> empty_new g (put_mem m M g1) x" for h x
      using later_new [OF l] new by (auto simp: mo)
    show "mems g x = None \<Longrightarrow> mems (put_mem m M g1) x \<noteq> None \<Longrightarrow> empty_new g (put_mem m M g1) x" for x
      using later_fresh [OF l, of x] new M by (auto simp: put_mem_def split: if_splits)
    show "mem_of g h = None \<Longrightarrow> mem_of g1 h = Some x \<Longrightarrow> mem_of g1 h' = Some x \<Longrightarrow> h' = h" for h h' x
      using later_unshared [OF l] by (simp add: mo)
    show "mems g x = Some X \<Longrightarrow> \<exists>M'. mems (put_mem m M g1) x = Some M' \<and> same_entries X M'" for x X
      using quiet_mem [OF q, of x] M by (auto simp: put_mem_def)
  qed
  moreover have "gc_ok (put_mem m M g1)"
  proof (rule gc_ok_put_mem [OF quiet_ok [OF q]])
    show "mems g1 m \<noteq> None" using M1 by simp
    have "memory_ok g1 (M\<lparr>seen := True\<rparr>)" using gc_okD(5) [OF quiet_ok [OF q] M1] .
    then show "memory_ok g1 M" by (simp add: memory_ok_def)
  qed
  moreover have "mems g x = Some X \<Longrightarrow> mems (put_mem m M g1) x = Some X" for x X
    using quiet_mem [OF q, of x X] M by (cases "x = m") (auto simp: put_mem_def)
  moreover have "X = new_Memory" if "mems g x = None" "mems (put_mem m M g1) x = Some X" for x X
  proof -
    have "x \<noteq> m" using that(1) M(1) by auto
    then show ?thesis using quiet_new [OF q, of x X] that by (simp add: put_mem_def)
  qed
  ultimately show "quiet g (put_mem m M g1)" by (simp add: quiet_def)
qed

section \<open>Printers that leave the heap alone\<close>

text \<open>The memories that a traversal can still enter; each of them bounds the depth by one.\<close>

definition opens :: "gc \<Rightarrow> ref set" where
  "opens g = {m. \<exists>M. mems g m = Some M \<and> infos M \<noteq> [] \<and> \<not> seen M}"

lemma opens_quiet: "quiet g g' \<Longrightarrow> opens g' = opens g"
proof (rule set_eqI)
  fix m assume q: "quiet g g'"
  show "m \<in> opens g' \<longleftrightarrow> m \<in> opens g"
  proof (cases "mems g m")
    case None
    then show ?thesis using quiet_new [OF q None] by (auto simp: opens_def new_Memory_def)
  next
    case (Some M)
    then show ?thesis using quiet_mem [OF q Some] by (simp add: opens_def)
  qed
qed

lemma opens_finite: "gc_ok g \<Longrightarrow> finite (opens g) \<and> card (opens g) \<le> next_ref g"
proof -
  assume ok: "gc_ok g"
  have "opens g \<subseteq> {..<next_ref g}" using gc_okD(3) [OF ok] by (auto simp: opens_def)
  then show ?thesis using card_mono [of "{..<next_ref g}" "opens g"] finite_subset [of "opens g"] by auto
qed

lemma opens_enter:
  assumes "gc_ok g" and "mems g m = Some M" and "infos M \<noteq> []" and "\<not> seen M"
  shows "Suc (card (opens (put_mem m (M\<lparr>seen := True\<rparr>) g))) = card (opens g)"
proof -
  have "opens (put_mem m (M\<lparr>seen := True\<rparr>) g) = opens g - {m}" by (auto simp: opens_def put_mem_def)
  moreover have "m \<in> opens g" using assms by (simp add: opens_def)
  ultimately show ?thesis using opens_finite [OF assms(1)] card_Suc_Diff1 by metis
qed

text \<open>\<open>A\<close> is the handles' tags and flags, which never change here.\<close>

definition benign :: "(ref \<Rightarrow> (string \<times> bool) option) \<Rightarrow> nat \<Rightarrow> printer \<Rightarrow> bool" where
  "benign A n p \<longleftrightarrow>
     (\<forall>g. gc_ok g \<longrightarrow> attrs g = A \<longrightarrow> card (opens g) < n \<longrightarrow> (\<exists>s g'. p g = Inr (s, g') \<and> quiet g g'))"

lemma benignE:
  assumes "benign A n p" and "gc_ok g" and "attrs g = A" and "card (opens g) < n"
  obtains s g' where "p g = Inr (s, g')" "quiet g g'"
  using assms unfolding benign_def by blast

lemma quiet_attrs: "quiet g g' \<Longrightarrow> attrs g = A \<Longrightarrow> attrs g' = A"
  using later_attrs [OF quiet_later] by simp

lemma attrs_heaps: "attrs g = A \<Longrightarrow> A h \<noteq> None \<longleftrightarrow> heaps g h \<noteq> None"
  by (auto simp: attrs_def)

lemma benign_text [intro!]: "benign A n (text_out s)"
  by (auto simp: benign_def text_out_def quiet_refl)

lemma benign_handle [intro!]:
  assumes "A h \<noteq> None"
  shows "benign A n (tag_out h)" and "benign A n (dealloc_out h)"
  unfolding benign_def using attrs_heaps [of _ A h] assms
  by (fastforce simp: tag_out_def dealloc_out_def get_heap_def quiet_refl split: option.splits)+

lemma benign_memory [intro!]:
  assumes "A h \<noteq> None"
  shows "benign A n (mem_out fp h)" and "benign A n (color_out h)"
proof -
  have "\<exists>m g1 M. get_memory h g = Inr (m, g1) \<and> mems g1 m = Some M \<and> quiet g g1" if g: "gc_ok g" "attrs g = A" for g
  proof -
    obtain hp where "heaps g h = Some hp" using attrs_heaps [OF g(2)] assms by blast
    from get_memory_quiet [OF g(1) this] show ?thesis by metis
  qed
  then show "benign A n (mem_out fp h)" "benign A n (color_out h)"
    unfolding benign_def by (fastforce simp: mem_out_def color_out_def get_mem_def)+
qed

lemma benign_prints [intro!]: "(\<And>p. p \<in> set ps \<Longrightarrow> benign A n p) \<Longrightarrow> benign A n (prints ps)"
proof (induction ps)
  case Nil
  then show ?case by (simp add: benign_def quiet_refl)
next
  case (Cons p ps)
  show ?case
    unfolding benign_def
  proof (intro allI impI)
    fix g assume g: "gc_ok g" "attrs g = A" "card (opens g) < n"
    have p: "benign A n p" "benign A n (prints ps)" using Cons by simp_all
    obtain s g1 where 1: "p g = Inr (s, g1)" "quiet g g1" by (rule benignE [OF p(1) g])
    obtain t g2 where 2: "prints ps g1 = Inr (t, g2)" "quiet g1 g2"
      by (rule benignE [OF p(2) quiet_ok [OF 1(2)] quiet_attrs [OF 1(2) g(2)]]) (simp add: opens_quiet [OF 1(2)] g(3))
    show "\<exists>s g'. prints (p # ps) g = Inr (s, g') \<and> quiet g g'"
      using 1 2 quiet_trans by auto
  qed
qed

lemma benign_here [intro!]: "A h \<noteq> None \<Longrightarrow> benign A n (here fp h)"
  unfolding here_def by auto

declare prints.simps [simp del]

section \<open>The traversal leaves the heap alone\<close>

definition entry_benign :: "(ref \<Rightarrow> (string \<times> bool) option) \<Rightarrow> Info \<Rightarrow> bool" where
  "entry_benign A e \<longleftrightarrow> (ptr_is_ref e \<longrightarrow> (\<exists>r. i_ptr e = Handle r \<and> A r \<noteq> None))"

lemma entries_benign: "gc_ok g \<Longrightarrow> attrs g = A \<Longrightarrow> mems g m = Some M \<Longrightarrow> e \<in> set (infos M) \<Longrightarrow> entry_benign A e"
  using gc_okD(5) [of g m M] attrs_heaps [of g A] by (fastforce simp: memory_ok_def entry_ok_def entry_benign_def)

lemma get_memory_known:
  "mem_of g h = Some m \<Longrightarrow> get_memory h g = Inr (m, g)"
  by (auto simp: mem_of_def get_memory_def get_heap_def split: option.splits if_splits)

lemma print_entry_benign:
  assumes "\<And>n. benign A n prefix" and "A h \<noteq> None" and "entry_benign A e"
    and "\<And>q r. (\<And>n. benign A n q) \<Longrightarrow> A r \<noteq> None \<Longrightarrow> benign A n (pr q r)"
  shows "benign A n (print_entry fp fv pr prefix h i e)"
proof (cases "ptr_is_ref e")
  case False
  have "benign A n (prints [prefix, here fp h, text_out (at_index i @ fv (i_ptr e) @ eol)])" using assms(1,2) by auto
  with False show ?thesis by (simp add: print_entry_def [abs_def])
next
  case True
  then obtain r where r: "i_ptr e = Handle r" "A r \<noteq> None" using assms(3) by (auto simp: entry_benign_def)
  have "benign A n (pr (prints [prefix, here fp h, text_out (at_index i @ ''(ref '' @ fp r @ '', mem ''), mem_out fp r,
      text_out '') '']) r)"
    using assms(1,2) r(2) by (intro assms(4)) auto
  with True r(1) show ?thesis by (simp add: print_entry_def [abs_def] MANAGED_OBJECT_GET_HEAP_def)
qed

lemma color_entry_benign:
  assumes "\<And>n. benign A n prefix" and "A h \<noteq> None" and "entry_benign A e"
    and "\<And>q r. (\<And>n. benign A n q) \<Longrightarrow> A r \<noteq> None \<Longrightarrow> benign A n (pr q r)"
  shows "benign A n (color_entry fp fv pr prefix h i e)"
proof -
  let ?head = "[prefix, here fp h, text_out '' ['', color_out h, text_out ''] '', dealloc_out h]"
  have head: "benign A k (prints (?head @ [text_out t]))" for t k using assms(1,2) by auto
  show ?thesis
  proof (cases "ptr_is_ref e")
    case False
    with head show ?thesis by (simp add: color_entry_def [abs_def] Let_def)
  next
    case True
    then obtain r where r: "i_ptr e = Handle r" "A r \<noteq> None" using assms(3) by (auto simp: entry_benign_def)
    have "benign A n (pr (prints (?head @ [text_out (at_index i)])) r)" using head r(2) by (intro assms(4))
    with True r(1) show ?thesis by (simp add: color_entry_def [abs_def] MANAGED_OBJECT_GET_HEAP_def Let_def)
  qed
qed

lemma print_loop_quiet:
  assumes "\<And>i e. e \<in> set (infos M) \<Longrightarrow> benign A n (pe i e)"
  shows "gc_ok g \<Longrightarrow> attrs g = A \<Longrightarrow> card (opens g) < n \<Longrightarrow> mem_of g h = Some m \<Longrightarrow> mems g m = Some M \<Longrightarrow>
    i + k \<le> length (infos M) \<Longrightarrow> \<exists>s g'. print_loop pe h i k g = Inr (s, g') \<and> quiet g g'"
proof (induction k arbitrary: g i)
  case 0
  then show ?case by (simp add: quiet_refl)
next
  case (Suc k)
  have i: "i < length (infos M)" using Suc.prems(6) by simp
  then have "benign A n (pe i (infos M ! i))" by (intro assms) simp
  then obtain s g1 where 1: "pe i (infos M ! i) g = Inr (s, g1)" "quiet g g1" by (rule benignE [OF _ Suc.prems(1-3)])
  have c: "card (opens g1) < n" using Suc.prems(3) by (simp add: opens_quiet [OF 1(2)])
  have "i + Suc k \<le> length (infos M) \<Longrightarrow> Suc i + k \<le> length (infos M)" by simp
  from Suc.IH [OF quiet_ok [OF 1(2)] quiet_attrs [OF 1(2) Suc.prems(2)] c
      later_mem_of [OF quiet_later [OF 1(2)] Suc.prems(4)] quiet_mem [OF 1(2) Suc.prems(5)] this [OF Suc.prems(6)]]
  obtain t g2 where 2: "print_loop pe h (Suc i) k g1 = Inr (t, g2)" "quiet g1 g2" by blast
  have "print_loop pe h i (Suc k) g = Inr (s @ t, g2)"
    using 1(1) 2(1) i Suc.prems(5) by (simp add: get_memory_known [OF Suc.prems(4)] get_mem_def)
  with quiet_trans [OF 1(2) 2(2)] show ?case by blast
qed

lemma print_seen_quiet:
  assumes g: "gc_ok g" "attrs g = A" "card (opens g) < Suc n" and mo: "mem_of g h = Some m"
    and M: "mems g m = Some M" "infos M \<noteq> []" "\<not> seen M"
    and pe: "\<And>i e. entry_benign A e \<Longrightarrow> benign A n (pe i e)"
  shows "\<exists>s g'. print_seen pe h m (length (infos M)) g = Inr (s, g') \<and> quiet g g'"
proof -
  let ?M = "M\<lparr>seen := True\<rparr>" and ?g = "put_mem m (M\<lparr>seen := True\<rparr>) g"
  have "memory_ok g ?M" using gc_okD(5) [OF g(1) M(1)] by (simp add: memory_ok_def)
  then have ok: "gc_ok ?g" using gc_ok_put_mem [OF g(1)] M(1) by simp
  have at: "attrs ?g = A" using g(2) by (simp add: attrs_def put_mem_def fun_eq_iff)
  have c: "card (opens ?g) < n" using opens_enter [OF g(1) M] g(3) by simp
  have mo': "mem_of ?g h = Some m" using mo by (simp add: mem_of_def put_mem_def)
  have M': "mems ?g m = Some ?M" by (simp add: put_mem_def)
  have "benign A n (pe i e)" if "e \<in> set (infos ?M)" for i e
    using that entries_benign [OF g(1,2) M(1)] pe by simp
  from print_loop_quiet [where pe = pe, OF this ok at c mo' M', of 0 "length (infos M)"]
  obtain s g1 where 1: "print_loop pe h 0 (length (infos M)) ?g = Inr (s, g1)" "quiet ?g g1" by auto
  note b = quiet_bracket [OF g(1) M(1,3) 1(2)]
  have "M\<lparr>seen := False\<rparr> = M" using M(3) by (cases M) simp
  then have "print_seen pe h m (length (infos M)) g = Inr (s, put_mem m M g1)"
    using 1(1) b(1) M(1) by (simp add: print_seen_def get_mem_def)
  with b(2) show ?thesis by blast
qed

lemma print_from_benign: "(\<And>n. benign A n prefix) \<Longrightarrow> A h \<noteq> None \<Longrightarrow> benign A n (print_from fp fv n prefix h)"
proof (induction n arbitrary: prefix h)
  case 0
  then show ?case by (simp add: benign_def)
next
  case (Suc n)
  show ?case
    unfolding benign_def
  proof (intro allI impI)
    fix g assume g: "gc_ok g" "attrs g = A" "card (opens g) < Suc n"
    obtain hp where "heaps g h = Some hp" using attrs_heaps [OF g(2)] Suc.prems(2) by blast
    then obtain m g1 M where 1: "get_memory h g = Inr (m, g1)" "mems g1 m = Some M" "quiet g g1" "mem_of g1 h = Some m"
      by (rule get_memory_quiet [OF g(1)])
    note g1 = quiet_ok [OF 1(3)] quiet_attrs [OF 1(3) g(2)]
    have c1: "card (opens g1) < Suc n" using g(3) by (simp add: opens_quiet [OF 1(3)])
    obtain hp1 where hp1: "heaps g1 h = Some hp1" using attrs_heaps [OF g1(2)] Suc.prems(2) by blast
    have line: "\<exists>s g'. prints ps g1 = Inr (s, g') \<and> quiet g g'" if "\<And>p. p \<in> set ps \<Longrightarrow> benign A (Suc n) p" for ps
      using benignE [OF benign_prints [OF that] g1 c1] quiet_trans [OF 1(3)] by metis
    have pe: "benign A n (print_entry fp fv (print_from fp fv n) prefix h i e)" if "entry_benign A e" for i e
      by (rule print_entry_benign [OF Suc.prems that Suc.IH])
    have step: "print_from fp fv (Suc n) prefix h g =
       (if infos M = [] then prints [prefix, here fp h, text_out '' '', dealloc_out h, text_out (''[ZERO SIZE] ]'' @ eol)] g1
        else if seen M then prints [prefix, here fp h, text_out '' '', dealloc_out h, text_out (''[CYCLIC DETECTED] ]'' @ eol)] g1
        else if deallocated hp1 then prints [prefix, here fp h, text_out ('' [deallocated] ]'' @ eol)] g1
        else print_seen (print_entry fp fv (print_from fp fv n) prefix h) h m (length (infos M)) g1)"
      using 1 hp1 by (simp add: get_mem_def get_heap_def)
    show "\<exists>s g'. print_from fp fv (Suc n) prefix h g = Inr (s, g') \<and> quiet g g'"
    proof (cases "infos M = [] \<or> seen M \<or> deallocated hp1")
      case True
      have "\<exists>s g'. prints [prefix, here fp h, text_out t, dealloc_out h, text_out u] g1 = Inr (s, g') \<and> quiet g g'" for t u
        by (rule line) (use Suc.prems in auto)
      moreover have "\<exists>s g'. prints [prefix, here fp h, text_out t] g1 = Inr (s, g') \<and> quiet g g'" for t
        by (rule line) (use Suc.prems in auto)
      ultimately show ?thesis using True unfolding step by presburger
    next
      case False
      then have "infos M \<noteq> []" "\<not> seen M" by simp_all
      from print_seen_quiet [OF g1 c1 1(4,2) this, where pe = "print_entry fp fv (print_from fp fv n) prefix h", OF pe]
      obtain s g' where r: "print_seen (print_entry fp fv (print_from fp fv n) prefix h) h m (length (infos M)) g1 = Inr (s, g')"
        "quiet g1 g'" by blast
      with False show ?thesis unfolding step using quiet_trans [OF 1(3) r(2)] by simp
    qed
  qed
qed

lemma color_from_benign: "(\<And>n. benign A n prefix) \<Longrightarrow> A h \<noteq> None \<Longrightarrow> benign A n (color_from fp fv n prefix h)"
proof (induction n arbitrary: prefix h)
  case 0
  then show ?case by (simp add: benign_def)
next
  case (Suc n)
  let ?head = "[prefix, here fp h, text_out '' ['', color_out h, text_out ''] '']"
  show ?case
    unfolding benign_def
  proof (intro allI impI)
    fix g assume g: "gc_ok g" "attrs g = A" "card (opens g) < Suc n"
    obtain hp where "heaps g h = Some hp" using attrs_heaps [OF g(2)] Suc.prems(2) by blast
    then obtain m g1 M where 1: "get_memory h g = Inr (m, g1)" "mems g1 m = Some M" "quiet g g1" "mem_of g1 h = Some m"
      by (rule get_memory_quiet [OF g(1)])
    note g1 = quiet_ok [OF 1(3)] quiet_attrs [OF 1(3) g(2)]
    have c1: "card (opens g1) < Suc n" using g(3) by (simp add: opens_quiet [OF 1(3)])
    obtain hp1 where hp1: "heaps g1 h = Some hp1" using attrs_heaps [OF g1(2)] Suc.prems(2) by blast
    let ?pe = "color_entry fp fv (color_from fp fv n) prefix h"
    let ?d = "if deallocated hp1 then prints (?head @ [text_out (''[deallocated] ]'' @ eol)]) else text_out ''''"
    have step: "color_from fp fv (Suc n) prefix h g =
       (if infos M = [] then prints (?head @ [dealloc_out h, text_out (''[ZERO SIZE] ]'' @ eol)]) g1
        else if seen M then prints (?head @ [dealloc_out h, text_out (''[CYCLIC DETECTED] ]'' @ eol)]) g1
        else prints [?d, print_seen ?pe h m (length (infos M))] g1)"
      using 1 hp1 by (simp add: get_mem_def get_heap_def Let_def)
    have head: "benign A (Suc n) p" if "p \<in> set (?head @ [dealloc_out h, text_out t])" for p t
      using that Suc.prems by auto
    have line: "\<exists>s g'. prints (?head @ [dealloc_out h, text_out t]) g1 = Inr (s, g') \<and> quiet g g'" for t
    proof -
      have "benign A (Suc n) (prints (?head @ [dealloc_out h, text_out t]))" using head by (rule benign_prints)
      then obtain s g' where "prints (?head @ [dealloc_out h, text_out t]) g1 = Inr (s, g')" "quiet g1 g'"
        by (rule benignE [OF _ g1 c1])
      then show ?thesis using quiet_trans [OF 1(3)] by blast
    qed
    show "\<exists>s g'. color_from fp fv (Suc n) prefix h g = Inr (s, g') \<and> quiet g g'"
    proof (cases "infos M = [] \<or> seen M")
      case True
      with line show ?thesis unfolding step by presburger
    next
      case False
      then have M: "infos M \<noteq> []" "\<not> seen M" by simp_all
      have "benign A (Suc n) ?d" using Suc.prems by auto
      then obtain s g2 where 2: "?d g1 = Inr (s, g2)" "quiet g1 g2" by (rule benignE [OF _ g1 c1])
      note g2 = quiet_ok [OF 2(2)] quiet_attrs [OF 2(2) g1(2)]
      have c2: "card (opens g2) < Suc n" using c1 by (simp add: opens_quiet [OF 2(2)])
      have pe: "benign A n (?pe i e)" if "entry_benign A e" for i e
        by (rule color_entry_benign [OF Suc.prems that Suc.IH])
      from print_seen_quiet [OF g2 c2 later_mem_of [OF quiet_later [OF 2(2)] 1(4)] quiet_mem [OF 2(2) 1(2)] M, where pe = ?pe, OF pe]
      obtain t g' where r: "print_seen ?pe h m (length (infos M)) g2 = Inr (t, g')" "quiet g2 g'" by blast
      have "prints [?d, print_seen ?pe h m (length (infos M))] g1 = Inr (s @ t, g')"
        using 2(1) r(1) by (simp add: prints.simps)
      with M quiet_trans [OF 1(3) quiet_trans [OF 2(2) r(2)]] show ?thesis unfolding step by simp
    qed
  qed
qed

lemma idle_quiet: "idle g \<Longrightarrow> quiet g g' \<Longrightarrow> idle g'"
proof -
  assume id: "idle g" and q: "quiet g g'"
  have M: "color M = MANAGED_OBJECT_HEAP_COLOR_GRAY \<and> \<not> seen M" if "mems g' m = Some M" for m M
  proof (cases "mems g m")
    case None
    then show ?thesis using quiet_new [OF q None that] by (simp add: new_Memory_def)
  next
    case (Some X)
    then have "X = M" using quiet_mem [OF q Some] that by simp
    with id Some show ?thesis by (auto simp: idle_def all_gray_def coloured_def seen_in_def)
  qed
  have "root g' = root g" "inside_destructor g' = inside_destructor g" "flag g' = flag g"
    using later_frame [OF quiet_later [OF q]] later_flag [OF quiet_later [OF q]] by (simp_all add: frame_def)
  with id M quiet_ok [OF q] show ?thesis
    by (auto simp: idle_def all_gray_def coloured_def seen_in_def dead_def split: option.splits)
qed

text \<open>
  Printing.  \<open>print\<close> and \<open>color\<close> return on every graph of handles, cycles and shared memories
  included, and leave everything as it is, no memory marked as seen, apart from new, empty memories that
  unused handles get when they are asked for theirs.
\<close>

theorem print_quiet:
  assumes "idle g" and "heaps g h \<noteq> None"
  shows "(\<exists>s g'. print_heap fp fv h g = Inr (s, g') \<and> quiet g g' \<and> idle g') \<and>
    (\<exists>s g'. color_heap fp fv h g = Inr (s, g') \<and> quiet g g' \<and> idle g')"
proof -
  have ok: "gc_ok g" and c: "card (opens g) < Suc (next_ref g)"
    using opens_finite idle_gc_ok [OF assms(1)] by (auto simp: less_Suc_eq_le)
  have h: "attrs g h \<noteq> None" using assms(2) by (simp add: attrs_def)
  show ?thesis
    unfolding print_heap_def color_heap_def
    using benignE [OF print_from_benign [of "attrs g", OF benign_text h] ok refl c]
      benignE [OF color_from_benign [of "attrs g", OF benign_text h] ok refl c] idle_quiet [OF assms(1)] by metis
qed

theorem print_quiet_witness:
  "(\<exists>s g'. print_heap show_nat (\<lambda>p. ''value'') 0 (sample_heap True) = Inr (s, g') \<and> quiet (sample_heap True) g' \<and> idle g') \<and>
    (\<exists>s g'. color_heap show_nat (\<lambda>p. ''value'') 0 (sample_heap True) = Inr (s, g') \<and> quiet (sample_heap True) g' \<and> idle g')"
  by (rule print_quiet [OF sample_idle]) (simp add: sample_heap_def)

lemma print_cycle:
  "case print_heap show_nat (\<lambda>p. ''value'') 6 (sample_heap True) of Inl f \<Rightarrow> False | Inr (s, g) \<Rightarrow>
     s = ''[(ref 6, mem 7), object] memory[0] = (ref 1, mem 3) [(ref 1, mem 3), object] memory[0] = value'' @ eol @
       ''[(ref 6, mem 7), object] memory[0] = (ref 1, mem 3) [(ref 1, mem 3), object] memory[1] = '' @
       ''(ref 6, mem 7) [(ref 6, mem 7), object [CYCLIC DETECTED] ]'' @ eol"
  by code_simp

end
