(* ===== verification/ObjDependent.thy ===== *)
theory ObjDependent
  imports ObjScan
begin

text \<open>
  The dependent of a bucket object, which the pool for weak buckets is told about
  (\<open>managed_obj_metadata_buckets_find_dependent\<close> in \<open>include/managed_object_obj_metadata.h\<close>): the scanner writes
  to the object it scans and to this one only.
\<close>

definition managed_obj_metadata_buckets_find_dependent :: "heap \<Rightarrow> addr \<Rightarrow> fault + addr" where
  "managed_obj_metadata_buckets_find_dependent h a =
     andthen (obj_at h a) (\<lambda>obj.
       if otype obj = MANAGED_OBJECT_TYPE_METADATA_HASH_TABLE_BUCKET then word_at obj 0 else Inr 0)"

text \<open>Only \<open>a\<close> and \<open>d\<close> change, and the first word of \<open>a\<close>, its dependent, does not.\<close>

definition writes :: "addr \<Rightarrow> addr \<Rightarrow> heap \<Rightarrow> heap \<Rightarrow> bool" where
  "writes a d h h' \<longleftrightarrow> (\<forall>x. x \<noteq> a \<longrightarrow> x \<noteq> d \<longrightarrow> h' x = h x) \<and> field_at h' a 0 = field_at h a 0"

lemma writes_refl [simp]: "writes a d h h"
  by (simp add: writes_def)

lemma writes_trans: "writes a d h h1 \<Longrightarrow> writes a d h1 h2 \<Longrightarrow> writes a d h h2"
  by (simp add: writes_def)

lemma writes_field: "writes a d h h' \<Longrightarrow> field_at h a 0 = Inr d \<Longrightarrow> field_at h' a 0 = Inr d"
  by (simp add: writes_def)

lemma set_fieldE:
  assumes "set_field h b n w = Inr h'"
  obtains obj where "h b = Some obj" "n < length (owords obj)" "h' = h(b \<mapsto> obj\<lparr>owords := (owords obj)[n := w]\<rparr>)"
  using assms that by (auto simp: set_field_def obj_at_def set_word_def ebind split: option.splits if_splits)

lemma set_field_writes:
  assumes "set_field h b n w = Inr h'" and "b = a \<or> b = d" and "0 < n"
  shows "writes a d h h'"
proof -
  from assms(1) obtain obj where obj: "h b = Some obj" "n < length (owords obj)"
    "h' = h(b \<mapsto> obj\<lparr>owords := (owords obj)[n := w]\<rparr>)" by (rule set_fieldE)
  then have "field_at h' a 0 = field_at h a 0"
    using assms(3) by (cases "a = b") (simp_all add: field_at_def obj_at_def word_at_def)
  with obj assms(2) show ?thesis by (auto simp: writes_def)
qed

lemma bump_deleted_writes: "bump_deleted h b = Inr h' \<Longrightarrow> b = a \<or> b = d \<Longrightarrow> writes a d h h'"
  by (auto simp: bump_deleted_def ebind intro: set_field_writes)

lemma splat_writes:
  assumes "splat h a i del = Inr h'" and d: "field_at h a 0 = Inr d"
  shows "writes a d h h'"
proof -
  from assms(1) obtain h1 d' where h1: "bump_deleted h a = Inr h1" and d': "field_at h1 a 0 = Inr d'"
    and rest: "(if d' \<noteq> 0 then andthen (set_field h1 d' (4 + i) del) (\<lambda>h2. bump_deleted h2 d') else Inr h1) = Inr h'"
    by (auto simp: splat_def ebind)
  have w1: "writes a d h h1" using bump_deleted_writes [OF h1] by simp
  with d d' have "d' = d" by (simp add: writes_def)
  have "writes a d h1 h'"
  proof (cases "d = 0")
    case False
    with rest \<open>d' = d\<close> obtain h2 where "set_field h1 d (4 + i) del = Inr h2" "bump_deleted h2 d = Inr h'"
      by (auto simp: ebind)
    then have "writes a d h1 h2" "writes a d h2 h'" by (auto intro: set_field_writes bump_deleted_writes)
    then show ?thesis by (rule writes_trans)
  qed (use rest \<open>d' = d\<close> in simp)
  with w1 show ?thesis by (rule writes_trans)
qed

lemma scan_buckets_loop_writes:
  "scan_buckets_loop fx del a n i s h = Inr (res, s', h') \<Longrightarrow> field_at h a 0 = Inr d \<Longrightarrow> writes a d h h'"
proof (induction fx del a n i s h arbitrary: s' h' rule: scan_buckets_loop.induct)
  case (2 fx del a n i s h)
  from 2(3) obtain p where p: "field_at h a (4 + i) = Inr p" by (auto simp: ebind)
  obtain b s1 where f1: "fix1 fx s p = (b, s1)" by (metis surj_pair)
  show ?case
  proof (cases b)
    case False
    with 2(3) p f1 have "scan_buckets_loop fx del a n (Suc i) s1 h = Inr (res, s', h')" by simp
    with 2(1) [OF p f1 [symmetric]] False 2(4) show ?thesis by simp
  next
    case True
    obtain r s2 p1 where f2: "fix2 fx s1 p = (r, s2, p1)" by (metis prod_cases3)
    show ?thesis
    proof (cases "r = 0")
      case False
      with 2(3) p f1 f2 True show ?thesis by simp
    next
      case r: True
      let ?p2 = "if p1 = 0 then del else p1"
      from 2(3) p f1 f2 True r obtain h1 cur h2 where
        h1: "(if p1 = 0 then splat h a i del else Inr h) = Inr h1"
        and cur: "field_at h1 a (4 + i) = Inr cur"
        and h2: "(if cur \<noteq> ?p2 then set_field h1 a (4 + i) ?p2 else Inr h1) = Inr h2"
        and rec: "scan_buckets_loop fx del a n (Suc i) s2 h2 = Inr (res, s', h')"
        by (auto simp: ebind Let_def)
      have "writes a d h h1" using h1 2(4) by (auto split: if_splits intro: splat_writes)
      moreover have "writes a d h1 h2" using h2 by (auto split: if_splits intro: set_field_writes)
      ultimately have w: "writes a d h h2" by (rule writes_trans)
      have "writes a d h2 h'"
        using 2(2) [OF p f1 [symmetric] _ f2 [symmetric] refl _ h1 refl cur h2 rec writes_field [OF w 2(4)]] True r by simp
      with w show ?thesis by (rule writes_trans)
    qed
  qed
qed simp

lemma fix_cases:
  assumes "MANAGED_OBJECT_FIX fx s h a n = Inr (res, s', h')"
  shows "\<exists>p. field_at h a n = Inr p \<and> (h' = h \<or> (\<exists>p'. set_field h a n p' = Inr h'))"
proof -
  from assms obtain p where p: "field_at h a n = Inr p" by (auto simp: MANAGED_OBJECT_FIX_def ebind)
  obtain r s1 p' where f: "MPS_FIX12 fx s p = (r, s1, p')" by (metis prod_cases3)
  show ?thesis using assms p f by (auto simp: MANAGED_OBJECT_FIX_def ebind split: if_splits)
qed

lemma fix_writes: "MANAGED_OBJECT_FIX fx s h a n = Inr (res, s', h') \<Longrightarrow> x \<noteq> a \<Longrightarrow> h' x = h x"
  using fix_cases [of fx s h a n res s' h'] by (auto elim: set_fieldE)

lemma fix_dependent_writes:
  assumes "fix_dependent fx a s h = Inr (res, s', h')"
  shows "x \<noteq> a \<Longrightarrow> h' x = h x" and "\<exists>d. field_at h' a 0 = Inr d"
proof -
  from assms obtain d where d: "field_at h a 0 = Inr d" by (auto simp: fix_dependent_def ebind)
  have "(\<forall>x. x \<noteq> a \<longrightarrow> h' x = h x) \<and> (\<exists>d. field_at h' a 0 = Inr d)"
  proof (cases "d = 0")
    case True
    with assms d show ?thesis by (simp add: fix_dependent_def)
  next
    case False
    with assms d obtain r s1 where f: "MANAGED_OBJECT_FIX fx s h a 0 = Inr (r, s1, h')"
      by (auto simp: fix_dependent_def ebind split: if_splits)
    from fix_cases [OF f] consider "h' = h" | p where "set_field h a 0 p = Inr h'" by blast
    then have "\<exists>d. field_at h' a 0 = Inr d"
      by cases (use d in \<open>auto elim!: set_fieldE simp: field_at_def obj_at_def word_at_def\<close>)
    with fix_writes [OF f] show ?thesis by blast
  qed
  then show "x \<noteq> a \<Longrightarrow> h' x = h x" "\<exists>d. field_at h' a 0 = Inr d" by blast+
qed

lemma scan_buckets_writes:
  assumes "scan_buckets fx del a s h = Inr (res, s', h')"
  shows "\<exists>d. field_at h' a 0 = Inr d \<and> (\<forall>x. x \<noteq> a \<longrightarrow> x \<noteq> d \<longrightarrow> h' x = h x)"
proof -
  from assms obtain len r s1 h1 where len: "field_at h a 1 = Inr len" and f: "fix_dependent fx a s h = Inr (r, s1, h1)"
    and rest: "(if r \<noteq> 0 then Inr (r, s1, h1)
       else scan_buckets_loop fx del a (unat (MANAGED_OBJECT_METADATA_UNTAG_COUNT len)) 0 s1 h1) = Inr (res, s', h')"
    by (auto simp: scan_buckets_def ebind)
  have out: "h1 x = h x" if "x \<noteq> a" for x using fix_dependent_writes(1) [OF f that] .
  obtain d where d: "field_at h1 a 0 = Inr d" using fix_dependent_writes(2) [OF f] by blast
  have "writes a d h1 h'"
    using rest scan_buckets_loop_writes [OF _ d] by (auto split: if_splits)
  with out writes_field [OF this d] show ?thesis unfolding writes_def by metis
qed

text \<open>
  C27: The contract of a pool with dependent objects.  Whatever the MPS makes of the references, the
  scanner writes to no object but the one it scans and, if that has buckets, the dependent that
  \<open>find_dependent\<close> gives for it after the scan.
\<close>

theorem scan_writes_dependent_only:
  assumes "scan_object fx del ld a s h = Inr (res, s', h', next)"
  shows "\<exists>d. managed_obj_metadata_buckets_find_dependent h' a = Inr d \<and> (\<forall>x. x \<noteq> a \<longrightarrow> x \<noteq> d \<longrightarrow> h' x = h x)"
proof -
  from assms obtain obj where obj: "h a = Some obj"
    by (auto simp: scan_object_def obj_at_def ebind split: option.splits)
  have "map_option otype (h' a) = map_option otype (h a)"
    using scan_object_layout [OF assms] unfolding same_layout_def by blast
  then obtain obj' where obj': "h' a = Some obj'" "otype obj' = otype obj" using obj by auto
  show ?thesis
  proof (cases "otype obj = MANAGED_OBJECT_TYPE_METADATA_HASH_TABLE_BUCKET")
    case True
    with assms obj obtain s1 where "scan_buckets fx del a s h = Inr (res, s1, h')"
      by (auto simp: scan_object_def obj_at_def ebind)
    from scan_buckets_writes [OF this] True obj' show ?thesis
      by (simp add: managed_obj_metadata_buckets_find_dependent_def field_at_def obj_at_def)
  next
    case False
    have "h' x = h x" if "x \<noteq> a" for x
    proof (cases "otype obj = MANAGED_OBJECT_TYPE_METADATA_HASH_TABLE")
      case True
      with assms obj obtain r s1 h1 where f: "MANAGED_OBJECT_FIX fx s h a (keys_field ld) = Inr (r, s1, h1)"
        and rest: "h' = h1 \<or> (\<exists>r2 s2. MANAGED_OBJECT_FIX fx s1 h1 a (values_field ld) = Inr (r2, s2, h'))"
        by (auto simp: scan_object_def obj_at_def ebind split: if_splits)
      from rest fix_writes [OF f that] show ?thesis by (auto dest: fix_writes [OF _ that])
    next
      case no_table: False
      with assms obj False show ?thesis
        by (cases "otype obj") (auto simp: scan_object_def obj_at_def ebind case_prod_unfold)
    qed
    with False obj' show ?thesis
      by (simp add: managed_obj_metadata_buckets_find_dependent_def obj_at_def)
  qed
qed

text \<open>The weak buckets of \<open>weak_heap\<close>: a reference dies, and the dependent at 128 changes with the object at 64.\<close>

theorem scan_writes_dependent_only_witness:
  "\<exists>h'. scan_object weak_fix 8 0 64 () weak_heap = Inr (0, (), h', 120) \<and>
     (\<exists>d. managed_obj_metadata_buckets_find_dependent h' 64 = Inr d \<and> (\<forall>x. x \<noteq> 64 \<longrightarrow> x \<noteq> d \<longrightarrow> h' x = weak_heap x))"
proof -
  have "case scan_object weak_fix 8 0 64 () weak_heap of Inl f \<Rightarrow> False | Inr (r, u, h', next) \<Rightarrow> r = 0 \<and> next = 120"
    by code_simp
  then obtain h' where "scan_object weak_fix 8 0 64 () weak_heap = Inr (0, (), h', 120)"
    by (auto split: sum.splits)
  with scan_writes_dependent_only [OF this] show ?thesis by blast
qed

end
