(* ===== verification/Bits.thy ===== *)
theory Bits
  imports Prelude
begin

text \<open>
  The bit macros of \<open>include/managed_object_bits.h\<close>, on words of any width.  The two macros that
  assign give the new value of their first argument.
\<close>

unbundle bit_operations_syntax

definition MANAGED_OBJECT_BITS_BIT :: "nat \<Rightarrow> 'a::len word" where
  "MANAGED_OBJECT_BITS_BIT n = push_bit (n - 1) 1"

definition MANAGED_OBJECT_BITS_BIT_ALL :: "'a::len word" where
  "MANAGED_OBJECT_BITS_BIT_ALL = 0xFF"

definition MANAGED_OBJECT_BITS_WITH_BIT :: "'a::len word \<Rightarrow> 'a word \<Rightarrow> 'a word" where
  "MANAGED_OBJECT_BITS_WITH_BIT bits b = bits OR b"

definition MANAGED_OBJECT_BITS_WITHOUT_BIT :: "'a::len word \<Rightarrow> 'a word \<Rightarrow> 'a word" where
  "MANAGED_OBJECT_BITS_WITHOUT_BIT bits b = bits AND NOT b"

definition MANAGED_OBJECT_BITS_SET_BIT :: "'a::len word \<Rightarrow> 'a word \<Rightarrow> 'a word" where
  "MANAGED_OBJECT_BITS_SET_BIT bits b = MANAGED_OBJECT_BITS_WITH_BIT bits b"

definition MANAGED_OBJECT_BITS_CLEAR_BIT :: "'a::len word \<Rightarrow> 'a word \<Rightarrow> 'a word" where
  "MANAGED_OBJECT_BITS_CLEAR_BIT bits b = MANAGED_OBJECT_BITS_WITHOUT_BIT bits b"

definition MANAGED_OBJECT_BITS_HAS_BIT :: "'a::len word \<Rightarrow> 'a word \<Rightarrow> bool" where
  "MANAGED_OBJECT_BITS_HAS_BIT bits b \<longleftrightarrow> bits AND b = b"

lemmas bits_defs = MANAGED_OBJECT_BITS_WITH_BIT_def MANAGED_OBJECT_BITS_WITHOUT_BIT_def
  MANAGED_OBJECT_BITS_SET_BIT_def MANAGED_OBJECT_BITS_CLEAR_BIT_def MANAGED_OBJECT_BITS_HAS_BIT_def

text \<open>Having bits means having every one of them; setting and clearing leave the others alone.\<close>

lemma has_bit_iff:
  "MANAGED_OBJECT_BITS_HAS_BIT bits b \<longleftrightarrow> (\<forall>n. bit b n \<longrightarrow> bit bits n)"
  by (auto simp: bits_defs bit_eq_iff bit_and_iff dest: bit_imp_le_length)

lemma set_has_bit: "MANAGED_OBJECT_BITS_HAS_BIT (MANAGED_OBJECT_BITS_SET_BIT bits b) b"
  by (simp add: has_bit_iff bits_defs bit_or_iff)

lemma set_other_bits:
  "b AND c = 0 \<Longrightarrow> MANAGED_OBJECT_BITS_HAS_BIT (MANAGED_OBJECT_BITS_SET_BIT bits b) c \<longleftrightarrow> MANAGED_OBJECT_BITS_HAS_BIT bits c"
  by (auto simp: has_bit_iff bits_defs bit_or_iff bit_eq_iff [of "b AND c"] bit_and_iff dest: bit_imp_le_length)

lemma clear_other_bits:
  "b AND c = 0 \<Longrightarrow> MANAGED_OBJECT_BITS_HAS_BIT (MANAGED_OBJECT_BITS_CLEAR_BIT bits b) c \<longleftrightarrow> MANAGED_OBJECT_BITS_HAS_BIT bits c"
  by (auto simp: has_bit_iff bits_defs bit_and_iff bit_not_iff_eq possible_bit_word bit_eq_iff [of "b AND c"] dest: bit_imp_le_length)

lemma clear_has_no_bit: "b \<noteq> 0 \<Longrightarrow> \<not> MANAGED_OBJECT_BITS_HAS_BIT (MANAGED_OBJECT_BITS_CLEAR_BIT bits b) b"
  by (auto simp: has_bit_iff bits_defs bit_and_iff bit_not_iff_eq bit_eq_iff)

lemma bits_distinct:
  assumes "0 < i" and "0 < j" and "i \<noteq> j"
  shows "MANAGED_OBJECT_BITS_BIT i AND MANAGED_OBJECT_BITS_BIT j = (0 :: 'a::len word)"
proof (rule bit_word_eqI)
  fix n assume "n < LENGTH('a)"
  show "bit (MANAGED_OBJECT_BITS_BIT i AND MANAGED_OBJECT_BITS_BIT j :: 'a word) n \<longleftrightarrow> bit (0 :: 'a word) n"
    using assms by (auto simp: MANAGED_OBJECT_BITS_BIT_def bit_and_iff push_bit_eq_mult bit_exp_iff)
qed

end
