(* ===== verification/Spec2Isabelle.thy ===== *)
theory Spec2Isabelle
  imports HashmapStats HashmapKeys ObjScan ObjMemory ObjBooks Lifecycle MetaWeak MetaIntern PageList GcPrint ObjDependent Bits
begin

text \<open>
  Verification development for the ManagedObject library: objects in the heap of the Memory
  Pool System (MPS), with finalization, hash tables that survive moving collections, a general
  hashmap, a page list, and the older mark and sweep heap in C++.

  1. The program and the theories

  The hashmap (\<open>src/src/managed_object_hashmap.c\<close>, with the declarations and macros of
  \<open>include/managed_object_hashmap_base.h\<close> and \<open>include/managed_object_hashmap.h\<close>).  A record
  \<open>managed_object_hashmap_base\<close> has the fields of the struct; a pointer to an entry is its slot.
    HashFuns: the Jenkins hashes and the string hash of the metadata subsystem.
    Hashmap: the data and every operation, with the names of the code.
    Probing, TableOps: linear probing, the locale \<open>key_ops\<close> of the laws of the callbacks, and what
      the loops of insertion, rehashing and backward-shift removal do to a table.
    HashmapInv, HashmapPut, HashmapRemove, HashmapLife, HashmapIter: the invariant \<open>hm_inv\<close>, the map
      \<open>hm_map\<close> a hashmap stands for, and the effect of each operation on every branch.
    HashmapReach: all operations as a step relation; the invariant and the absence of faults in
      every reachable state.
    KvTable, StringMap: the contract \<open>kv_table\<close> of a lookup table and the instance with the
      library's callbacks for C strings.
    HashmapSample: a concrete map and the witnesses.
    HashmapForeach: the safe foreach loop, whose body removes entries.
    HashmapKeys: the foreach loops over the keys or the data alone visit the same entries.
    HashmapStats: the collision statistics; a key's collisions are the distance from its home slot,
      their sum does not overflow, and mean and variance are those of the stored keys.  The
      arithmetic of \<open>double\<close> is an argument.

  The object format (\<open>include/managed_object_obj.h\<close>, \<open>src/src/managed_object_obj.c\<close>).
    ObjFormat: the layout of the objects as words, alignment, and skip, isfwd, fwd and pad.
    ObjScan: the scanner, with the weak references of the hash tables' buckets.
    ObjDependent: the scanner writes to the object it scans and its dependent only.

  The client state (\<open>src/src/managed_object_obj.c\<close>).
    ObjState: accounting, allocation by reserve and commit, pinning, clock stamps, and the
      finalization messages.
    ObjChat: what the message loop does over a queue, and what allocation gives.
    ObjMemory: the values that objects own, in blocks of \<open>malloc\<close>, from \<open>managed_obj_new\<close> to the
      finalization callback that deletes them: none is freed twice, none is forgotten.
    Lifecycle: init and deinit as sequences of creations and destructions of MPS resources, with
      the global metadata state behind all other states, and the order they have to obey.

  The metadata hash table (\<open>include/managed_object_obj_metadata.h\<close>).
    MetaTable: bucket and table objects, find, ref, set, delete, rehash.
    MetaProbe, MetaInv, MetaRehash, MetaOps: double hashing, the locale \<open>table_keys\<close> of the laws of
      the keys, the invariant \<open>table_ok\<close> and the map \<open>table_map\<close>, and each operation against them.
    MetaStrings: the two kinds of keys, addresses and strings, and interning.
    MetaCorrect, MetaMove, MetaIntern: the guarantees for both kinds of keys, before and after a
      collection has moved the keys.
    MetaWeak: the composition with the scanner: a weak scan leaves a correct table, without the
      entries whose keys died.
    ObjBooks: the books of a state that all objects share, those of the metadata included: what was
      allocated, what was freed, and what is still registered for finalization.

  The page list (\<open>include/managed_object_pagelist.h\<close>): PageList.

  The mark and sweep heap in C++ (\<open>src/src/managed_object_heap.cpp\<close>, \<open>src/src/managed_object.cpp\<close>
  and their headers).  The state \<open>gc\<close> has the handles (\<open>ManagedObjectHeap\<close>) and the memories by
  address, and a ghost list of what the destructors did.
    GcValue: the arithmetic values of C++ as bits, their conversion to \<open>uintptr_t\<close>, which cuts a
      floating value off behind the point, and reading the stored word as a type again.
    GcHeap: the data; storing, marking, sweeping, destructors, collection, deallocation.
    GcObject: the operations of \<open>ManagedObject\<close>.
    GcInv: the graph of handles and the invariant \<open>gc_ok\<close>.
    GcMark: marking returns on every graph and colours exactly what is in reach.
    MarkOrder: the order in which marking visits the handles; a memory that several handles share
      has the colour of the first of them.
    GcSweep, GcCollect, GcDestroy: what the sweep makes of a marked graph, what it queues, and what
      the queued destructors do.
    GcCorrect, GcProgram: \<open>collectable\<close>, the states in which a collection is right, and the
      collection against it: the dead handles in reach go, everything else stays.
    GcClient, GcSteps: the outcome of every operation of a client, and all of them as a step
      relation whose guards are the client's side of the contract.
    GcStore: reading back the words that were pushed.
    GcSample: the properties of single operations, typed values that are pushed and read among
      them, uses that go wrong, a concrete heap and the witnesses.
    GcPrint: printing the graph ends, cycles included, and leaves the heap alone.

  The bit macros (\<open>include/managed_object_bits.h\<close>): Bits.

  The page list and the memory of an object both give each value an index of their own choice.
  IndexedStore states this contract as a locale and proves what follows for a sequence of values.

  The components meet as in the code: MetaTable allocates with the reserve and commit loop of
  ObjState; the callbacks that the message loop of ObjState calls act on the extended state of
  ObjMemory; the bucket objects of the tables are the ones that ObjScan scans, and MetaWeak relates
  the two views; Lifecycle creates the markers for unused and deleted buckets that MetaTable compares
  with.

  2. Conventions

  Machine integers are words of their width (\<open>size_t\<close>, \<open>unsigned long\<close> and pointers have 64 bits);
  sums wrap as in C, and an operation that C leaves undefined is the fault
  \<open>Undefined_behaviour\<close>.  A function that can fail to return has the type \<open>fault + 'a\<close>: a failed
  assertion, a call of the error handler, undefined behaviour, or a loop that never ends.
  Callbacks are functions; those that return nothing leave an event in a ghost field.  Out of
  memory is an argument of the operations that allocate.
  Where the text of the C standard asks for more than its implementations do, the model says which
  it follows: \<open>memset\<close> of no bytes at a null pointer does nothing (clearing a map without a table);
  the bytes of an object may be read through another type, lowest byte first (\<open>get_value_at\<close>).  A
  slot beyond the table is undefined behaviour when it is read, and an empty area of user memory,
  which is no area the MPS takes as a root, is undefined behaviour of the initialization.

  Loops and their bounds.  The loops of the hashmap recurse on the number of slots that are left,
  which the code bounds by the table size.  The search of the metadata table has as many turns
  as there are buckets, after which the code is back at its first bucket and returns; this is the
  exact bound and no approximation.  Rounding a length up to a power of two ends within 64 turns or
  never, because the counter wraps to 0 above \<open>2 ^ 63\<close>: then the model gives \<open>Diverges\<close>.  The nested
  initialization has depth two, a user state and the global state.  Marking, sweeping and
  printing recurse along references, at most once for each memory: the depth bound that their callers
  pass is one more than the number of addresses given so far, and GcMark, GcSweep and GcPrint show
  that it is never reached in a state with the invariant.  The retries of reserve and
  commit recurse on the list of the MPS's answers; if the list ends without a commit, the loop
  does not end.

  3. What is assumed

  The MPS is not part of the repository.  Its answers (addresses, results, messages, fixed
  references, stale location dependencies) are arguments of the definitions, and the
  hypotheses on them are documented behaviour of the MPS: an address that a dependency
  was told of is either not moved or reported stale, a scan keeps or clears a weak reference, and
  the pool of the bucket objects (AWL) does not move its objects.  A collection may condemn the
  buckets as well; MetaWeak asks that the two bucket objects live, because their table, which
  refers to both, lives.
  The operations of a metadata table are taken one after the other with collections between them:
  \<open>mps_reserve\<close>, which allocates the buckets when a table is made or grows, may itself run a
  collection, and the model has none in the middle of an operation.
  The laws of the hashmap's callbacks (\<open>key_ops\<close>: comparison is an equivalence and equal keys have
  equal hashes) are those the header asks of the client; StringMap proves them for
  the library's own callbacks.
  The statements on deinitialization take finalization callbacks that leave the objects and their
  counters alone, and messages for objects that are there (\<open>quiet_messages\<close>).
  Storing in a page list asks that its type is trivially copyable or that none of its slots was given
  free before (\<open>storable\<close>): the list destroys a value that its array still owns, and assigning to
  what is left of it is undefined behaviour.

  In the C++ heap, \<open>new\<close> succeeds and gives an address that was never given before, and the
  destructors of clients do not call the heap.  The guard \<open>collectable\<close> of a collection asks that a
  dead handle in reach refers to dead ones only, is on no cycle, has one reference, shares
  its memory with dead handles in reach only, and that each of its values has a destructor.  The tenth
  deallocation collects, so that it has the same guard.  GcSample shows what happens otherwise: to a
  copy of a dead object, to a live object below a dead one, to a dead object with two parents and on a
  dead cycle that is still in reach.

  4. What is not modelled

  The typed macros of the hashmap that are one call with casts.
  The choice between weak and strong allocation points for the buckets of a metadata table, and the
  links of keys and values to each other as dependent objects: the table model has the words of
  both objects, and the dependent is part of the heap in ObjScan and MetaWeak.
  The messages and times that a collection prints, the statistics of a state, the description of
  the arena and its counters, because they are output only.
  The field \<open>parent\<close> of \<open>ManagedObject\<close>, which nothing reads.
  The MPS itself and the test programs.
\<close>

end
